(* ===== verification/Prelude.thy ===== *)
theory Prelude
  imports Main "HOL-Library.Word"
begin

text \<open>
  Shared vocabulary of the development.

  \<^item> \<open>result\<close> is Rust's \<open>Result\<close> together with a third outcome \<open>Panic\<close>: an
    \<open>unwrap\<close> of a missing value, an index out of bounds, an arithmetic overflow (the workspace
    builds with \<open>overflow-checks = true\<close>), or a raw-pointer access outside its allocation.
    A theorem that excludes \<open>Panic\<close> therefore excludes all of these.
  \<^item> \<open>and_then\<close> is the \<open>?\<close> operator, \<open>map_err\<close> the \<open>From\<close> conversion it applies.
  \<^item> An operation on \<open>&mut self\<close> returns the new state inside \<open>Ok\<close>; an error or a panic aborts
    the Solana instruction, whose writes the runtime discards.
  \<^item> Machine integers are \<open>nat\<close> with the bound of their width written out in the
    \<open>u64\<close> operations below.
\<close>

named_theorems res_simps \<open>equations and inversion rules of the result type\<close>
named_theorems inv_defs \<open>definitions of representation invariants\<close>


section \<open>Results\<close>

datatype ('e, 'a) result = Ok 'a | Err 'e | Panic

fun and_then :: "('e, 'a) result \<Rightarrow> ('a \<Rightarrow> ('e, 'b) result) \<Rightarrow> ('e, 'b) result" where
  "and_then (Ok x) f = f x"
| "and_then (Err e) f = Err e"
| "and_then Panic f = Panic"

fun map_err :: "('e \<Rightarrow> 'f) \<Rightarrow> ('e, 'a) result \<Rightarrow> ('f, 'a) result" where
  "map_err g (Ok x) = Ok x"
| "map_err g (Err e) = Err (g e)"
| "map_err g Panic = Panic"

fun ok_or :: "'a option \<Rightarrow> 'e \<Rightarrow> ('e, 'a) result" where
  "ok_or (Some x) e = Ok x"
| "ok_or None e = Err e"

fun unwrap_or_panic :: "'a option \<Rightarrow> ('e, 'a) result" where
  "unwrap_or_panic (Some x) = Ok x"
| "unwrap_or_panic None = Panic"

fun unwrap :: "('f, 'a) result \<Rightarrow> ('e, 'a) result" where
  "unwrap (Ok x) = Ok x"
| "unwrap (Err e) = Panic"
| "unwrap Panic = Panic"

fun is_ok :: "('e, 'a) result \<Rightarrow> bool" where
  "is_ok (Ok x) = True"
| "is_ok (Err e) = False"
| "is_ok Panic = False"

lemma and_then_cong [fundef_cong]:
  "m = m' \<Longrightarrow> (\<And>x. m' = Ok x \<Longrightarrow> f x = g x) \<Longrightarrow> and_then m f = and_then m' g"
  by (cases m') auto

lemma and_then_eq_Ok [res_simps]:
  "and_then m f = Ok y \<longleftrightarrow> (\<exists>x. m = Ok x \<and> f x = Ok y)"
  by (cases m) auto

lemma and_then_OkE:
  assumes "and_then m f = Ok y"
  obtains x where "m = Ok x" "f x = Ok y"
  using assms by (cases m) auto

lemma and_then_eq_Err [res_simps]:
  "and_then m f = Err e \<longleftrightarrow> m = Err e \<or> (\<exists>x. m = Ok x \<and> f x = Err e)"
  by (cases m) auto

lemma and_then_eq_Panic [res_simps]:
  "and_then m f = Panic \<longleftrightarrow> m = Panic \<or> (\<exists>x. m = Ok x \<and> f x = Panic)"
  by (cases m) auto

lemma and_then_assoc: "and_then (and_then m f) g = and_then m (\<lambda>x. and_then (f x) g)"
  by (cases m) auto

lemma and_then_Ok [simp]: "and_then m Ok = m"
  by (cases m) auto

lemma map_err_eq_Ok [simp, res_simps]: "map_err g m = Ok y \<longleftrightarrow> m = Ok y"
  by (cases m) auto

lemma map_err_eq_Panic [simp, res_simps]: "map_err g m = Panic \<longleftrightarrow> m = Panic"
  by (cases m) auto

lemma map_err_eq_Err [res_simps]: "map_err g m = Err e \<longleftrightarrow> (\<exists>d. m = Err d \<and> e = g d)"
  by (cases m) auto

lemma ok_or_eq_Ok [simp, res_simps]: "ok_or m e = Ok y \<longleftrightarrow> m = Some y"
  by (cases m) auto

lemma ok_or_eq_Err [simp, res_simps]: "ok_or m e = Err d \<longleftrightarrow> m = None \<and> d = e"
  by (cases m) auto

lemma ok_or_neq_Panic [simp]: "ok_or m e \<noteq> Panic"
  by (cases m) auto

lemma unwrap_or_panic_eq_Ok [simp, res_simps]: "unwrap_or_panic m = Ok y \<longleftrightarrow> m = Some y"
  by (cases m) auto

lemma unwrap_or_panic_neq_Err [simp]: "unwrap_or_panic m \<noteq> Err e"
  by (cases m) auto

lemma unwrap_eq_Ok [simp, res_simps]: "unwrap m = Ok y \<longleftrightarrow> m = Ok y"
  by (cases m) auto

lemma unwrap_neq_Err [simp]: "unwrap m \<noteq> Err e"
  by (cases m) auto

lemma is_ok_iff: "is_ok m \<longleftrightarrow> (\<exists>x. m = Ok x)"
  by (cases m) auto

text \<open>A \<open>for\<close> loop whose body may return early: the loop threads a state through the list.\<close>

fun try_fold :: "('s \<Rightarrow> 'a \<Rightarrow> ('e, 's) result) \<Rightarrow> 's \<Rightarrow> 'a list \<Rightarrow> ('e, 's) result" where
  "try_fold f s [] = Ok s"
| "try_fold f s (x # xs) = and_then (f s x) (\<lambda>s'. try_fold f s' xs)"

lemma try_fold_append:
  "try_fold f s (xs @ ys) = and_then (try_fold f s xs) (\<lambda>s'. try_fold f s' ys)"
  by (induction xs arbitrary: s) (auto simp: and_then_assoc)

lemma try_fold_cong [fundef_cong]:
  "s = s' \<Longrightarrow> xs = ys \<Longrightarrow> (\<And>t x. x \<in> set ys \<Longrightarrow> f t x = g t x) \<Longrightarrow>
    try_fold f s xs = try_fold g s' ys"
  by (induction ys arbitrary: s s' xs) (auto intro!: and_then_cong)

lemma try_fold_invariant:
  assumes "try_fold f s xs = Ok s'" and "P s"
    and "\<And>t x t'. x \<in> set xs \<Longrightarrow> P t \<Longrightarrow> f t x = Ok t' \<Longrightarrow> P t'"
  shows "P s'"
  using assms by (induction xs arbitrary: s) (auto simp: and_then_eq_Ok)


section \<open>Machine integers\<close>

abbreviation u64_bound :: nat where "u64_bound \<equiv> 18446744073709551616"

abbreviation u64_max :: nat where "u64_max \<equiv> 18446744073709551615"

definition checked_add :: "nat \<Rightarrow> nat \<Rightarrow> nat option" where
  "checked_add a b = (if a + b < u64_bound then Some (a + b) else None)"

definition checked_sub :: "nat \<Rightarrow> nat \<Rightarrow> nat option" where
  "checked_sub a b = (if b \<le> a then Some (a - b) else None)"

definition checked_mul :: "nat \<Rightarrow> nat \<Rightarrow> nat option" where
  "checked_mul a b = (if a * b < u64_bound then Some (a * b) else None)"

text \<open>The operators \<open>+\<close>, \<open>-\<close>, \<open>*\<close> and \<open>1 <<\<close> on \<open>u64\<close>/\<open>usize\<close>: overflow panics.\<close>

definition add_u64 :: "nat \<Rightarrow> nat \<Rightarrow> ('e, nat) result" where
  "add_u64 a b = unwrap_or_panic (checked_add a b)"

definition sub_u64 :: "nat \<Rightarrow> nat \<Rightarrow> ('e, nat) result" where
  "sub_u64 a b = unwrap_or_panic (checked_sub a b)"

definition mul_u64 :: "nat \<Rightarrow> nat \<Rightarrow> ('e, nat) result" where
  "mul_u64 a b = unwrap_or_panic (checked_mul a b)"

definition shl1_u64 :: "nat \<Rightarrow> ('e, nat) result" where
  "shl1_u64 n = (if n < 64 then Ok (2 ^ n) else Panic)"

lemma checked_add_Some [simp, res_simps]:
  "checked_add a b = Some c \<longleftrightarrow> c = a + b \<and> a + b < u64_bound"
  by (auto simp: checked_add_def)

lemma checked_add_None [simp]: "checked_add a b = None \<longleftrightarrow> u64_bound \<le> a + b"
  by (auto simp: checked_add_def)

lemma checked_sub_Some [simp, res_simps]: "checked_sub a b = Some c \<longleftrightarrow> b \<le> a \<and> c = a - b"
  by (auto simp: checked_sub_def)

lemma checked_sub_None [simp]: "checked_sub a b = None \<longleftrightarrow> a < b"
  by (auto simp: checked_sub_def)

lemma checked_mul_Some [simp, res_simps]:
  "checked_mul a b = Some c \<longleftrightarrow> c = a * b \<and> a * b < u64_bound"
  by (auto simp: checked_mul_def)

lemma add_u64_Ok [simp, res_simps]: "add_u64 a b = Ok c \<longleftrightarrow> c = a + b \<and> a + b < u64_bound"
  by (simp add: add_u64_def)

lemma sub_u64_Ok [simp, res_simps]: "sub_u64 a b = Ok c \<longleftrightarrow> b \<le> a \<and> c = a - b"
  by (simp add: sub_u64_def)

lemma mul_u64_Ok [simp, res_simps]: "mul_u64 a b = Ok c \<longleftrightarrow> c = a * b \<and> a * b < u64_bound"
  by (simp add: mul_u64_def)

lemma shl1_u64_Ok [simp, res_simps]: "shl1_u64 n = Ok c \<longleftrightarrow> c = 2 ^ n \<and> n < 64"
  by (auto simp: shl1_u64_def)

lemma add_u64_eval: "a + b < u64_bound \<Longrightarrow> add_u64 a b = Ok (a + b)"
  by simp

lemma sub_u64_eval: "b \<le> a \<Longrightarrow> sub_u64 a b = Ok (a - b)"
  by simp

lemma mul_u64_eval: "a * b < u64_bound \<Longrightarrow> mul_u64 a b = Ok (a * b)"
  by simp

lemma shl1_u64_eval: "n < 64 \<Longrightarrow> shl1_u64 n = Ok (2 ^ n)"
  by simp

lemmas u64_eval = add_u64_eval sub_u64_eval mul_u64_eval shl1_u64_eval


section \<open>Lists\<close>

text \<open>The last \<open>n\<close> elements: what a ring buffer of capacity \<open>n\<close> remembers of a history.\<close>

definition take_last :: "nat \<Rightarrow> 'a list \<Rightarrow> 'a list" where
  "take_last n xs = drop (length xs - n) xs"

lemma length_take_last [simp]: "length (take_last n xs) = min n (length xs)"
  by (simp add: take_last_def)

lemma take_last_all [simp]: "length xs \<le> n \<Longrightarrow> take_last n xs = xs"
  by (simp add: take_last_def)

lemma take_last_snoc:
  "take_last n (take_last n xs @ [x]) = take_last n (xs @ [x])"
  by (cases "length xs \<le> n")
    (auto simp: take_last_def drop_append Suc_diff_le min_def not_le)

lemma take_last_full:
  "0 < n \<Longrightarrow> length xs = n \<Longrightarrow> take_last n (xs @ [x]) = tl xs @ [x]"
  by (cases xs) (auto simp: take_last_def)

lemma last_take_last: "0 < n \<Longrightarrow> xs \<noteq> [] \<Longrightarrow> last (take_last n xs) = last xs"
  by (simp add: take_last_def last_drop)

text \<open>Reading index \<open>i\<close> of a slice: out of range is a panic.\<close>

definition index :: "'a list \<Rightarrow> nat \<Rightarrow> ('e, 'a) result" where
  "index xs i = (if i < length xs then Ok (xs ! i) else Panic)"

lemma index_Ok [simp, res_simps]: "index xs i = Ok x \<longleftrightarrow> i < length xs \<and> x = xs ! i"
  by (auto simp: index_def)

lemma index_neq_Err [simp]: "index xs i \<noteq> Err e"
  by (simp add: index_def)

lemma index_eval: "i < length xs \<Longrightarrow> index xs i = Ok (xs ! i)"
  by (simp add: index_def)

text \<open>Overwriting index \<open>i\<close> of a slice: out of range is a panic.\<close>

definition write_at :: "'a list \<Rightarrow> nat \<Rightarrow> 'a \<Rightarrow> ('e, 'a list) result" where
  "write_at xs i x = (if i < length xs then Ok (xs[i := x]) else Panic)"

lemma write_at_Ok [simp, res_simps]:
  "write_at xs i x = Ok ys \<longleftrightarrow> i < length xs \<and> ys = xs[i := x]"
  by (auto simp: write_at_def)

lemma write_at_neq_Err [simp]: "write_at xs i x \<noteq> Err e"
  by (simp add: write_at_def)

lemma write_at_eval: "i < length xs \<Longrightarrow> write_at xs i x = Ok (xs[i := x])"
  by (simp add: write_at_def)


section \<open>Bytes\<close>

type_synonym byte = "8 word"
type_synonym bytes = "byte list"

end
