(* ===== verification/Byte_Encoding.thy ===== *)
theory Byte_Encoding
  imports Prelude
begin

text \<open>
  Fixed-width and variable-width byte encodings of natural numbers: \<open>usize::to_ne_bytes\<close> (the
  targets, SBF and x86-64/aarch64, are little-endian), \<open>BigUint::to_bytes_le/be\<close>,
  \<open>BigUint::from_bytes_le/be\<close>, and the two conversions of \<open>utils/src/bigint.rs\<close> with their round
  trips.  A \<open>BigUint\<close> is a \<open>nat\<close>.
\<close>

datatype UtilsError =
    InputTooLarge nat
  | InvalidChunkSize
  | InvalidSeeds
  | InvalidRolloverThreshold

fun UtilsError_code :: "UtilsError \<Rightarrow> nat" where
  "UtilsError_code (InputTooLarge _) = 12001"
| "UtilsError_code InvalidChunkSize = 12002"
| "UtilsError_code InvalidSeeds = 12003"
| "UtilsError_code InvalidRolloverThreshold = 12004"

text \<open>\<open>n\<close> little-endian bytes of \<open>x\<close>, and back.\<close>

primrec le_bytes :: "nat \<Rightarrow> nat \<Rightarrow> bytes" where
  "le_bytes 0 x = []"
| "le_bytes (Suc n) x = of_nat (x mod 256) # le_bytes n (x div 256)"

primrec from_bytes_le :: "bytes \<Rightarrow> nat" where
  "from_bytes_le [] = 0"
| "from_bytes_le (b # bs) = unat b + 256 * from_bytes_le bs"

definition from_bytes_be :: "bytes \<Rightarrow> nat" where
  "from_bytes_be bs = from_bytes_le (rev bs)"

text \<open>\<open>BigUint::to_bytes_le\<close>: the shortest encoding, with a single zero byte for zero.\<close>

fun le_digits :: "nat \<Rightarrow> bytes" where
  "le_digits x = (if x = 0 then [] else of_nat (x mod 256) # le_digits (x div 256))"

declare le_digits.simps [simp del]

definition to_bytes_le :: "nat \<Rightarrow> bytes" where
  "to_bytes_le x = (if x = 0 then [0] else le_digits x)"

definition to_bytes_be :: "nat \<Rightarrow> bytes" where
  "to_bytes_be x = rev (to_bytes_le x)"

definition bigint_to_le_bytes_array :: "nat \<Rightarrow> nat \<Rightarrow> (UtilsError, bytes) result" where
  "bigint_to_le_bytes_array BYTES_SIZE bigint =
     (let array = replicate BYTES_SIZE 0;
          bs = to_bytes_le bigint
      in if length bs > BYTES_SIZE then Err (InputTooLarge BYTES_SIZE)
         else Ok (bs @ drop (length bs) array))"

definition bigint_to_be_bytes_array :: "nat \<Rightarrow> nat \<Rightarrow> (UtilsError, bytes) result" where
  "bigint_to_be_bytes_array BYTES_SIZE bigint =
     (let array = replicate BYTES_SIZE 0;
          bs = to_bytes_be bigint
      in if length bs > BYTES_SIZE then Err (InputTooLarge BYTES_SIZE)
         else let start_pos = BYTES_SIZE - length bs
              in Ok (take start_pos array @ bs))"

lemma length_le_bytes [simp]: "length (le_bytes n x) = n"
  by (induction n arbitrary: x) auto

lemma unat_byte_mod [simp]: "unat (of_nat (x mod 256) :: byte) = x mod 256"
  by (simp add: unat_of_nat)

lemma from_bytes_le_le_bytes [simp]: "from_bytes_le (le_bytes n x) = x mod 256 ^ n"
proof (induction n arbitrary: x)
  case (Suc n)
  have "x mod 256 + 256 * (x div 256 mod 256 ^ n) = x mod (256 * 256 ^ n)"
    by (simp add: mod_mult2_eq)
  with Suc show ?case by simp
qed simp

lemma from_bytes_le_bound: "from_bytes_le bs < 256 ^ length bs"
proof (induction bs)
  case (Cons b bs)
  have "unat b < 256" using unsigned_less [of b] by simp
  then have "unat b + 256 * from_bytes_le bs < 256 * (from_bytes_le bs + 1)" by simp
  also have "\<dots> \<le> 256 * 256 ^ length bs"
    using Cons by (intro mult_le_mono2) simp
  finally show ?case by simp
qed simp

lemma le_bytes_from_bytes_le [simp]: "le_bytes (length bs) (from_bytes_le bs) = bs"
proof (induction bs)
  case (Cons b bs)
  have b: "unat b < 256" using unsigned_less [of b] by simp
  then show ?case using Cons by simp
qed simp

lemma from_bytes_le_append:
  "from_bytes_le (xs @ ys) = from_bytes_le xs + 256 ^ length xs * from_bytes_le ys"
  by (induction xs) (auto simp: algebra_simps)

lemma from_bytes_le_zeros [simp]: "from_bytes_le (replicate n 0) = 0"
  by (induction n) auto

lemma from_bytes_le_digits [simp]: "from_bytes_le (le_digits x) = x"
  by (induction x rule: le_digits.induct) (subst le_digits.simps, simp)

lemma length_le_digits: "length (le_digits x) \<le> n \<longleftrightarrow> x < 256 ^ n"
proof (induction n arbitrary: x)
  case 0
  then show ?case by (subst le_digits.simps) simp
next
  case (Suc n)
  have "x div 256 < 256 ^ n \<longleftrightarrow> x < 256 * 256 ^ n"
    by (simp add: div_less_iff_less_mult mult.commute)
  then show ?case by (subst le_digits.simps) (simp add: Suc)
qed

lemma from_bytes_le_to_bytes_le [simp]: "from_bytes_le (to_bytes_le x) = x"
  by (simp add: to_bytes_le_def)

lemma length_to_bytes_le: "0 < n \<Longrightarrow> length (to_bytes_le x) \<le> n \<longleftrightarrow> x < 256 ^ n"
  by (auto simp: to_bytes_le_def length_le_digits)

lemma bigint_to_le_bytes_array_Ok_iff:
  assumes "0 < n"
  shows "bigint_to_le_bytes_array n x = Ok bs \<longleftrightarrow>
    x < 256 ^ n \<and> length bs = n \<and> from_bytes_le bs = x"
proof
  assume "bigint_to_le_bytes_array n x = Ok bs"
  then show "x < 256 ^ n \<and> length bs = n \<and> from_bytes_le bs = x"
    using length_to_bytes_le [OF assms, of x]
    by (auto simp: bigint_to_le_bytes_array_def Let_def from_bytes_le_append split: if_splits)
next
  assume R: "x < 256 ^ n \<and> length bs = n \<and> from_bytes_le bs = x"
  define cs where "cs = to_bytes_le x @ replicate (n - length (to_bytes_le x)) 0"
  have len: "length (to_bytes_le x) \<le> n" using R length_to_bytes_le [OF assms, of x] by simp
  then have "length cs = n" "from_bytes_le cs = x"
    by (simp_all add: cs_def from_bytes_le_append)
  then have "cs = bs" using R by (metis le_bytes_from_bytes_le)
  then show "bigint_to_le_bytes_array n x = Ok bs"
    using len by (simp add: bigint_to_le_bytes_array_def cs_def)
qed

lemma bigint_to_be_bytes_array_le:
  "bigint_to_be_bytes_array n x =
     (case bigint_to_le_bytes_array n x of Ok bs \<Rightarrow> Ok (rev bs) | Err e \<Rightarrow> Err e | Panic \<Rightarrow> Panic)"
  by (auto simp: bigint_to_be_bytes_array_def bigint_to_le_bytes_array_def to_bytes_be_def Let_def)

lemma bigint_to_be_bytes_array_Ok_iff:
  assumes "0 < n"
  shows "bigint_to_be_bytes_array n x = Ok bs \<longleftrightarrow>
    x < 256 ^ n \<and> length bs = n \<and> from_bytes_be bs = x"
  using bigint_to_le_bytes_array_Ok_iff [OF assms, of x "rev bs"]
  by (auto simp: bigint_to_be_bytes_array_le from_bytes_be_def split: result.splits)

lemma bigint_to_be_bytes_array_cases:
  "bigint_to_be_bytes_array n x = Err (InputTooLarge n) \<or>
   (\<exists>bs. bigint_to_be_bytes_array n x = Ok bs)"
  by (auto simp: bigint_to_be_bytes_array_def Let_def)

lemma from_bytes_be_bound: "from_bytes_be bs < 256 ^ length bs"
  using from_bytes_le_bound [of "rev bs"] by (simp add: from_bytes_be_def)

lemma from_bytes_be_inj:
  "length xs = length ys \<Longrightarrow> from_bytes_be xs = from_bytes_be ys \<Longrightarrow> xs = ys"
  by (metis from_bytes_be_def le_bytes_from_bytes_le length_rev rev_rev_ident)

text \<open>
  Round trip of the big-endian 32-byte encoding used for every tree value and queue entry:
  \<open>bigint_to_be_bytes_array\<close> either rejects the number as too large, exactly when it does not
  fit, or returns an array of the requested size that decodes to the same number.
\<close>

theorem bigint_be_roundtrip:
  assumes "0 < n"
  shows "(x < 256 ^ n \<longleftrightarrow> (\<exists>bs. bigint_to_be_bytes_array n x = Ok bs)) \<and>
         (\<forall>bs. bigint_to_be_bytes_array n x = Ok bs \<longrightarrow>
            length bs = n \<and> from_bytes_be bs = x) \<and>
         (\<not> x < 256 ^ n \<longleftrightarrow> bigint_to_be_bytes_array n x = Err (InputTooLarge n))"
proof -
  have "\<exists>bs. bigint_to_be_bytes_array n x = Ok bs" if "x < 256 ^ n"
    using that bigint_to_be_bytes_array_Ok_iff [OF assms, of x "rev (le_bytes n x)"]
    by (auto simp: from_bytes_be_def)
  moreover have "\<not> x < 256 ^ n" if "bigint_to_be_bytes_array n x = Err (InputTooLarge n)"
    using that calculation by auto
  ultimately show ?thesis
    using bigint_to_be_bytes_array_Ok_iff [OF assms, of x] bigint_to_be_bytes_array_cases [of n x]
    by auto
qed

theorem bigint_be_roundtrip_witness:
  "bigint_to_be_bytes_array 2 258 = Ok [1, 2] \<and> from_bytes_be [1, 2] = 258 \<and>
   bigint_to_be_bytes_array 2 65536 = Err (InputTooLarge 2)"
proof -
  have "\<not> (65536::nat) < 256 ^ 2" by simp
  then have e: "bigint_to_be_bytes_array 2 65536 = Err (InputTooLarge 2)"
    using bigint_be_roundtrip [of 2 65536] by simp
  show ?thesis using e
    by (simp add: bigint_to_be_bytes_array_def to_bytes_be_def to_bytes_le_def le_digits.simps
        from_bytes_be_def)
qed

end
