(* ===== verification/Bounded_Vec.thy ===== *)
theory Bounded_Vec
  imports Byte_Encoding
begin

text \<open>
  \<open>merkle-tree/bounded-vec/src/lib.rs\<close>: \<open>BoundedVec\<close>, a vector whose allocation never grows, and
  \<open>CyclicBoundedVec\<close>, a ring buffer that overwrites its oldest element when it is full.

  The allocation is a list of \<open>capacity\<close> cells; cells that were never written hold an unspecified
  value, as uninitialised memory does.  The metadata (capacity, length, indices) is a record of
  its own, because the zero-copy constructors serialise it separately.  The abstraction functions
  are \<open>BoundedVec_as_slice\<close> (the initialised prefix) and \<open>cbv_list\<close> (oldest to newest).  Two
  interface locales, \<open>bounded_buffer\<close> and \<open>ring_buffer\<close>, state what clients rely on, and are
  interpreted on the two vectors.
\<close>

datatype BoundedVecError = Full | ArraySize nat nat | IterFromOutOfBounds

fun BoundedVecError_code :: "BoundedVecError \<Rightarrow> nat" where
  "BoundedVecError_code Full = 8001"
| "BoundedVecError_code (ArraySize _ _) = 8002"
| "BoundedVecError_code IterFromOutOfBounds = 8003"


section \<open>BoundedVec\<close>

record BoundedVecMetadata =
  bvm_capacity :: nat
  bvm_length :: nat

definition BoundedVecMetadata_new :: "nat \<Rightarrow> BoundedVecMetadata" where
  "BoundedVecMetadata_new capacity = \<lparr>bvm_capacity = capacity, bvm_length = 0\<rparr>"

definition BoundedVecMetadata_new_with_length :: "nat \<Rightarrow> nat \<Rightarrow> BoundedVecMetadata" where
  "BoundedVecMetadata_new_with_length capacity length' =
     \<lparr>bvm_capacity = capacity, bvm_length = length'\<rparr>"

definition BoundedVecMetadata_to_ne_bytes :: "BoundedVecMetadata \<Rightarrow> bytes" where
  "BoundedVecMetadata_to_ne_bytes m = le_bytes 8 (bvm_capacity m) @ le_bytes 8 (bvm_length m)"

definition BoundedVecMetadata_from_ne_bytes :: "bytes \<Rightarrow> BoundedVecMetadata" where
  "BoundedVecMetadata_from_ne_bytes bs =
     \<lparr>bvm_capacity = from_bytes_le (take 8 bs), bvm_length = from_bytes_le (take 8 (drop 8 bs))\<rparr>"

record 'a BoundedVec =
  bv_metadata :: BoundedVecMetadata
  bv_data :: "'a list"

definition BoundedVec_with_metadata :: "BoundedVecMetadata \<Rightarrow> 'a BoundedVec" where
  "BoundedVec_with_metadata m =
     \<lparr>bv_metadata = m, bv_data = replicate (bvm_capacity m) undefined\<rparr>"

definition BoundedVec_with_capacity :: "nat \<Rightarrow> 'a BoundedVec" where
  "BoundedVec_with_capacity capacity =
     BoundedVec_with_metadata (BoundedVecMetadata_new capacity)"

definition BoundedVec_from_raw_parts :: "BoundedVecMetadata \<Rightarrow> 'a list \<Rightarrow> 'a BoundedVec" where
  "BoundedVec_from_raw_parts m ptr = \<lparr>bv_metadata = m, bv_data = ptr\<rparr>"

definition BoundedVec_capacity :: "'a BoundedVec \<Rightarrow> nat" where
  "BoundedVec_capacity v = bvm_capacity (bv_metadata v)"

definition BoundedVec_len :: "'a BoundedVec \<Rightarrow> nat" where
  "BoundedVec_len v = bvm_length (bv_metadata v)"

definition BoundedVec_is_empty :: "'a BoundedVec \<Rightarrow> bool" where
  "BoundedVec_is_empty v \<longleftrightarrow> BoundedVec_len v = 0"

definition BoundedVec_as_slice :: "'a BoundedVec \<Rightarrow> 'a list" where
  "BoundedVec_as_slice v = take (BoundedVec_len v) (bv_data v)"

definition BoundedVec_inc_len :: "'a BoundedVec \<Rightarrow> 'a BoundedVec" where
  "BoundedVec_inc_len v =
     v\<lparr>bv_metadata := (bv_metadata v)\<lparr>bvm_length := bvm_length (bv_metadata v) + 1\<rparr>\<rparr>"

definition BoundedVec_push :: "'a BoundedVec \<Rightarrow> 'a \<Rightarrow> (BoundedVecError, 'a BoundedVec) result" where
  "BoundedVec_push v value =
     (if BoundedVec_len v = BoundedVec_capacity v then Err Full
      else and_then (write_at (bv_data v) (BoundedVec_len v) value)
        (\<lambda>d. Ok (BoundedVec_inc_len (v\<lparr>bv_data := d\<rparr>))))"

definition BoundedVec_get :: "'a BoundedVec \<Rightarrow> nat \<Rightarrow> 'a option" where
  "BoundedVec_get v i = (if i \<ge> BoundedVec_len v then None else Some (bv_data v ! i))"

text \<open>A write through the reference that \<open>get_mut\<close> returns.\<close>

definition BoundedVec_get_mut_set :: "'a BoundedVec \<Rightarrow> nat \<Rightarrow> 'a \<Rightarrow> 'a BoundedVec option" where
  "BoundedVec_get_mut_set v i x =
     (if i \<ge> BoundedVec_len v then None else Some (v\<lparr>bv_data := (bv_data v)[i := x]\<rparr>))"

text \<open>\<open>Index::index\<close> and a write through \<open>IndexMut::index_mut\<close>: the slice's bounds check panics.\<close>

definition BoundedVec_index :: "'a BoundedVec \<Rightarrow> nat \<Rightarrow> ('e, 'a) result" where
  "BoundedVec_index v i = index (BoundedVec_as_slice v) i"

definition BoundedVec_index_set :: "'a BoundedVec \<Rightarrow> nat \<Rightarrow> 'a \<Rightarrow> ('e, 'a BoundedVec) result" where
  "BoundedVec_index_set v i x = unwrap_or_panic (BoundedVec_get_mut_set v i x)"

definition BoundedVec_last :: "'a BoundedVec \<Rightarrow> 'a option" where
  "BoundedVec_last v =
     (if BoundedVec_is_empty v then None else BoundedVec_get v (BoundedVec_len v - 1))"

definition BoundedVec_to_array :: "'a BoundedVec \<Rightarrow> nat \<Rightarrow> (BoundedVecError, 'a list) result" where
  "BoundedVec_to_array v N =
     (if BoundedVec_len v \<noteq> N then Err (ArraySize N (BoundedVec_len v))
      else try_fold (\<lambda>acc i. and_then (unwrap_or_panic (BoundedVec_get v i)) (\<lambda>x. Ok (acc @ [x])))
        [] [0..<N])"

definition BoundedVec_to_vec :: "'a BoundedVec \<Rightarrow> 'a list" where
  "BoundedVec_to_vec v = BoundedVec_as_slice v"

text \<open>
  \<open>extend\<close> keeps what it has pushed when it fails, so the model returns the vector beside the
  result.
\<close>

fun BoundedVec_extend ::
  "'a BoundedVec \<Rightarrow> 'a list \<Rightarrow> 'a BoundedVec \<times> (BoundedVecError, unit) result" where
  "BoundedVec_extend v [] = (v, Ok ())"
| "BoundedVec_extend v (x # xs) =
     (case BoundedVec_push v x of
        Ok v' \<Rightarrow> BoundedVec_extend v' xs
      | Err e \<Rightarrow> (v, Err e)
      | Panic \<Rightarrow> (v, Panic))"

definition BoundedVec_from_slice :: "'a list \<Rightarrow> ('e, 'a BoundedVec) result" where
  "BoundedVec_from_slice xs =
     try_fold (\<lambda>v x. unwrap (BoundedVec_push v x)) (BoundedVec_with_capacity (length xs)) xs"

definition BoundedVec_clone :: "'a BoundedVec \<Rightarrow> ('e, 'a BoundedVec) result" where
  "BoundedVec_clone v =
     and_then
       (try_fold (\<lambda>d i. and_then (unwrap_or_panic (BoundedVec_get v i)) (\<lambda>x. write_at d i x))
         (replicate (BoundedVec_capacity v) undefined) [0..<BoundedVec_len v])
       (\<lambda>d. Ok \<lparr>bv_metadata = bv_metadata v, bv_data = d\<rparr>)"

definition BoundedVec_eq :: "'a BoundedVec \<Rightarrow> 'a BoundedVec \<Rightarrow> bool" where
  "BoundedVec_eq v w \<longleftrightarrow> BoundedVec_as_slice v = BoundedVec_as_slice w"

text \<open>The invariant the unsafe constructors ask of their callers.\<close>

definition bv_inv :: "'a BoundedVec \<Rightarrow> bool" where
  [inv_defs]: "bv_inv v \<longleftrightarrow>
     BoundedVec_len v \<le> BoundedVec_capacity v \<and> length (bv_data v) = BoundedVec_capacity v"

lemmas bv_defs = BoundedVec_len_def BoundedVec_capacity_def BoundedVec_as_slice_def
  BoundedVec_push_def BoundedVec_inc_len_def BoundedVec_get_def BoundedVec_get_mut_set_def
  BoundedVec_index_def BoundedVec_index_set_def BoundedVec_with_capacity_def
  BoundedVec_with_metadata_def BoundedVecMetadata_new_def bv_inv_def

lemma bv_with_capacity [simp]:
  "bv_inv (BoundedVec_with_capacity c)"
  "BoundedVec_as_slice (BoundedVec_with_capacity c) = []"
  "BoundedVec_capacity (BoundedVec_with_capacity c) = c"
  "BoundedVec_len (BoundedVec_with_capacity c) = 0"
  by (simp_all add: bv_defs)

lemma length_as_slice [simp]: "bv_inv v \<Longrightarrow> length (BoundedVec_as_slice v) = BoundedVec_len v"
  by (simp add: bv_defs)

lemma BoundedVec_push_Ok:
  assumes "bv_inv v"
  shows "BoundedVec_push v x = Ok v' \<longleftrightarrow>
     BoundedVec_len v < BoundedVec_capacity v \<and>
     v' = BoundedVec_inc_len (v\<lparr>bv_data := (bv_data v)[BoundedVec_len v := x]\<rparr>)"
  using assms by (auto simp: bv_defs res_simps)

lemma BoundedVec_push_cases:
  assumes "bv_inv v"
  obtains (full) "BoundedVec_len v = BoundedVec_capacity v" "BoundedVec_push v x = Err Full"
  | (ok) v' where "BoundedVec_len v < BoundedVec_capacity v" "BoundedVec_push v x = Ok v'"
      "bv_inv v'" "BoundedVec_as_slice v' = BoundedVec_as_slice v @ [x]"
      "BoundedVec_capacity v' = BoundedVec_capacity v" "BoundedVec_len v' = Suc (BoundedVec_len v)"
proof (cases "BoundedVec_len v = BoundedVec_capacity v")
  case True
  then show ?thesis using full by (simp add: BoundedVec_push_def)
next
  case False
  then have lt: "BoundedVec_len v < BoundedVec_capacity v" using assms by (simp add: bv_inv_def)
  let ?v = "BoundedVec_inc_len (v\<lparr>bv_data := (bv_data v)[BoundedVec_len v := x]\<rparr>)"
  have "BoundedVec_push v x = Ok ?v" using lt assms by (simp add: BoundedVec_push_Ok)
  moreover have "BoundedVec_as_slice ?v = BoundedVec_as_slice v @ [x]"
    using lt assms by (simp add: bv_defs take_Suc_conv_app_nth)
  ultimately show ?thesis using ok lt assms by (simp add: bv_defs)
qed

lemma BoundedVec_push_as_slice:
  assumes "BoundedVec_push v x = Ok v'" "bv_inv v"
  shows "bv_inv v'" "BoundedVec_as_slice v' = BoundedVec_as_slice v @ [x]"
    "BoundedVec_capacity v' = BoundedVec_capacity v"
    "BoundedVec_len v' = Suc (BoundedVec_len v)" "BoundedVec_len v < BoundedVec_capacity v"
  using BoundedVec_push_cases [OF assms(2), of x] assms(1) by auto

lemma BoundedVec_push_eval:
  assumes "bv_inv v" "BoundedVec_len v < BoundedVec_capacity v"
  obtains v' where "BoundedVec_push v x = Ok v'"
  using BoundedVec_push_cases [OF assms(1), of x] assms(2) by auto

lemma BoundedVec_get_as_slice:
  "bv_inv v \<Longrightarrow> BoundedVec_get v i =
     (if i < length (BoundedVec_as_slice v) then Some (BoundedVec_as_slice v ! i) else None)"
  by (auto simp: bv_defs)

lemma BoundedVec_index_set_Ok [res_simps]:
  "BoundedVec_index_set v i x = Ok v' \<longleftrightarrow>
     i < BoundedVec_len v \<and> v' = v\<lparr>bv_data := (bv_data v)[i := x]\<rparr>"
  by (auto simp: bv_defs)

lemma BoundedVec_index_set_as_slice:
  assumes "BoundedVec_index_set v i x = Ok v'" "bv_inv v"
  shows "bv_inv v'" "BoundedVec_as_slice v' = (BoundedVec_as_slice v)[i := x]"
    "BoundedVec_capacity v' = BoundedVec_capacity v" "BoundedVec_len v' = BoundedVec_len v"
    "i < BoundedVec_len v"
proof -
  have "i < BoundedVec_len v" "v' = v\<lparr>bv_data := (bv_data v)[i := x]\<rparr>"
    using assms(1) by (simp_all add: BoundedVec_index_set_Ok)
  then show "bv_inv v'" "BoundedVec_as_slice v' = (BoundedVec_as_slice v)[i := x]"
    "BoundedVec_capacity v' = BoundedVec_capacity v" "BoundedVec_len v' = BoundedVec_len v"
    "i < BoundedVec_len v"
    using assms(2) by (simp_all add: bv_defs take_update_swap [symmetric])
qed

lemma BoundedVec_index_set_neq_Err [simp]: "BoundedVec_index_set v i x \<noteq> Err e"
  by (simp add: BoundedVec_index_set_def)

lemma BoundedVec_to_array_as_slice:
  assumes "bv_inv v"
  shows "BoundedVec_to_array v (BoundedVec_len v) = Ok (BoundedVec_as_slice v)"
proof -
  have "try_fold (\<lambda>acc i. and_then (unwrap_or_panic (BoundedVec_get v i)) (\<lambda>x. Ok (acc @ [x])))
      [] [0..<n] = (Ok (take n (BoundedVec_as_slice v)) :: (BoundedVecError, _) result)"
    if "n \<le> BoundedVec_len v" for n
    using that
    by (induction n)
      (auto simp: try_fold_append BoundedVec_get_as_slice [OF assms] assms take_Suc_conv_app_nth)
  then show ?thesis using assms by (simp add: BoundedVec_to_array_def)
qed

lemma BoundedVec_clone_loop:
  assumes "bv_inv v" "n \<le> BoundedVec_len v"
  obtains d where
    "try_fold (\<lambda>d i. and_then (unwrap_or_panic (BoundedVec_get v i)) (\<lambda>x. write_at d i x))
       (replicate (BoundedVec_capacity v) undefined) [0..<n] = (Ok d :: ('e, 'a list) result)"
    "length d = BoundedVec_capacity v" "take n d = take n (bv_data v)"
  using assms(2)
proof (induction n arbitrary: thesis)
  case (Suc n)
  obtain d where d: "try_fold (\<lambda>d i. and_then (unwrap_or_panic (BoundedVec_get v i))
      (\<lambda>x. write_at d i x)) (replicate (BoundedVec_capacity v) undefined) [0..<n] =
        (Ok d :: ('e, 'a list) result)"
      "length d = BoundedVec_capacity v" "take n d = take n (bv_data v)"
    using Suc.IH Suc.prems(2) by (auto simp: Suc_le_eq)
  have "n < length d" "n < length (bv_data v)"
    using Suc.prems(2) d(2) assms(1) by (auto simp: bv_inv_def)
  with d Suc.prems show ?case
    by (simp add: try_fold_append BoundedVec_get_def write_at_eval take_Suc_conv_app_nth)
qed simp

lemma BoundedVec_clone_as_slice:
  assumes "bv_inv v"
  obtains w where "BoundedVec_clone v = (Ok w :: ('e, _) result)" "bv_inv w" "bv_metadata w = bv_metadata v"
    "BoundedVec_as_slice w = BoundedVec_as_slice v"
proof -
  obtain d where d:
    "BoundedVec_clone v = (Ok \<lparr>bv_metadata = bv_metadata v, bv_data = d\<rparr> :: ('e, _) result)"
    "length d = BoundedVec_capacity v" "take (BoundedVec_len v) d = take (BoundedVec_len v) (bv_data v)"
    by (rule BoundedVec_clone_loop [OF assms order_refl, where 'e = 'e])
      (simp add: BoundedVec_clone_def)
  show ?thesis using assms d by (intro that [OF d(1)]) (simp_all add: bv_defs)
qed


section \<open>The contract of a bounded buffer\<close>

locale bounded_buffer =
  fixes push :: "'v \<Rightarrow> 'a \<Rightarrow> (BoundedVecError, 'v) result"
    and contents :: "'v \<Rightarrow> 'a list"
    and capacity :: "'v \<Rightarrow> nat"
    and invar :: "'v \<Rightarrow> bool"
  assumes push_full: "invar v \<Longrightarrow> length (contents v) = capacity v \<Longrightarrow> push v x = Err Full"
    and push_ok: "invar v \<Longrightarrow> length (contents v) < capacity v \<Longrightarrow>
      \<exists>v'. push v x = Ok v' \<and> invar v' \<and> contents v' = contents v @ [x] \<and> capacity v' = capacity v"
    and fits: "invar v \<Longrightarrow> length (contents v) \<le> capacity v"
begin

lemma push_all:
  assumes "invar v" "length (contents v) + length xs \<le> capacity v"
  shows "\<exists>v'. try_fold push v xs = Ok v' \<and> invar v' \<and> contents v' = contents v @ xs \<and>
    capacity v' = capacity v"
  using assms
proof (induction xs arbitrary: v)
  case (Cons x xs)
  then obtain w where "push v x = Ok w" "invar w" "contents w = contents v @ [x]"
    "capacity w = capacity v" using push_ok [of v x] by auto
  with Cons.IH [of w] Cons.prems show ?case by auto
qed auto

lemma push_all_full:
  assumes "invar v" "capacity v < length (contents v) + length xs"
  shows "try_fold push v xs = Err Full"
  using assms
proof (induction xs arbitrary: v)
  case Nil
  then show ?case using fits [of v] by simp
next
  case (Cons x xs)
  show ?case
  proof (cases "length (contents v) = capacity v")
    case True
    then show ?thesis using Cons.prems by (simp add: push_full)
  next
    case False
    then have "length (contents v) < capacity v" using fits [OF Cons.prems(1)] by simp
    from push_ok [OF Cons.prems(1) this, of x] obtain w
      where "push v x = Ok w" "invar w" "contents w = contents v @ [x]" "capacity w = capacity v"
      by auto
    with Cons.IH [of w] Cons.prems show ?thesis by simp
  qed
qed

end

interpretation bvb: bounded_buffer BoundedVec_push BoundedVec_as_slice BoundedVec_capacity bv_inv
proof (unfold_locales, goal_cases)
  case (1 v x)
  then show ?case using BoundedVec_push_cases [OF 1(1), of x] by auto
next
  case (2 v x)
  then show ?case using BoundedVec_push_cases [OF 2(1), of x] by auto
next
  case (3 v)
  then show ?case by (simp add: bv_inv_def)
qed



section \<open>CyclicBoundedVec\<close>

record CyclicBoundedVecMetadata =
  cbvm_capacity :: nat
  cbvm_length :: nat
  cbvm_first_index :: nat
  cbvm_last_index :: nat

definition CyclicBoundedVecMetadata_new :: "nat \<Rightarrow> CyclicBoundedVecMetadata" where
  "CyclicBoundedVecMetadata_new capacity =
     \<lparr>cbvm_capacity = capacity, cbvm_length = 0, cbvm_first_index = 0, cbvm_last_index = 0\<rparr>"

definition CyclicBoundedVecMetadata_new_with_indices ::
  "nat \<Rightarrow> nat \<Rightarrow> nat \<Rightarrow> nat \<Rightarrow> CyclicBoundedVecMetadata" where
  "CyclicBoundedVecMetadata_new_with_indices capacity length' first_index last_index =
     \<lparr>cbvm_capacity = capacity, cbvm_length = length', cbvm_first_index = first_index,
      cbvm_last_index = last_index\<rparr>"

definition CyclicBoundedVecMetadata_to_ne_bytes :: "CyclicBoundedVecMetadata \<Rightarrow> bytes" where
  "CyclicBoundedVecMetadata_to_ne_bytes m =
     le_bytes 8 (cbvm_capacity m) @ le_bytes 8 (cbvm_length m) @
     le_bytes 8 (cbvm_first_index m) @ le_bytes 8 (cbvm_last_index m)"

definition CyclicBoundedVecMetadata_from_ne_bytes :: "bytes \<Rightarrow> CyclicBoundedVecMetadata" where
  "CyclicBoundedVecMetadata_from_ne_bytes bs =
     \<lparr>cbvm_capacity = from_bytes_le (take 8 bs),
      cbvm_length = from_bytes_le (take 8 (drop 8 bs)),
      cbvm_first_index = from_bytes_le (take 8 (drop 16 bs)),
      cbvm_last_index = from_bytes_le (take 8 (drop 24 bs))\<rparr>"

record 'a CyclicBoundedVec =
  cbv_metadata :: CyclicBoundedVecMetadata
  cbv_data :: "'a list"

definition CyclicBoundedVec_with_metadata :: "CyclicBoundedVecMetadata \<Rightarrow> 'a CyclicBoundedVec" where
  "CyclicBoundedVec_with_metadata m =
     \<lparr>cbv_metadata = m, cbv_data = replicate (cbvm_capacity m) undefined\<rparr>"

definition CyclicBoundedVec_with_capacity :: "nat \<Rightarrow> 'a CyclicBoundedVec" where
  "CyclicBoundedVec_with_capacity capacity =
     CyclicBoundedVec_with_metadata (CyclicBoundedVecMetadata_new capacity)"

definition CyclicBoundedVec_from_raw_parts ::
  "CyclicBoundedVecMetadata \<Rightarrow> 'a list \<Rightarrow> 'a CyclicBoundedVec" where
  "CyclicBoundedVec_from_raw_parts m ptr = \<lparr>cbv_metadata = m, cbv_data = ptr\<rparr>"

definition CyclicBoundedVec_capacity :: "'a CyclicBoundedVec \<Rightarrow> nat" where
  "CyclicBoundedVec_capacity v = cbvm_capacity (cbv_metadata v)"

definition CyclicBoundedVec_len :: "'a CyclicBoundedVec \<Rightarrow> nat" where
  "CyclicBoundedVec_len v = cbvm_length (cbv_metadata v)"

definition CyclicBoundedVec_is_empty :: "'a CyclicBoundedVec \<Rightarrow> bool" where
  "CyclicBoundedVec_is_empty v \<longleftrightarrow> CyclicBoundedVec_len v = 0"

definition CyclicBoundedVec_first_index :: "'a CyclicBoundedVec \<Rightarrow> nat" where
  "CyclicBoundedVec_first_index v = cbvm_first_index (cbv_metadata v)"

definition CyclicBoundedVec_last_index :: "'a CyclicBoundedVec \<Rightarrow> nat" where
  "CyclicBoundedVec_last_index v = cbvm_last_index (cbv_metadata v)"

definition CyclicBoundedVec_inc_len :: "'a CyclicBoundedVec \<Rightarrow> 'a CyclicBoundedVec" where
  "CyclicBoundedVec_inc_len v =
     v\<lparr>cbv_metadata := (cbv_metadata v)\<lparr>cbvm_length := CyclicBoundedVec_len v + 1\<rparr>\<rparr>"

text \<open>The remainder operator panics when the capacity is zero.\<close>

definition CyclicBoundedVec_inc_first_index ::
  "'a CyclicBoundedVec \<Rightarrow> ('e, 'a CyclicBoundedVec) result" where
  "CyclicBoundedVec_inc_first_index v =
     (if CyclicBoundedVec_capacity v = 0 then Panic
      else Ok (v\<lparr>cbv_metadata := (cbv_metadata v)\<lparr>cbvm_first_index :=
        (CyclicBoundedVec_first_index v + 1) mod CyclicBoundedVec_capacity v\<rparr>\<rparr>))"

definition CyclicBoundedVec_inc_last_index ::
  "'a CyclicBoundedVec \<Rightarrow> ('e, 'a CyclicBoundedVec) result" where
  "CyclicBoundedVec_inc_last_index v =
     (if CyclicBoundedVec_capacity v = 0 then Panic
      else Ok (v\<lparr>cbv_metadata := (cbv_metadata v)\<lparr>cbvm_last_index :=
        (CyclicBoundedVec_last_index v + 1) mod CyclicBoundedVec_capacity v\<rparr>\<rparr>))"

text \<open>
  \<open>push\<close> writes through a raw pointer at \<open>last_index\<close>; the write of a cell outside the allocation,
  which the source's comment rules out, is \<open>Panic\<close> here.
\<close>

definition CyclicBoundedVec_push ::
  "'a CyclicBoundedVec \<Rightarrow> 'a \<Rightarrow> ('e, 'a CyclicBoundedVec) result" where
  "CyclicBoundedVec_push v value =
     and_then
       (if CyclicBoundedVec_is_empty v then Ok (CyclicBoundedVec_inc_len v)
        else if CyclicBoundedVec_len v < CyclicBoundedVec_capacity v
          then CyclicBoundedVec_inc_last_index (CyclicBoundedVec_inc_len v)
        else and_then (CyclicBoundedVec_inc_last_index v) CyclicBoundedVec_inc_first_index)
       (\<lambda>w. and_then (write_at (cbv_data w) (CyclicBoundedVec_last_index w) value)
          (\<lambda>d. Ok (w\<lparr>cbv_data := d\<rparr>)))"

definition CyclicBoundedVec_get :: "'a CyclicBoundedVec \<Rightarrow> nat \<Rightarrow> 'a option" where
  "CyclicBoundedVec_get v i = (if i \<ge> CyclicBoundedVec_len v then None else Some (cbv_data v ! i))"

definition CyclicBoundedVec_get_mut_set ::
  "'a CyclicBoundedVec \<Rightarrow> nat \<Rightarrow> 'a \<Rightarrow> 'a CyclicBoundedVec option" where
  "CyclicBoundedVec_get_mut_set v i x =
     (if i \<ge> CyclicBoundedVec_len v then None else Some (v\<lparr>cbv_data := (cbv_data v)[i := x]\<rparr>))"

definition CyclicBoundedVec_index :: "'a CyclicBoundedVec \<Rightarrow> nat \<Rightarrow> ('e, 'a) result" where
  "CyclicBoundedVec_index v i = unwrap_or_panic (CyclicBoundedVec_get v i)"

definition CyclicBoundedVec_index_set ::
  "'a CyclicBoundedVec \<Rightarrow> nat \<Rightarrow> 'a \<Rightarrow> ('e, 'a CyclicBoundedVec) result" where
  "CyclicBoundedVec_index_set v i x = unwrap_or_panic (CyclicBoundedVec_get_mut_set v i x)"

definition CyclicBoundedVec_first :: "'a CyclicBoundedVec \<Rightarrow> 'a option" where
  "CyclicBoundedVec_first v = CyclicBoundedVec_get v (CyclicBoundedVec_first_index v)"

definition CyclicBoundedVec_last :: "'a CyclicBoundedVec \<Rightarrow> 'a option" where
  "CyclicBoundedVec_last v = CyclicBoundedVec_get v (CyclicBoundedVec_last_index v)"

record 'a CyclicBoundedVecIterator =
  cbvi_vec :: "'a CyclicBoundedVec"
  cbvi_current :: nat
  cbvi_is_finished :: bool

definition CyclicBoundedVec_iter :: "'a CyclicBoundedVec \<Rightarrow> 'a CyclicBoundedVecIterator" where
  "CyclicBoundedVec_iter v =
     \<lparr>cbvi_vec = v, cbvi_current = CyclicBoundedVec_first_index v, cbvi_is_finished = False\<rparr>"

definition CyclicBoundedVec_iter_from ::
  "'a CyclicBoundedVec \<Rightarrow> nat \<Rightarrow> (BoundedVecError, 'a CyclicBoundedVecIterator) result" where
  "CyclicBoundedVec_iter_from v start =
     (if start \<ge> CyclicBoundedVec_len v then Err IterFromOutOfBounds
      else Ok \<lparr>cbvi_vec = v, cbvi_current = start, cbvi_is_finished = False\<rparr>)"

definition CyclicBoundedVecIterator_next ::
  "'a CyclicBoundedVecIterator \<Rightarrow> 'a option \<times> 'a CyclicBoundedVecIterator" where
  "CyclicBoundedVecIterator_next it =
     (let v = cbvi_vec it in
      if CyclicBoundedVec_capacity v = 0 \<or> cbvi_is_finished it then (None, it)
      else let it1 = (if cbvi_current it = CyclicBoundedVec_last_index v
                      then it\<lparr>cbvi_is_finished := True\<rparr> else it);
               new_current = (cbvi_current it1 + 1) mod CyclicBoundedVec_capacity v;
               element = CyclicBoundedVec_get v (cbvi_current it1)
           in (element, it1\<lparr>cbvi_current := new_current\<rparr>))"

text \<open>
  Draining an iterator: \<open>next\<close> is called until it returns \<open>None\<close>.  \<open>fuel\<close> bounds the number of
  calls; \<open>Suc capacity\<close> calls always suffice for a vector that satisfies its invariant
  (\<open>cbv_collect_from\<close> below).
\<close>

fun CyclicBoundedVecIterator_collect :: "nat \<Rightarrow> 'a CyclicBoundedVecIterator \<Rightarrow> 'a list option" where
  "CyclicBoundedVecIterator_collect 0 it = None"
| "CyclicBoundedVecIterator_collect (Suc fuel) it =
     (case CyclicBoundedVecIterator_next it of
        (None, _) \<Rightarrow> Some []
      | (Some x, it') \<Rightarrow> map_option (Cons x) (CyclicBoundedVecIterator_collect fuel it'))"

definition CyclicBoundedVecIterator_drain :: "'a CyclicBoundedVecIterator \<Rightarrow> ('e, 'a list) result" where
  "CyclicBoundedVecIterator_drain it =
     unwrap_or_panic
       (CyclicBoundedVecIterator_collect (Suc (CyclicBoundedVec_capacity (cbvi_vec it))) it)"

definition CyclicBoundedVec_eq :: "'a CyclicBoundedVec \<Rightarrow> 'a CyclicBoundedVec \<Rightarrow> ('e, bool) result" where
  "CyclicBoundedVec_eq v w =
     and_then (CyclicBoundedVecIterator_drain (CyclicBoundedVec_iter v)) (\<lambda>xs.
       and_then (CyclicBoundedVecIterator_drain (CyclicBoundedVec_iter w)) (\<lambda>ys. Ok (xs = ys)))"

subsection \<open>Invariant and abstraction\<close>

definition cbv_inv :: "'a CyclicBoundedVec \<Rightarrow> bool" where
  [inv_defs]: "cbv_inv v \<longleftrightarrow>
     0 < CyclicBoundedVec_capacity v \<and>
     length (cbv_data v) = CyclicBoundedVec_capacity v \<and>
     CyclicBoundedVec_len v \<le> CyclicBoundedVec_capacity v \<and>
     CyclicBoundedVec_first_index v < CyclicBoundedVec_capacity v \<and>
     (CyclicBoundedVec_len v < CyclicBoundedVec_capacity v \<longrightarrow> CyclicBoundedVec_first_index v = 0) \<and>
     CyclicBoundedVec_last_index v =
       (if CyclicBoundedVec_len v = 0 then 0
        else (CyclicBoundedVec_first_index v + CyclicBoundedVec_len v - 1)
          mod CyclicBoundedVec_capacity v)"

text \<open>The elements from the oldest to the newest.\<close>

definition cbv_list :: "'a CyclicBoundedVec \<Rightarrow> 'a list" where
  "cbv_list v = map (\<lambda>k. cbv_data v !
      ((CyclicBoundedVec_first_index v + k) mod CyclicBoundedVec_capacity v))
    [0..<CyclicBoundedVec_len v]"

lemmas cbv_acc_defs = CyclicBoundedVec_len_def CyclicBoundedVec_capacity_def
  CyclicBoundedVec_first_index_def CyclicBoundedVec_last_index_def CyclicBoundedVec_inc_len_def
  CyclicBoundedVec_inc_first_index_def CyclicBoundedVec_inc_last_index_def
  CyclicBoundedVec_is_empty_def

lemma length_cbv_list [simp]: "length (cbv_list v) = CyclicBoundedVec_len v"
  by (simp add: cbv_list_def)

lemma nth_cbv_list:
  "k < CyclicBoundedVec_len v \<Longrightarrow> cbv_list v ! k =
     cbv_data v ! ((CyclicBoundedVec_first_index v + k) mod CyclicBoundedVec_capacity v)"
  by (simp add: cbv_list_def)

lemma cbv_with_capacity [simp]:
  "0 < c \<Longrightarrow> cbv_inv (CyclicBoundedVec_with_capacity c)"
  "cbv_list (CyclicBoundedVec_with_capacity c) = []"
  "CyclicBoundedVec_capacity (CyclicBoundedVec_with_capacity c) = c"
  "CyclicBoundedVec_len (CyclicBoundedVec_with_capacity c) = 0"
  "CyclicBoundedVec_last_index (CyclicBoundedVec_with_capacity c) = 0"
  by (simp_all add: cbv_inv_def cbv_list_def cbv_acc_defs CyclicBoundedVec_with_capacity_def
      CyclicBoundedVec_with_metadata_def CyclicBoundedVecMetadata_new_def)

lemma ring_pos_less:
  fixes f k l c :: nat
  assumes "k < l" "l < c"
  shows "(f + k) mod c \<noteq> (f + l) mod c"
proof
  assume "(f + k) mod c = (f + l) mod c"
  then have "c dvd l - k"
    using mod_eq_dvd_iff_nat [of "f + k" "f + l" c] assms(1) by simp
  then have "c \<le> l - k" using assms(1) by (intro dvd_imp_le) auto
  then show False using assms by simp
qed

lemma ring_pos_inj:
  fixes f k l c :: nat
  assumes "k < c" "l < c" "(f + k) mod c = (f + l) mod c"
  shows "k = l"
  using ring_pos_less [of k l c f] ring_pos_less [of l k c f] assms by (metis linorder_neqE_nat)

lemma cbv_push_room:
  assumes "cbv_inv v" "CyclicBoundedVec_len v < CyclicBoundedVec_capacity v"
  obtains v' where "CyclicBoundedVec_push v x = Ok v'" "cbv_inv v'"
    "cbv_list v' = cbv_list v @ [x]" "CyclicBoundedVec_capacity v' = CyclicBoundedVec_capacity v"
    "CyclicBoundedVec_last_index v' = CyclicBoundedVec_len v"
    "CyclicBoundedVec_len v' = Suc (CyclicBoundedVec_len v)"
proof -
  let ?n = "CyclicBoundedVec_len v" and ?m = "cbv_metadata v"
  define v' where "v' = v\<lparr>cbv_metadata := ?m\<lparr>cbvm_length := Suc ?n, cbvm_last_index := ?n\<rparr>,
    cbv_data := (cbv_data v)[?n := x]\<rparr>"
  have f: "CyclicBoundedVec_first_index v = 0" and d: "?n < length (cbv_data v)"
    using assms by (auto simp: cbv_inv_def)
  have l: "?n \<noteq> 0 \<Longrightarrow> CyclicBoundedVec_last_index v = ?n - 1"
    and l0: "?n = 0 \<Longrightarrow> CyclicBoundedVec_last_index v = 0"
    using assms f by (auto simp: cbv_inv_def)
  have m: "?n mod CyclicBoundedVec_capacity v = ?n" using assms(2) by simp
  have push: "CyclicBoundedVec_push v x = Ok v'"
    using l l0 d m assms(2) by (cases v; cases ?m)
      (auto simp: CyclicBoundedVec_push_def v'_def cbv_acc_defs write_at_def)
  have acc: "CyclicBoundedVec_capacity v' = CyclicBoundedVec_capacity v"
    "CyclicBoundedVec_len v' = Suc ?n" "CyclicBoundedVec_first_index v' = 0"
    "CyclicBoundedVec_last_index v' = ?n" "cbv_data v' = (cbv_data v)[?n := x]"
    using f by (simp_all add: v'_def cbv_acc_defs)
  have "cbv_list v' = cbv_list v @ [x]"
    using assms f d by (auto simp: list_eq_iff_nth_eq nth_append nth_cbv_list acc less_Suc_eq
        nth_list_update cbv_inv_def)
  moreover have "cbv_inv v'" using assms acc f by (auto simp: cbv_inv_def)
  ultimately show ?thesis using acc by (intro that [OF push]) simp_all
qed

lemma cbv_push_full:
  assumes "cbv_inv v" "CyclicBoundedVec_len v = CyclicBoundedVec_capacity v"
  obtains v' where "CyclicBoundedVec_push v x = Ok v'" "cbv_inv v'"
    "cbv_list v' = tl (cbv_list v) @ [x]" "CyclicBoundedVec_capacity v' = CyclicBoundedVec_capacity v"
    "CyclicBoundedVec_last_index v' = CyclicBoundedVec_first_index v"
    "CyclicBoundedVec_len v' = CyclicBoundedVec_len v"
proof -
  let ?c = "CyclicBoundedVec_capacity v" and ?f = "CyclicBoundedVec_first_index v"
    and ?m = "cbv_metadata v"
  define v' where "v' = v\<lparr>cbv_metadata := ?m\<lparr>cbvm_first_index := (?f + 1) mod ?c,
    cbvm_last_index := ?f\<rparr>, cbv_data := (cbv_data v)[?f := x]\<rparr>"
  have c: "0 < ?c" "?f < ?c" "?f < length (cbv_data v)" "length (cbv_data v) = ?c"
    using assms by (auto simp: cbv_inv_def)
  have l: "CyclicBoundedVec_last_index v = (?f + (?c - 1)) mod ?c"
    using assms c by (auto simp: cbv_inv_def)
  have l': "(CyclicBoundedVec_last_index v + 1) mod ?c = ?f"
    using c by (simp add: l mod_Suc_eq)
  have push: "CyclicBoundedVec_push v x = Ok v'"
    using l' c assms(2)
    by (simp add: CyclicBoundedVec_push_def v'_def cbv_acc_defs write_at_def)
  have acc: "CyclicBoundedVec_capacity v' = ?c" "CyclicBoundedVec_len v' = ?c"
    "CyclicBoundedVec_first_index v' = (?f + 1) mod ?c" "CyclicBoundedVec_last_index v' = ?f"
    "cbv_data v' = (cbv_data v)[?f := x]"
    using assms(2) by (simp_all add: v'_def cbv_acc_defs)
  have "cbv_list v' ! k = (tl (cbv_list v) @ [x]) ! k" if "k < ?c" for k
  proof -
    have pos: "((?f + 1) mod ?c + k) mod ?c = (?f + (k + 1)) mod ?c"
      by (simp add: mod_add_left_eq)
    have nth: "cbv_list v' ! k = (cbv_data v)[?f := x] ! ((?f + (k + 1)) mod ?c)"
      using that by (simp only: nth_cbv_list acc pos)
    show ?thesis
    proof (cases "k = ?c - 1")
      case True
      then have "(?f + (k + 1)) mod ?c = ?f" using c by simp
      then show ?thesis using True that c assms(2) unfolding nth by (simp add: nth_append)
    next
      case False
      then have k: "k + 1 < ?c" "k < ?c - 1" using that by simp_all
      have "(?f + (k + 1)) mod ?c \<noteq> (?f + 0) mod ?c"
        by (metis k(1) ring_pos_less zero_less_Suc Suc_eq_plus1)
      then have "(?f + (k + 1)) mod ?c \<noteq> ?f" using c by simp
      then show ?thesis using k assms(2) unfolding nth
        by (simp add: nth_append nth_tl nth_cbv_list)
    qed
  qed
  then have "cbv_list v' = tl (cbv_list v) @ [x]"
    using c assms(2) by (intro nth_equalityI) (simp_all add: acc)
  moreover have "((?f + 1) mod ?c + ?c - 1) mod ?c = ?f"
  proof -
    have "((?f + 1) mod ?c + ?c - 1) mod ?c = ((?f + 1) mod ?c + (?c - 1)) mod ?c"
      using c by simp
    also have "\<dots> = (?f + 1 + (?c - 1)) mod ?c" by (rule mod_add_left_eq)
    finally show ?thesis using c by simp
  qed
  then have "cbv_inv v'" using assms acc c by (simp add: cbv_inv_def)
  ultimately show ?thesis using acc assms(2) by (intro that [OF push]) simp_all
qed

lemma cbv_push:
  assumes "cbv_inv v"
  shows "\<exists>v'. CyclicBoundedVec_push v x = Ok v' \<and> cbv_inv v' \<and>
    cbv_list v' = take_last (CyclicBoundedVec_capacity v) (cbv_list v @ [x]) \<and>
    CyclicBoundedVec_capacity v' = CyclicBoundedVec_capacity v"
proof (cases "CyclicBoundedVec_len v < CyclicBoundedVec_capacity v")
  case True
  then show ?thesis using cbv_push_room [OF assms True, of x] by (metis length_append_singleton
      length_cbv_list Suc_leI take_last_all)
next
  case False
  then have l: "CyclicBoundedVec_len v = CyclicBoundedVec_capacity v" "0 < CyclicBoundedVec_capacity v"
    using assms by (auto simp: cbv_inv_def)
  then show ?thesis using cbv_push_full [OF assms l(1), of x] take_last_full [OF l(2), of "cbv_list v" x]
    by (metis length_cbv_list)
qed

subsection \<open>Reads and iteration\<close>

lemma cbv_pos_lt_len:
  assumes "cbv_inv v" "k < CyclicBoundedVec_len v"
  shows "(CyclicBoundedVec_first_index v + k) mod CyclicBoundedVec_capacity v < CyclicBoundedVec_len v"
  using assms by (cases "CyclicBoundedVec_len v < CyclicBoundedVec_capacity v") (auto simp: cbv_inv_def)

lemma cbv_get_pos:
  assumes "cbv_inv v" "k < CyclicBoundedVec_len v"
  shows "CyclicBoundedVec_get v
    ((CyclicBoundedVec_first_index v + k) mod CyclicBoundedVec_capacity v) = Some (cbv_list v ! k)"
  using cbv_pos_lt_len [OF assms] assms(2) by (simp add: CyclicBoundedVec_get_def nth_cbv_list)

lemma cbv_last_index_pos:
  assumes "cbv_inv v" "0 < CyclicBoundedVec_len v"
  shows "CyclicBoundedVec_last_index v =
    (CyclicBoundedVec_first_index v + (CyclicBoundedVec_len v - 1)) mod CyclicBoundedVec_capacity v"
  using assms by (auto simp: cbv_inv_def)

lemma cbv_last:
  assumes "cbv_inv v" "cbv_list v \<noteq> []"
  shows "CyclicBoundedVec_last v = Some (last (cbv_list v))"
proof -
  have "0 < CyclicBoundedVec_len v" using assms(2) by (metis length_cbv_list length_greater_0_conv)
  then show ?thesis
    using cbv_get_pos [OF assms(1), of "CyclicBoundedVec_len v - 1"] assms(2)
    by (simp add: CyclicBoundedVec_last_def cbv_last_index_pos [OF assms(1)] last_conv_nth)
qed

lemma cbv_first:
  assumes "cbv_inv v" "cbv_list v \<noteq> []"
  shows "CyclicBoundedVec_first v = Some (hd (cbv_list v))"
proof -
  have l: "0 < CyclicBoundedVec_len v" using assms(2) by (metis length_cbv_list length_greater_0_conv)
  have "CyclicBoundedVec_first_index v < CyclicBoundedVec_capacity v"
    using assms(1) by (simp add: cbv_inv_def)
  then show ?thesis
    using cbv_get_pos [OF assms(1) l] assms(2)
    by (simp add: CyclicBoundedVec_first_def hd_conv_nth)
qed

lemma cbv_index_last:
  "cbv_inv v \<Longrightarrow> cbv_list v \<noteq> [] \<Longrightarrow>
    CyclicBoundedVec_index v (CyclicBoundedVec_last_index v) = Ok (last (cbv_list v))"
  using cbv_last [of v] by (simp add: CyclicBoundedVec_index_def CyclicBoundedVec_last_def)

text \<open>Overwriting the newest element, as \<open>append\<close> does with the changelog entry it has pushed.\<close>

lemma cbv_set_last:
  assumes "cbv_inv v" "cbv_list v \<noteq> []"
  shows "\<exists>v'. CyclicBoundedVec_index_set v (CyclicBoundedVec_last_index v) x = Ok v' \<and> cbv_inv v' \<and>
    cbv_list v' = butlast (cbv_list v) @ [x] \<and> cbv_metadata v' = cbv_metadata v"
proof -
  let ?p = "\<lambda>k. (CyclicBoundedVec_first_index v + k) mod CyclicBoundedVec_capacity v"
  let ?n = "CyclicBoundedVec_len v"
  define v' where "v' = v\<lparr>cbv_data := (cbv_data v)[CyclicBoundedVec_last_index v := x]\<rparr>"
  have n: "0 < ?n" using assms(2) by (metis length_cbv_list length_greater_0_conv)
  have l: "CyclicBoundedVec_last_index v = ?p (?n - 1)" using cbv_last_index_pos [OF assms(1) n] .
  have acc: "CyclicBoundedVec_len v' = ?n" "cbv_metadata v' = cbv_metadata v"
    "CyclicBoundedVec_first_index v' = CyclicBoundedVec_first_index v"
    "CyclicBoundedVec_capacity v' = CyclicBoundedVec_capacity v"
    "cbv_data v' = (cbv_data v)[?p (?n - 1) := x]"
    using l by (simp_all add: v'_def cbv_acc_defs)
  have set: "CyclicBoundedVec_index_set v (CyclicBoundedVec_last_index v) x = Ok v'"
    using cbv_pos_lt_len [OF assms(1), of "?n - 1"] n
    by (simp add: CyclicBoundedVec_index_set_def CyclicBoundedVec_get_mut_set_def v'_def l)
  have inv: "cbv_inv v'" using assms(1) by (simp add: v'_def cbv_inv_def cbv_acc_defs)
  have dl: "?n \<le> length (cbv_data v)" "?p (?n - 1) < length (cbv_data v)"
    using assms(1) n by (auto simp: cbv_inv_def)
  have "cbv_list v' ! k = (butlast (cbv_list v) @ [x]) ! k" if "k < ?n" for k
  proof (cases "k = ?n - 1")
    case True
    then show ?thesis using that dl n
      by (simp add: nth_cbv_list acc nth_append)
  next
    case False
    then have "k < ?n - 1" using that by simp
    moreover have "?p k \<noteq> ?p (?n - 1)"
      using calculation assms(1) by (intro ring_pos_less) (auto simp: cbv_inv_def)
    ultimately show ?thesis using that
      by (simp add: nth_cbv_list acc nth_append nth_butlast)
  qed
  then have "cbv_list v' = butlast (cbv_list v) @ [x]"
    using n by (intro nth_equalityI) (simp_all add: acc)
  with set inv acc show ?thesis by blast
qed

lemma cbv_collect_from:
  assumes "cbv_inv v" "k < CyclicBoundedVec_len v" "CyclicBoundedVec_len v - k < fuel"
  shows "CyclicBoundedVecIterator_collect fuel
    \<lparr>cbvi_vec = v,
     cbvi_current = (CyclicBoundedVec_first_index v + k) mod CyclicBoundedVec_capacity v,
     cbvi_is_finished = False\<rparr> = Some (drop k (cbv_list v))"
  using assms(2,3)
proof (induction fuel arbitrary: k)
  case (Suc fuel)
  let ?p = "\<lambda>k. (CyclicBoundedVec_first_index v + k) mod CyclicBoundedVec_capacity v"
  let ?n = "CyclicBoundedVec_len v"
  have c: "0 < CyclicBoundedVec_capacity v" "?n \<le> CyclicBoundedVec_capacity v"
    using assms(1) by (auto simp: cbv_inv_def)
  have l: "CyclicBoundedVec_last_index v = ?p (?n - 1)"
    using cbv_last_index_pos [OF assms(1)] Suc.prems(1) by simp
  have d: "drop k (cbv_list v) = cbv_list v ! k # drop (Suc k) (cbv_list v)"
    using Suc.prems(1) by (simp add: Cons_nth_drop_Suc)
  have s: "Suc (?p k) mod CyclicBoundedVec_capacity v = ?p (Suc k)"
    by (simp add: mod_Suc_eq)
  show ?case
  proof (cases "k = ?n - 1")
    case True
    obtain g where "fuel = Suc g" using Suc.prems by (cases fuel) auto
    moreover have "CyclicBoundedVec_last_index v = ?p k" "drop (Suc k) (cbv_list v) = []"
      using True l Suc.prems(1) by simp_all
    ultimately show ?thesis using c cbv_get_pos [OF assms(1) Suc.prems(1)]
      by (simp add: CyclicBoundedVecIterator_next_def Let_def d)
  next
    case False
    then have k: "Suc k < ?n" using Suc.prems(1) by simp
    have "?p k \<noteq> ?p (?n - 1)" using k c by (intro ring_pos_less) auto
    moreover have "?n - Suc k < fuel" using Suc.prems by simp
    ultimately show ?thesis using Suc.IH [OF k] c cbv_get_pos [OF assms(1) Suc.prems(1)]
      by (simp add: CyclicBoundedVecIterator_next_def Let_def l d s)
  qed
qed simp

text \<open>The logical position (0 is the oldest element) of a physical index.\<close>

definition cbv_logical :: "'a CyclicBoundedVec \<Rightarrow> nat \<Rightarrow> nat" where
  "cbv_logical v i =
     (i + CyclicBoundedVec_capacity v - CyclicBoundedVec_first_index v) mod CyclicBoundedVec_capacity v"

lemma cbv_logical:
  assumes "cbv_inv v" "i < CyclicBoundedVec_len v"
  shows "cbv_logical v i < CyclicBoundedVec_len v"
    "(CyclicBoundedVec_first_index v + cbv_logical v i) mod CyclicBoundedVec_capacity v = i"
proof -
  let ?c = "CyclicBoundedVec_capacity v" and ?f = "CyclicBoundedVec_first_index v"
  have i: "i < ?c" "?f < ?c" using assms by (auto simp: cbv_inv_def)
  show "cbv_logical v i < CyclicBoundedVec_len v"
    using assms i by (cases "CyclicBoundedVec_len v < ?c") (auto simp: cbv_inv_def cbv_logical_def)
  have "(?f + (i + ?c - ?f) mod ?c) mod ?c = (?f + (i + ?c - ?f)) mod ?c"
    by (simp add: mod_add_right_eq)
  also have "\<dots> = i" using i by simp
  finally show "(?f + cbv_logical v i) mod ?c = i" by (simp add: cbv_logical_def)
qed

lemma cbv_drain_iter_from:
  assumes "cbv_inv v" "i < CyclicBoundedVec_len v"
  shows "and_then (CyclicBoundedVec_iter_from v i) CyclicBoundedVecIterator_drain =
    Ok (drop (cbv_logical v i) (cbv_list v))"
proof -
  have "CyclicBoundedVec_len v - cbv_logical v i < Suc (CyclicBoundedVec_capacity v)"
    using assms(1) unfolding cbv_inv_def by linarith
  from cbv_collect_from [OF assms(1) cbv_logical(1) [OF assms] this] show ?thesis
    using assms(2) cbv_logical(2) [OF assms]
    by (simp add: CyclicBoundedVec_iter_from_def CyclicBoundedVecIterator_drain_def
        del: CyclicBoundedVecIterator_collect.simps)
qed

lemma cbv_drain_iter:
  assumes "cbv_inv v"
  shows "CyclicBoundedVecIterator_drain (CyclicBoundedVec_iter v) = Ok (cbv_list v)"
proof (cases "CyclicBoundedVec_len v = 0")
  case True
  then have "CyclicBoundedVec_get v i = None" for i by (simp add: CyclicBoundedVec_get_def)
  with True show ?thesis
    by (simp add: CyclicBoundedVecIterator_drain_def CyclicBoundedVec_iter_def
        CyclicBoundedVecIterator_next_def Let_def cbv_list_def)
next
  case False
  moreover have "CyclicBoundedVec_len v \<le> CyclicBoundedVec_capacity v"
    "CyclicBoundedVec_first_index v < CyclicBoundedVec_capacity v"
    using assms by (auto simp: cbv_inv_def)
  ultimately show ?thesis
    using cbv_collect_from [OF assms, of 0 "Suc (CyclicBoundedVec_capacity v)"]
    by (simp add: CyclicBoundedVecIterator_drain_def CyclicBoundedVec_iter_def
        del: CyclicBoundedVecIterator_collect.simps)
qed


section \<open>The contract of a ring buffer\<close>

locale ring_buffer =
  fixes push :: "'v \<Rightarrow> 'a \<Rightarrow> ('e, 'v) result"
    and contents :: "'v \<Rightarrow> 'a list"
    and capacity :: "'v \<Rightarrow> nat"
    and invar :: "'v \<Rightarrow> bool"
  assumes push_history: "invar v \<Longrightarrow>
      \<exists>v'. push v x = Ok v' \<and> invar v' \<and>
        contents v' = take_last (capacity v) (contents v @ [x]) \<and> capacity v' = capacity v"
    and bounded: "invar v \<Longrightarrow> 0 < capacity v \<and> length (contents v) \<le> capacity v"
begin

lemma push_Ok:
  assumes "invar v"
  obtains v' where "push v x = Ok v'" "invar v'" "contents v' \<noteq> []" "last (contents v') = x"
    "contents v' = take_last (capacity v) (contents v @ [x])" "capacity v' = capacity v"
proof -
  obtain v' where v': "push v x = Ok v'" "invar v'"
    "contents v' = take_last (capacity v) (contents v @ [x])" "capacity v' = capacity v"
    using push_history [OF assms] by blast
  have "0 < capacity v" using bounded [OF assms] by simp
  then have "length (contents v') \<noteq> 0" "last (contents v') = x"
    unfolding v'(3) by (simp_all add: last_take_last)
  then have "contents v' \<noteq> []" "last (contents v') = x" by auto
  from that [OF v'(1,2) this v'(3,4)] show ?thesis .
qed

lemma push_inv:
  assumes "push v x = Ok v'" "invar v"
  shows "invar v'" "contents v' \<noteq> []" "last (contents v') = x"
    "contents v' = take_last (capacity v) (contents v @ [x])" "capacity v' = capacity v"
proof -
  obtain w where w: "push v x = Ok w" "invar w" "contents w \<noteq> []" "last (contents w) = x"
    "contents w = take_last (capacity v) (contents v @ [x])" "capacity w = capacity v"
    by (rule push_Ok [OF assms(2)])
  have "w = v'" using w(1) assms(1) by simp
  then show "invar v'" "contents v' \<noteq> []" "last (contents v') = x"
    "contents v' = take_last (capacity v) (contents v @ [x])" "capacity v' = capacity v"
    using w(2-6) by simp_all
qed

lemma push_all_history:
  assumes "invar v"
  shows "\<exists>v'. try_fold push v xs = Ok v' \<and> invar v' \<and>
    contents v' = take_last (capacity v) (contents v @ xs) \<and> capacity v' = capacity v"
proof (induction xs rule: rev_induct)
  case Nil
  then show ?case using assms bounded by simp
next
  case (snoc x xs)
  then obtain w where w: "try_fold push v xs = Ok w" "invar w"
    "contents w = take_last (capacity v) (contents v @ xs)" "capacity w = capacity v" by blast
  obtain u where u: "push w x = Ok u" "invar u"
    "contents u = take_last (capacity w) (contents w @ [x])" "capacity u = capacity w"
    using push_history [OF w(2)] by blast
  have "contents u = take_last (capacity v) (contents v @ xs @ [x])"
    using u(3) w(3,4) take_last_snoc [of "capacity v" "contents v @ xs" x] by simp
  then show ?case using u w by (simp add: try_fold_append)
qed

end

interpretation cbvr: ring_buffer CyclicBoundedVec_push cbv_list CyclicBoundedVec_capacity cbv_inv
proof (unfold_locales, goal_cases)
  case (1 v x)
  then show ?case by (rule cbv_push)
next
  case (2 v)
  then show ?case by (simp add: cbv_inv_def)
qed


section \<open>Physical positions after a run of pushes\<close>

text \<open>
  \<open>cbv_pushed v xs v'\<close>: \<open>v'\<close> is \<open>v\<close> after pushing \<open>xs\<close>.  Clients keep physical indices across
  pushes (a changelog index in a Merkle proof, the first index of a batch), so the relation also
  says where the newest element went.
\<close>

definition cbv_pushed :: "'a CyclicBoundedVec \<Rightarrow> 'a list \<Rightarrow> 'a CyclicBoundedVec \<Rightarrow> bool" where
  "cbv_pushed v xs v' \<longleftrightarrow> cbv_inv v' \<and>
     CyclicBoundedVec_capacity v' = CyclicBoundedVec_capacity v \<and>
     cbv_list v' = take_last (CyclicBoundedVec_capacity v) (cbv_list v @ xs) \<and>
     CyclicBoundedVec_last_index v' =
       (CyclicBoundedVec_last_index v + length xs) mod CyclicBoundedVec_capacity v"

lemma cbv_last_index_less: "cbv_inv v \<Longrightarrow> CyclicBoundedVec_last_index v < CyclicBoundedVec_capacity v"
  by (auto simp: cbv_inv_def)

lemma cbv_len_le: "cbv_inv v \<Longrightarrow> CyclicBoundedVec_len v \<le> CyclicBoundedVec_capacity v"
  by (simp add: cbv_inv_def)

lemma cbv_list_nonempty: "cbv_list v \<noteq> [] \<longleftrightarrow> 0 < CyclicBoundedVec_len v"
  by (metis length_cbv_list length_greater_0_conv)

lemma cbv_pushed_refl: "cbv_inv v \<Longrightarrow> cbv_pushed v [] v"
  using cbv_last_index_less [of v] by (simp add: cbv_pushed_def cbv_len_le)

lemma take_last_append: "take_last c (take_last c as @ ys) = take_last c (as @ ys)"
proof (induction ys rule: rev_induct)
  case (snoc y ys)
  have "take_last c (take_last c as @ ys @ [y]) = take_last c (take_last c (take_last c as @ ys) @ [y])"
    using take_last_snoc [of c "take_last c as @ ys" y] by simp
  also have "\<dots> = take_last c ((as @ ys) @ [y])"
    unfolding snoc by (rule take_last_snoc)
  finally show ?case by simp
qed simp

lemma cbv_pushed_trans:
  assumes "cbv_pushed v xs w" "cbv_pushed w ys u"
  shows "cbv_pushed v (xs @ ys) u"
  using assms take_last_append [of "CyclicBoundedVec_capacity v" "cbv_list v @ xs" ys]
  by (simp add: cbv_pushed_def mod_add_left_eq add.assoc)

lemma cbv_last_index_push:
  assumes "CyclicBoundedVec_push v x = (Ok v' :: ('e, _) result)" "cbv_list v \<noteq> []"
  shows "CyclicBoundedVec_last_index v' =
    (CyclicBoundedVec_last_index v + 1) mod CyclicBoundedVec_capacity v"
  using assms by (auto simp: CyclicBoundedVec_push_def cbv_acc_defs res_simps cbv_list_nonempty
      split: if_splits)

lemma cbv_push_pushed:
  assumes "cbv_inv v" "cbv_list v \<noteq> []"
  shows "\<exists>v'. CyclicBoundedVec_push v x = (Ok v' :: ('e, _) result) \<and> cbv_pushed v [x] v' \<and>
    cbv_list v' \<noteq> [] \<and> last (cbv_list v') = x"
proof -
  obtain v' where v': "CyclicBoundedVec_push v x = (Ok v' :: ('e, _) result)" "cbv_inv v'"
    "cbv_list v' \<noteq> []" "last (cbv_list v') = x"
    "cbv_list v' = take_last (CyclicBoundedVec_capacity v) (cbv_list v @ [x])"
    "CyclicBoundedVec_capacity v' = CyclicBoundedVec_capacity v"
    by (rule cbvr.push_Ok [OF assms(1)])
  with cbv_last_index_push [OF v'(1) assms(2)] show ?thesis by (auto simp: cbv_pushed_def)
qed

text \<open>Overwriting the newest element turns a push of \<open>x\<close> into a push of \<open>y\<close>.\<close>

lemma butlast_take_last:
  "0 < n \<Longrightarrow> butlast (take_last n (xs @ [x])) @ [y] = take_last n (xs @ [y])"
  by (cases "length xs < n")
    (auto simp: take_last_def butlast_append drop_append Suc_diff_le not_less)

lemma cbv_pushed_set_last:
  assumes "cbv_pushed v [x] w"
  shows "\<exists>u. CyclicBoundedVec_index_set w (CyclicBoundedVec_last_index w) y = (Ok u :: ('e, _) result) \<and>
    cbv_pushed v [y] u \<and> CyclicBoundedVec_last_index u = CyclicBoundedVec_last_index w"
proof -
  have w: "cbv_inv w" "cbv_list w = take_last (CyclicBoundedVec_capacity v) (cbv_list v @ [x])"
    "CyclicBoundedVec_capacity w = CyclicBoundedVec_capacity v" "0 < CyclicBoundedVec_capacity v"
    using assms by (auto simp: cbv_pushed_def cbv_inv_def)
  then have "length (cbv_list w) \<noteq> 0" unfolding w(2) by simp
  then have "cbv_list w \<noteq> []" by (metis list.size(3))
  from cbv_set_last [OF w(1) this, of y, where ?'b = 'e] obtain u where
    u: "CyclicBoundedVec_index_set w (CyclicBoundedVec_last_index w) y = (Ok u :: ('e, _) result)"
    "cbv_inv u" "cbv_list u = butlast (cbv_list w) @ [y]" "cbv_metadata u = cbv_metadata w" by blast
  have "cbv_list u = take_last (CyclicBoundedVec_capacity v) (cbv_list v @ [y])"
    unfolding u(3) w(2) by (rule butlast_take_last [OF w(4)])
  moreover have "CyclicBoundedVec_capacity u = CyclicBoundedVec_capacity v"
    "CyclicBoundedVec_last_index u = CyclicBoundedVec_last_index w"
    using u(4) w(3) by (simp_all add: cbv_acc_defs)
  ultimately show ?thesis using u(1,2) assms by (auto simp: cbv_pushed_def)
qed

text \<open>The element \<open>s\<close> steps before the newest one.\<close>

lemma cbv_steps_back:
  assumes "cbv_inv v" "s < CyclicBoundedVec_len v" "p < CyclicBoundedVec_capacity v"
    and "(p + s) mod CyclicBoundedVec_capacity v = CyclicBoundedVec_last_index v"
  shows "CyclicBoundedVec_get v p = Some (cbv_list v ! (CyclicBoundedVec_len v - 1 - s))"
    and "p < CyclicBoundedVec_len v"
    and "cbv_logical v p = CyclicBoundedVec_len v - 1 - s"
proof -
  let ?c = "CyclicBoundedVec_capacity v" and ?f = "CyclicBoundedVec_first_index v"
  let ?k = "CyclicBoundedVec_len v - 1 - s"
  have c: "0 < ?c" "?f < ?c" "CyclicBoundedVec_len v \<le> ?c" using assms(1) by (auto simp: cbv_inv_def)
  have k: "?k < CyclicBoundedVec_len v" using assms(2) by simp
  have "((?f + ?k) mod ?c + s) mod ?c = (?f + (CyclicBoundedVec_len v - 1)) mod ?c"
    using assms(2) by (simp add: mod_add_left_eq)
  also have "\<dots> = (p + s) mod ?c" using assms cbv_last_index_pos [OF assms(1)] by simp
  finally have "(s + (?f + ?k) mod ?c) mod ?c = (s + p) mod ?c" by (simp add: add.commute)
  then have p: "(?f + ?k) mod ?c = p" using c assms(3) by (intro ring_pos_inj [of _ ?c p s]) auto
  show "CyclicBoundedVec_get v p = Some (cbv_list v ! ?k)" using cbv_get_pos [OF assms(1) k] p by simp
  show pl: "p < CyclicBoundedVec_len v" using cbv_pos_lt_len [OF assms(1) k] p by simp
  have lt: "cbv_logical v p < ?c" "?k < ?c" using cbv_logical(1) [OF assms(1) pl] k c(3) by linarith+
  have "(?f + cbv_logical v p) mod ?c = (?f + ?k) mod ?c"
    unfolding cbv_logical(2) [OF assms(1) pl] p ..
  with lt show "cbv_logical v p = ?k" by (rule ring_pos_inj)
qed

lemma cbv_pushed_index:
  assumes "cbv_pushed v xs v'" "cbv_inv v" "length xs \<le> CyclicBoundedVec_capacity v" "i < length xs"
  shows "CyclicBoundedVec_index v'
    ((CyclicBoundedVec_last_index v + 1 + i) mod CyclicBoundedVec_capacity v) = Ok (xs ! i)"
proof -
  let ?c = "CyclicBoundedVec_capacity v" and ?s = "length xs - 1 - i"
  let ?p = "(CyclicBoundedVec_last_index v + 1 + i) mod ?c"
  have v': "cbv_inv v'" "CyclicBoundedVec_capacity v' = ?c"
    "cbv_list v' = take_last ?c (cbv_list v @ xs)"
    "CyclicBoundedVec_last_index v' = (CyclicBoundedVec_last_index v + length xs) mod ?c"
    using assms(1) by (auto simp: cbv_pushed_def)
  have l: "CyclicBoundedVec_len v' = min ?c (CyclicBoundedVec_len v + length xs)"
    using arg_cong [OF v'(3), of length] by simp
  have "(?p + ?s) mod ?c = (CyclicBoundedVec_last_index v + 1 + i + ?s) mod ?c"
    by (rule mod_add_left_eq)
  also have "CyclicBoundedVec_last_index v + 1 + i + ?s = CyclicBoundedVec_last_index v + length xs"
    using assms(4) by simp
  also note v'(4) [symmetric]
  finally have "(?p + ?s) mod ?c = CyclicBoundedVec_last_index v'" .
  moreover have "?s < CyclicBoundedVec_len v'" "?p < ?c"
    using assms(3,4) l cbv_last_index_less [OF assms(2)] by auto
  ultimately have "CyclicBoundedVec_get v' ?p = Some (cbv_list v' ! (CyclicBoundedVec_len v' - 1 - ?s))"
    using cbv_steps_back(1) [OF v'(1), of ?s ?p] v'(2) by simp
  moreover have "cbv_list v' ! (CyclicBoundedVec_len v' - 1 - ?s) = xs ! i"
    unfolding v'(3) l using assms(3,4) by (auto simp: take_last_def nth_append min_def)
  ultimately show ?thesis by (simp add: CyclicBoundedVec_index_def)
qed

lemma cbv_pushed_iter_from:
  assumes "cbv_pushed v xs v'" "cbv_inv v" "cbv_list v \<noteq> []" "length xs < CyclicBoundedVec_capacity v"
  shows "and_then (CyclicBoundedVec_iter_from v' (CyclicBoundedVec_last_index v))
    CyclicBoundedVecIterator_drain = Ok (last (cbv_list v) # xs)"
proof -
  let ?c = "CyclicBoundedVec_capacity v" and ?s = "length xs" and ?p = "CyclicBoundedVec_last_index v"
  have v': "cbv_inv v'" "CyclicBoundedVec_capacity v' = ?c"
    "cbv_list v' = take_last ?c (cbv_list v @ xs)"
    "CyclicBoundedVec_last_index v' = (CyclicBoundedVec_last_index v + length xs) mod ?c"
    using assms(1) by (auto simp: cbv_pushed_def)
  have l: "CyclicBoundedVec_len v' = min ?c (CyclicBoundedVec_len v + length xs)"
    using arg_cong [OF v'(3), of length] by simp
  have n: "0 < CyclicBoundedVec_len v" "CyclicBoundedVec_len v \<le> ?c"
    using assms(2,3) by (simp_all add: cbv_list_nonempty cbv_len_le)
  have "?s < CyclicBoundedVec_len v'" "?p < ?c"
    using assms(4) l n cbv_last_index_less [OF assms(2)] by auto
  then have p: "?p < CyclicBoundedVec_len v'" "cbv_logical v' ?p = CyclicBoundedVec_len v' - 1 - ?s"
    using cbv_steps_back(2,3) [OF v'(1), of ?s ?p] v'(2,4) by simp_all
  have d: "drop (CyclicBoundedVec_len v - 1) (cbv_list v) = [last (cbv_list v)]"
    using n by (simp add: last_conv_nth assms(3) Cons_nth_drop_Suc [symmetric])
  have "drop (CyclicBoundedVec_len v' - 1 - ?s) (cbv_list v') = last (cbv_list v) # xs"
  proof (cases "CyclicBoundedVec_len v + length xs \<le> ?c")
    case True
    then show ?thesis unfolding v'(3) l using d n by (simp add: take_last_def)
  next
    case False
    then have "CyclicBoundedVec_len v + ?s - ?c + (?c - Suc ?s) = CyclicBoundedVec_len v - 1"
      using assms(4) by simp
    then show ?thesis unfolding v'(3) l using d n False by (simp add: take_last_def add.commute)
  qed
  with cbv_drain_iter_from [OF v'(1) p(1)] p(2) show ?thesis by simp
qed


section \<open>Properties\<close>

text \<open>
  C35. A \<open>CyclicBoundedVec\<close> of positive capacity remembers exactly the newest elements: after any
  sequence of pushes none of which panics, iterating it yields the last \<open>capacity\<close> pushed elements
  from the oldest to the newest.
\<close>

theorem cyclic_vec_keeps_newest:
  assumes "0 < c"
  shows "\<exists>v. try_fold CyclicBoundedVec_push (CyclicBoundedVec_with_capacity c) xs =
      (Ok v :: (BoundedVecError, _) result) \<and>
    CyclicBoundedVecIterator_drain (CyclicBoundedVec_iter v) =
      (Ok (take_last c xs) :: (BoundedVecError, _) result) \<and>
    CyclicBoundedVec_len v = min c (length xs) \<and>
    (xs \<noteq> [] \<longrightarrow> CyclicBoundedVec_last v = Some (last xs))"
proof -
  obtain v where v: "try_fold CyclicBoundedVec_push (CyclicBoundedVec_with_capacity c) xs =
      (Ok v :: (BoundedVecError, _) result)" "cbv_inv v" "cbv_list v = take_last c xs"
    using cbvr.push_all_history [of "CyclicBoundedVec_with_capacity c" xs] assms by auto
  have "CyclicBoundedVec_len v = min c (length xs)"
    using v(3) by (metis length_cbv_list length_take_last)
  moreover have "CyclicBoundedVec_last v = Some (last xs)" if "xs \<noteq> []"
  proof -
    have "cbv_list v \<noteq> []"
      using that assms v(3) by (metis length_take_last length_greater_0_conv min_less_iff_conj)
    then show ?thesis using cbv_last [OF v(2)] v(3) last_take_last [OF assms that] by simp
  qed
  ultimately show ?thesis
    using v cbv_drain_iter [OF v(2)] by (intro exI [of _ v]) simp
qed

theorem cyclic_vec_keeps_newest_witness:
  "\<exists>v. try_fold CyclicBoundedVec_push (CyclicBoundedVec_with_capacity 3) [1, 2, 3, 4, 5 :: nat] =
     (Ok v :: (BoundedVecError, _) result) \<and>
   CyclicBoundedVecIterator_drain (CyclicBoundedVec_iter v) = (Ok [3, 4, 5] :: (BoundedVecError, _) result)"
proof -
  have "take_last 3 [1, 2, 3, 4, 5 :: nat] = [3, 4, 5]" by (simp add: take_last_def)
  then show ?thesis using cyclic_vec_keeps_newest [of 3 "[1, 2, 3, 4, 5 :: nat]"]
    by (metis zero_less_numeral)
qed

text \<open>
  \<open>iter_from\<close> starts at a physical index and yields the element stored there and every newer
  one, in order, wrapping around the end of the allocation; an index that holds no element is
  rejected.  This is what the concurrent tree's changelog replay and the indexed tree's patching
  rely on.
\<close>

theorem cyclic_vec_iter_from_suffix:
  assumes "cbv_inv v"
  shows "if i < CyclicBoundedVec_len v
    then \<exists>k < CyclicBoundedVec_len v. CyclicBoundedVec_get v i = Some (cbv_list v ! k) \<and>
      and_then (CyclicBoundedVec_iter_from v i) CyclicBoundedVecIterator_drain =
        Ok (drop k (cbv_list v)) \<and>
      (i = CyclicBoundedVec_last_index v \<longrightarrow> drop k (cbv_list v) = [last (cbv_list v)])
    else CyclicBoundedVec_iter_from v i = Err IterFromOutOfBounds"
proof (cases "i < CyclicBoundedVec_len v")
  case True
  let ?k = "cbv_logical v i" and ?n = "CyclicBoundedVec_len v"
  note k = cbv_logical [OF assms True]
  have get: "CyclicBoundedVec_get v i = Some (cbv_list v ! ?k)"
    using cbv_get_pos [OF assms k(1)] unfolding k(2) .
  have "drop ?k (cbv_list v) = [last (cbv_list v)]" if "i = CyclicBoundedVec_last_index v"
  proof -
    have "?n \<le> CyclicBoundedVec_capacity v" "0 < ?n" using assms True by (auto simp: cbv_inv_def)
    then have "?k = ?n - 1"
      using ring_pos_inj [of ?k "CyclicBoundedVec_capacity v" "?n - 1" "CyclicBoundedVec_first_index v"]
        k(1) cbv_last_index_pos [OF assms] that unfolding k(2) by linarith
    moreover have "cbv_list v \<noteq> []" using True by (metis length_cbv_list list.size(3) not_less_zero)
    ultimately show ?thesis
      by (metis append_butlast_last_id append_eq_conv_conj length_butlast length_cbv_list)
  qed
  then show ?thesis using True k(1) get cbv_drain_iter_from [OF assms True] by auto
next
  case False
  then show ?thesis by (simp add: CyclicBoundedVec_iter_from_def)
qed

theorem cyclic_vec_iter_from_suffix_witness:
  "\<exists>v. try_fold CyclicBoundedVec_push (CyclicBoundedVec_with_capacity 2) [7, 8, 9 :: nat] =
     (Ok v :: (BoundedVecError, _) result) \<and> cbv_inv v \<and>
     CyclicBoundedVec_iter_from v 2 = Err IterFromOutOfBounds"
proof -
  obtain v where v: "try_fold CyclicBoundedVec_push (CyclicBoundedVec_with_capacity 2) [7, 8, 9 :: nat] =
     (Ok v :: (BoundedVecError, _) result)" "cbv_inv v" "cbv_list v = take_last 2 [7, 8, 9]"
    using cbvr.push_all_history [of "CyclicBoundedVec_with_capacity 2" "[7, 8, 9 :: nat]"] by auto
  have "length (cbv_list v) = 2" unfolding v(3) by simp
  then have "\<not> 2 < CyclicBoundedVec_len v" by simp
  then have "CyclicBoundedVec_iter_from v 2 = Err IterFromOutOfBounds"
    using cyclic_vec_iter_from_suffix [OF v(2), of 2] by simp
  then show ?thesis using v(1,2) by blast
qed

text \<open>
  \<open>BoundedVec::extend\<close> never exceeds the allocation: it appends the longest prefix of the
  input that fits, and reports \<open>Full\<close> exactly when something was left over; the invariant and the
  capacity are kept on both outcomes.
\<close>

lemma bounded_vec_extend:
  assumes "bv_inv v"
  shows "case BoundedVec_extend v xs of (v', r) \<Rightarrow>
    bv_inv v' \<and> BoundedVec_capacity v' = BoundedVec_capacity v \<and>
    BoundedVec_as_slice v' =
      BoundedVec_as_slice v @ take (BoundedVec_capacity v - BoundedVec_len v) xs \<and>
    r = (if length xs \<le> BoundedVec_capacity v - BoundedVec_len v then Ok () else Err Full)"
  using assms
proof (induction xs arbitrary: v)
  case (Cons x xs)
  show ?case
  proof (cases rule: BoundedVec_push_cases [OF Cons.prems, of x, case_names full ok])
    case full
    then show ?thesis using Cons.prems by simp
  next
    case (ok w)
    have room: "BoundedVec_capacity v - BoundedVec_len v = Suc (BoundedVec_capacity w - BoundedVec_len w)"
      using ok by simp
    show ?thesis using Cons.IH [OF ok(3)] ok(2,4,5)
      by (auto simp: room split: prod.splits)
  qed
qed simp

text \<open>
  \<open>from_slice\<close> never panics (its \<open>unwrap\<close> cannot fail), and \<open>to_vec\<close>, \<open>to_array\<close> and
  \<open>clone\<close> give the slice back.
\<close>

theorem bounded_vec_from_slice_roundtrip:
  "\<exists>v. BoundedVec_from_slice xs = (Ok v :: (BoundedVecError, _) result) \<and> BoundedVec_to_vec v = xs \<and>
     BoundedVec_to_array v (length xs) = Ok xs \<and>
     (\<exists>w. BoundedVec_clone v = (Ok w :: (BoundedVecError, _) result) \<and> BoundedVec_eq v w)"
proof -
  have unwrap: "try_fold (\<lambda>v x. unwrap (BoundedVec_push v x)) v xs = (Ok w :: (BoundedVecError, _) result)"
    if "try_fold BoundedVec_push v xs = Ok w" for v w :: "'a BoundedVec" and xs
    using that by (induction xs arbitrary: v) (auto simp: and_then_eq_Ok)
  obtain v where v: "try_fold BoundedVec_push (BoundedVec_with_capacity (length xs)) xs = Ok v"
    "bv_inv v" "BoundedVec_as_slice v = xs"
    using bvb.push_all [of "BoundedVec_with_capacity (length xs)" xs] by auto
  have "BoundedVec_from_slice xs = (Ok v :: (BoundedVecError, _) result)"
    unfolding BoundedVec_from_slice_def by (rule unwrap [OF v(1)])
  moreover have "BoundedVec_len v = length xs" using v(2,3) length_as_slice by metis
  moreover obtain w where "BoundedVec_clone v = (Ok w :: (BoundedVecError, _) result)"
    "BoundedVec_as_slice w = BoundedVec_as_slice v"
    by (rule BoundedVec_clone_as_slice [OF v(2)])
  ultimately show ?thesis using v BoundedVec_to_array_as_slice [OF v(2)]
    by (auto simp: BoundedVec_to_vec_def BoundedVec_eq_def)
qed

text \<open>
  The serialised metadata of both vectors round-trips through its native byte encoding (16 and
  32 bytes), for every field value a \<open>usize\<close> can hold.
\<close>

theorem vec_metadata_roundtrip:
  "(bvm_capacity m < 2 ^ 64 \<and> bvm_length m < 2 ^ 64 \<longrightarrow>
      BoundedVecMetadata_from_ne_bytes (BoundedVecMetadata_to_ne_bytes m) = m) \<and>
   (cbvm_capacity n < 2 ^ 64 \<and> cbvm_length n < 2 ^ 64 \<and> cbvm_first_index n < 2 ^ 64 \<and>
      cbvm_last_index n < 2 ^ 64 \<longrightarrow>
      CyclicBoundedVecMetadata_from_ne_bytes (CyclicBoundedVecMetadata_to_ne_bytes n) = n) \<and>
   length (BoundedVecMetadata_to_ne_bytes m) = 16 \<and>
   length (CyclicBoundedVecMetadata_to_ne_bytes n) = 32"
proof -
  have p: "(256::nat) ^ 8 = 2 ^ 64" by simp
  show ?thesis
    by (cases m; cases n)
      (simp add: BoundedVecMetadata_from_ne_bytes_def BoundedVecMetadata_to_ne_bytes_def
        CyclicBoundedVecMetadata_from_ne_bytes_def CyclicBoundedVecMetadata_to_ne_bytes_def p)
qed

theorem vec_metadata_roundtrip_witness:
  "BoundedVecMetadata_from_ne_bytes (BoundedVecMetadata_to_ne_bytes
      (BoundedVecMetadata_new_with_length 26 7)) = BoundedVecMetadata_new_with_length 26 7 \<and>
   CyclicBoundedVecMetadata_from_ne_bytes (CyclicBoundedVecMetadata_to_ne_bytes
      (CyclicBoundedVecMetadata_new_with_indices 1400 1400 5 4)) =
    CyclicBoundedVecMetadata_new_with_indices 1400 1400 5 4"
  using vec_metadata_roundtrip [of "BoundedVecMetadata_new_with_length 26 7"
      "CyclicBoundedVecMetadata_new_with_indices 1400 1400 5 4"]
  by (simp add: BoundedVecMetadata_new_with_length_def CyclicBoundedVecMetadata_new_with_indices_def)

text \<open>
  The safety comment of \<open>CyclicBoundedVec::push\<close> holds exactly for a positive capacity: with
  capacity zero the very first push accesses memory outside the (empty) allocation.
\<close>

lemma cyclic_vec_push_safe_iff:
  "(\<exists>v. CyclicBoundedVec_push (CyclicBoundedVec_with_capacity c) x =
      (Ok v :: (BoundedVecError, _) result)) \<longleftrightarrow> 0 < c"
proof (cases "c = 0")
  case True
  then show ?thesis
    by (simp add: CyclicBoundedVec_push_def CyclicBoundedVec_with_capacity_def
        CyclicBoundedVec_with_metadata_def CyclicBoundedVecMetadata_new_def cbv_acc_defs write_at_def)
next
  case False
  then show ?thesis using cbv_push [of "CyclicBoundedVec_with_capacity c" x] by auto
qed

end
