(* ===== verification/Merkle_Spec.thy ===== *)
theory Merkle_Spec
  imports Byte_Encoding
begin

unbundle bit_operations_syntax

text \<open>
  The hasher interface (\<open>merkle-tree/hasher/src/lib.rs\<close>) and the mathematical Merkle tree that the
  concurrent tree, the reference tree and the indexed tree are compared with.

  The hash functions themselves (Poseidon, Keccak, SHA-256) are third-party code or syscalls, so a
  \<open>Hasher\<close> is a parameter of every definition that hashes.  The only law assumed of it is
  \<open>zero_chain\<close>, which documents how \<open>xtask/src/zero_bytes.rs\<close> generates the table
  \<open>ZERO_BYTES\<close>: entry \<open>i + 1\<close> is the hash of entry \<open>i\<close> with itself.
\<close>

section \<open>Hashers\<close>

datatype HasherError =
    IntegerOverflow
  | Poseidon nat
  | PoseidonSyscall nat
  | UnknownSolanaSyscall nat

definition MAX_HEIGHT :: nat where
  "MAX_HEIGHT = 32"

record Hasher =
  hashv :: "bytes list \<Rightarrow> (HasherError, bytes) result"
  zero_bytes :: "bytes list"
  zero_indexed_leaf :: bytes

definition zero_chain :: "Hasher \<Rightarrow> bool" where
  "zero_chain H \<longleftrightarrow> length (zero_bytes H) = MAX_HEIGHT + 1 \<and>
     (\<forall>i < MAX_HEIGHT. hashv H [zero_bytes H ! i, zero_bytes H ! i] = Ok (zero_bytes H ! Suc i))"

text \<open>The hash of two nodes, where the hasher accepts them.\<close>

definition hash2 :: "Hasher \<Rightarrow> bytes \<Rightarrow> bytes \<Rightarrow> bytes" where
  "hash2 H a b = (case hashv H [a, b] of Ok x \<Rightarrow> x | _ \<Rightarrow> [])"

lemma hash2_Ok: "hashv H [a, b] = Ok x \<Longrightarrow> hash2 H a b = x"
  by (simp add: hash2_def)

lemma zero_chain_step:
  "zero_chain H \<Longrightarrow> i < MAX_HEIGHT \<Longrightarrow>
     hashv H [zero_bytes H ! i, zero_bytes H ! i] = Ok (zero_bytes H ! Suc i)"
  by (simp add: zero_chain_def)

lemma zero_chain_length: "zero_chain H \<Longrightarrow> length (zero_bytes H) = Suc MAX_HEIGHT"
  by (simp add: zero_chain_def)


text \<open>A small total hasher, on which the statements about hashers are exercised.\<close>

definition sample_hash :: "bytes list \<Rightarrow> bytes" where
  "sample_hash xs = [foldl (\<lambda>a b. 31 * a + b + 7) 1 (concat xs)]"

fun sample_zero :: "nat \<Rightarrow> bytes" where
  "sample_zero 0 = [0]"
| "sample_zero (Suc n) = sample_hash [sample_zero n, sample_zero n]"

definition sample_hasher :: Hasher where
  "sample_hasher = \<lparr>hashv = (\<lambda>xs. Ok (sample_hash xs)),
     zero_bytes = map sample_zero [0..<MAX_HEIGHT + 1], zero_indexed_leaf = [7]\<rparr>"

lemma sample_zero_chain: "zero_chain sample_hasher"
  by (auto simp: zero_chain_def sample_hasher_def simp del: upt_Suc)


section \<open>The tree of a list of leaves\<close>

text \<open>
  \<open>node H ls l i\<close> is the \<open>i\<close>-th node of level \<open>l\<close> (level 0 holds the leaves) of the infinite tree
  whose first leaves are \<open>ls\<close> and whose other leaves are the zero leaf.
\<close>

fun node :: "Hasher \<Rightarrow> bytes list \<Rightarrow> nat \<Rightarrow> nat \<Rightarrow> bytes" where
  "node H ls 0 i = (if i < length ls then ls ! i else zero_bytes H ! 0)"
| "node H ls (Suc l) i = hash2 H (node H ls l (2 * i)) (node H ls l (2 * i + 1))"

definition merkle_root :: "Hasher \<Rightarrow> nat \<Rightarrow> bytes list \<Rightarrow> bytes" where
  "merkle_root H height ls = node H ls height 0"

text \<open>The Merkle proof of leaf \<open>j\<close>: the sibling of its ancestor on every level.\<close>

definition sibling :: "nat \<Rightarrow> nat" where
  "sibling i = i XOR 1"

definition merkle_proof :: "Hasher \<Rightarrow> nat \<Rightarrow> bytes list \<Rightarrow> nat \<Rightarrow> bytes list" where
  "merkle_proof H height ls j = map (\<lambda>l. node H ls l (sibling (j div 2 ^ l))) [0..<height]"

lemma length_merkle_proof [simp]: "length (merkle_proof H h ls j) = h"
  by (simp add: merkle_proof_def)

lemma nth_merkle_proof [simp]:
  "l < h \<Longrightarrow> merkle_proof H h ls j ! l = node H ls l (sibling (j div 2 ^ l))"
  by (simp add: merkle_proof_def)

lemma sibling_even: "even i \<Longrightarrow> sibling i = Suc i"
  unfolding sibling_def xor_one_eq by simp

lemma sibling_odd: "odd i \<Longrightarrow> sibling i = i - 1"
  unfolding sibling_def xor_one_eq by simp

lemma sibling_sibling [simp]: "sibling (sibling i) = i"
  by (simp add: sibling_def xor.assoc)

lemma sibling_neq [simp]: "sibling i \<noteq> i" "i \<noteq> sibling i"
  by (metis sibling_even sibling_odd n_not_Suc_n odd_pos diff_less less_irrefl zero_less_one)+

lemma sibling_div_2 [simp]: "sibling i div 2 = i div 2"
  by (cases "even i") (auto simp: sibling_even sibling_odd elim!: evenE oddE)

lemma div_pow_Suc: "(j::nat) div 2 ^ Suc l = j div 2 ^ l div 2"
  by (metis div_mult2_eq power_Suc2)

lemma node_parent:
  "node H ls (Suc l) (i div 2) =
     (if even i then hash2 H (node H ls l i) (node H ls l (sibling i))
      else hash2 H (node H ls l (sibling i)) (node H ls l i))"
  by (cases "even i") (auto simp: sibling_even sibling_odd elim!: evenE oddE)

lemma node_parent_path:
  "node H ls (Suc l) (j div 2 ^ Suc l) =
     (if even (j div 2 ^ l)
      then hash2 H (node H ls l (j div 2 ^ l)) (node H ls l (sibling (j div 2 ^ l)))
      else hash2 H (node H ls l (sibling (j div 2 ^ l))) (node H ls l (j div 2 ^ l)))"
  unfolding div_pow_Suc by (rule node_parent)

declare node.simps(2) [simp del]

text \<open>A node depends only on the leaves below it.\<close>

lemma node_cong:
  assumes "\<And>j. j div 2 ^ l = i \<Longrightarrow> node H ls 0 j = node H ls' 0 j"
  shows "node H ls l i = node H ls' l i"
  using assms
proof (induction l arbitrary: i)
  case (Suc l)
  have "node H ls l (2 * i) = node H ls' l (2 * i)"
    by (rule Suc.IH) (use Suc.prems div_pow_Suc in simp)
  moreover have "node H ls l (2 * i + 1) = node H ls' l (2 * i + 1)"
    by (rule Suc.IH) (use Suc.prems div_pow_Suc in simp)
  ultimately show ?case by (simp add: node.simps(2))
qed simp

lemma node_update_other:
  "j div 2 ^ l \<noteq> i \<Longrightarrow> node H (ls[j := x]) l i = node H ls l i"
  by (rule node_cong) (metis length_list_update node.simps(1) nth_list_update_neq)

lemma node_append_other:
  "length ls div 2 ^ l \<noteq> i \<Longrightarrow> node H (ls @ [x]) l i = node H ls l i"
  by (rule node_cong) (auto simp: nth_append less_Suc_eq)

lemma node_beyond:
  assumes "zero_chain H" "l \<le> MAX_HEIGHT" "length ls \<le> i * 2 ^ l"
  shows "node H ls l i = zero_bytes H ! l"
  using assms(2,3)
proof (induction l arbitrary: i)
  case (Suc l)
  have "node H ls l (2 * i) = zero_bytes H ! l" "node H ls l (2 * i + 1) = zero_bytes H ! l"
    using Suc by (simp_all add: algebra_simps)
  then show ?case using zero_chain_step [OF assms(1), of l] Suc.prems(1)
    by (simp add: node.simps(2) hash2_def)
qed simp

lemma node_empty:
  "zero_chain H \<Longrightarrow> l \<le> MAX_HEIGHT \<Longrightarrow> node H [] l i = zero_bytes H ! l"
  by (simp add: node_beyond)


section \<open>Bit lengths\<close>

text \<open>The number of significant bits, which \<open>leading_zeros\<close> counts from the other end.\<close>

fun bit_len :: "nat \<Rightarrow> nat" where
  "bit_len n = (if n = 0 then 0 else Suc (bit_len (n div 2)))"

declare bit_len.simps [simp del]

lemma bit_len_0 [simp]: "bit_len 0 = 0"
  by (simp add: bit_len.simps)

lemma bit_len_pos: "0 < n \<Longrightarrow> bit_len n = Suc (bit_len (n div 2))"
  by (simp add: bit_len.simps)

lemma bit_len_eq_0 [simp]: "bit_len n = 0 \<longleftrightarrow> n = 0"
  by (cases "n = 0") (auto simp: bit_len_pos)

lemma bit_len_le: "bit_len n \<le> k \<longleftrightarrow> n < 2 ^ k"
proof (induction k arbitrary: n)
  case (Suc k)
  show ?case
  proof (cases "n = 0")
    case False
    then have "bit_len n \<le> Suc k \<longleftrightarrow> n div 2 < 2 ^ k" by (simp add: bit_len_pos Suc)
    then show ?thesis by (simp add: div_less_iff_less_mult mult.commute)
  qed simp
qed simp

lemma bit_len_Suc: "bit_len n = Suc k \<longleftrightarrow> n div 2 ^ k = 1"
proof -
  have "bit_len n = Suc k \<longleftrightarrow> n < 2 ^ Suc k \<and> \<not> n < 2 ^ k"
    using bit_len_le [of n "Suc k"] bit_len_le [of n k] by linarith
  also have "\<dots> \<longleftrightarrow> n div 2 ^ k = 1"
  proof
    assume "n < 2 ^ Suc k \<and> \<not> n < 2 ^ k"
    then have "n div 2 ^ k < 2" "1 \<le> n div 2 ^ k"
      by (simp_all add: div_less_iff_less_mult mult.commute less_eq_div_iff_mult_less_eq)
    then show "n div 2 ^ k = 1" by simp
  next
    assume d: "n div 2 ^ k = 1"
    then have "n div 2 ^ k < 2" "1 \<le> n div 2 ^ k" by simp_all
    then show "n < 2 ^ Suc k \<and> \<not> n < 2 ^ k"
      by (simp add: div_less_iff_less_mult mult.commute less_eq_div_iff_mult_less_eq)
  qed
  finally show ?thesis .
qed

lemma bit_len_mult_pow: "0 < n \<Longrightarrow> bit_len (n * 2 ^ k) = bit_len n + k"
  by (induction k) (auto simp: bit_len_pos mult.assoc [symmetric] mult.commute)

text \<open>
  Two leaves have sibling ancestors on exactly one level: the level of the highest bit in which
  their indices differ.
\<close>

lemma sibling_ancestor_iff:
  "sibling (j div 2 ^ l) = n div 2 ^ l \<longleftrightarrow> bit_len (j XOR n) = Suc l"
proof -
  have "(j XOR n) div 2 ^ l = (j div 2 ^ l) XOR (n div 2 ^ l)"
    by (simp add: drop_bit_xor flip: drop_bit_eq_div)
  moreover have "a XOR b = 1 \<longleftrightarrow> sibling a = b" for a b :: nat
    unfolding sibling_def by (metis xor.assoc xor.commute xor_self_eq xor.left_neutral)
  ultimately show ?thesis by (simp add: bit_len_Suc)
qed

end
