(* ===== verification/Concurrent_Merkle_Tree.thy ===== *)
theory Concurrent_Merkle_Tree
  imports Bounded_Vec Merkle_Spec
begin

text \<open>
  \<open>merkle-tree/concurrent/src\<close>: the concurrent Merkle tree (\<open>lib.rs\<close>), its changelog entries
  (\<open>changelog.rs\<close>), the proof hashing (\<open>hash.rs\<close>) and its errors (\<open>errors.rs\<close>).  This theory
  holds the translation; the correctness proofs are in the theories that import it.

  The const generic \<open>HEIGHT\<close> is an argument \<open>HT\<close>; the type parameter \<open>H: Hasher\<close> is an argument
  \<open>H\<close>.  The raw pointers \<open>next_index\<close>, \<open>sequence_number\<close> and \<open>rightmost_leaf\<close> are the values they
  point to.
\<close>

datatype ConcurrentMerkleTreeError =
    IntegerOverflow
  | HeightZero
  | InvalidHeight nat
  | ChangelogZero
  | RootsZero
  | CanopyGeThanHeight
  | TreeFull
  | BatchGreaterThanChangelog nat nat
  | InvalidProofLength nat nat
  | InvalidProof bytes bytes
  | CannotUpdateLeaf
  | CannotUpdateEmpty
  | EmptyLeaves
  | BufferSize nat nat
  | Hasher HasherError
  | BoundedVec BoundedVecError

fun ConcurrentMerkleTreeError_code ::
  "(HasherError \<Rightarrow> nat) \<Rightarrow> ConcurrentMerkleTreeError \<Rightarrow> nat" where
  "ConcurrentMerkleTreeError_code hc IntegerOverflow = 10001"
| "ConcurrentMerkleTreeError_code hc HeightZero = 10002"
| "ConcurrentMerkleTreeError_code hc (InvalidHeight _) = 10003"
| "ConcurrentMerkleTreeError_code hc ChangelogZero = 10004"
| "ConcurrentMerkleTreeError_code hc RootsZero = 10005"
| "ConcurrentMerkleTreeError_code hc CanopyGeThanHeight = 10006"
| "ConcurrentMerkleTreeError_code hc TreeFull = 10007"
| "ConcurrentMerkleTreeError_code hc (BatchGreaterThanChangelog _ _) = 10008"
| "ConcurrentMerkleTreeError_code hc (InvalidProofLength _ _) = 10009"
| "ConcurrentMerkleTreeError_code hc (InvalidProof _ _) = 10010"
| "ConcurrentMerkleTreeError_code hc CannotUpdateLeaf = 10011"
| "ConcurrentMerkleTreeError_code hc CannotUpdateEmpty = 10012"
| "ConcurrentMerkleTreeError_code hc EmptyLeaves = 10013"
| "ConcurrentMerkleTreeError_code hc (BufferSize _ _) = 10014"
| "ConcurrentMerkleTreeError_code hc (Hasher e) = hc e"
| "ConcurrentMerkleTreeError_code hc (BoundedVec e) = BoundedVecError_code e"


section \<open>Hashing along a path\<close>

definition compute_parent_node ::
  "Hasher \<Rightarrow> bytes \<Rightarrow> bytes \<Rightarrow> nat \<Rightarrow> nat \<Rightarrow> (ConcurrentMerkleTreeError, bytes) result" where
  "compute_parent_node H nd sib node_index level =
     (let is_left = (drop_bit level node_index AND 1 = 0)
      in map_err Hasher (if is_left then hashv H [nd, sib] else hashv H [sib, nd]))"

definition compute_root ::
  "Hasher \<Rightarrow> bytes \<Rightarrow> nat \<Rightarrow> bytes BoundedVec \<Rightarrow> (ConcurrentMerkleTreeError, bytes) result" where
  "compute_root H leaf leaf_index proof =
     try_fold (\<lambda>nd (level, sib). compute_parent_node H nd sib leaf_index level)
       leaf (enumerate 0 (BoundedVec_as_slice proof))"


section \<open>Changelog entries\<close>

type_synonym ChangelogPath = "bytes option list"

definition ChangelogPath_from_fn :: "nat \<Rightarrow> (nat \<Rightarrow> bytes option) \<Rightarrow> ChangelogPath" where
  "ChangelogPath_from_fn HT cb = map cb [0..<HT]"

definition ChangelogPath_default :: "nat \<Rightarrow> ChangelogPath" where
  "ChangelogPath_default HT = replicate HT None"

fun ChangelogPath_eq_to_loop :: "ChangelogPath \<Rightarrow> bytes list \<Rightarrow> bool" where
  "ChangelogPath_eq_to_loop (Some changelog_node # ps) (path_node # ns) =
     (if changelog_node \<noteq> path_node then False else ChangelogPath_eq_to_loop ps ns)"
| "ChangelogPath_eq_to_loop _ _ = True"

definition ChangelogPath_eq_to :: "nat \<Rightarrow> ChangelogPath \<Rightarrow> bytes BoundedVec \<Rightarrow> bool" where
  "ChangelogPath_eq_to HT path other =
     (if BoundedVec_len other \<noteq> HT then False
      else ChangelogPath_eq_to_loop path (BoundedVec_as_slice other))"

record ChangelogEntry =
  cle_path :: ChangelogPath
  cle_index :: nat

definition ChangelogEntry_new :: "ChangelogPath \<Rightarrow> nat \<Rightarrow> ChangelogEntry" where
  "ChangelogEntry_new path i = \<lparr>cle_path = path, cle_index = i\<rparr>"

definition ChangelogEntry_default_with_index :: "nat \<Rightarrow> nat \<Rightarrow> ChangelogEntry" where
  "ChangelogEntry_default_with_index HT i =
     \<lparr>cle_path = ChangelogPath_default HT, cle_index = i\<rparr>"

text \<open>\<open>u64::leading_zeros\<close> and the left shift, which drops the bits above the width.\<close>

definition leading_zeros_u64 :: "nat \<Rightarrow> nat" where
  "leading_zeros_u64 x = 64 - bit_len x"

definition shl_u64 :: "nat \<Rightarrow> nat \<Rightarrow> ('e, nat) result" where
  "shl_u64 x n = (if n < 64 then Ok ((x * 2 ^ n) mod 2 ^ 64) else Panic)"

definition ChangelogEntry_intersection_index ::
  "nat \<Rightarrow> ChangelogEntry \<Rightarrow> nat \<Rightarrow> ('e, nat) result" where
  "ChangelogEntry_intersection_index HT e leaf_index =
     and_then (sub_u64 64 HT) (\<lambda>padding.
     and_then (shl_u64 (leaf_index XOR cle_index e) padding) (\<lambda>shifted.
     let common_path_len = leading_zeros_u64 shifted in
     and_then (sub_u64 HT 1) (\<lambda>top. sub_u64 top common_path_len)))"

definition ChangelogEntry_update_proof ::
  "nat \<Rightarrow> ChangelogEntry \<Rightarrow> nat \<Rightarrow> bytes BoundedVec \<Rightarrow>
     (ConcurrentMerkleTreeError, bytes BoundedVec) result" where
  "ChangelogEntry_update_proof HT e leaf_index proof =
     (if leaf_index \<noteq> cle_index e then
        and_then (ChangelogEntry_intersection_index HT e leaf_index) (\<lambda>intersection_index.
        and_then (index (cle_path e) intersection_index) (\<lambda>nd.
        case nd of
          Some nd \<Rightarrow> BoundedVec_index_set proof intersection_index nd
        | None \<Rightarrow> Ok proof))
      else Err CannotUpdateLeaf)"


section \<open>The tree\<close>

record ConcurrentMerkleTree =
  cmt_height :: nat
  cmt_canopy_depth :: nat
  cmt_next_index :: nat
  cmt_sequence_number :: nat
  cmt_rightmost_leaf :: bytes
  cmt_filled_subtrees :: "bytes BoundedVec"
  cmt_changelog :: "ChangelogEntry CyclicBoundedVec"
  cmt_roots :: "bytes CyclicBoundedVec"
  cmt_canopy :: "bytes BoundedVec"

definition cmt_canopy_size :: "nat \<Rightarrow> ('e, nat) result" where
  "cmt_canopy_size canopy_depth = and_then (shl1_u64 (canopy_depth + 1)) (\<lambda>s. sub_u64 s 2)"

text \<open>Sizes in bytes: \<open>usize\<close> 8, node 32, vector metadata 16, cyclic vector metadata 32.\<close>

definition cmt_non_dyn_fields_size :: nat where
  "cmt_non_dyn_fields_size = 8 + 8 + 8 + 8 + 32 + 16 + 32 + 32 + 16"

text \<open>
  \<open>size_of::<ChangelogEntry<HEIGHT>>()\<close>: \<open>HEIGHT\<close> cells of 33 bytes (the tag and the node of
  an \<open>Option<[u8; 32]>\<close>, whose alignment is 1), padded to the alignment of the \<open>u64\<close> index that
  follows.
\<close>

definition ChangelogEntry_size :: "nat \<Rightarrow> nat" where
  "ChangelogEntry_size HT = (33 * HT + 7) div 8 * 8 + 8"

definition cmt_size_in_account ::
  "nat \<Rightarrow> nat \<Rightarrow> nat \<Rightarrow> nat \<Rightarrow> nat \<Rightarrow> ('e, nat) result" where
  "cmt_size_in_account HT height changelog_size roots_size canopy_depth =
     and_then (mul_u64 32 height) (\<lambda>filled.
     and_then (add_u64 cmt_non_dyn_fields_size filled) (\<lambda>s1.
     and_then (mul_u64 (ChangelogEntry_size HT) changelog_size) (\<lambda>changelog.
     and_then (add_u64 s1 changelog) (\<lambda>s2.
     and_then (mul_u64 32 roots_size) (\<lambda>roots.
     and_then (add_u64 s2 roots) (\<lambda>s3.
     and_then (cmt_canopy_size canopy_depth) (\<lambda>cs.
     and_then (mul_u64 32 cs) (\<lambda>canopy. add_u64 s3 canopy))))))))"

definition cmt_check_size_constraints_new ::
  "nat \<Rightarrow> nat \<Rightarrow> nat \<Rightarrow> nat \<Rightarrow> nat \<Rightarrow> (ConcurrentMerkleTreeError, unit) result" where
  "cmt_check_size_constraints_new HT height changelog_size roots_size canopy_depth =
     (if height = 0 \<or> HT = 0 then Err HeightZero
      else if height \<noteq> HT then Err (InvalidHeight HT)
      else if canopy_depth > height then Err CanopyGeThanHeight
      else if changelog_size = 0 then Err ChangelogZero
      else if roots_size = 0 then Err RootsZero
      else Ok ())"

definition cmt_check_size_constraints ::
  "nat \<Rightarrow> ConcurrentMerkleTree \<Rightarrow> (ConcurrentMerkleTreeError, unit) result" where
  "cmt_check_size_constraints HT t =
     cmt_check_size_constraints_new HT (cmt_height t)
       (CyclicBoundedVec_capacity (cmt_changelog t)) (CyclicBoundedVec_capacity (cmt_roots t))
       (cmt_canopy_depth t)"

definition cmt_new ::
  "nat \<Rightarrow> nat \<Rightarrow> nat \<Rightarrow> nat \<Rightarrow> nat \<Rightarrow> (ConcurrentMerkleTreeError, ConcurrentMerkleTree) result" where
  "cmt_new HT height changelog_size roots_size canopy_depth =
     and_then (cmt_check_size_constraints_new HT height changelog_size roots_size canopy_depth)
       (\<lambda>_. and_then (cmt_canopy_size canopy_depth) (\<lambda>canopy_size.
        Ok \<lparr>cmt_height = height, cmt_canopy_depth = canopy_depth,
          cmt_next_index = 0, cmt_sequence_number = 0, cmt_rightmost_leaf = replicate 32 0,
          cmt_filled_subtrees = BoundedVec_with_capacity height,
          cmt_changelog = CyclicBoundedVec_with_capacity changelog_size,
          cmt_roots = CyclicBoundedVec_with_capacity roots_size,
          cmt_canopy = BoundedVec_with_capacity canopy_size\<rparr>))"

text \<open>
  The bound of \<open>for _ in 0..(1 << (level_i + 1))\<close> in \<open>init\<close>.  Nothing fixes its integer type, so
  it is an \<open>i32\<close>: a shift by 31 gives a negative bound and no iteration, a longer shift panics.
\<close>

definition level_nodes_i32 :: "nat \<Rightarrow> ('e, nat) result" where
  "level_nodes_i32 n = (if n < 31 then Ok (2 ^ n) else if n = 31 then Ok 0 else Panic)"

definition cmt_init ::
  "nat \<Rightarrow> Hasher \<Rightarrow> ConcurrentMerkleTree \<Rightarrow>
     (ConcurrentMerkleTreeError, ConcurrentMerkleTree) result" where
  "cmt_init HT H t =
     and_then (cmt_check_size_constraints HT t) (\<lambda>_.
     \<comment> \<open>Initialize root.\<close>
     and_then (index (zero_bytes H) (cmt_height t)) (\<lambda>root.
     and_then (CyclicBoundedVec_push (cmt_roots t) root) (\<lambda>roots.
     \<comment> \<open>Initialize changelog.\<close>
     and_then (try_fold (\<lambda>p i. and_then (index (zero_bytes H) i) (\<lambda>z. Ok (p @ [Some z]))) [] [0..<HT])
       (\<lambda>path.
     and_then (CyclicBoundedVec_push (cmt_changelog t) \<lparr>cle_path = path, cle_index = 0\<rparr>) (\<lambda>changelog.
     \<comment> \<open>Initialize filled subtrees.\<close>
     and_then (try_fold (\<lambda>v i. and_then (index (zero_bytes H) i) (\<lambda>z. unwrap (BoundedVec_push v z)))
         (cmt_filled_subtrees t) [0..<cmt_height t]) (\<lambda>filled.
     \<comment> \<open>Initialize canopy.\<close>
     and_then (try_fold (\<lambda>c level_i.
         and_then (level_nodes_i32 (level_i + 1)) (\<lambda>level_nodes.
         try_fold (\<lambda>c _. and_then (index (zero_bytes H) (cmt_height t - level_i - 1))
             (\<lambda>nd. map_err BoundedVec (BoundedVec_push c nd)))
           c [0..<level_nodes]))
         (cmt_canopy t) [0..<cmt_canopy_depth t]) (\<lambda>canopy.
     Ok (t\<lparr>cmt_roots := roots, cmt_changelog := changelog, cmt_filled_subtrees := filled,
       cmt_canopy := canopy\<rparr>))))))))"

definition cmt_changelog_index :: "ConcurrentMerkleTree \<Rightarrow> nat" where
  "cmt_changelog_index t = CyclicBoundedVec_last_index (cmt_changelog t)"

definition cmt_root_index :: "ConcurrentMerkleTree \<Rightarrow> nat" where
  "cmt_root_index t = CyclicBoundedVec_last_index (cmt_roots t)"

definition cmt_root :: "ConcurrentMerkleTree \<Rightarrow> ('e, bytes) result" where
  "cmt_root t = CyclicBoundedVec_index (cmt_roots t) (cmt_root_index t)"

definition cmt_current_index :: "ConcurrentMerkleTree \<Rightarrow> nat" where
  "cmt_current_index t =
     (if cmt_next_index t > 0 then cmt_next_index t - 1 else cmt_next_index t)"

definition cmt_inc_next_index ::
  "ConcurrentMerkleTree \<Rightarrow> (ConcurrentMerkleTreeError, ConcurrentMerkleTree) result" where
  "cmt_inc_next_index t =
     and_then (ok_or (checked_add (cmt_next_index t) 1) IntegerOverflow)
       (\<lambda>n. Ok (t\<lparr>cmt_next_index := n\<rparr>))"

definition cmt_inc_sequence_number ::
  "ConcurrentMerkleTree \<Rightarrow> (ConcurrentMerkleTreeError, ConcurrentMerkleTree) result" where
  "cmt_inc_sequence_number t =
     and_then (ok_or (checked_add (cmt_sequence_number t) 1) IntegerOverflow)
       (\<lambda>n. Ok (t\<lparr>cmt_sequence_number := n\<rparr>))"

definition cmt_set_rightmost_leaf :: "ConcurrentMerkleTree \<Rightarrow> bytes \<Rightarrow> ConcurrentMerkleTree" where
  "cmt_set_rightmost_leaf t leaf = t\<lparr>cmt_rightmost_leaf := leaf\<rparr>"

text \<open>The loop of \<open>update_proof_from_canopy\<close>, from \<open>node_index\<close> up to the root.\<close>

function cmt_canopy_loop ::
  "bytes BoundedVec \<Rightarrow> nat \<Rightarrow> bytes BoundedVec \<Rightarrow>
     (ConcurrentMerkleTreeError, bytes BoundedVec) result" where
  "cmt_canopy_loop canopy node_index proof =
     (if node_index > 1 then
        let canopy_index = node_index - 2;
            canopy_index = (if canopy_index mod 2 = 0 then canopy_index + 1 else canopy_index - 1)
        in and_then (BoundedVec_index canopy canopy_index) (\<lambda>nd.
           and_then (map_err BoundedVec (BoundedVec_push proof nd)) (\<lambda>proof'.
           cmt_canopy_loop canopy (node_index div 2) proof'))
      else Ok proof)"
  by pat_completeness auto
termination
  by (relation "measure (\<lambda>(c, n, p). n)") auto

declare cmt_canopy_loop.simps [simp del]

definition cmt_update_proof_from_canopy ::
  "ConcurrentMerkleTree \<Rightarrow> nat \<Rightarrow> bytes BoundedVec \<Rightarrow>
     (ConcurrentMerkleTreeError, bytes BoundedVec) result" where
  "cmt_update_proof_from_canopy t leaf_index proof =
     and_then (shl1_u64 (cmt_height t)) (\<lambda>s.
     and_then (add_u64 s leaf_index) (\<lambda>n.
     and_then (sub_u64 (cmt_height t) (cmt_canopy_depth t)) (\<lambda>sh.
     cmt_canopy_loop (cmt_canopy t) (n div 2 ^ sh) proof)))"

text \<open>\<open>changelog_entries\<close>: the entries newer than \<open>changelog_index\<close>, i.e. \<open>iter_from(..).skip(1)\<close>.\<close>

definition cmt_changelog_entries ::
  "ConcurrentMerkleTree \<Rightarrow> nat \<Rightarrow> (ConcurrentMerkleTreeError, ChangelogEntry list) result" where
  "cmt_changelog_entries t changelog_index =
     map_err BoundedVec
       (and_then (CyclicBoundedVec_iter_from (cmt_changelog t) changelog_index) (\<lambda>it.
        and_then (CyclicBoundedVecIterator_drain it) (\<lambda>es. Ok (drop 1 es))))"

definition cmt_update_proof_from_changelog ::
  "nat \<Rightarrow> ConcurrentMerkleTree \<Rightarrow> nat \<Rightarrow> nat \<Rightarrow> bytes BoundedVec \<Rightarrow>
     (ConcurrentMerkleTreeError, bytes BoundedVec) result" where
  "cmt_update_proof_from_changelog HT t changelog_index leaf_index proof =
     and_then (cmt_changelog_entries t changelog_index) (\<lambda>es.
       try_fold (\<lambda>p e. ChangelogEntry_update_proof HT e leaf_index p) proof es)"

definition cmt_validate_proof ::
  "Hasher \<Rightarrow> ConcurrentMerkleTree \<Rightarrow> bytes \<Rightarrow> nat \<Rightarrow> bytes BoundedVec \<Rightarrow>
     (ConcurrentMerkleTreeError, unit) result" where
  "cmt_validate_proof H t leaf leaf_index proof =
     and_then (cmt_root t) (\<lambda>expected_root.
     and_then (compute_root H leaf leaf_index proof) (\<lambda>computed_root.
     if computed_root = expected_root then Ok ()
     else Err (InvalidProof expected_root computed_root)))"

text \<open>\<open>update_canopy\<close>: writes the upper nodes of \<open>num_leaves\<close> changelog entries into the canopy.\<close>

definition cmt_update_canopy_node ::
  "nat \<Rightarrow> nat \<Rightarrow> bytes BoundedVec \<Rightarrow> nat \<times> bytes option \<Rightarrow> ('e, bytes BoundedVec) result" where
  "cmt_update_canopy_node height entry_index canopy = (\<lambda>(i, path_node).
     case path_node of
       None \<Rightarrow> Ok canopy
     | Some nd \<Rightarrow>
         and_then (sub_u64 height i) (\<lambda>hi.
         and_then (sub_u64 hi 1) (\<lambda>level.
         and_then (shl1_u64 (height - level)) (\<lambda>s.
         and_then (add_u64 s (entry_index div 2 ^ level)) (\<lambda>idx.
         and_then (sub_u64 idx 2) (\<lambda>ci. BoundedVec_index_set canopy ci nd))))))"

definition cmt_update_canopy_entry ::
  "nat \<Rightarrow> nat \<Rightarrow> ChangelogEntry \<Rightarrow> bytes BoundedVec \<Rightarrow> ('e, bytes BoundedVec) result" where
  "cmt_update_canopy_entry height canopy_depth e canopy =
     try_fold (cmt_update_canopy_node height (cle_index e)) canopy
       (enumerate 0 (take canopy_depth (rev (cle_path e))))"

definition cmt_update_canopy ::
  "ConcurrentMerkleTree \<Rightarrow> nat \<Rightarrow> nat \<Rightarrow> ('e, ConcurrentMerkleTree) result" where
  "cmt_update_canopy t first_changelog_index num_leaves =
     and_then
       (try_fold (\<lambda>c i.
           and_then (CyclicBoundedVec_index (cmt_changelog t)
               ((first_changelog_index + i) mod CyclicBoundedVec_capacity (cmt_changelog t))) (\<lambda>e.
           cmt_update_canopy_entry (cmt_height t) (cmt_canopy_depth t) e c))
         (cmt_canopy t) [0..<num_leaves])
       (\<lambda>c. Ok (t\<lparr>cmt_canopy := c\<rparr>))"

text \<open>The loop of \<open>update_leaf_in_tree\<close>: records the path and hashes up to the new root.\<close>

definition cmt_update_leaf_level ::
  "Hasher \<Rightarrow> nat \<Rightarrow> ChangelogEntry \<times> bytes \<Rightarrow> nat \<times> bytes \<Rightarrow>
     (ConcurrentMerkleTreeError, ChangelogEntry \<times> bytes) result" where
  "cmt_update_leaf_level H leaf_index = (\<lambda>(e, current_node) (level, sib).
     and_then (write_at (cle_path e) level (Some current_node)) (\<lambda>p.
     and_then (compute_parent_node H current_node sib leaf_index level) (\<lambda>parent.
     Ok (e\<lparr>cle_path := p\<rparr>, parent))))"

definition cmt_update_leaf_path ::
  "nat \<Rightarrow> Hasher \<Rightarrow> bytes \<Rightarrow> nat \<Rightarrow> bytes BoundedVec \<Rightarrow>
     (ConcurrentMerkleTreeError, ChangelogEntry \<times> bytes) result" where
  "cmt_update_leaf_path HT H new_leaf leaf_index proof =
     try_fold (cmt_update_leaf_level H leaf_index)
       (ChangelogEntry_default_with_index HT leaf_index, new_leaf)
       (enumerate 0 (BoundedVec_as_slice proof))"

definition cmt_update_leaf_in_tree ::
  "nat \<Rightarrow> Hasher \<Rightarrow> ConcurrentMerkleTree \<Rightarrow> bytes \<Rightarrow> nat \<Rightarrow> bytes BoundedVec \<Rightarrow>
     (ConcurrentMerkleTreeError, ConcurrentMerkleTree \<times> nat \<times> nat) result" where
  "cmt_update_leaf_in_tree HT H t new_leaf leaf_index proof =
     and_then (cmt_update_leaf_path HT H new_leaf leaf_index proof) (\<lambda>(changelog_entry, current_node).
     and_then (cmt_inc_sequence_number t) (\<lambda>t1.
     and_then (CyclicBoundedVec_push (cmt_roots t1) current_node) (\<lambda>roots.
     let t2 = t1\<lparr>cmt_roots := roots\<rparr> in
     and_then (shl1_u64 (cmt_height t2)) (\<lambda>cap.
     and_then
       (if cmt_next_index t2 < cap then
          and_then (ChangelogEntry_update_proof HT changelog_entry (cmt_next_index t2)
              (cmt_filled_subtrees t2)) (\<lambda>filled.
          let t3 = t2\<lparr>cmt_filled_subtrees := filled\<rparr> in
          if leaf_index \<ge> cmt_current_index t3 then Ok (cmt_set_rightmost_leaf t3 new_leaf)
          else Ok t3)
        else Ok t2) (\<lambda>t4.
     and_then (CyclicBoundedVec_push (cmt_changelog t4) changelog_entry) (\<lambda>changelog.
     let t5 = t4\<lparr>cmt_changelog := changelog\<rparr> in
     and_then
       (if cmt_canopy_depth t5 > 0
        then cmt_update_canopy t5 (CyclicBoundedVec_last_index (cmt_changelog t5)) 1
        else Ok t5) (\<lambda>t6.
     Ok (t6, CyclicBoundedVec_last_index (cmt_changelog t6), cmt_sequence_number t6))))))))"

definition cmt_update ::
  "nat \<Rightarrow> Hasher \<Rightarrow> ConcurrentMerkleTree \<Rightarrow> nat \<Rightarrow> bytes \<Rightarrow> bytes \<Rightarrow> nat \<Rightarrow> bytes BoundedVec \<Rightarrow>
     (ConcurrentMerkleTreeError, ConcurrentMerkleTree \<times> bytes BoundedVec \<times> nat \<times> nat) result" where
  "cmt_update HT H t changelog_index old_leaf new_leaf leaf_index proof =
     and_then (sub_u64 (cmt_height t) (cmt_canopy_depth t)) (\<lambda>expected_proof_len.
     if BoundedVec_len proof \<noteq> expected_proof_len
       then Err (InvalidProofLength expected_proof_len (BoundedVec_len proof))
     else if leaf_index \<ge> cmt_next_index t then Err CannotUpdateEmpty
     else
       and_then (if cmt_canopy_depth t > 0 then cmt_update_proof_from_canopy t leaf_index proof
                 else Ok proof) (\<lambda>proof1.
       and_then (if changelog_index \<noteq> cmt_changelog_index t
                 then cmt_update_proof_from_changelog HT t changelog_index leaf_index proof1
                 else Ok proof1) (\<lambda>proof2.
       and_then (cmt_validate_proof H t old_leaf leaf_index proof2) (\<lambda>_.
       and_then (cmt_update_leaf_in_tree HT H t new_leaf leaf_index proof2) (\<lambda>(t', ci, sn).
       Ok (t', proof2, ci, sn))))))"


section \<open>Appending\<close>

text \<open>\<open>self.changelog[changelog_index].path[i] = Some(node)\<close>.\<close>

definition cmt_set_changelog_path ::
  "ConcurrentMerkleTree \<Rightarrow> nat \<Rightarrow> nat \<Rightarrow> bytes \<Rightarrow> ('e, ConcurrentMerkleTree) result" where
  "cmt_set_changelog_path t changelog_index i nd =
     and_then (CyclicBoundedVec_index (cmt_changelog t) changelog_index) (\<lambda>e.
     and_then (write_at (cle_path e) i (Some nd)) (\<lambda>p.
     and_then (CyclicBoundedVec_index_set (cmt_changelog t) changelog_index (e\<lparr>cle_path := p\<rparr>))
       (\<lambda>cl. Ok (t\<lparr>cmt_changelog := cl\<rparr>))))"

text \<open>\<open>proofs.as_mut().unwrap()[leaf_i].push(node)?\<close>, executed only when \<open>WITH_PROOFS\<close>.\<close>

definition cmt_push_proof ::
  "bool \<Rightarrow> bytes BoundedVec list option \<Rightarrow> nat \<Rightarrow> bytes \<Rightarrow>
     (ConcurrentMerkleTreeError, bytes BoundedVec list option) result" where
  "cmt_push_proof WITH_PROOFS proofs leaf_i nd =
     (if WITH_PROOFS then
        and_then (unwrap_or_panic proofs) (\<lambda>ps.
        and_then (index ps leaf_i) (\<lambda>p.
        and_then (map_err BoundedVec (BoundedVec_push p nd)) (\<lambda>p'.
        Ok (Some (ps[leaf_i := p'])))))
      else Ok proofs)"

text \<open>
  The loop over the levels of one leaf.  \<open>last_leaf\<close> says whether \<open>leaf_i == leaves.len() - 1\<close>;
  any other leaf leaves the loop on the first level where it is a left child.
\<close>

fun cmt_append_levels ::
  "bool \<Rightarrow> Hasher \<Rightarrow> bool \<Rightarrow> nat \<Rightarrow> nat \<Rightarrow> nat list \<Rightarrow>
   ConcurrentMerkleTree \<Rightarrow> bytes BoundedVec list option \<Rightarrow> nat \<Rightarrow> bytes \<Rightarrow>
   (ConcurrentMerkleTreeError,
    ConcurrentMerkleTree \<times> bytes BoundedVec list option \<times> bytes) result" where
  "cmt_append_levels WITH_PROOFS H last_leaf leaf_i changelog_index [] t proofs current_index
     current_node = Ok (t, proofs, current_node)"
| "cmt_append_levels WITH_PROOFS H last_leaf leaf_i changelog_index (i # levels) t proofs
     current_index current_node =
     (if current_index mod 2 = 0 then
        and_then (index (zero_bytes H) i) (\<lambda>empty_node.
        and_then (cmt_push_proof WITH_PROOFS proofs leaf_i empty_node) (\<lambda>proofs'.
        and_then (BoundedVec_index_set (cmt_filled_subtrees t) i current_node) (\<lambda>filled.
        let t1 = t\<lparr>cmt_filled_subtrees := filled\<rparr> in
        if \<not> last_leaf then Ok (t1, proofs', current_node)
        else
          and_then (map_err Hasher (hashv H [current_node, empty_node])) (\<lambda>parent.
          and_then (if i < cmt_height t1 - 1
                    then cmt_set_changelog_path t1 changelog_index (i + 1) parent else Ok t1) (\<lambda>t2.
          cmt_append_levels WITH_PROOFS H last_leaf leaf_i changelog_index levels t2 proofs'
            (current_index div 2) parent)))))
      else
        and_then (BoundedVec_index (cmt_filled_subtrees t) i) (\<lambda>sib.
        and_then (cmt_push_proof WITH_PROOFS proofs leaf_i sib) (\<lambda>proofs'.
        and_then (map_err Hasher (hashv H [sib, current_node])) (\<lambda>parent.
        and_then (if i < cmt_height t - 1
                  then cmt_set_changelog_path t changelog_index (i + 1) parent else Ok t) (\<lambda>t2.
        cmt_append_levels WITH_PROOFS H last_leaf leaf_i changelog_index levels t2 proofs'
          (current_index div 2) parent)))))"

text \<open>The body of the loop over the leaves.\<close>

definition cmt_append_leaf ::
  "nat \<Rightarrow> bool \<Rightarrow> Hasher \<Rightarrow> bool \<Rightarrow> ConcurrentMerkleTree \<Rightarrow> bytes BoundedVec list option \<Rightarrow> nat \<Rightarrow> bytes \<Rightarrow>
   (ConcurrentMerkleTreeError, ConcurrentMerkleTree \<times> bytes BoundedVec list option) result" where
  "cmt_append_leaf HT WITH_PROOFS H last_leaf t proofs leaf_i leaf =
     (let current_index = cmt_next_index t in
      and_then (CyclicBoundedVec_push (cmt_changelog t)
          (ChangelogEntry_default_with_index HT current_index)) (\<lambda>cl.
      let t1 = t\<lparr>cmt_changelog := cl\<rparr>; changelog_index = cmt_changelog_index t1 in
      and_then (cmt_set_changelog_path t1 changelog_index 0 leaf) (\<lambda>t2.
      and_then (cmt_append_levels WITH_PROOFS H last_leaf leaf_i changelog_index
          [0..<cmt_height t2] t2 proofs current_index leaf) (\<lambda>(t3, proofs', current_node).
      and_then (CyclicBoundedVec_push (cmt_roots t3)
          (if last_leaf then current_node else replicate 32 0)) (\<lambda>roots.
      and_then (cmt_inc_next_index (t3\<lparr>cmt_roots := roots\<rparr>)) (\<lambda>t4.
      and_then (cmt_inc_sequence_number t4) (\<lambda>t5.
      Ok (cmt_set_rightmost_leaf t5 leaf, proofs'))))))))"

fun cmt_append_leaves ::
  "nat \<Rightarrow> bool \<Rightarrow> Hasher \<Rightarrow> ConcurrentMerkleTree \<Rightarrow> bytes BoundedVec list option \<Rightarrow> nat \<Rightarrow> bytes list \<Rightarrow>
   (ConcurrentMerkleTreeError, ConcurrentMerkleTree \<times> bytes BoundedVec list option) result" where
  "cmt_append_leaves HT WITH_PROOFS H t proofs leaf_i [] = Ok (t, proofs)"
| "cmt_append_leaves HT WITH_PROOFS H t proofs leaf_i (leaf # leaves) =
     and_then (cmt_append_leaf HT WITH_PROOFS H (leaves = []) t proofs leaf_i leaf)
       (\<lambda>(t', proofs'). cmt_append_leaves HT WITH_PROOFS H t' proofs' (leaf_i + 1) leaves)"

definition cmt_append_batch_common ::
  "nat \<Rightarrow> bool \<Rightarrow> Hasher \<Rightarrow> ConcurrentMerkleTree \<Rightarrow> bytes list \<Rightarrow> bytes BoundedVec list option \<Rightarrow>
   (ConcurrentMerkleTreeError,
    ConcurrentMerkleTree \<times> bytes BoundedVec list option \<times> nat \<times> nat) result" where
  "cmt_append_batch_common HT WITH_PROOFS H t leaves proofs =
     (if leaves = [] then Err EmptyLeaves
      else
        and_then (add_u64 (cmt_next_index t) (length leaves)) (\<lambda>n.
        and_then (sub_u64 n 1) (\<lambda>n1.
        and_then (shl1_u64 (cmt_height t)) (\<lambda>cap.
        if n1 \<ge> cap then Err TreeFull
        else if length leaves > CyclicBoundedVec_capacity (cmt_changelog t)
          then Err (BatchGreaterThanChangelog (length leaves)
                      (CyclicBoundedVec_capacity (cmt_changelog t)))
        else
          let first_changelog_index =
            (CyclicBoundedVec_last_index (cmt_changelog t) + 1)
              mod CyclicBoundedVec_capacity (cmt_changelog t) in
          and_then (add_u64 (cmt_sequence_number t) 1) (\<lambda>first_sequence_number.
          and_then (cmt_append_leaves HT WITH_PROOFS H t proofs 0 leaves) (\<lambda>(t1, proofs').
          and_then (if cmt_canopy_depth t1 > 0
                    then cmt_update_canopy t1 first_changelog_index (length leaves)
                    else Ok t1) (\<lambda>t2.
          Ok (t2, proofs', first_changelog_index, first_sequence_number))))))))"

definition cmt_append_batch ::
  "nat \<Rightarrow> Hasher \<Rightarrow> ConcurrentMerkleTree \<Rightarrow> bytes list \<Rightarrow>
   (ConcurrentMerkleTreeError, ConcurrentMerkleTree \<times> nat \<times> nat) result" where
  "cmt_append_batch HT H t leaves =
     and_then (cmt_append_batch_common HT False H t leaves None)
       (\<lambda>(t', _, ci, sn). Ok (t', ci, sn))"

definition cmt_append ::
  "nat \<Rightarrow> Hasher \<Rightarrow> ConcurrentMerkleTree \<Rightarrow> bytes \<Rightarrow>
   (ConcurrentMerkleTreeError, ConcurrentMerkleTree \<times> nat \<times> nat) result" where
  "cmt_append HT H t leaf = cmt_append_batch HT H t [leaf]"

definition cmt_append_batch_with_proofs ::
  "nat \<Rightarrow> Hasher \<Rightarrow> ConcurrentMerkleTree \<Rightarrow> bytes list \<Rightarrow> bytes BoundedVec list \<Rightarrow>
   (ConcurrentMerkleTreeError, ConcurrentMerkleTree \<times> bytes BoundedVec list \<times> nat \<times> nat) result" where
  "cmt_append_batch_with_proofs HT H t leaves proofs =
     and_then (cmt_append_batch_common HT True H t leaves (Some proofs))
       (\<lambda>(t', ps, ci, sn). and_then (unwrap_or_panic ps) (\<lambda>ps. Ok (t', ps, ci, sn)))"

definition cmt_append_with_proof ::
  "nat \<Rightarrow> Hasher \<Rightarrow> ConcurrentMerkleTree \<Rightarrow> bytes \<Rightarrow> bytes BoundedVec \<Rightarrow>
   (ConcurrentMerkleTreeError, ConcurrentMerkleTree \<times> bytes BoundedVec \<times> nat \<times> nat) result" where
  "cmt_append_with_proof HT H t leaf proof =
     and_then (cmt_append_batch_with_proofs HT H t [leaf] [proof])
       (\<lambda>(t', ps, ci, sn). and_then (index ps 0) (\<lambda>p. Ok (t', p, ci, sn)))"

text \<open>\<open>PartialEq\<close>: the iterators of the two ring buffers are compared, not their layout.\<close>

definition cmt_eq :: "ConcurrentMerkleTree \<Rightarrow> ConcurrentMerkleTree \<Rightarrow> ('e, bool) result" where
  "cmt_eq t u =
     and_then (CyclicBoundedVec_eq (cmt_changelog t) (cmt_changelog u)) (\<lambda>ce.
     and_then (CyclicBoundedVec_eq (cmt_roots t) (cmt_roots u)) (\<lambda>re.
     Ok (cmt_height t = cmt_height u \<and> cmt_canopy_depth t = cmt_canopy_depth u \<and>
       cmt_next_index t = cmt_next_index u \<and> cmt_sequence_number t = cmt_sequence_number u \<and>
       cmt_rightmost_leaf t = cmt_rightmost_leaf u \<and>
       BoundedVec_as_slice (cmt_filled_subtrees t) = BoundedVec_as_slice (cmt_filled_subtrees u) \<and>
       ce \<and> re \<and>
       BoundedVec_as_slice (cmt_canopy t) = BoundedVec_as_slice (cmt_canopy u))))"

end
