(* ===== verification/Indexed_Array.thy ===== *)
theory Indexed_Array
  imports Concurrent_Merkle_Tree
begin

text \<open>
  \<open>merkle-tree/indexed/src/array.rs\<close> and \<open>errors.rs\<close>: the elements of an indexed Merkle tree as an
  array that threads a linked list through its elements in increasing order of their values.  The
  index type \<open>I\<close> is \<open>usize\<close>, as the programs instantiate it, and a \<open>BigUint\<close> is a \<open>nat\<close>.

  The invariant \<open>chain\<close> says that every element points at its immediate successor, so the elements
  partition the values into the ranges that non-membership proofs talk about.
\<close>

section \<open>Errors\<close>

datatype IndexedMerkleTreeError =
    ImtIntegerOverflow
  | IndexHigherThanMax
  | LowElementNotFound
  | LowElementGreaterOrEqualToNewElement
  | NewElementGreaterOrEqualToNextElement
  | ElementAlreadyExists
  | ElementDoesNotExist
  | ChangelogBufferSize nat nat
  | ImtHasher HasherError
  | ImtConcurrentMerkleTree ConcurrentMerkleTreeError
  | ImtUtils UtilsError
  | ImtBoundedVec BoundedVecError
  | ArrayFull

fun IndexedMerkleTreeError_code :: "(HasherError \<Rightarrow> nat) \<Rightarrow> IndexedMerkleTreeError \<Rightarrow> nat" where
  "IndexedMerkleTreeError_code hc ImtIntegerOverflow = 11001"
| "IndexedMerkleTreeError_code hc IndexHigherThanMax = 11002"
| "IndexedMerkleTreeError_code hc LowElementNotFound = 11003"
| "IndexedMerkleTreeError_code hc LowElementGreaterOrEqualToNewElement = 11004"
| "IndexedMerkleTreeError_code hc NewElementGreaterOrEqualToNextElement = 11005"
| "IndexedMerkleTreeError_code hc ElementAlreadyExists = 11006"
| "IndexedMerkleTreeError_code hc ElementDoesNotExist = 11007"
| "IndexedMerkleTreeError_code hc (ChangelogBufferSize _ _) = 11008"
| "IndexedMerkleTreeError_code hc ArrayFull = 11009"
| "IndexedMerkleTreeError_code hc (ImtHasher e) = hc e"
| "IndexedMerkleTreeError_code hc (ImtConcurrentMerkleTree e) = ConcurrentMerkleTreeError_code hc e"
| "IndexedMerkleTreeError_code hc (ImtUtils e) = UtilsError_code e"
| "IndexedMerkleTreeError_code hc (ImtBoundedVec e) = BoundedVecError_code e"


section \<open>Elements\<close>

record RawIndexedElement =
  rie_value :: bytes
  rie_next_index :: nat
  rie_next_value :: bytes
  rie_index :: nat

record IndexedElement =
  ie_index :: nat
  ie_value :: nat
  ie_next_index :: nat

definition IndexedElement_from_raw :: "RawIndexedElement \<Rightarrow> IndexedElement" where
  "IndexedElement_from_raw r =
     \<lparr>ie_index = rie_index r, ie_value = from_bytes_be (rie_value r), ie_next_index = rie_next_index r\<rparr>"

text \<open>Equality and order of elements look at the value only.\<close>

definition IndexedElement_eq :: "IndexedElement \<Rightarrow> IndexedElement \<Rightarrow> bool" where
  "IndexedElement_eq a b \<longleftrightarrow> ie_value a = ie_value b"

datatype Ordering = Less | Equal | Greater

definition IndexedElement_cmp :: "IndexedElement \<Rightarrow> IndexedElement \<Rightarrow> Ordering" where
  "IndexedElement_cmp a b =
     (if ie_value a < ie_value b then Less else if ie_value a = ie_value b then Equal else Greater)"

text \<open>\<open>usize::to_be_bytes\<close>.\<close>

definition be_bytes :: "nat \<Rightarrow> nat \<Rightarrow> bytes" where
  "be_bytes n x = rev (le_bytes n x)"

definition IndexedElement_hash ::
  "Hasher \<Rightarrow> IndexedElement \<Rightarrow> nat \<Rightarrow> (IndexedMerkleTreeError, bytes) result" where
  "IndexedElement_hash H e next_value =
     and_then (map_err ImtUtils (bigint_to_be_bytes_array 32 (ie_value e))) (\<lambda>v.
     and_then (map_err ImtUtils (bigint_to_be_bytes_array 32 next_value)) (\<lambda>nv.
     map_err ImtHasher (hashv H [v, be_bytes 8 (ie_next_index e), nv])))"

definition IndexedElement_update_from_raw_element ::
  "IndexedElement \<Rightarrow> RawIndexedElement \<Rightarrow> IndexedElement" where
  "IndexedElement_update_from_raw_element e raw =
     e\<lparr>ie_index := rie_index raw, ie_value := from_bytes_be (rie_value raw),
       ie_next_index := rie_next_index raw\<rparr>"

record IndexedElementBundle =
  ieb_new_low_element :: IndexedElement
  ieb_new_element :: IndexedElement
  ieb_new_element_next_value :: nat


section \<open>The array\<close>

record IndexedArray =
  ia_elements :: "IndexedElement list"
  ia_current_node_index :: nat
  ia_highest_element_index :: nat

definition HIGHEST_ADDRESS_PLUS_ONE :: nat where
  "HIGHEST_ADDRESS_PLUS_ONE =
     452312848583266388373324160190187140051835877600158453279131187530910662655"

definition IndexedArray_default :: IndexedArray where
  "IndexedArray_default =
     \<lparr>ia_elements = [\<lparr>ie_index = 0, ie_value = 0, ie_next_index = 0\<rparr>],
      ia_current_node_index = 0, ia_highest_element_index = 0\<rparr>"

definition ia_get :: "IndexedArray \<Rightarrow> nat \<Rightarrow> IndexedElement option" where
  "ia_get a i = (if i < length (ia_elements a) then Some (ia_elements a ! i) else None)"

definition ia_len :: "IndexedArray \<Rightarrow> nat" where
  "ia_len a = ia_current_node_index a"

definition ia_is_empty :: "IndexedArray \<Rightarrow> bool" where
  "ia_is_empty a \<longleftrightarrow> ia_current_node_index a = 0"

text \<open>\<open>elements[..len + 1]\<close>.\<close>

definition ia_prefix :: "IndexedArray \<Rightarrow> ('e, IndexedElement list) result" where
  "ia_prefix a =
     and_then (add_u64 (ia_len a) 1) (\<lambda>n.
     if n \<le> length (ia_elements a) then Ok (take n (ia_elements a)) else Panic)"

definition ia_find_element :: "IndexedArray \<Rightarrow> nat \<Rightarrow> ('e, IndexedElement option) result" where
  "ia_find_element a value =
     and_then (ia_prefix a) (\<lambda>es. Ok (find (\<lambda>nd. ie_value nd = value) es))"

text \<open>The loop of \<open>find_low_element_index_for_nonexistent\<close>; \<open>None\<close> when it runs to the end.\<close>

fun ia_low_nonexistent_loop ::
  "IndexedElement list \<Rightarrow> nat \<Rightarrow> nat \<Rightarrow> IndexedElement list \<Rightarrow> (IndexedMerkleTreeError, nat option) result" where
  "ia_low_nonexistent_loop es value i [] = Ok None"
| "ia_low_nonexistent_loop es value i (nd # rest) =
     (if ie_value nd = value then Err ElementAlreadyExists
      else and_then (index es (ie_next_index nd)) (\<lambda>nxt.
        if ie_value nxt > value \<and> ie_value nd < value then Ok (Some i)
        else ia_low_nonexistent_loop es value (Suc i) rest))"

definition ia_find_low_element_index_for_nonexistent ::
  "IndexedArray \<Rightarrow> nat \<Rightarrow> (IndexedMerkleTreeError, nat) result" where
  "ia_find_low_element_index_for_nonexistent a value =
     and_then (ia_low_nonexistent_loop (ia_elements a) value 0 (ia_elements a)) (\<lambda>r.
     case r of Some i \<Rightarrow> Ok i | None \<Rightarrow> Ok (ia_highest_element_index a))"

definition ia_find_low_element_for_nonexistent ::
  "IndexedArray \<Rightarrow> nat \<Rightarrow> (IndexedMerkleTreeError, IndexedElement \<times> nat) result" where
  "ia_find_low_element_for_nonexistent a value =
     and_then (ia_find_low_element_index_for_nonexistent a value) (\<lambda>i.
     and_then (index (ia_elements a) i) (\<lambda>low.
     and_then (index (ia_elements a) (ie_next_index low)) (\<lambda>nxt. Ok (low, ie_value nxt))))"

fun ia_low_existent_loop ::
  "IndexedElement list \<Rightarrow> nat \<Rightarrow> nat \<Rightarrow> IndexedElement list \<Rightarrow> (IndexedMerkleTreeError, nat) result" where
  "ia_low_existent_loop es value i [] = Err ElementDoesNotExist"
| "ia_low_existent_loop es value i (nd # rest) =
     and_then (index es (ie_next_index nd)) (\<lambda>nxt.
     if ie_value nxt = value then Ok i else ia_low_existent_loop es value (Suc i) rest)"

definition ia_find_low_element_index_for_existent ::
  "IndexedArray \<Rightarrow> nat \<Rightarrow> (IndexedMerkleTreeError, nat) result" where
  "ia_find_low_element_index_for_existent a value =
     and_then (ia_prefix a) (\<lambda>es. ia_low_existent_loop (ia_elements a) value 0 es)"

definition ia_find_low_element_for_existent ::
  "IndexedArray \<Rightarrow> nat \<Rightarrow> (IndexedMerkleTreeError, IndexedElement) result" where
  "ia_find_low_element_for_existent a value =
     and_then (ia_find_low_element_index_for_existent a value) (\<lambda>i. index (ia_elements a) i)"

definition ia_hash_element :: "Hasher \<Rightarrow> IndexedArray \<Rightarrow> nat \<Rightarrow> (IndexedMerkleTreeError, bytes) result" where
  "ia_hash_element H a i =
     and_then (ok_or (ia_get a i) IndexHigherThanMax) (\<lambda>element.
     and_then (ok_or (ia_get a (ie_next_index element)) IndexHigherThanMax) (\<lambda>next_element.
     IndexedElement_hash H element (ie_value next_element)))"

definition ia_new_element_with_low_element_index ::
  "IndexedArray \<Rightarrow> nat \<Rightarrow> nat \<Rightarrow> (IndexedMerkleTreeError, IndexedElementBundle) result" where
  "ia_new_element_with_low_element_index a low_element_index value =
     and_then (index (ia_elements a) low_element_index) (\<lambda>low.
     and_then (ok_or (checked_add (ia_current_node_index a) 1) ImtIntegerOverflow) (\<lambda>new_index.
     and_then (index (ia_elements a) (ie_next_index low)) (\<lambda>nxt.
     Ok \<lparr>ieb_new_low_element = low\<lparr>ie_next_index := new_index\<rparr>,
         ieb_new_element = \<lparr>ie_index = new_index, ie_value = value, ie_next_index = ie_next_index low\<rparr>,
         ieb_new_element_next_value = ie_value nxt\<rparr>)))"

definition ia_new_element ::
  "IndexedArray \<Rightarrow> nat \<Rightarrow> (IndexedMerkleTreeError, IndexedElementBundle) result" where
  "ia_new_element a value =
     and_then (ia_find_low_element_index_for_nonexistent a value) (\<lambda>i.
     ia_new_element_with_low_element_index a i value)"

text \<open>The check that a value belongs to the range of its low element, shared with the tree.\<close>

definition check_low_element_range ::
  "nat \<Rightarrow> nat \<Rightarrow> nat \<Rightarrow> ('e, nat) result \<Rightarrow> (IndexedMerkleTreeError \<Rightarrow> 'e) \<Rightarrow> ('e, unit) result" where
  "check_low_element_range value low_value low_next_index next_value err =
     (if low_next_index = 0 then
        (if value \<le> low_value then Err (err LowElementGreaterOrEqualToNewElement) else Ok ())
      else
        (if value \<le> low_value then Err (err LowElementGreaterOrEqualToNewElement)
         else and_then next_value (\<lambda>nv.
           if value \<ge> nv then Err (err NewElementGreaterOrEqualToNextElement) else Ok ())))"

definition ia_append_with_low_element_index ::
  "IndexedArray \<Rightarrow> nat \<Rightarrow> nat \<Rightarrow> (IndexedMerkleTreeError, IndexedArray \<times> IndexedElementBundle) result" where
  "ia_append_with_low_element_index a low_element_index value =
     and_then (index (ia_elements a) low_element_index) (\<lambda>old_low.
     and_then (check_low_element_range value (ie_value old_low) (ie_next_index old_low)
         (and_then (index (ia_elements a) (ie_next_index old_low)) (\<lambda>nxt. Ok (ie_value nxt))) (\<lambda>e. e)) (\<lambda>_.
     and_then (ia_new_element_with_low_element_index a low_element_index value) (\<lambda>bundle.
     let new_index = ie_index (ieb_new_element bundle);
         highest = (if ie_next_index old_low = 0 then new_index else ia_highest_element_index a) in
     and_then (write_at (ia_elements a @ [ieb_new_element bundle]) low_element_index (ieb_new_low_element bundle)) (\<lambda>es.
     Ok (\<lparr>ia_elements = es, ia_current_node_index = new_index, ia_highest_element_index = highest\<rparr>, bundle)))))"

definition ia_append ::
  "IndexedArray \<Rightarrow> nat \<Rightarrow> (IndexedMerkleTreeError, IndexedArray \<times> IndexedElementBundle) result" where
  "ia_append a value =
     and_then (ia_find_low_element_index_for_nonexistent a value) (\<lambda>i.
     ia_append_with_low_element_index a i value)"

definition ia_init :: "IndexedArray \<Rightarrow> (IndexedMerkleTreeError, IndexedArray \<times> IndexedElementBundle) result" where
  "ia_init a = ia_append a HIGHEST_ADDRESS_PLUS_ONE"

definition ia_lowest :: "IndexedArray \<Rightarrow> IndexedElement option" where
  "ia_lowest a = (if ia_current_node_index a < 1 then None else ia_get a 1)"

text \<open>The iterator: \<open>front\<close> and \<open>back\<close> move towards each other.\<close>

record IndexingArrayIter =
  iai_front :: nat
  iai_back :: nat

definition ia_iter :: "IndexedArray \<Rightarrow> IndexingArrayIter" where
  "ia_iter a = \<lparr>iai_front = 0, iai_back = ia_current_node_index a\<rparr>"

definition iai_next ::
  "IndexedArray \<Rightarrow> IndexingArrayIter \<Rightarrow> ('e, IndexedElement option \<times> IndexingArrayIter) result" where
  "iai_next a it =
     (if iai_front it \<le> iai_back it
      then and_then (add_u64 (iai_front it) 1) (\<lambda>f. Ok (ia_get a (iai_front it), it\<lparr>iai_front := f\<rparr>))
      else Ok (None, it))"

definition iai_next_back ::
  "IndexedArray \<Rightarrow> IndexingArrayIter \<Rightarrow> ('e, IndexedElement option \<times> IndexingArrayIter) result" where
  "iai_next_back a it =
     (if iai_back it \<ge> iai_front it
      then and_then (sub_u64 (iai_back it) 1) (\<lambda>b. Ok (ia_get a (iai_back it), it\<lparr>iai_back := b\<rparr>))
      else Ok (None, it))"


section \<open>Chains\<close>

text \<open>
  The \<open>(value, next index)\<close> pairs of the elements.  Element 0 has value 0; an element points at its
  immediate successor, and the greatest element points at 0.
\<close>

definition chain :: "(nat \<times> nat) list \<Rightarrow> bool" where
  [inv_defs]: "chain xs \<longleftrightarrow> 0 < length xs \<and> fst (xs ! 0) = 0 \<and> distinct (map fst xs) \<and>
     (\<forall>i < length xs. snd (xs ! i) < length xs \<and>
        (if snd (xs ! i) = 0 then \<forall>k < length xs. fst (xs ! k) \<le> fst (xs ! i)
         else fst (xs ! i) < fst (xs ! snd (xs ! i)) \<and>
           (\<forall>k < length xs. fst (xs ! k) \<le> fst (xs ! i) \<or> fst (xs ! snd (xs ! i)) \<le> fst (xs ! k))))"

definition in_range :: "(nat \<times> nat) list \<Rightarrow> nat \<Rightarrow> nat \<Rightarrow> bool" where
  "in_range xs j v \<longleftrightarrow> fst (xs ! j) < v \<and> (snd (xs ! j) \<noteq> 0 \<longrightarrow> v < fst (xs ! snd (xs ! j)))"

definition chain_insert :: "(nat \<times> nat) list \<Rightarrow> nat \<Rightarrow> nat \<Rightarrow> (nat \<times> nat) list" where
  "chain_insert xs j v = xs[j := (fst (xs ! j), length xs)] @ [(v, snd (xs ! j))]"

lemma chainD:
  assumes "chain xs"
  shows "0 < length xs" "fst (xs ! 0) = 0" "distinct (map fst xs)"
    and "\<And>i. i < length xs \<Longrightarrow> snd (xs ! i) < length xs"
    and "\<And>i k. i < length xs \<Longrightarrow> k < length xs \<Longrightarrow> snd (xs ! i) = 0 \<Longrightarrow> fst (xs ! k) \<le> fst (xs ! i)"
    and "\<And>i. i < length xs \<Longrightarrow> snd (xs ! i) \<noteq> 0 \<Longrightarrow> fst (xs ! i) < fst (xs ! snd (xs ! i))"
    and "\<And>i k. i < length xs \<Longrightarrow> k < length xs \<Longrightarrow> snd (xs ! i) \<noteq> 0 \<Longrightarrow>
      fst (xs ! k) \<le> fst (xs ! i) \<or> fst (xs ! snd (xs ! i)) \<le> fst (xs ! k)"
  using assms unfolding chain_def by (auto split: if_splits)

lemma chain_single: "chain [(0, 0)]"
  by (simp add: chain_def)

lemma in_range_fresh:
  assumes "chain xs" "j < length xs" "in_range xs j v" "k < length xs"
  shows "fst (xs ! k) \<le> fst (xs ! j) \<or> v < fst (xs ! k)" "fst (xs ! k) \<noteq> v"
proof -
  show "fst (xs ! k) \<le> fst (xs ! j) \<or> v < fst (xs ! k)"
    using chainD(5,7) [OF assms(1,2,4)] assms(3) unfolding in_range_def by (cases "snd (xs ! j) = 0") auto
  then show "fst (xs ! k) \<noteq> v" using assms(3) unfolding in_range_def by auto
qed

lemma in_range_absent:
  assumes "chain xs" "j < length xs" "in_range xs j v"
  shows "v \<notin> fst ` set xs"
proof
  assume "v \<in> fst ` set xs"
  then obtain k where "k < length xs" "fst (xs ! k) = v" by (metis imageE in_set_conv_nth)
  then show False using in_range_fresh(2) [OF assms] by blast
qed

lemma chain_value_inj:
  "chain xs \<Longrightarrow> i < length xs \<Longrightarrow> k < length xs \<Longrightarrow> fst (xs ! i) = fst (xs ! k) \<Longrightarrow> i = k"
  using chainD(3) by (metis distinct_conv_nth length_map nth_map)

lemma chain_insert_nth:
  assumes "j < length xs"
  shows "length (chain_insert xs j v) = Suc (length xs)"
    and "k < length xs \<Longrightarrow> fst (chain_insert xs j v ! k) = fst (xs ! k)"
    and "k < length xs \<Longrightarrow> snd (chain_insert xs j v ! k) = (if k = j then length xs else snd (xs ! k))"
    and "chain_insert xs j v ! length xs = (v, snd (xs ! j))"
    and "map fst (chain_insert xs j v) = map fst xs @ [v]"
  using assms by (auto simp: chain_insert_def nth_append nth_list_update map_update list_update_same_conv)

lemma chain_insert_step:
  assumes c: "chain xs" and j: "j < length xs" "in_range xs j v" and i: "i < length xs"
  shows "let n = snd (chain_insert xs j v ! i) in
    if n = 0 then v \<le> fst (xs ! i) \<and> snd (xs ! i) = 0
    else n = length xs \<and> i = j \<or>
      n = snd (xs ! i) \<and> i \<noteq> j \<and> (v \<le> fst (xs ! i) \<or> fst (xs ! snd (xs ! i)) \<le> v)"
proof (cases "i = j")
  case True
  then show ?thesis using j chainD(1) [OF c] by (simp add: chain_insert_nth)
next
  case False
  have ne: "fst (xs ! i) \<noteq> fst (xs ! j)" using chain_value_inj [OF c i j(1)] False by blast
  have v: "fst (xs ! j) < v" using j(2) by (simp add: in_range_def)
  note fr = in_range_fresh(1) [OF c j i]
  show ?thesis
  proof (cases "snd (xs ! i) = 0")
    case True
    have "fst (xs ! j) < fst (xs ! i)" using chainD(5) [OF c i j(1) True] ne by simp
    then show ?thesis using fr True False i j by (simp add: chain_insert_nth)
  next
    case n: False
    have "fst (xs ! snd (xs ! i)) \<le> v" if "fst (xs ! i) \<le> fst (xs ! j)"
      using chainD(7) [OF c i j(1) n] that ne v by linarith
    then show ?thesis using fr n False i j by (auto simp: chain_insert_nth Let_def)
  qed
qed

lemma chain_insert_chain:
  assumes c: "chain xs" and j: "j < length xs" "in_range xs j v"
  shows "chain (chain_insert xs j v)"
proof -
  let ?n = "length xs" and ?ys = "chain_insert xs j v"
  note nth = chain_insert_nth [OF j(1)]
  have v: "fst (xs ! j) < v" using j(2) by (simp add: in_range_def)
  have last: "snd (?ys ! ?n) \<le> ?n" "if snd (?ys ! ?n) = 0 then \<forall>k < ?n. fst (xs ! k) \<le> v
      else v < fst (xs ! snd (?ys ! ?n)) \<and> (\<forall>k < ?n. fst (xs ! k) \<le> v \<or> fst (xs ! snd (?ys ! ?n)) \<le> fst (xs ! k))"
    using chainD(4,5,7) [OF c j(1)] j(2) v by (fastforce simp: nth(4) in_range_def)+
  have inner: "snd (?ys ! i) \<le> ?n \<and>
      (if snd (?ys ! i) = 0 then \<forall>k \<le> ?n. fst (?ys ! k) \<le> fst (?ys ! i)
       else fst (?ys ! i) < fst (?ys ! snd (?ys ! i)) \<and>
         (\<forall>k \<le> ?n. fst (?ys ! k) \<le> fst (?ys ! i) \<or> fst (?ys ! snd (?ys ! i)) \<le> fst (?ys ! k)))"
    if i: "i < ?n" for i
    using chain_insert_step [OF c j i] chainD(4) [OF c i] chainD(5-7) [OF c i] in_range_fresh(1) [OF c j] i v nth
    by (auto simp: Let_def le_less split: if_splits) blast
  have "?n \<noteq> 0" using chainD(1) [OF c] by simp
  moreover have "distinct (map fst ?ys)"
    using chainD(3) [OF c] in_range_absent [OF c j] by (simp add: nth(5))
  moreover have "snd (?ys ! i) < Suc ?n \<and>
      (if snd (?ys ! i) = 0 then \<forall>k < Suc ?n. fst (?ys ! k) \<le> fst (?ys ! i)
       else fst (?ys ! i) < fst (?ys ! snd (?ys ! i)) \<and>
         (\<forall>k < Suc ?n. fst (?ys ! k) \<le> fst (?ys ! i) \<or> fst (?ys ! snd (?ys ! i)) \<le> fst (?ys ! k)))"
    if "i < Suc ?n" for i
  proof (cases "i = ?n")
    case True
    have "snd (xs ! j) < ?n" using chainD(4) [OF c j(1)] .
    then show ?thesis using True last nth(2) by (auto simp: nth(4) less_Suc_eq split: if_splits)
  next
    case False
    then show ?thesis using inner [of i] that unfolding less_Suc_eq_le by simp
  qed
  ultimately show ?thesis using chainD(1,2) [OF c] nth unfolding chain_def by simp
qed

lemma chain_range_exists:
  assumes c: "chain xs" and v: "v \<notin> fst ` set xs"
  shows "\<exists>j < length xs. in_range xs j v"
proof -
  have ne: "fst (xs ! k) \<noteq> v" if "k < length xs" for k using v that by (metis image_eqI nth_mem)
  have "0 < v" using ne [of 0] chainD(1,2) [OF c] by simp
  let ?P = "\<lambda>k. k < length xs \<and> fst (xs ! k) < v"
  have "?P 0" using chainD(1,2) [OF c] \<open>0 < v\<close> by simp
  moreover have "\<forall>k. ?P k \<longrightarrow> fst (xs ! k) < v" by simp
  ultimately obtain j where j: "?P j" "\<And>k. ?P k \<Longrightarrow> fst (xs ! k) \<le> fst (xs ! j)"
    using ex_has_greatest_nat [of ?P 0 "\<lambda>k. fst (xs ! k)" v] by (metis less_imp_le)
  have "v < fst (xs ! snd (xs ! j))" if n: "snd (xs ! j) \<noteq> 0"
    using chainD(4,6) [OF c, of j] j n ne [of "snd (xs ! j)"] by (meson leD linorder_neqE_nat)
  then show ?thesis using j(1) by (auto simp: in_range_def)
qed


section \<open>The array refines a set of values\<close>

definition ia_pairs :: "IndexedArray \<Rightarrow> (nat \<times> nat) list" where
  "ia_pairs a = map (\<lambda>e. (ie_value e, ie_next_index e)) (ia_elements a)"

definition ia_values :: "IndexedArray \<Rightarrow> nat set" where
  "ia_values a = ie_value ` set (ia_elements a)"

definition ia_inv :: "IndexedArray \<Rightarrow> bool" where
  [inv_defs]: "ia_inv a \<longleftrightarrow> chain (ia_pairs a) \<and> map ie_index (ia_elements a) = [0..<length (ia_elements a)] \<and>
     length (ia_elements a) = Suc (ia_current_node_index a) \<and>
     ia_highest_element_index a < length (ia_elements a) \<and>
     ie_next_index (ia_elements a ! ia_highest_element_index a) = 0 \<and>
     length (ia_elements a) < u64_bound"

lemma length_ia_pairs [simp]: "length (ia_pairs a) = length (ia_elements a)"
  by (simp add: ia_pairs_def)

lemma nth_ia_pairs [simp]:
  "i < length (ia_elements a) \<Longrightarrow> ia_pairs a ! i = (ie_value (ia_elements a ! i), ie_next_index (ia_elements a ! i))"
  by (simp add: ia_pairs_def)

lemma fst_ia_pairs [simp]: "fst ` set (ia_pairs a) = ia_values a"
  by (force simp: ia_pairs_def ia_values_def)

lemma ia_index_nth: "ia_inv a \<Longrightarrow> i < length (ia_elements a) \<Longrightarrow> ie_index (ia_elements a ! i) = i"
  by (metis add_0 ia_inv_def nth_map nth_upt)

lemma ia_default_inv: "ia_inv IndexedArray_default" "ia_values IndexedArray_default = {0}"
  by (simp_all add: ia_inv_def IndexedArray_default_def ia_pairs_def chain_single ia_values_def)

lemma ia_next_in_bounds:
  assumes "chain (ia_pairs a)" "i < length (ia_elements a)"
  shows "ie_next_index (ia_elements a ! i) < length (ia_elements a)"
  using chainD(4) [OF assms(1), of i] assms(2) by simp

lemma ia_range_iff:
  assumes c: "chain (ia_pairs a)" and i: "i < length (ia_elements a)"
  shows "ie_value (ia_elements a ! ie_next_index (ia_elements a ! i)) > v \<and> ie_value (ia_elements a ! i) < v \<longleftrightarrow>
    in_range (ia_pairs a) i v \<and> ie_next_index (ia_elements a ! i) \<noteq> 0"
proof -
  have "ie_value (ia_elements a ! 0) = 0" using chainD(1,2) [OF c] by simp
  then show ?thesis using ia_next_in_bounds [OF c i] i
    by (cases "ie_next_index (ia_elements a ! i) = 0") (auto simp: in_range_def)
qed

lemma low_loop_exists:
  assumes c: "chain (ia_pairs a)" and v: "v \<in> ia_values a"
  shows "i \<le> length (ia_elements a) \<Longrightarrow> \<forall>k < i. ie_value (ia_elements a ! k) \<noteq> v \<Longrightarrow>
    ia_low_nonexistent_loop (ia_elements a) v i (drop i (ia_elements a)) = Err ElementAlreadyExists"
proof (induction rule: inc_induct)
  case base
  then show ?case using v by (auto simp: ia_values_def in_set_conv_nth)
next
  case (step i)
  have i: "i < length (ia_elements a)" using step by simp
  have "\<not> in_range (ia_pairs a) i v" using in_range_absent [OF c] i v by auto
  then show ?case using step ia_range_iff [OF c i, of v] ia_next_in_bounds [OF c i]
    unfolding Cons_nth_drop_Suc [OF i, symmetric] by (auto simp: index_eval less_Suc_eq)
qed

lemma low_loop_absent:
  assumes c: "chain (ia_pairs a)" and v: "v \<notin> ia_values a"
  shows "i \<le> length (ia_elements a) \<Longrightarrow>
    \<exists>r. ia_low_nonexistent_loop (ia_elements a) v i (drop i (ia_elements a)) = Ok r \<and>
      (case r of Some j \<Rightarrow> j < length (ia_elements a) \<and> in_range (ia_pairs a) j v
       | None \<Rightarrow> \<forall>k < length (ia_elements a). i \<le> k \<longrightarrow>
           \<not> (in_range (ia_pairs a) k v \<and> ie_next_index (ia_elements a ! k) \<noteq> 0))"
proof (induction rule: inc_induct)
  case (step i)
  have i: "i < length (ia_elements a)" using step by simp
  have ne: "ie_value (ia_elements a ! i) \<noteq> v" using v i by (auto simp: ia_values_def)
  note unf = Cons_nth_drop_Suc [OF i, symmetric]
  show ?case
  proof (cases "in_range (ia_pairs a) i v \<and> ie_next_index (ia_elements a ! i) \<noteq> 0")
    case True
    then show ?thesis using ne i ia_range_iff [OF c i, of v] ia_next_in_bounds [OF c i]
      unfolding unf by (simp add: index_eval)
  next
    case False
    then have "ia_low_nonexistent_loop (ia_elements a) v i (drop i (ia_elements a)) =
        ia_low_nonexistent_loop (ia_elements a) v (Suc i) (drop (Suc i) (ia_elements a))"
      using ne ia_range_iff [OF c i, of v] ia_next_in_bounds [OF c i] unfolding unf by (auto simp: index_eval)
    moreover obtain r where "ia_low_nonexistent_loop (ia_elements a) v (Suc i) (drop (Suc i) (ia_elements a)) = Ok r"
      "case r of Some j \<Rightarrow> j < length (ia_elements a) \<and> in_range (ia_pairs a) j v
       | None \<Rightarrow> \<forall>k < length (ia_elements a). Suc i \<le> k \<longrightarrow>
           \<not> (in_range (ia_pairs a) k v \<and> ie_next_index (ia_elements a ! k) \<noteq> 0)"
      using step.IH by blast
    ultimately show ?thesis using False
      by (intro exI [of _ r]) (auto simp: Suc_le_eq le_less split: option.splits)
  qed
qed simp

lemma find_low_nonexistent:
  assumes "ia_inv a"
  shows "if v \<in> ia_values a
    then ia_find_low_element_index_for_nonexistent a v = Err ElementAlreadyExists
    else \<exists>j < length (ia_elements a). ia_find_low_element_index_for_nonexistent a v = Ok j \<and>
      in_range (ia_pairs a) j v"
proof (cases "v \<in> ia_values a")
  case True
  then show ?thesis using low_loop_exists [of a v 0] assms
    by (simp add: ia_inv_def ia_find_low_element_index_for_nonexistent_def)
next
  case False
  have c: "chain (ia_pairs a)" using assms by (simp add: ia_inv_def)
  obtain r where r: "ia_low_nonexistent_loop (ia_elements a) v 0 (ia_elements a) = Ok r"
    "case r of Some j \<Rightarrow> j < length (ia_elements a) \<and> in_range (ia_pairs a) j v
       | None \<Rightarrow> \<forall>k < length (ia_elements a). \<not> (in_range (ia_pairs a) k v \<and> ie_next_index (ia_elements a ! k) \<noteq> 0)"
    using low_loop_absent [OF c False, of 0] by (auto split: option.splits)
  show ?thesis
  proof (cases r)
    case (Some j)
    then show ?thesis using r False by (simp add: ia_find_low_element_index_for_nonexistent_def)
  next
    case None
    let ?h = "ia_highest_element_index a"
    have h: "?h < length (ia_elements a)" "ie_next_index (ia_elements a ! ?h) = 0" using assms by (auto simp: ia_inv_def)
    obtain j where j: "j < length (ia_elements a)" "in_range (ia_pairs a) j v"
      using chain_range_exists [OF c, of v] False by auto
    then have nj: "ie_next_index (ia_elements a ! j) = 0" using r(2) None by auto
    have "fst (ia_pairs a ! j) = fst (ia_pairs a ! ?h)"
      using chainD(5) [OF c, of j ?h] chainD(5) [OF c, of ?h j] h j nj by simp
    then have "j = ?h" using chain_value_inj [OF c] h j by simp
    then show ?thesis using r None False h j by (simp add: ia_find_low_element_index_for_nonexistent_def)
  qed
qed

lemma check_range_iff:
  assumes c: "chain (ia_pairs a)" and j: "j < length (ia_elements a)"
  shows "check_low_element_range v (ie_value (ia_elements a ! j)) (ie_next_index (ia_elements a ! j))
      (and_then (index (ia_elements a) (ie_next_index (ia_elements a ! j))) (\<lambda>nxt. Ok (ie_value nxt))) (\<lambda>e. e) =
    (if in_range (ia_pairs a) j v then Ok ()
     else if v \<le> ie_value (ia_elements a ! j) then Err LowElementGreaterOrEqualToNewElement
     else Err NewElementGreaterOrEqualToNextElement)"
  using ia_next_in_bounds [OF c j] j by (auto simp: check_low_element_range_def in_range_def index_eval)

lemma ia_pairs_append:
  assumes j: "j < length (ia_elements a)"
    and a': "ia_elements a' = (ia_elements a)[j := (ia_elements a ! j)\<lparr>ie_next_index := length (ia_elements a)\<rparr>] @ [e]"
    and e: "ie_value e = v" "ie_next_index e = ie_next_index (ia_elements a ! j)"
  shows "ia_pairs a' = chain_insert (ia_pairs a) j v" "ia_values a' = insert v (ia_values a)"
proof -
  show p: "ia_pairs a' = chain_insert (ia_pairs a) j v"
    using j a' e by (simp add: ia_pairs_def chain_insert_def map_update)
  have "fst ` set (ia_pairs a') = set (map fst (ia_pairs a'))" by simp
  also have "\<dots> = insert v (set (map fst (ia_pairs a)))"
    unfolding p using chain_insert_nth(5) [of j "ia_pairs a" v] j by simp
  finally show "ia_values a' = insert v (ia_values a)" by simp
qed

lemma append_with_low_spec:
  assumes inv: "ia_inv a" and j: "j < length (ia_elements a)" and room: "Suc (length (ia_elements a)) < u64_bound"
  shows "if in_range (ia_pairs a) j v
    then \<exists>a' b. ia_append_with_low_element_index a j v = Ok (a', b) \<and> ia_inv a' \<and>
      ia_pairs a' = chain_insert (ia_pairs a) j v \<and> ia_values a' = insert v (ia_values a) \<and>
      ia_elements a' = (ia_elements a)[j := ieb_new_low_element b] @ [ieb_new_element b] \<and>
      ieb_new_low_element b = (ia_elements a ! j)\<lparr>ie_next_index := length (ia_elements a)\<rparr> \<and>
      ieb_new_element b = \<lparr>ie_index = length (ia_elements a), ie_value = v,
        ie_next_index = ie_next_index (ia_elements a ! j)\<rparr> \<and>
      ieb_new_element_next_value b = ie_value (ia_elements a ! ie_next_index (ia_elements a ! j))
    else ia_append_with_low_element_index a j v =
      Err (if v \<le> ie_value (ia_elements a ! j) then LowElementGreaterOrEqualToNewElement
           else NewElementGreaterOrEqualToNextElement)"
proof -
  let ?es = "ia_elements a"
  have c: "chain (ia_pairs a)" and cur: "Suc (ia_current_node_index a) = length ?es"
    and hi: "ia_highest_element_index a < length ?es" "ie_next_index (?es ! ia_highest_element_index a) = 0"
    and idx: "map ie_index ?es = [0..<length ?es]"
    using inv by (auto simp: ia_inv_def)
  note nb = ia_next_in_bounds [OF c j]
  let ?low = "(?es ! j)\<lparr>ie_next_index := length ?es\<rparr>"
  let ?new = "\<lparr>ie_index = length ?es, ie_value = v, ie_next_index = ie_next_index (?es ! j)\<rparr>"
  let ?b = "\<lparr>ieb_new_low_element = ?low, ieb_new_element = ?new,
    ieb_new_element_next_value = ie_value (?es ! ie_next_index (?es ! j))\<rparr>"
  let ?a' = "\<lparr>ia_elements = ?es[j := ?low] @ [?new], ia_current_node_index = length ?es,
    ia_highest_element_index = (if ie_next_index (?es ! j) = 0 then length ?es else ia_highest_element_index a)\<rparr>"
  have "checked_add (ia_current_node_index a) 1 = Some (length ?es)" using cur room by simp
  then have new: "ia_new_element_with_low_element_index a j v = Ok ?b"
    using j nb by (simp add: ia_new_element_with_low_element_index_def index_eval del: checked_add_Some)
  show ?thesis
  proof (cases "in_range (ia_pairs a) j v")
    case False
    then show ?thesis using j unfolding ia_append_with_low_element_index_def
      by (auto simp: index_eval check_range_iff [OF c j])
  next
    case True
    have app: "ia_append_with_low_element_index a j v = Ok (?a', ?b)"
      using j True unfolding ia_append_with_low_element_index_def
      by (simp add: index_eval check_range_iff [OF c j] new write_at_eval list_update_append Let_def)
    have p: "ia_pairs ?a' = chain_insert (ia_pairs a) j v" "ia_values ?a' = insert v (ia_values a)"
      using j by (intro ia_pairs_append [where e = ?new]; simp)+
    have "chain (ia_pairs ?a')" unfolding p(1) using c j True by (intro chain_insert_chain) simp_all
    moreover have "map ie_index (?es[j := ?low] @ [?new]) = [0..<Suc (length ?es)]"
      using idx ia_index_nth [OF inv j] j by (simp add: map_update list_update_same_conv)
    moreover have "ie_next_index ((?es[j := ?low] @ [?new]) ! ia_highest_element_index ?a') = 0"
      using hi j by (auto simp: nth_append nth_list_update)
    ultimately have "ia_inv ?a'" using room hi j by (auto simp: ia_inv_def)
    then show ?thesis using True app p by auto
  qed
qed

lemma append_spec:
  assumes inv: "ia_inv a" and room: "Suc (length (ia_elements a)) < u64_bound"
  shows "if v \<in> ia_values a then ia_append a v = Err ElementAlreadyExists
    else \<exists>j a' b. ia_append a v = Ok (a', b) \<and> j < length (ia_elements a) \<and> in_range (ia_pairs a) j v \<and>
      ia_inv a' \<and> ia_pairs a' = chain_insert (ia_pairs a) j v \<and> ia_values a' = insert v (ia_values a) \<and>
      ia_elements a' = (ia_elements a)[j := ieb_new_low_element b] @ [ieb_new_element b] \<and>
      ieb_new_low_element b = (ia_elements a ! j)\<lparr>ie_next_index := length (ia_elements a)\<rparr> \<and>
      ieb_new_element b = \<lparr>ie_index = length (ia_elements a), ie_value = v,
        ie_next_index = ie_next_index (ia_elements a ! j)\<rparr> \<and>
      ieb_new_element_next_value b = ie_value (ia_elements a ! ie_next_index (ia_elements a ! j))"
proof (cases "v \<in> ia_values a")
  case True
  then show ?thesis using find_low_nonexistent [OF inv, of v] by (simp add: ia_append_def)
next
  case False
  then obtain j where j: "j < length (ia_elements a)" "ia_find_low_element_index_for_nonexistent a v = Ok j"
    "in_range (ia_pairs a) j v" using find_low_nonexistent [OF inv, of v] by auto
  show ?thesis using append_with_low_spec [OF inv j(1) room, of v] j False by (auto simp: ia_append_def)
qed

text \<open>The values met by following \<open>next_index\<close> from an element, for at most \<open>n\<close> steps.\<close>

fun chain_walk :: "(nat \<times> nat) list \<Rightarrow> nat \<Rightarrow> nat \<Rightarrow> nat list" where
  "chain_walk xs 0 i = []"
| "chain_walk xs (Suc n) i = fst (xs ! i) # (if snd (xs ! i) = 0 then [] else chain_walk xs n (snd (xs ! i)))"

lemma chain_above:
  assumes c: "chain xs" and i: "i < length xs"
  shows "{v \<in> fst ` set xs. fst (xs ! i) \<le> v} =
    insert (fst (xs ! i)) (if snd (xs ! i) = 0 then {} else {v \<in> fst ` set xs. fst (xs ! snd (xs ! i)) \<le> v})"
proof -
  have mem: "v \<in> fst ` set xs \<longleftrightarrow> (\<exists>k < length xs. v = fst (xs ! k))" for v
    by (metis (no_types, opaque_lifting) image_iff in_set_conv_nth)
  have "fst (xs ! k) = fst (xs ! i) \<or> fst (xs ! snd (xs ! i)) \<le> fst (xs ! k)"
    if "k < length xs" "snd (xs ! i) \<noteq> 0" "fst (xs ! i) \<le> fst (xs ! k)" for k
    using chainD(7) [OF c i that(1,2)] that(3) by linarith
  moreover have "fst (xs ! k) = fst (xs ! i)"
    if "k < length xs" "snd (xs ! i) = 0" "fst (xs ! i) \<le> fst (xs ! k)" for k
    using chainD(5) [OF c i that(1,2)] that(3) by linarith
  ultimately show ?thesis using chainD(6) [OF c i] i unfolding mem by (auto intro: less_imp_le less_le_trans)
qed

lemma chain_walk_sorted:
  assumes c: "chain xs"
  shows "i < length xs \<Longrightarrow> card {v \<in> fst ` set xs. fst (xs ! i) \<le> v} \<le> n \<Longrightarrow>
    sorted_wrt (<) (chain_walk xs n i) \<and> set (chain_walk xs n i) = {v \<in> fst ` set xs. fst (xs ! i) \<le> v}"
proof (induction n arbitrary: i)
  case 0
  then have "fst (xs ! i) \<in> {v \<in> fst ` set xs. fst (xs ! i) \<le> v}" by simp
  moreover have "finite {v \<in> fst ` set xs. fst (xs ! i) \<le> v}" by simp
  ultimately have "0 < card {v \<in> fst ` set xs. fst (xs ! i) \<le> v}" using card_gt_0_iff by blast
  then show ?case using 0 by simp
next
  case (Suc n)
  let ?S = "\<lambda>i. {v \<in> fst ` set xs. fst (xs ! i) \<le> v}"
  note up = chain_above [OF c Suc.prems(1)]
  show ?case
  proof (cases "snd (xs ! i) = 0")
    case True
    then show ?thesis using up by simp
  next
    case False
    let ?k = "snd (xs ! i)"
    have k: "?k < length xs" "fst (xs ! i) < fst (xs ! ?k)"
      using chainD(4,6) [OF c Suc.prems(1)] False by auto
    have "?S i = insert (fst (xs ! i)) (?S ?k)" using up False by simp
    moreover have "fst (xs ! i) \<notin> ?S ?k" "finite (?S ?k)" using k(2) by simp_all
    ultimately have "card (?S ?k) \<le> n" using Suc.prems(2) by simp
    from Suc.IH [OF k(1) this] show ?thesis using False k(2) up by auto
  qed
qed

lemma chain_walk_all:
  assumes c: "chain xs"
  shows "chain_walk xs (length xs) 0 = sorted_list_of_set (fst ` set xs)"
proof -
  have all: "{v \<in> fst ` set xs. fst (xs ! 0) \<le> v} = fst ` set xs" using chainD(2) [OF c] by auto
  have "card (fst ` set xs) \<le> length xs" by (metis card_length length_map set_map)
  from chain_walk_sorted [OF c chainD(1) [OF c], of "length xs"] this
  have "sorted_wrt (<) (chain_walk xs (length xs) 0)" "set (chain_walk xs (length xs) 0) = fst ` set xs"
    unfolding all by simp_all
  then show ?thesis by (intro strict_sorted_equal) simp_all
qed


section \<open>Properties\<close>

text \<open>
  C24. The indexed array refines a set of values: appending an absent value inserts it and keeps the
  invariant, appending a present value fails with \<open>ElementAlreadyExists\<close>, and following
  \<open>next_index\<close> from element 0 always visits all the values in increasing order.
\<close>

theorem indexed_array_refines_set:
  assumes "ia_inv a" "Suc (length (ia_elements a)) < u64_bound"
  shows "(if v \<in> ia_values a then ia_append a v = Err ElementAlreadyExists
     else \<exists>a' b. ia_append a v = Ok (a', b) \<and> ia_inv a' \<and> ia_values a' = insert v (ia_values a) \<and>
       ia_len a' = Suc (ia_len a) \<and> ie_value (ieb_new_low_element b) < v \<and>
       chain_walk (ia_pairs a') (length (ia_elements a')) 0 = sorted_list_of_set (insert v (ia_values a)))"
proof (cases "v \<in> ia_values a")
  case True
  then show ?thesis using append_spec [OF assms, of v] by simp
next
  case False
  then obtain j a' b where a': "ia_append a v = Ok (a', b)" "in_range (ia_pairs a) j v" "j < length (ia_elements a)"
    "ia_inv a'" "ia_values a' = insert v (ia_values a)"
    "ia_elements a' = (ia_elements a)[j := ieb_new_low_element b] @ [ieb_new_element b]"
    "ieb_new_low_element b = (ia_elements a ! j)\<lparr>ie_next_index := length (ia_elements a)\<rparr>"
    using append_spec [OF assms, of v] by auto
  have "chain_walk (ia_pairs a') (length (ia_elements a')) 0 = sorted_list_of_set (insert v (ia_values a))"
    using chain_walk_all [of "ia_pairs a'"] a'(4,5) by (simp add: ia_inv_def)
  moreover have "ia_len a' = Suc (ia_len a)"
    using arg_cong [OF a'(6), of length] assms(1) a'(4) by (simp add: ia_inv_def ia_len_def)
  moreover have "ie_value (ieb_new_low_element b) < v" using a'(2,3,7) by (simp add: in_range_def)
  ultimately show ?thesis using a' False by simp
qed

theorem indexed_array_refines_set_witness:
  "\<exists>a a' b. ia_append IndexedArray_default 30 = Ok (a, b) \<and> ia_values a = {0, 30} \<and>
     (\<exists>b'. ia_append a 10 = Ok (a', b')) \<and> ia_values a' = {0, 10, 30} \<and>
     ia_append a' 30 = Err ElementAlreadyExists"
proof -
  note d = ia_default_inv
  have l0: "Suc (length (ia_elements IndexedArray_default)) < u64_bound" by (simp add: IndexedArray_default_def)
  obtain a b where a: "ia_append IndexedArray_default 30 = Ok (a, b)" "ia_inv a" "ia_values a = {30, 0}" "ia_len a = 1"
    using indexed_array_refines_set [OF d(1) l0, of 30] d(2) by (auto simp: ia_len_def IndexedArray_default_def)
  have l1: "Suc (length (ia_elements a)) < u64_bound" using a(2,4) by (simp add: ia_inv_def ia_len_def)
  obtain a' b' where a': "ia_append a 10 = Ok (a', b')" "ia_inv a'" "ia_values a' = {10, 30, 0}" "ia_len a' = 2"
    using indexed_array_refines_set [OF a(2) l1, of 10] a(3,4) by auto
  have l2: "Suc (length (ia_elements a')) < u64_bound" using a'(2,4) by (simp add: ia_inv_def ia_len_def)
  have "ia_append a' 30 = Err ElementAlreadyExists"
    using indexed_array_refines_set [OF a'(2) l2, of 30] a'(3) by simp
  then show ?thesis using a(1,3) a'(1,3) by auto
qed

text \<open>
  Lookups of the indexed array: \<open>find_element\<close> finds exactly the present values,
  \<open>find_low_element_for_nonexistent\<close> returns for every absent value the greatest smaller element
  together with the value of its successor (0 at the upper end), and nothing lies between the two.
\<close>

theorem indexed_array_low_element:
  assumes "ia_inv a"
  shows "(\<exists>r. ia_find_element a v = (Ok r :: (IndexedMerkleTreeError, _) result) \<and> (r \<noteq> None \<longleftrightarrow> v \<in> ia_values a)) \<and>
    (v \<notin> ia_values a \<longrightarrow> (\<exists>low nv. ia_find_low_element_for_nonexistent a v = Ok (low, nv) \<and>
      ie_value low \<in> ia_values a \<and> ie_value low < v \<and> (\<forall>w \<in> ia_values a. w < v \<longrightarrow> w \<le> ie_value low) \<and>
      (if ie_next_index low = 0 then nv = 0 \<and> (\<forall>w \<in> ia_values a. w < v)
       else nv \<in> ia_values a \<and> v < nv \<and> (\<forall>w \<in> ia_values a. v < w \<longrightarrow> nv \<le> w))))"
proof (intro conjI impI)
  have "ia_prefix a = (Ok (ia_elements a) :: (IndexedMerkleTreeError, _) result)"
    using assms by (simp add: ia_prefix_def ia_len_def ia_inv_def u64_eval)
  moreover have "find (\<lambda>nd. ie_value nd = v) (ia_elements a) \<noteq> None \<longleftrightarrow> v \<in> ia_values a"
    by (auto simp: find_None_iff ia_values_def)
  ultimately show "\<exists>r. ia_find_element a v = (Ok r :: (IndexedMerkleTreeError, _) result) \<and> (r \<noteq> None \<longleftrightarrow> v \<in> ia_values a)"
    by (simp add: ia_find_element_def)
next
  assume v: "v \<notin> ia_values a"
  let ?es = "ia_elements a"
  have c: "chain (ia_pairs a)" using assms by (simp add: ia_inv_def)
  obtain j where j: "j < length ?es" "ia_find_low_element_index_for_nonexistent a v = Ok j" "in_range (ia_pairs a) j v"
    using find_low_nonexistent [OF assms, of v] v by auto
  have nb: "ie_next_index (?es ! j) < length ?es" using ia_next_in_bounds [OF c j(1)] .
  have f: "ia_find_low_element_for_nonexistent a v = Ok (?es ! j, ie_value (?es ! ie_next_index (?es ! j)))"
    using j nb by (simp add: ia_find_low_element_for_nonexistent_def index_eval)
  have mem: "w \<in> ia_values a \<Longrightarrow> \<exists>k < length ?es. w = ie_value (?es ! k)" for w
    by (auto simp: ia_values_def in_set_conv_nth)
  have low: "w \<le> ie_value (?es ! j) \<or> v < w" if "w \<in> ia_values a" for w
    using mem [OF that] in_range_fresh(1) [OF c _ j(3)] j(1) by auto
  have up: "if ie_next_index (?es ! j) = 0 then w < v else v < w \<longrightarrow> ie_value (?es ! ie_next_index (?es ! j)) \<le> w"
    if "w \<in> ia_values a" for w
    using mem [OF that] chainD(5,7) [OF c, of j] j nb by (fastforce simp: in_range_def)
  have "ie_value (?es ! 0) = 0" using chainD(1,2) [OF c] by simp
  moreover have "\<forall>w \<in> ia_values a. w < v \<longrightarrow> w \<le> ie_value (?es ! j)" using low by (meson less_asym)
  moreover have "ie_value (?es ! j) \<in> ia_values a" "ie_value (?es ! ie_next_index (?es ! j)) \<in> ia_values a"
    using j(1) nb by (simp_all add: ia_values_def)
  ultimately show "\<exists>low nv. ia_find_low_element_for_nonexistent a v = Ok (low, nv) \<and>
      ie_value low \<in> ia_values a \<and> ie_value low < v \<and> (\<forall>w \<in> ia_values a. w < v \<longrightarrow> w \<le> ie_value low) \<and>
      (if ie_next_index low = 0 then nv = 0 \<and> (\<forall>w \<in> ia_values a. w < v)
       else nv \<in> ia_values a \<and> v < nv \<and> (\<forall>w \<in> ia_values a. v < w \<longrightarrow> nv \<le> w))"
    unfolding f using j nb up by (auto simp: in_range_def split: if_splits)
qed

theorem indexed_array_low_element_witness:
  "\<exists>low. ia_find_low_element_for_nonexistent IndexedArray_default 5 = Ok (low, 0) \<and> ie_value low = 0"
  using indexed_array_low_element [OF ia_default_inv(1), of 5] unfolding ia_default_inv(2) by (auto split: if_splits)

end
