(* ===== verification/Tree_History.thy ===== *)
theory Tree_History
  imports Concurrent_Merkle_Tree
begin

text \<open>
  What a list of changelog entries says about the tree, independently of the ring buffer that
  stores it.  \<open>overlay\<close> reads the newest value the entries give to a node; \<open>explains\<close> says
  that reading the entries over the old tree gives every node of the new tree.  An update and a
  whole batch of appends are explained by the entries the code records for them, which is what
  makes patching proofs, refreshing the canopy and refreshing the filled subtrees correct.
\<close>

section \<open>Entries\<close>

definition entry_val :: "ChangelogEntry \<Rightarrow> nat \<Rightarrow> nat \<Rightarrow> bytes option" where
  "entry_val e l s = (if cle_index e div 2 ^ l = s then cle_path e ! l else None)"

fun overlay :: "ChangelogEntry list \<Rightarrow> nat \<Rightarrow> nat \<Rightarrow> bytes option" where
  "overlay [] l s = None"
| "overlay (e # es) l s = (case overlay es l s of Some v \<Rightarrow> Some v | None \<Rightarrow> entry_val e l s)"

lemma overlay_append:
  "overlay (es @ fs) l s = (case overlay fs l s of Some v \<Rightarrow> Some v | None \<Rightarrow> overlay es l s)"
  by (induction es) (auto split: option.splits)

lemma overlay_snoc:
  "overlay (es @ [e]) l s = (case entry_val e l s of Some v \<Rightarrow> Some v | None \<Rightarrow> overlay es l s)"
  by (simp add: overlay_append)

definition explains ::
  "Hasher \<Rightarrow> nat \<Rightarrow> ChangelogEntry list \<Rightarrow> bytes list \<Rightarrow> bytes list \<Rightarrow> bool" where
  "explains H h es ls ls' \<longleftrightarrow>
     (\<forall>l < h. \<forall>s. node H ls' l s = (case overlay es l s of Some v \<Rightarrow> v | None \<Rightarrow> node H ls l s))"

lemma explainsD:
  "explains H h es ls ls' \<Longrightarrow> l < h \<Longrightarrow>
     node H ls' l s = (case overlay es l s of Some v \<Rightarrow> v | None \<Rightarrow> node H ls l s)"
  unfolding explains_def by blast

lemma explains_refl: "explains H h [] ls ls"
  by (simp add: explains_def)

lemma explains_trans:
  "explains H h es ls ls' \<Longrightarrow> explains H h fs ls' ls'' \<Longrightarrow> explains H h (es @ fs) ls ls''"
  unfolding explains_def by (auto simp: overlay_append split: option.splits)

definition entry_wf :: "nat \<Rightarrow> ChangelogEntry \<Rightarrow> bool" where
  "entry_wf h e \<longleftrightarrow> length (cle_path e) = h \<and> cle_index e < 2 ^ h"


section \<open>The entries the operations record\<close>

definition update_entry :: "Hasher \<Rightarrow> nat \<Rightarrow> bytes list \<Rightarrow> nat \<Rightarrow> ChangelogEntry" where
  "update_entry H h ls' j =
     \<lparr>cle_path = map (\<lambda>l. Some (node H ls' l (j div 2 ^ l))) [0..<h], cle_index = j\<rparr>"

text \<open>A leaf inside a batch records its path only up to the first level where it is a left child.\<close>

definition append_entry :: "Hasher \<Rightarrow> nat \<Rightarrow> bool \<Rightarrow> bytes list \<Rightarrow> bytes \<Rightarrow> ChangelogEntry" where
  "append_entry H h last_leaf ls leaf =
     \<lparr>cle_path = map (\<lambda>l. if last_leaf \<or> 2 ^ l dvd Suc (length ls)
          then Some (node H (ls @ [leaf]) l (length ls div 2 ^ l)) else None) [0..<h],
      cle_index = length ls\<rparr>"

fun batch_entries :: "Hasher \<Rightarrow> nat \<Rightarrow> bytes list \<Rightarrow> bytes list \<Rightarrow> ChangelogEntry list" where
  "batch_entries H h ls [] = []"
| "batch_entries H h ls (x # xs) =
     append_entry H h (xs = []) ls x # batch_entries H h (ls @ [x]) xs"

lemma length_batch_entries [simp]: "length (batch_entries H h ls xs) = length xs"
  by (induction xs arbitrary: ls) auto

lemma batch_entries_index:
  "map cle_index (batch_entries H h ls xs) = [length ls..<length ls + length xs]"
proof (induction xs arbitrary: ls)
  case (Cons x xs)
  then show ?case by (simp add: append_entry_def upt_conv_Cons del: upt_Suc)
qed simp

lemma batch_entries_wf:
  "length ls + length xs \<le> 2 ^ h \<Longrightarrow> e \<in> set (batch_entries H h ls xs) \<Longrightarrow> entry_wf h e"
proof (induction xs arbitrary: ls)
  case (Cons x xs)
  then show ?case using Cons.IH [of "ls @ [x]"] by (auto simp: append_entry_def entry_wf_def)
qed simp

lemma update_entry_wf: "j < 2 ^ h \<Longrightarrow> entry_wf h (update_entry H h ls' j)"
  by (simp add: entry_wf_def update_entry_def)

lemma update_explains:
  "explains H h [update_entry H h (ls[j := x]) j] ls (ls[j := x])"
  by (auto simp: explains_def entry_val_def update_entry_def node_update_other)


section \<open>Partially filled subtrees\<close>

text \<open>
  Inside a batch the nodes that are only partly filled are stale: \<open>dirty n l s\<close> says that node \<open>s\<close>
  of level \<open>l\<close> contains both leaf \<open>n - 1\<close> and leaf \<open>n\<close>.
\<close>

definition dirty :: "nat \<Rightarrow> nat \<Rightarrow> nat \<Rightarrow> bool" where
  "dirty n l s \<longleftrightarrow> s = n div 2 ^ l \<and> \<not> 2 ^ l dvd n"

lemma dirty_Suc:
  assumes "\<not> dirty (Suc n) l s" "s = n div 2 ^ l"
  shows "2 ^ l dvd Suc n"
proof (rule ccontr)
  assume d: "\<not> 2 ^ l dvd Suc n"
  then have "Suc n div 2 ^ l = n div 2 ^ l" unfolding dvd_eq_mod_eq_0 by (simp add: div_Suc)
  with d assms show False by (simp add: dirty_def)
qed

text \<open>A node that the next leaf does not touch, or that it completes.\<close>

definition explains_settled ::
  "Hasher \<Rightarrow> nat \<Rightarrow> ChangelogEntry list \<Rightarrow> bytes list \<Rightarrow> bytes list \<Rightarrow> bool" where
  "explains_settled H h es ls0 ls \<longleftrightarrow>
     (\<forall>l < h. \<forall>s. \<not> dirty (length ls) l s \<longrightarrow>
        node H ls l s = (case overlay es l s of Some v \<Rightarrow> v | None \<Rightarrow> node H ls0 l s))"

lemma explains_imp_settled: "explains H h es ls0 ls \<Longrightarrow> explains_settled H h es ls0 ls"
  by (simp add: explains_def explains_settled_def)

lemma entry_val_append_entry:
  assumes "l < h"
  shows "entry_val (append_entry H h last_leaf ls leaf) l s =
    (if s = length ls div 2 ^ l \<and> (last_leaf \<or> 2 ^ l dvd Suc (length ls))
     then Some (node H (ls @ [leaf]) l s) else None)"
  using assms by (auto simp: entry_val_def append_entry_def)

lemma append_explains_step:
  assumes "explains_settled H h es ls0 ls" "l < h"
    and "last_leaf \<or> \<not> dirty (Suc (length ls)) l s"
  shows "node H (ls @ [x]) l s =
    (case overlay (es @ [append_entry H h last_leaf ls x]) l s of
       Some v \<Rightarrow> v | None \<Rightarrow> node H ls0 l s)"
proof (cases "s = length ls div 2 ^ l")
  case True
  then have "last_leaf \<or> 2 ^ l dvd Suc (length ls)" using assms(3) dirty_Suc by blast
  then show ?thesis using True by (simp add: overlay_snoc entry_val_append_entry [OF assms(2)])
next
  case False
  then have "\<not> dirty (length ls) l s" by (simp add: dirty_def)
  then show ?thesis using False assms(1,2) node_append_other [of ls l s H x]
    by (auto simp: explains_settled_def overlay_snoc entry_val_append_entry)
qed

lemma batch_explains_from:
  assumes "explains_settled H h es ls0 ls" "xs \<noteq> []"
  shows "explains H h (es @ batch_entries H h ls xs) ls0 (ls @ xs)"
  using assms
proof (induction xs arbitrary: es ls)
  case (Cons x xs)
  show ?case
  proof (cases "xs = []")
    case True
    then show ?thesis using append_explains_step [OF Cons.prems(1)] by (auto simp: explains_def)
  next
    case False
    have "explains_settled H h (es @ [append_entry H h False ls x]) ls0 (ls @ [x])"
      using append_explains_step [OF Cons.prems(1)] by (auto simp: explains_settled_def)
    from Cons.IH [OF this False] show ?thesis using False by simp
  qed
qed simp

lemma batch_explains:
  "xs \<noteq> [] \<Longrightarrow> explains H h (batch_entries H h ls xs) ls (ls @ xs)"
  using batch_explains_from [OF explains_imp_settled [OF explains_refl], of xs H h ls] by simp


section \<open>Trees whose nodes the hasher accepts\<close>

definition hash_ok :: "Hasher \<Rightarrow> bytes list \<Rightarrow> nat \<Rightarrow> nat \<Rightarrow> bool" where
  "hash_ok H ls l s \<longleftrightarrow>
     hashv H [node H ls l (2 * s), node H ls l (2 * s + 1)] = Ok (node H ls (Suc l) s)"

definition hashable :: "Hasher \<Rightarrow> nat \<Rightarrow> bytes list \<Rightarrow> bool" where
  "hashable H h ls \<longleftrightarrow> (\<forall>l < h. \<forall>s. hash_ok H ls l s)"

lemma hash_ok_iff: "hash_ok H ls l s \<longleftrightarrow> is_ok (hashv H [node H ls l (2 * s), node H ls l (2 * s + 1)])"
  by (auto simp: hash_ok_def node.simps(2) hash2_def is_ok_iff)

lemma hashable_empty:
  assumes "zero_chain H" "h \<le> MAX_HEIGHT"
  shows "hashable H h []"
  unfolding hashable_def hash_ok_def
proof (intro allI impI)
  fix l s assume "l < h"
  then have "l < MAX_HEIGHT" using assms(2) by simp
  then show "hashv H [node H [] l (2 * s), node H [] l (2 * s + 1)] = Ok (node H [] (Suc l) s)"
    using zero_chain_step [OF assms(1)] assms(1) by (simp add: node_empty)
qed

lemma hash_ok_cong:
  assumes "\<And>j. j div 2 ^ Suc l = s \<Longrightarrow> node H ls 0 j = node H ls' 0 j"
  shows "hash_ok H ls l s \<longleftrightarrow> hash_ok H ls' l s"
proof -
  have "node H ls (Suc l) s = node H ls' (Suc l) s" using assms by (rule node_cong)
  moreover have "node H ls l i = node H ls' l i" if "i div 2 = s" for i
  proof (rule node_cong)
    fix j assume "j div 2 ^ l = i"
    then have "j div 2 ^ Suc l = s" using that by (simp only: div_pow_Suc)
    then show "node H ls 0 j = node H ls' 0 j" by (rule assms)
  qed
  ultimately show ?thesis by (simp add: hash_ok_def)
qed

lemma hash_ok_update_other:
  "j div 2 ^ Suc l \<noteq> s \<Longrightarrow> hash_ok H (ls[j := x]) l s \<longleftrightarrow> hash_ok H ls l s"
  by (rule hash_ok_cong) (metis length_list_update node.simps(1) nth_list_update_neq)

lemma hash_ok_append_other:
  "length ls div 2 ^ Suc l \<noteq> s \<Longrightarrow> hash_ok H (ls @ [x]) l s \<longleftrightarrow> hash_ok H ls l s"
  by (rule hash_ok_cong) (auto simp: nth_append less_Suc_eq)

text \<open>The hash of one level of the path of leaf \<open>j\<close>, in the order the code hashes it.\<close>

lemma hash_ok_path:
  "hash_ok H ls l (j div 2 ^ Suc l) \<longleftrightarrow>
     hashv H (if even (j div 2 ^ l)
         then [node H ls l (j div 2 ^ l), node H ls l (sibling (j div 2 ^ l))]
         else [node H ls l (sibling (j div 2 ^ l)), node H ls l (j div 2 ^ l)])
       = Ok (node H ls (Suc l) (j div 2 ^ Suc l))"
  unfolding div_pow_Suc hash_ok_def
  by (cases "even (j div 2 ^ l)") (auto simp: sibling_even sibling_odd elim!: evenE oddE)

lemma path_hash_is_ok:
  assumes "hashv H (if even (j div 2 ^ l)
         then [node H ls l (j div 2 ^ l), node H ls l (sibling (j div 2 ^ l))]
         else [node H ls l (sibling (j div 2 ^ l)), node H ls l (j div 2 ^ l)]) = Ok x"
  shows "hash_ok H ls l (j div 2 ^ Suc l)" "x = node H ls (Suc l) (j div 2 ^ Suc l)"
proof -
  have "x = node H ls (Suc l) (j div 2 ^ Suc l)"
    unfolding node_parent_path using assms by (auto simp: hash2_def split: if_splits)
  with assms show "hash_ok H ls l (j div 2 ^ Suc l)" "x = node H ls (Suc l) (j div 2 ^ Suc l)"
    unfolding hash_ok_path by simp_all
qed

text \<open>The hashes one leaf of a batch computes.\<close>

definition leaf_hash_ok :: "Hasher \<Rightarrow> nat \<Rightarrow> bool \<Rightarrow> bytes list \<Rightarrow> bytes \<Rightarrow> bool" where
  "leaf_hash_ok H h last_leaf ls leaf \<longleftrightarrow>
     (\<forall>l < h. last_leaf \<or> 2 ^ Suc l dvd Suc (length ls) \<longrightarrow>
        hash_ok H (ls @ [leaf]) l (length ls div 2 ^ Suc l))"

fun batch_hash_ok :: "Hasher \<Rightarrow> nat \<Rightarrow> bytes list \<Rightarrow> bytes list \<Rightarrow> bool" where
  "batch_hash_ok H h ls [] \<longleftrightarrow> True"
| "batch_hash_ok H h ls (x # xs) \<longleftrightarrow>
     leaf_hash_ok H h (xs = []) ls x \<and> batch_hash_ok H h (ls @ [x]) xs"

definition hashable_settled :: "Hasher \<Rightarrow> nat \<Rightarrow> bytes list \<Rightarrow> bool" where
  "hashable_settled H h ls \<longleftrightarrow>
     (\<forall>l < h. \<forall>s. \<not> dirty (length ls) (Suc l) s \<longrightarrow> hash_ok H ls l s)"

lemma leaf_hashable_step:
  assumes "hashable_settled H h ls" "leaf_hash_ok H h last_leaf ls x" "l < h"
    and "last_leaf \<or> \<not> dirty (Suc (length ls)) (Suc l) s"
  shows "hash_ok H (ls @ [x]) l s"
proof (cases "s = length ls div 2 ^ Suc l")
  case True
  then have "last_leaf \<or> 2 ^ Suc l dvd Suc (length ls)" using assms(4) dirty_Suc by blast
  then show ?thesis using True assms(2,3) unfolding leaf_hash_ok_def by blast
next
  case False
  then have "\<not> dirty (length ls) (Suc l) s" unfolding dirty_def by blast
  then have "hash_ok H ls l s" using assms(1,3) by (simp add: hashable_settled_def)
  then show ?thesis using False hash_ok_append_other by metis
qed

lemma batch_hashable:
  assumes "hashable_settled H h ls" "batch_hash_ok H h ls xs" "xs \<noteq> []"
  shows "hashable H h (ls @ xs)"
  using assms
proof (induction xs arbitrary: ls)
  case (Cons x xs)
  note step = leaf_hashable_step [OF Cons.prems(1)]
  show ?case
  proof (cases "xs = []")
    case True
    then show ?thesis using step Cons.prems(2) by (auto simp: hashable_def)
  next
    case False
    have "hashable_settled H h (ls @ [x])"
      using step Cons.prems(2) False by (auto simp: hashable_settled_def)
    from Cons.IH [OF this _ False] show ?thesis using Cons.prems(2) by simp
  qed
qed simp

lemma hashable_imp_settled: "hashable H h ls \<Longrightarrow> hashable_settled H h ls"
  by (simp add: hashable_def hashable_settled_def)

text \<open>A completed subtree does not change any more.\<close>

lemma hash_ok_complete:
  assumes "hash_ok H (ls @ ys) l s" "Suc s * 2 ^ Suc l \<le> length ls"
  shows "hash_ok H ls l s"
proof -
  have "node H ls 0 j = node H (ls @ ys) 0 j" if "j div 2 ^ Suc l = s" for j
  proof -
    have "j < Suc s * 2 ^ Suc l"
      using that by (metis div_less_iff_less_mult lessI zero_less_numeral zero_less_power)
    then have "j < length ls" using assms(2) by linarith
    then show ?thesis by (simp add: nth_append)
  qed
  from hash_ok_cong [OF this] assms(1) show ?thesis by blast
qed

lemma hashable_batch:
  "hashable H h (ls @ xs) \<Longrightarrow> batch_hash_ok H h ls xs"
proof (induction xs arbitrary: ls)
  case (Cons x xs)
  have "hash_ok H (ls @ [x]) l (length ls div 2 ^ Suc l)"
    if "l < h" "xs = [] \<or> 2 ^ Suc l dvd Suc (length ls)" for l
  proof (cases "xs = []")
    case True
    then show ?thesis using Cons.prems that(1) by (simp add: hashable_def)
  next
    case False
    then have d: "2 ^ Suc l dvd Suc (length ls)" using that(2) by simp
    have "Suc (length ls div 2 ^ Suc l) = Suc (length ls) div 2 ^ Suc l"
      using d by (simp add: div_Suc dvd_eq_mod_eq_0)
    then have "Suc (length ls div 2 ^ Suc l) * 2 ^ Suc l = Suc (length ls)"
      using d by (metis dvd_div_mult_self)
    then have "Suc (length ls div 2 ^ Suc l) * 2 ^ Suc l \<le> length (ls @ [x])" by simp
    moreover have "hash_ok H ((ls @ [x]) @ xs) l (length ls div 2 ^ Suc l)"
      using Cons.prems that(1) by (simp add: hashable_def)
    ultimately show ?thesis by (metis hash_ok_complete)
  qed
  then have "leaf_hash_ok H h (xs = []) ls x" unfolding leaf_hash_ok_def by blast
  moreover have "batch_hash_ok H h (ls @ [x]) xs" using Cons.prems by (intro Cons.IH) simp
  ultimately show ?case by simp
qed simp

lemma batch_hash_ok_iff:
  "hashable H h ls \<Longrightarrow> xs \<noteq> [] \<Longrightarrow> batch_hash_ok H h ls xs \<longleftrightarrow> hashable H h (ls @ xs)"
  using batch_hashable hashable_batch hashable_imp_settled by blast


lemma sample_hashable: "hashable sample_hasher h ls"
  by (simp add: hashable_def hash_ok_iff sample_hasher_def)


section \<open>Patching a proof\<close>

lemma xor_lt_pow: "(a :: nat) < 2 ^ h \<Longrightarrow> b < 2 ^ h \<Longrightarrow> a XOR b < 2 ^ h"
proof -
  assume "a < 2 ^ h" "b < 2 ^ h"
  then have "drop_bit h (a XOR b) = 0" unfolding drop_bit_xor by (simp add: drop_bit_eq_div)
  then show "a XOR b < 2 ^ h" by (simp add: drop_bit_eq_div div_eq_0_iff)
qed

lemma xor_eq_0: "(a :: nat) XOR b = 0 \<longleftrightarrow> a = b"
  by (metis xor.assoc xor_self_eq xor.left_neutral xor.right_neutral)

lemma intersection_index:
  assumes "j < 2 ^ h" "cle_index e < 2 ^ h" "j \<noteq> cle_index e" "h \<le> 64"
  shows "\<exists>l < h. ChangelogEntry_intersection_index h e j = (Ok l :: ('e, nat) result) \<and>
    sibling (j div 2 ^ l) = cle_index e div 2 ^ l"
proof -
  let ?x = "j XOR cle_index e"
  have "?x \<noteq> 0" using assms(3) by (simp only: xor_eq_0 not_False_eq_True)
  then have x: "0 < ?x" "?x < 2 ^ h" using assms(1,2) by (simp_all only: neq0_conv xor_lt_pow)
  then have h: "0 < h" by (cases h) auto
  obtain l where l: "bit_len ?x = Suc l" using x(1) by (metis bit_len_pos)
  have lh: "l < h" using bit_len_le [of ?x h] x(2) l by simp
  have "?x * 2 ^ (64 - h) < 2 ^ h * 2 ^ (64 - h)" using x(2) by simp
  also have "\<dots> = (2 :: nat) ^ 64" using assms(4) by (simp flip: power_add)
  finally have "shl_u64 ?x (64 - h) = (Ok (?x * 2 ^ (64 - h)) :: ('e, nat) result)"
    using h by (simp add: shl_u64_def)
  moreover have "leading_zeros_u64 (?x * 2 ^ (64 - h)) = h - Suc l"
    using x(1) l assms(4) by (simp add: leading_zeros_u64_def bit_len_mult_pow)
  ultimately have "ChangelogEntry_intersection_index h e j = (Ok l :: ('e, nat) result)"
    using h lh assms(4) by (simp add: ChangelogEntry_intersection_index_def u64_eval)
  then show ?thesis using lh l sibling_ancestor_iff [of j l "cle_index e"] by blast
qed

lemma sibling_level_unique:
  "sibling (j div 2 ^ l) = n div 2 ^ l \<Longrightarrow> sibling (j div 2 ^ k) = n div 2 ^ k \<Longrightarrow> k = l"
  by (simp add: sibling_ancestor_iff)

text \<open>One entry patches exactly the proof node that it changed.\<close>

lemma update_proof_spec:
  assumes "bv_inv p" "BoundedVec_len p = h" "entry_wf h e" "j < 2 ^ h" "h \<le> 64" "j \<noteq> cle_index e"
  shows "\<exists>p'. ChangelogEntry_update_proof h e j p = Ok p' \<and> bv_inv p' \<and> BoundedVec_len p' = h \<and>
    BoundedVec_capacity p' = BoundedVec_capacity p \<and>
    (\<forall>l < h. BoundedVec_as_slice p' ! l =
       (case entry_val e l (sibling (j div 2 ^ l)) of Some v \<Rightarrow> v | None \<Rightarrow> BoundedVec_as_slice p ! l))"
proof -
  have e: "length (cle_path e) = h" "cle_index e < 2 ^ h" using assms(3) by (auto simp: entry_wf_def)
  obtain k where k: "k < h" "sibling (j div 2 ^ k) = cle_index e div 2 ^ k"
    "ChangelogEntry_intersection_index h e j = (Ok k :: (ConcurrentMerkleTreeError, nat) result)"
    using intersection_index [OF assms(4) e(2) assms(6,5)] by blast
  have v: "entry_val e l (sibling (j div 2 ^ l)) = (if l = k then cle_path e ! k else None)" for l
  proof (cases "l = k")
    case False
    then have "cle_index e div 2 ^ l \<noteq> sibling (j div 2 ^ l)"
      using sibling_level_unique [OF k(2)] by metis
    then show ?thesis using False by (simp add: entry_val_def)
  qed (simp add: entry_val_def k(2))
  show ?thesis
  proof (cases "cle_path e ! k")
    case None
    then show ?thesis using assms e k v by (simp add: ChangelogEntry_update_proof_def index_eval)
  next
    case (Some x)
    obtain p' where p': "BoundedVec_index_set p k x = (Ok p' :: (ConcurrentMerkleTreeError, _) result)"
      using k(1) assms(2) by (auto simp: BoundedVec_index_set_Ok)
    note p'_facts = BoundedVec_index_set_as_slice [OF p' assms(1)]
    have "ChangelogEntry_update_proof h e j p = Ok p'"
      using assms(6) e(1) k p' Some by (simp add: ChangelogEntry_update_proof_def index_eval)
    then show ?thesis using p'_facts assms(1,2) v Some k(1) by (auto simp: nth_list_update)
  qed
qed

lemma update_proof_same:
  "j = cle_index e \<Longrightarrow> ChangelogEntry_update_proof h e j p = Err CannotUpdateLeaf"
  by (simp add: ChangelogEntry_update_proof_def)

lemma update_proof_fold:
  assumes "bv_inv p" "BoundedVec_len p = h" "\<forall>e \<in> set es. entry_wf h e" "j < 2 ^ h" "h \<le> 64"
  shows "if j \<in> cle_index ` set es
    then try_fold (\<lambda>p e. ChangelogEntry_update_proof h e j p) p es = Err CannotUpdateLeaf
    else \<exists>p'. try_fold (\<lambda>p e. ChangelogEntry_update_proof h e j p) p es = Ok p' \<and> bv_inv p' \<and>
      BoundedVec_len p' = h \<and> BoundedVec_capacity p' = BoundedVec_capacity p \<and>
      (\<forall>l < h. BoundedVec_as_slice p' ! l =
         (case overlay es l (sibling (j div 2 ^ l)) of Some v \<Rightarrow> v | None \<Rightarrow> BoundedVec_as_slice p ! l))"
  using assms
proof (induction es arbitrary: p)
  case (Cons e es)
  show ?case
  proof (cases "j = cle_index e")
    case True
    then show ?thesis by (simp add: update_proof_same)
  next
    case False
    have "entry_wf h e" using Cons.prems(3) by simp
    from update_proof_spec [OF Cons.prems(1,2) this Cons.prems(4,5) False] obtain q where
      q: "ChangelogEntry_update_proof h e j p = Ok q" "bv_inv q" "BoundedVec_len q = h"
      "BoundedVec_capacity q = BoundedVec_capacity p"
      "\<And>l. l < h \<Longrightarrow> BoundedVec_as_slice q ! l =
       (case entry_val e l (sibling (j div 2 ^ l)) of Some v \<Rightarrow> v | None \<Rightarrow> BoundedVec_as_slice p ! l)"
      by blast
    have "\<forall>e \<in> set es. entry_wf h e" using Cons.prems(3) by simp
    note IH = Cons.IH [OF q(2,3) this Cons.prems(4,5)]
    show ?thesis
    proof (cases "j \<in> cle_index ` set es")
      case True
      then show ?thesis using IH q(1) by simp
    next
      case not_in: False
      then obtain r where r: "try_fold (\<lambda>p e. ChangelogEntry_update_proof h e j p) q es = Ok r"
        "bv_inv r" "BoundedVec_len r = h" "BoundedVec_capacity r = BoundedVec_capacity q"
        "\<And>l. l < h \<Longrightarrow> BoundedVec_as_slice r ! l = (case overlay es l (sibling (j div 2 ^ l)) of
           Some v \<Rightarrow> v | None \<Rightarrow> BoundedVec_as_slice q ! l)"
        using IH by auto
      have "BoundedVec_as_slice r ! l = (case overlay (e # es) l (sibling (j div 2 ^ l)) of
           Some v \<Rightarrow> v | None \<Rightarrow> BoundedVec_as_slice p ! l)" if "l < h" for l
        unfolding r(5) [OF that] q(5) [OF that] by (simp split: option.split)
      then show ?thesis using r(1-4) q(1,4) not_in False by auto
    qed
  qed
qed auto

end
