(* ===== verification/Tree_Canopy.thy ===== *)
theory Tree_Canopy
  imports Tree_History
begin

text \<open>
  The canopy caches the top \<open>canopy_depth\<close> levels below the root in one array: the node \<open>x\<close> that is
  \<open>d\<close> levels below the root is at \<open>2 ^ d + x - 2\<close>.  This theory shows that completing a proof from
  a correct canopy appends the upper nodes of the Merkle proof, and that replaying changelog entries
  into a canopy writes exactly the nodes they describe.
\<close>

section \<open>Canopy positions\<close>

definition canopy_pos :: "nat \<Rightarrow> nat \<Rightarrow> nat" where
  "canopy_pos d x = 2 ^ d + x - 2"

lemma two_le_pow: "0 < d \<Longrightarrow> (2::nat) \<le> 2 ^ d"
  by (cases d) auto

lemma canopy_pos_less:
  assumes "0 < d" "d \<le> cd" "x < 2 ^ d"
  shows "canopy_pos d x < 2 ^ (cd + 1) - 2"
proof -
  have "(2::nat) ^ d \<le> 2 ^ cd" using assms(2) by simp
  moreover have "(2::nat) \<le> 2 ^ d" by (rule two_le_pow [OF assms(1)])
  ultimately have "2 ^ d + x - 2 < 2 * 2 ^ cd - 2" using assms(3) by linarith
  then show ?thesis by (simp add: canopy_pos_def)
qed

lemma canopy_level_less:
  assumes "d < e" "x < 2 ^ d" "0 < d"
  shows "canopy_pos d x < canopy_pos e y"
proof -
  have "(2::nat) ^ Suc d \<le> 2 ^ e" using assms(1) by (intro power_increasing) auto
  moreover have "(2::nat) \<le> 2 ^ d" by (rule two_le_pow [OF assms(3)])
  ultimately show ?thesis using assms(2) by (simp add: canopy_pos_def)
qed

lemma canopy_pos_inj:
  assumes "0 < d" "0 < e" "x < 2 ^ d" "y < 2 ^ e"
  shows "canopy_pos d x = canopy_pos e y \<longleftrightarrow> d = e \<and> x = y"
proof -
  have "d = e" if "canopy_pos d x = canopy_pos e y"
    using that canopy_level_less assms by (metis less_irrefl linorder_neqE_nat)
  moreover have "x = y" if "canopy_pos d x = canopy_pos d y"
    using that two_le_pow [OF assms(1)] by (simp add: canopy_pos_def)
  ultimately show ?thesis by blast
qed

definition canopy_ok ::
  "Hasher \<Rightarrow> nat \<Rightarrow> nat \<Rightarrow> bytes BoundedVec \<Rightarrow> bytes list \<Rightarrow> bool" where
  "canopy_ok H h cd c ls \<longleftrightarrow> bv_inv c \<and> BoundedVec_len c = 2 ^ (cd + 1) - 2 \<and>
     (\<forall>d x. 0 < d \<and> d \<le> cd \<and> x < 2 ^ d \<longrightarrow>
        BoundedVec_as_slice c ! canopy_pos d x = node H ls (h - d) x)"


section \<open>Completing a proof from the canopy\<close>

lemma div_pow_lt: "(j::nat) < 2 ^ h \<Longrightarrow> d \<le> h \<Longrightarrow> j div 2 ^ (h - d) < 2 ^ d"
  by (simp add: div_less_iff_less_mult flip: power_add)

lemma sibling_lt: "x < 2 ^ d \<Longrightarrow> 0 < d \<Longrightarrow> sibling x < 2 ^ d"
  by (cases "even x") (auto simp: sibling_even sibling_odd elim!: evenE dest: gr0_implies_Suc)

lemma canopy_sibling_pos:
  fixes x :: nat
  assumes "0 < d"
  shows "(let i = 2 ^ d + x - 2 in if i mod 2 = 0 then i + 1 else i - 1) = canopy_pos d (sibling x)"
proof -
  have p: "(2::nat) \<le> 2 ^ d" "even ((2::nat) ^ d)" using assms by (simp_all add: two_le_pow)
  show ?thesis
  proof (cases "even x")
    case True
    then have "even (2 ^ d + x - 2)" using p by simp
    then show ?thesis using True p
      by (simp add: Let_def canopy_pos_def sibling_even even_iff_mod_2_eq_zero [symmetric])
  next
    case False
    then have "odd (2 ^ d + x - 2)" using p by simp
    then show ?thesis using False p
      by (auto simp: Let_def canopy_pos_def sibling_odd even_iff_mod_2_eq_zero [symmetric] elim!: oddE)
  qed
qed

lemma canopy_loop:
  assumes "canopy_ok H h cd c ls" "j < 2 ^ h" "d \<le> cd" "cd \<le> h" "bv_inv p"
    and "BoundedVec_len p + d \<le> BoundedVec_capacity p"
  shows "\<exists>p'. cmt_canopy_loop c (2 ^ d + j div 2 ^ (h - d)) p = Ok p' \<and> bv_inv p' \<and>
    BoundedVec_capacity p' = BoundedVec_capacity p \<and>
    BoundedVec_as_slice p' =
      BoundedVec_as_slice p @ map (\<lambda>l. node H ls l (sibling (j div 2 ^ l))) [h - d..<h]"
  using assms(3,5,6)
proof (induction d arbitrary: p)
  case 0
  then show ?case using assms(2) by (simp add: cmt_canopy_loop.simps)
next
  case (Suc d)
  let ?x = "j div 2 ^ (h - Suc d)"
  have d: "Suc d \<le> h" "Suc d \<le> cd" using Suc.prems(1) assms(4) by simp_all
  have x: "?x < 2 ^ Suc d" using div_pow_lt [OF assms(2) d(1)] .
  have s: "sibling ?x < 2 ^ Suc d" using sibling_lt [OF x] by simp
  have nd: "BoundedVec_as_slice c ! canopy_pos (Suc d) (sibling ?x) = node H ls (h - Suc d) (sibling ?x)"
    using assms(1) d(2) s unfolding canopy_ok_def by blast
  have "canopy_pos (Suc d) (sibling ?x) < length (BoundedVec_as_slice c)"
    using canopy_pos_less [OF _ d(2) s] assms(1) by (simp add: canopy_ok_def)
  then have read: "BoundedVec_index c (canopy_pos (Suc d) (sibling ?x)) =
      (Ok (node H ls (h - Suc d) (sibling ?x)) :: (ConcurrentMerkleTreeError, _) result)"
    using nd by (simp add: BoundedVec_index_def index_eval)
  have "BoundedVec_len p < BoundedVec_capacity p" using Suc.prems(3) by simp
  then obtain q where q: "BoundedVec_push p (node H ls (h - Suc d) (sibling ?x)) = Ok q"
    by (rule BoundedVec_push_eval [OF Suc.prems(2)])
  note qf = BoundedVec_push_as_slice [OF q Suc.prems(2)]
  have hd: "h - d = Suc (h - Suc d)" using d(1) by simp
  have "?x div 2 = j div 2 ^ (h - d)" unfolding hd div_pow_Suc ..
  then have half: "(2 ^ Suc d + ?x) div 2 = 2 ^ d + j div 2 ^ (h - d)" by simp
  obtain r where r: "cmt_canopy_loop c (2 ^ d + j div 2 ^ (h - d)) q = Ok r" "bv_inv r"
    "BoundedVec_capacity r = BoundedVec_capacity q"
    "BoundedVec_as_slice r = BoundedVec_as_slice q @
       map (\<lambda>l. node H ls l (sibling (j div 2 ^ l))) [h - d..<h]"
    using Suc.IH [OF _ qf(1)] qf(3,4) Suc.prems(1,3) by auto
  have "1 < 2 ^ Suc d + ?x" using two_le_pow [OF zero_less_Suc, of d] by linarith
  then have "cmt_canopy_loop c (2 ^ Suc d + ?x) p = Ok r"
    using canopy_sibling_pos [of "Suc d" ?x] read q r(1) half
    by (subst cmt_canopy_loop.simps) (simp add: Let_def del: power_Suc)
  moreover have "[h - Suc d..<h] = (h - Suc d) # [h - d..<h]"
    using d(1) by (simp add: upt_conv_Cons hd)
  ultimately show ?case using r(2-4) qf(2,3) by auto
qed

lemma update_proof_from_canopy_spec:
  assumes "canopy_ok H (cmt_height t) (cmt_canopy_depth t) (cmt_canopy t) ls"
    and "j < 2 ^ cmt_height t" "cmt_canopy_depth t \<le> cmt_height t" "cmt_height t < 63" "bv_inv p"
    and "BoundedVec_len p + cmt_canopy_depth t \<le> BoundedVec_capacity p"
  shows "\<exists>p'. cmt_update_proof_from_canopy t j p = Ok p' \<and> bv_inv p' \<and>
    BoundedVec_capacity p' = BoundedVec_capacity p \<and>
    BoundedVec_as_slice p' = BoundedVec_as_slice p @
      map (\<lambda>l. node H ls l (sibling (j div 2 ^ l))) [cmt_height t - cmt_canopy_depth t..<cmt_height t]"
proof -
  let ?h = "cmt_height t" and ?cd = "cmt_canopy_depth t"
  have "(2::nat) ^ ?h + j < 2 ^ Suc ?h" using assms(2) by simp
  also have "\<dots> \<le> 2 ^ 63" using assms(4) by (intro power_increasing) auto
  finally have b: "2 ^ ?h + j < u64_bound" by simp
  have "(2::nat) ^ ?h = 2 ^ ?cd * 2 ^ (?h - ?cd)" using assms(3) by (simp flip: power_add)
  then have "(2 ^ ?h + j) div 2 ^ (?h - ?cd) = 2 ^ ?cd + j div 2 ^ (?h - ?cd)" by simp
  then have "cmt_update_proof_from_canopy t j p =
      cmt_canopy_loop (cmt_canopy t) (2 ^ ?cd + j div 2 ^ (?h - ?cd)) p"
    using assms(3,4) b by (simp add: cmt_update_proof_from_canopy_def u64_eval)
  then show ?thesis using canopy_loop [OF assms(1,2) order_refl assms(3,5,6)] by simp
qed


section \<open>Replaying entries into the canopy\<close>

lemma update_canopy_entry_prefix:
  assumes "entry_wf h e" "bv_inv c" "BoundedVec_len c = 2 ^ (cd + 1) - 2" "cd \<le> h" "h < 63" "k \<le> cd"
  shows "\<exists>c'. try_fold (cmt_update_canopy_node h (cle_index e))
       c (enumerate 0 (take k (rev (cle_path e)))) = (Ok c' :: ('e, _) result) \<and>
     bv_inv c' \<and> BoundedVec_len c' = BoundedVec_len c \<and>
     BoundedVec_capacity c' = BoundedVec_capacity c \<and>
     (\<forall>d x. 0 < d \<and> d \<le> cd \<and> x < 2 ^ d \<longrightarrow> BoundedVec_as_slice c' ! canopy_pos d x =
       (if d \<le> k then case entry_val e (h - d) x of Some v \<Rightarrow> v | None \<Rightarrow> BoundedVec_as_slice c ! canopy_pos d x
        else BoundedVec_as_slice c ! canopy_pos d x))"
  (is "\<exists>c'. try_fold ?f _ _ = (Ok c' :: ('e, _) result) \<and> ?P k c'")
  using assms(6)
proof (induction k)
  case 0
  then show ?case using assms(2) by simp
next
  case (Suc k)
  then obtain c1 where c1: "try_fold ?f c (enumerate 0 (take k (rev (cle_path e)))) = (Ok c1 :: ('e, _) result)"
    and P: "?P k c1" by auto
  have path: "length (cle_path e) = h" "cle_index e < 2 ^ h" using assms(1) by (auto simp: entry_wf_def)
  have k: "k < h" "Suc k \<le> h" "Suc k \<le> cd" using Suc.prems assms(4) by simp_all
  let ?l = "h - Suc k"
  let ?x = "cle_index e div 2 ^ ?l"
  have x: "?x < 2 ^ Suc k" using div_pow_lt [OF path(2) k(2)] .
  have "take (Suc k) (rev (cle_path e)) = take k (rev (cle_path e)) @ [cle_path e ! ?l]"
    using path(1) k by (simp add: take_Suc_conv_app_nth rev_nth)
  then have fold: "try_fold ?f c (enumerate 0 (take (Suc k) (rev (cle_path e)))) =
      (?f c1 (k, cle_path e ! ?l) :: ('e, _) result)"
    using c1 path(1) k(1) by (simp add: enumerate_append_eq try_fold_append del: take_Suc)
  have ev: "entry_val e (h - d) y = (if d = Suc k \<and> y = ?x then cle_path e ! ?l else entry_val e (h - d) y)"
    for d y by (auto simp: entry_val_def)
  show ?case
  proof (cases "cle_path e ! ?l")
    case None
    have "?P (Suc k) c1"
    proof -
      have "entry_val e (h - Suc k) y = None" for y using None by (simp add: entry_val_def)
      then show ?thesis using P by (auto simp: le_Suc_eq)
    qed
    then show ?thesis using fold None by (auto simp: cmt_update_canopy_node_def)
  next
    case (Some nd)
    have pow: "(2::nat) ^ Suc k + ?x < u64_bound"
    proof -
      have "(2::nat) ^ Suc k + ?x < 2 ^ Suc (Suc k)" using x by simp
      also have "\<dots> \<le> 2 ^ 64" using k(2) assms(5) by (intro power_increasing) auto
      finally show ?thesis by simp
    qed
    have pos: "canopy_pos (Suc k) ?x < BoundedVec_len c1"
      using canopy_pos_less [OF _ k(3) x] P assms(3) by simp
    then obtain c2 where c2: "BoundedVec_index_set c1 (canopy_pos (Suc k) ?x) nd = (Ok c2 :: ('e, _) result)"
      by (auto simp: BoundedVec_index_set_Ok)
    note c2f = BoundedVec_index_set_as_slice [OF c2 conjunct1 [OF P]]
    have "2 \<le> 2 ^ Suc k + ?x" using two_le_pow [OF zero_less_Suc, of k] by linarith
    then have "?f c1 (k, cle_path e ! ?l) = (Ok c2 :: ('e, _) result)"
      using Some k(1,2) assms(5) c2 pow
      by (simp add: u64_eval canopy_pos_def cmt_update_canopy_node_def del: power_Suc)
    moreover have "BoundedVec_as_slice c2 ! canopy_pos d y =
        (if d \<le> Suc k then case entry_val e (h - d) y of Some v \<Rightarrow> v | None \<Rightarrow> BoundedVec_as_slice c ! canopy_pos d y
         else BoundedVec_as_slice c ! canopy_pos d y)" if "0 < d" "d \<le> cd" "y < 2 ^ d" for d y
    proof (cases "d = Suc k \<and> y = ?x")
      case True
      then have "entry_val e (h - d) y = Some nd" using Some ev [of d y] by simp
      then show ?thesis using True c2f(2) pos P by simp
    next
      case False
      then have "canopy_pos d y \<noteq> canopy_pos (Suc k) ?x" using canopy_pos_inj [OF that(1) _ that(3) x] by simp
      then have "BoundedVec_as_slice c2 ! canopy_pos d y = BoundedVec_as_slice c1 ! canopy_pos d y"
        using c2f(2) by simp
      moreover have "entry_val e (h - d) y = None" if "d = Suc k" using False that by (auto simp: entry_val_def)
      ultimately show ?thesis using P that by (cases "d = Suc k") auto
    qed
    ultimately show ?thesis using fold P c2f(1,3,4) by auto
  qed
qed

lemma update_canopy_entry_spec:
  assumes "entry_wf h e" "bv_inv c" "BoundedVec_len c = 2 ^ (cd + 1) - 2" "cd \<le> h" "h < 63"
  shows "\<exists>c'. cmt_update_canopy_entry h cd e c = (Ok c' :: ('e, _) result) \<and>
     bv_inv c' \<and> BoundedVec_len c' = BoundedVec_len c \<and> BoundedVec_capacity c' = BoundedVec_capacity c \<and>
     (\<forall>d x. 0 < d \<and> d \<le> cd \<and> x < 2 ^ d \<longrightarrow> BoundedVec_as_slice c' ! canopy_pos d x =
       (case entry_val e (h - d) x of Some v \<Rightarrow> v | None \<Rightarrow> BoundedVec_as_slice c ! canopy_pos d x))"
  using update_canopy_entry_prefix [OF assms order_refl, where 'e = 'e]
  unfolding cmt_update_canopy_entry_def by auto

lemma update_canopy_entries:
  assumes "\<forall>e \<in> set es. entry_wf h e" "bv_inv c" "BoundedVec_len c = 2 ^ (cd + 1) - 2" "cd \<le> h" "h < 63"
  shows "\<exists>c'. try_fold (\<lambda>c e. cmt_update_canopy_entry h cd e c) c es = (Ok c' :: ('e, _) result) \<and>
     bv_inv c' \<and> BoundedVec_len c' = BoundedVec_len c \<and> BoundedVec_capacity c' = BoundedVec_capacity c \<and>
     (\<forall>d x. 0 < d \<and> d \<le> cd \<and> x < 2 ^ d \<longrightarrow> BoundedVec_as_slice c' ! canopy_pos d x =
       (case overlay es (h - d) x of Some v \<Rightarrow> v | None \<Rightarrow> BoundedVec_as_slice c ! canopy_pos d x))"
  using assms(1-3)
proof (induction es arbitrary: c)
  case (Cons e es)
  have "entry_wf h e" "\<forall>e \<in> set es. entry_wf h e" using Cons.prems(1) by simp_all
  from update_canopy_entry_spec [OF this(1) Cons.prems(2,3) assms(4,5), where 'e = 'e] obtain c1 where
    c1: "cmt_update_canopy_entry h cd e c = (Ok c1 :: ('e, _) result)" "bv_inv c1"
     "BoundedVec_len c1 = BoundedVec_len c" "BoundedVec_capacity c1 = BoundedVec_capacity c"
     "\<And>d x. 0 < d \<Longrightarrow> d \<le> cd \<Longrightarrow> x < 2 ^ d \<Longrightarrow> BoundedVec_as_slice c1 ! canopy_pos d x =
       (case entry_val e (h - d) x of Some v \<Rightarrow> v | None \<Rightarrow> BoundedVec_as_slice c ! canopy_pos d x)"
    by blast
  have l1: "BoundedVec_len c1 = 2 ^ (cd + 1) - 2" using c1(3) Cons.prems(3) by simp
  obtain c2 where c2:
     "try_fold (\<lambda>c e. cmt_update_canopy_entry h cd e c) c1 es = (Ok c2 :: ('e, _) result)" "bv_inv c2"
     "BoundedVec_len c2 = BoundedVec_len c1" "BoundedVec_capacity c2 = BoundedVec_capacity c1"
     "\<And>d x. 0 < d \<Longrightarrow> d \<le> cd \<Longrightarrow> x < 2 ^ d \<Longrightarrow> BoundedVec_as_slice c2 ! canopy_pos d x =
       (case overlay es (h - d) x of Some v \<Rightarrow> v | None \<Rightarrow> BoundedVec_as_slice c1 ! canopy_pos d x)"
    using Cons.IH [OF \<open>\<forall>e \<in> set es. entry_wf h e\<close> c1(2) l1] by blast
  have "BoundedVec_as_slice c2 ! canopy_pos d x = (case overlay (e # es) (h - d) x of
      Some v \<Rightarrow> v | None \<Rightarrow> BoundedVec_as_slice c ! canopy_pos d x)"
    if "0 < d" "d \<le> cd" "x < 2 ^ d" for d x
    unfolding c2(5) [OF that] c1(5) [OF that] by (simp split: option.split)
  then show ?case using c1(1-4) c2(1-4) by auto
qed simp

lemma try_fold_map: "try_fold f s (map g xs) = try_fold (\<lambda>s x. f s (g x)) s xs"
  by (induction xs arbitrary: s) auto

text \<open>
  After the entries \<open>es\<close> were pushed to the changelog, \<open>update_canopy\<close> brings a canopy of the old
  leaves up to the new leaves, provided the entries explain the change.
\<close>

lemma update_canopy_spec:
  assumes "cbv_pushed cl es (cmt_changelog t)" "cbv_inv cl"
    and "length es \<le> CyclicBoundedVec_capacity cl" "\<forall>e \<in> set es. entry_wf (cmt_height t) e"
    and "canopy_ok H (cmt_height t) (cmt_canopy_depth t) (cmt_canopy t) ls"
    and "explains H (cmt_height t) es ls ls'" "cmt_canopy_depth t \<le> cmt_height t" "cmt_height t < 63"
    and "fst_i = (CyclicBoundedVec_last_index cl + 1) mod CyclicBoundedVec_capacity cl"
  shows "\<exists>c. cmt_update_canopy t fst_i (length es) = (Ok (t\<lparr>cmt_canopy := c\<rparr>) :: ('e, _) result) \<and>
    canopy_ok H (cmt_height t) (cmt_canopy_depth t) c ls' \<and>
    BoundedVec_capacity c = BoundedVec_capacity (cmt_canopy t)"
proof -
  let ?h = "cmt_height t" and ?cd = "cmt_canopy_depth t"
  have cap: "CyclicBoundedVec_capacity (cmt_changelog t) = CyclicBoundedVec_capacity cl"
    using assms(1) by (simp add: cbv_pushed_def)
  have read: "CyclicBoundedVec_index (cmt_changelog t) ((fst_i + i) mod CyclicBoundedVec_capacity cl) =
      (Ok (es ! i) :: ('e, _) result)" if "i < length es" for i
    using cbv_pushed_index [OF assms(1-3) that] unfolding assms(9) by (simp add: mod_add_left_eq mod_Suc_eq)
  have "try_fold (\<lambda>c i. and_then (CyclicBoundedVec_index (cmt_changelog t)
            ((fst_i + i) mod CyclicBoundedVec_capacity (cmt_changelog t))) (\<lambda>e.
           cmt_update_canopy_entry ?h ?cd e c)) (cmt_canopy t) [0..<length es] =
      (try_fold (\<lambda>c i. cmt_update_canopy_entry ?h ?cd (es ! i) c) (cmt_canopy t) [0..<length es] :: ('e, _) result)"
    by (rule try_fold_cong) (simp_all add: read cap)
  also have "\<dots> = try_fold (\<lambda>c e. cmt_update_canopy_entry ?h ?cd e c) (cmt_canopy t) (map (nth es) [0..<length es])"
    by (rule try_fold_map [symmetric])
  also have "map (nth es) [0..<length es] = es" by (rule map_nth)
  finally have fold: "cmt_update_canopy t fst_i (length es) =
     (and_then (try_fold (\<lambda>c e. cmt_update_canopy_entry ?h ?cd e c) (cmt_canopy t) es)
       (\<lambda>c. Ok (t\<lparr>cmt_canopy := c\<rparr>)) :: ('e, _) result)"
    by (simp add: cmt_update_canopy_def)
  have can: "bv_inv (cmt_canopy t)" "BoundedVec_len (cmt_canopy t) = 2 ^ (?cd + 1) - 2"
    using assms(5) by (auto simp: canopy_ok_def)
  from update_canopy_entries [OF assms(4) can assms(7,8), where 'e = 'e] obtain c where
    c: "try_fold (\<lambda>c e. cmt_update_canopy_entry ?h ?cd e c) (cmt_canopy t) es = (Ok c :: ('e, _) result)"
     "bv_inv c" "BoundedVec_len c = BoundedVec_len (cmt_canopy t)"
     "BoundedVec_capacity c = BoundedVec_capacity (cmt_canopy t)"
     "\<And>d x. 0 < d \<Longrightarrow> d \<le> ?cd \<Longrightarrow> x < 2 ^ d \<Longrightarrow> BoundedVec_as_slice c ! canopy_pos d x =
       (case overlay es (?h - d) x of Some v \<Rightarrow> v | None \<Rightarrow> BoundedVec_as_slice (cmt_canopy t) ! canopy_pos d x)"
    by blast
  have "BoundedVec_as_slice c ! canopy_pos d x = node H ls' (?h - d) x"
    if d: "0 < d" "d \<le> ?cd" "x < 2 ^ d" for d x
  proof -
    have "BoundedVec_as_slice (cmt_canopy t) ! canopy_pos d x = node H ls (?h - d) x"
      using assms(5) d unfolding canopy_ok_def by blast
    moreover have "?h - d < ?h" using d assms(7) by simp
    ultimately show ?thesis using c(5) [OF d] explainsD [OF assms(6)] by (simp split: option.splits)
  qed
  then have "canopy_ok H ?h ?cd c ls'" using c(2,3) can(2) by (simp add: canopy_ok_def)
  then show ?thesis using fold c(1,4) by auto
qed

end
