(* ===== verification/Concurrent_Append.thy ===== *)
theory Concurrent_Append
  imports Tree_Canopy
begin

text \<open>
  Appending: one pass of the level loop of \<open>append_batch_common\<close>, one leaf, and a whole batch.
  The filled subtrees are the left siblings of the path of the next leaf; a batch computes each
  completed subtree once and the partly filled ones only for its last leaf.
\<close>

section \<open>Filled subtrees\<close>

definition filled_ok :: "Hasher \<Rightarrow> nat \<Rightarrow> bytes BoundedVec \<Rightarrow> bytes list \<Rightarrow> bool" where
  "filled_ok H h f ls \<longleftrightarrow> bv_inv f \<and> BoundedVec_len f = h \<and>
     (\<forall>l < h. odd (length ls div 2 ^ l) \<longrightarrow>
        BoundedVec_as_slice f ! l = node H ls l (sibling (length ls div 2 ^ l)))"

text \<open>The levels that leaf \<open>m\<close> reaches: all of them for the last leaf of a batch.\<close>

definition reached :: "bool \<Rightarrow> nat \<Rightarrow> nat \<Rightarrow> bool" where
  "reached last_leaf m l \<longleftrightarrow> last_leaf \<or> 2 ^ l dvd Suc m"

lemma reached_0 [simp]: "reached last_leaf m 0"
  by (simp add: reached_def)

lemma reached_mono: "reached last_leaf m l \<Longrightarrow> k \<le> l \<Longrightarrow> reached last_leaf m k"
  unfolding reached_def by (meson dvd_trans le_imp_power_dvd)

lemma reached_last [simp]: "reached True m l"
  by (simp add: reached_def)

lemma completed_div:
  fixes m :: nat
  assumes "2 ^ k dvd Suc m"
  shows "Suc m = 2 ^ k * Suc (m div 2 ^ k)"
proof -
  have "Suc (m div 2 ^ k) = Suc m div 2 ^ k" using assms by (simp add: div_Suc dvd_eq_mod_eq_0)
  then show ?thesis using assms by (metis dvd_mult_div_cancel)
qed

lemma reached_Suc:
  assumes "reached last_leaf m k"
  shows "reached last_leaf m (Suc k) \<longleftrightarrow> last_leaf \<or> odd (m div 2 ^ k)"
proof (cases last_leaf)
  case False
  then have "2 ^ k dvd Suc m" using assms by (simp add: reached_def)
  then have m: "Suc m = 2 ^ k * Suc (m div 2 ^ k)" by (rule completed_div)
  have "2 ^ Suc k dvd 2 ^ k * Suc (m div 2 ^ k) \<longleftrightarrow> 2 dvd Suc (m div 2 ^ k)"
    by (simp add: power_Suc2 del: power_Suc mult_Suc_right)
  then show ?thesis using False m by (simp add: reached_def del: power_Suc mult_Suc_right)
qed simp

text \<open>The right sibling of the newest leaf's path is empty.\<close>

lemma right_sibling_empty:
  assumes "zero_chain H" "l \<le> MAX_HEIGHT" "even (length ls div 2 ^ l)"
  shows "node H (ls @ [x]) l (sibling (length ls div 2 ^ l)) = zero_bytes H ! l"
proof (rule node_beyond [OF assms(1,2)])
  have "length ls < Suc (length ls div 2 ^ l) * 2 ^ l"
    by (metis div_less_iff_less_mult lessI zero_less_numeral zero_less_power)
  then show "length (ls @ [x]) \<le> sibling (length ls div 2 ^ l) * 2 ^ l"
    unfolding sibling_even [OF assms(3)] length_append_singleton by (rule Suc_leI)
qed

lemma left_sibling_kept:
  "node H (ls @ [x]) l (sibling (length ls div 2 ^ l)) = node H ls l (sibling (length ls div 2 ^ l))"
  by (rule node_append_other) simp


section \<open>Recording path nodes and proof nodes\<close>

lemma set_changelog_path_spec:
  assumes "cbv_pushed v0 [e] (cmt_changelog t)" "i < length (cle_path e)"
  shows "\<exists>u. cmt_set_changelog_path t (CyclicBoundedVec_last_index (cmt_changelog t)) i nd =
      (Ok (t\<lparr>cmt_changelog := u\<rparr>) :: ('e, _) result) \<and>
    cbv_pushed v0 [e\<lparr>cle_path := (cle_path e)[i := Some nd]\<rparr>] u \<and>
    CyclicBoundedVec_last_index u = CyclicBoundedVec_last_index (cmt_changelog t)"
proof -
  let ?cl = "cmt_changelog t"
  have cl: "cbv_inv ?cl" "cbv_list ?cl = take_last (CyclicBoundedVec_capacity v0) (cbv_list v0 @ [e])"
    "0 < CyclicBoundedVec_capacity v0" using assms(1) by (auto simp: cbv_pushed_def cbv_inv_def)
  then have "last (cbv_list ?cl) = e" "length (cbv_list ?cl) \<noteq> 0"
    unfolding cl(2) by (simp_all add: last_take_last)
  then have rd: "CyclicBoundedVec_index ?cl (CyclicBoundedVec_last_index ?cl) = (Ok e :: ('e, _) result)"
    using cbv_index_last [OF cl(1)] by (metis list.size(3))
  from cbv_pushed_set_last [OF assms(1), of "e\<lparr>cle_path := (cle_path e)[i := Some nd]\<rparr>", where 'e = 'e]
  show ?thesis using rd assms(2) by (auto simp: cmt_set_changelog_path_def write_at_eval)
qed

definition proof_room :: "bool \<Rightarrow> bytes BoundedVec list option \<Rightarrow> nat \<Rightarrow> nat \<Rightarrow> bool" where
  "proof_room WP proofs i n \<longleftrightarrow> (WP \<longrightarrow>
     (\<exists>ps. proofs = Some ps \<and> i < length ps \<and> bv_inv (ps ! i) \<and>
        BoundedVec_len (ps ! i) + n \<le> BoundedVec_capacity (ps ! i)))"

definition proof_nodes :: "bytes BoundedVec list option \<Rightarrow> nat \<Rightarrow> bytes list" where
  "proof_nodes proofs i = BoundedVec_as_slice (the proofs ! i)"

lemma proof_room_mono: "proof_room WP proofs i n \<Longrightarrow> k \<le> n \<Longrightarrow> proof_room WP proofs i k"
  by (auto simp: proof_room_def)

lemma push_proof_spec:
  assumes "proof_room WP proofs i (Suc n)"
  shows "\<exists>proofs'. cmt_push_proof WP proofs i nd = Ok proofs' \<and> proof_room WP proofs' i n \<and>
    (WP \<longrightarrow> proof_nodes proofs' i = proof_nodes proofs i @ [nd]) \<and> (\<not> WP \<longrightarrow> proofs' = proofs)"
proof (cases WP)
  case True
  then obtain ps where ps: "proofs = Some ps" "i < length ps" "bv_inv (ps ! i)"
    "BoundedVec_len (ps ! i) + Suc n \<le> BoundedVec_capacity (ps ! i)"
    using assms by (auto simp: proof_room_def)
  then obtain p where p: "BoundedVec_push (ps ! i) nd = Ok p"
    using BoundedVec_push_eval [OF ps(3), of nd] by auto
  note pf = BoundedVec_push_as_slice [OF p ps(3)]
  show ?thesis using True ps p pf
    by (auto simp: cmt_push_proof_def index_eval proof_room_def proof_nodes_def)
qed (simp add: cmt_push_proof_def proof_room_def)


section \<open>The level loop\<close>

text \<open>
  \<open>levels_post\<close> is the effect of the loop from level \<open>k\<close> on, for a leaf at position \<open>m\<close> of the
  tree of \<open>ls'\<close>: which filled subtrees, which path nodes and which proof nodes are written.
\<close>

definition levels_post ::
  "Hasher \<Rightarrow> nat \<Rightarrow> bool \<Rightarrow> bytes list \<Rightarrow> nat \<Rightarrow> ChangelogEntry CyclicBoundedVec \<Rightarrow> bool \<Rightarrow> nat \<Rightarrow> nat \<Rightarrow>
   ConcurrentMerkleTree \<Rightarrow> ChangelogEntry \<Rightarrow> bytes BoundedVec list option \<Rightarrow> 
   (ConcurrentMerkleTreeError, ConcurrentMerkleTree \<times> bytes BoundedVec list option \<times> bytes) result \<Rightarrow> bool" where
  "levels_post H h last_leaf ls' m v0 WP i k t e proofs r \<longleftrightarrow>
     (\<exists>f cl proofs' cur e'. r = Ok (t\<lparr>cmt_filled_subtrees := f, cmt_changelog := cl\<rparr>, proofs', cur) \<and>
        bv_inv f \<and> BoundedVec_len f = h \<and>
        (\<forall>l < h. BoundedVec_as_slice f ! l =
           (if k \<le> l \<and> even (m div 2 ^ l) \<and> reached last_leaf m l then node H ls' l (m div 2 ^ l)
            else BoundedVec_as_slice (cmt_filled_subtrees t) ! l)) \<and>
        cbv_pushed v0 [e'] cl \<and> cle_index e' = cle_index e \<and> length (cle_path e') = h \<and>
        (\<forall>l < h. cle_path e' ! l =
           (if k < l \<and> reached last_leaf m l then Some (node H ls' l (m div 2 ^ l))
            else cle_path e ! l)) \<and>
        (last_leaf \<longrightarrow> cur = node H ls' h (m div 2 ^ h)) \<and> proof_room WP proofs' i 0 \<and>
        (WP \<longrightarrow> proof_nodes proofs' i = proof_nodes proofs i @
           map (\<lambda>l. node H ls' l (sibling (m div 2 ^ l))) (filter (reached last_leaf m) [k..<h])))"

text \<open>What the loop relies on at level \<open>k\<close>.\<close>

definition levels_pre ::
  "Hasher \<Rightarrow> nat \<Rightarrow> bool \<Rightarrow> bytes list \<Rightarrow> nat \<Rightarrow> ChangelogEntry CyclicBoundedVec \<Rightarrow> bool \<Rightarrow> nat \<Rightarrow> nat \<Rightarrow>
   ConcurrentMerkleTree \<Rightarrow> ChangelogEntry \<Rightarrow> bytes BoundedVec list option \<Rightarrow> bytes \<Rightarrow> bool" where
  "levels_pre H h last_leaf ls' m v0 WP i k t e proofs cur \<longleftrightarrow>
     k \<le> h \<and> reached last_leaf m k \<and> cmt_height t = h \<and>
     bv_inv (cmt_filled_subtrees t) \<and> BoundedVec_len (cmt_filled_subtrees t) = h \<and>
     (\<forall>l < h. odd (m div 2 ^ l) \<longrightarrow>
        BoundedVec_as_slice (cmt_filled_subtrees t) ! l = node H ls' l (sibling (m div 2 ^ l))) \<and>
     cbv_pushed v0 [e] (cmt_changelog t) \<and> length (cle_path e) = h \<and>
     proof_room WP proofs i (h - k) \<and> cur = node H ls' k (m div 2 ^ k)"

lemma levels_post_base:
  assumes "levels_pre H h last_leaf ls' m v0 WP i h t e proofs cur"
  shows "levels_post H h last_leaf ls' m v0 WP i h t e proofs (Ok (t, proofs, cur))"
  unfolding levels_post_def
  by (rule exI [of _ "cmt_filled_subtrees t"], rule exI [of _ "cmt_changelog t"],
      rule exI [of _ proofs], rule exI [of _ cur], rule exI [of _ e])
    (use assms in \<open>auto simp: levels_pre_def\<close>)

lemma filter_reached_Cons:
  "k < h \<Longrightarrow> reached ll m k \<Longrightarrow>
     filter (reached ll m) [k..<h] = k # filter (reached ll m) [Suc k..<h]"
  by (simp add: upt_conv_Cons)

lemma levels_post_step:
  assumes post: "levels_post H h ll ls' m v0 WP i (Suc k) t2 e2 proofs2 r"
    and pre: "levels_pre H h ll ls' m v0 WP i k t e proofs cur"
    and k: "k < h" and R: "reached ll m (Suc k)"
    and f1: "bv_inv f1" "BoundedVec_len f1 = h"
      "BoundedVec_as_slice f1 = (if even (m div 2 ^ k) then (BoundedVec_as_slice (cmt_filled_subtrees t))[k := cur]
         else BoundedVec_as_slice (cmt_filled_subtrees t))"
    and t2: "t2 = t\<lparr>cmt_filled_subtrees := f1, cmt_changelog := cl1\<rparr>"
    and e2: "e2 = (if Suc k < h then e\<lparr>cle_path := (cle_path e)[Suc k := Some (node H ls' (Suc k) (m div 2 ^ Suc k))]\<rparr> else e)"
    and proofs2: "WP \<longrightarrow> proof_nodes proofs2 i = proof_nodes proofs i @ [node H ls' k (sibling (m div 2 ^ k))]"
  shows "levels_post H h ll ls' m v0 WP i k t e proofs r"
proof -
  obtain f cl proofs' cur' e' where
    r: "r = Ok (t2\<lparr>cmt_filled_subtrees := f, cmt_changelog := cl\<rparr>, proofs', cur')"
    and f: "bv_inv f" "BoundedVec_len f = h" "\<And>l. l < h \<Longrightarrow> BoundedVec_as_slice f ! l =
           (if Suc k \<le> l \<and> even (m div 2 ^ l) \<and> reached ll m l then node H ls' l (m div 2 ^ l)
            else BoundedVec_as_slice (cmt_filled_subtrees t2) ! l)"
    and cl: "cbv_pushed v0 [e'] cl" "cle_index e' = cle_index e2" "length (cle_path e') = h"
      "\<And>l. l < h \<Longrightarrow> cle_path e' ! l =
           (if Suc k < l \<and> reached ll m l then Some (node H ls' l (m div 2 ^ l)) else cle_path e2 ! l)"
    and cur': "ll \<longrightarrow> cur' = node H ls' h (m div 2 ^ h)" "proof_room WP proofs' i 0"
    and ps: "WP \<longrightarrow> proof_nodes proofs' i = proof_nodes proofs2 i @
           map (\<lambda>l. node H ls' l (sibling (m div 2 ^ l))) (filter (reached ll m) [Suc k..<h])"
    using post unfolding levels_post_def by blast
  have pre': "reached ll m k" "cur = node H ls' k (m div 2 ^ k)" "length (cle_path e) = h"
    "length (BoundedVec_as_slice (cmt_filled_subtrees t)) = h"
    using pre by (auto simp: levels_pre_def)
  have "r = Ok (t\<lparr>cmt_filled_subtrees := f, cmt_changelog := cl\<rparr>, proofs', cur')" using r t2 by simp
  moreover have "BoundedVec_as_slice f ! l =
       (if k \<le> l \<and> even (m div 2 ^ l) \<and> reached ll m l then node H ls' l (m div 2 ^ l)
        else BoundedVec_as_slice (cmt_filled_subtrees t) ! l)" if "l < h" for l
    using f(3) [OF that] pre'(1,2,4) that k f1(3) t2 by (cases "l = k") (auto simp: nth_list_update)
  moreover have "cle_path e' ! l = (if k < l \<and> reached ll m l then Some (node H ls' l (m div 2 ^ l))
        else cle_path e ! l)" if "l < h" for l
    unfolding cl(4) [OF that] e2 using R pre'(3) that
    by (cases "l = Suc k") (auto simp del: power_Suc simp: nth_list_update)
  moreover have "cle_index e' = cle_index e" using cl(2) e2 by simp
  moreover have "WP \<longrightarrow> proof_nodes proofs' i = proof_nodes proofs i @
       map (\<lambda>l. node H ls' l (sibling (m div 2 ^ l))) (filter (reached ll m) [k..<h])"
    using ps proofs2 by (simp add: filter_reached_Cons [OF k pre'(1)])
  ultimately show ?thesis unfolding levels_post_def using f(1,2) cl(1,3) cur' by blast
qed

text \<open>The hashes that the levels from \<open>k\<close> on compute.\<close>

definition levels_hash_ok :: "Hasher \<Rightarrow> nat \<Rightarrow> bool \<Rightarrow> bytes list \<Rightarrow> nat \<Rightarrow> nat \<Rightarrow> bool" where
  "levels_hash_ok H h ll ls' m k \<longleftrightarrow>
     (\<forall>l. k \<le> l \<and> l < h \<and> reached ll m (Suc l) \<longrightarrow> hash_ok H ls' l (m div 2 ^ Suc l))"

lemma levels_hash_ok_Suc:
  "k < h \<Longrightarrow> reached ll m (Suc k) \<Longrightarrow>
     levels_hash_ok H h ll ls' m k \<longleftrightarrow>
       hash_ok H ls' k (m div 2 ^ Suc k) \<and> levels_hash_ok H h ll ls' m (Suc k)"
  unfolding levels_hash_ok_def by (metis Suc_le_eq le_neq_implies_less less_imp_le order_refl)

lemma levels_hash_ok_stop:
  assumes "\<not> reached ll m (Suc k)"
  shows "levels_hash_ok H h ll ls' m k"
  unfolding levels_hash_ok_def using assms reached_mono by (metis Suc_le_mono)

definition levels_spec ::
  "Hasher \<Rightarrow> nat \<Rightarrow> bool \<Rightarrow> bytes list \<Rightarrow> nat \<Rightarrow> ChangelogEntry CyclicBoundedVec \<Rightarrow> bool \<Rightarrow> nat \<Rightarrow> nat \<Rightarrow>
   ConcurrentMerkleTree \<Rightarrow> ChangelogEntry \<Rightarrow> bytes BoundedVec list option \<Rightarrow> 
   (ConcurrentMerkleTreeError, ConcurrentMerkleTree \<times> bytes BoundedVec list option \<times> bytes) result \<Rightarrow> bool" where
  "levels_spec H h ll ls' m v0 WP i k t e proofs r \<longleftrightarrow>
     (if levels_hash_ok H h ll ls' m k then levels_post H h ll ls' m v0 WP i k t e proofs r
      else \<not> is_ok r)"

lemma levels_tail:
  fixes levels
  assumes IH: "\<forall>t e proofs cur. levels_pre H h ll ls' m v0 WP i (Suc k) t e proofs cur \<longrightarrow>
      ci = CyclicBoundedVec_last_index (cmt_changelog t) \<longrightarrow>
      levels_spec H h ll ls' m v0 WP i (Suc k) t e proofs
        (cmt_append_levels WP H ll i ci levels t proofs (m div 2 ^ Suc k) cur)"
    and pre: "levels_pre H h ll ls' m v0 WP i k t e proofs cur"
    and ci: "ci = CyclicBoundedVec_last_index (cmt_changelog t)"
    and k: "k < h" and R: "reached ll m (Suc k)"
    and f1: "bv_inv f1" "BoundedVec_len f1 = h"
      "BoundedVec_as_slice f1 = (if even (m div 2 ^ k) then (BoundedVec_as_slice (cmt_filled_subtrees t))[k := cur]
         else BoundedVec_as_slice (cmt_filled_subtrees t))"
    and proofs2: "proof_room WP proofs2 i (h - Suc k)"
      "WP \<longrightarrow> proof_nodes proofs2 i = proof_nodes proofs i @ [node H ls' k (sibling (m div 2 ^ k))]"
    and hs: "hs = (if even (m div 2 ^ k) then [node H ls' k (m div 2 ^ k), node H ls' k (sibling (m div 2 ^ k))]
         else [node H ls' k (sibling (m div 2 ^ k)), node H ls' k (m div 2 ^ k)])"
  shows "levels_spec H h ll ls' m v0 WP i k t e proofs
    (and_then (map_err Hasher (hashv H hs)) (\<lambda>parent.
     and_then (if k < h - 1 then cmt_set_changelog_path (t\<lparr>cmt_filled_subtrees := f1\<rparr>) ci (k + 1) parent
               else Ok (t\<lparr>cmt_filled_subtrees := f1\<rparr>)) (\<lambda>t2.
     cmt_append_levels WP H ll i ci levels t2 proofs2 (m div 2 ^ Suc k) parent)))"
proof (cases "hash_ok H ls' k (m div 2 ^ Suc k)")
  case False
  then have "\<not> levels_hash_ok H h ll ls' m k" using levels_hash_ok_Suc [OF k R] by blast
  moreover have "\<not> is_ok (hashv H hs)"
    using False path_hash_is_ok(1) unfolding hs is_ok_iff by blast
  ultimately show ?thesis by (cases "hashv H hs") (simp_all add: levels_spec_def)
next
  case True
  let ?P = "node H ls' (Suc k) (m div 2 ^ Suc k)"
  let ?t1 = "t\<lparr>cmt_filled_subtrees := f1\<rparr>"
  have hash: "hashv H hs = Ok ?P" using True unfolding hash_ok_path hs .
  have prek: "cbv_pushed v0 [e] (cmt_changelog t)" "length (cle_path e) = h" "cmt_height t = h"
    "\<And>l. l < h \<Longrightarrow> odd (m div 2 ^ l) \<Longrightarrow>
        BoundedVec_as_slice (cmt_filled_subtrees t) ! l = node H ls' l (sibling (m div 2 ^ l))"
    using pre by (auto simp: levels_pre_def)
  define e2 where "e2 = (if Suc k < h then e\<lparr>cle_path := (cle_path e)[Suc k := Some ?P]\<rparr> else e)"
  obtain cl1 where cl1: "(if k < h - 1 then cmt_set_changelog_path ?t1 ci (k + 1) ?P else Ok ?t1) =
      (Ok (t\<lparr>cmt_filled_subtrees := f1, cmt_changelog := cl1\<rparr>) :: (ConcurrentMerkleTreeError, _) result)"
    "cbv_pushed v0 [e2] cl1" "CyclicBoundedVec_last_index cl1 = ci"
  proof (cases "Suc k < h")
    case True
    have "cbv_pushed v0 [e] (cmt_changelog ?t1)" using prek(1) by simp
    from set_changelog_path_spec [OF this, of "Suc k" ?P, where 'e = ConcurrentMerkleTreeError]
    obtain u where "cmt_set_changelog_path ?t1 ci (Suc k) ?P =
        (Ok (?t1\<lparr>cmt_changelog := u\<rparr>) :: (ConcurrentMerkleTreeError, _) result)"
      "cbv_pushed v0 [e2] u" "CyclicBoundedVec_last_index u = ci"
      using True prek(2) ci unfolding e2_def by auto
    with True show ?thesis by (intro that [of u]) simp_all
  next
    case False
    then have "\<not> k < h - 1" by simp
    then show ?thesis using False prek(1) ci by (intro that [of "cmt_changelog t"]) (simp_all add: e2_def)
  qed
  let ?t2 = "t\<lparr>cmt_filled_subtrees := f1, cmt_changelog := cl1\<rparr>"
  have "BoundedVec_as_slice f1 ! l = node H ls' l (sibling (m div 2 ^ l))"
    if "l < h" "odd (m div 2 ^ l)" for l
    using prek(4) [OF that] that(2) f1(3) by (cases "l = k") (simp_all split: if_splits)
  then have "levels_pre H h ll ls' m v0 WP i (Suc k) ?t2 e2 proofs2 ?P"
    using k R f1(1,2) prek(2,3) cl1(2) proofs2(1) by (simp add: levels_pre_def e2_def del: power_Suc)
  from IH [rule_format, OF this] have spec: "levels_spec H h ll ls' m v0 WP i (Suc k) ?t2 e2 proofs2
      (cmt_append_levels WP H ll i ci levels ?t2 proofs2 (m div 2 ^ Suc k) ?P)" (is "levels_spec _ _ _ _ _ _ _ _ _ _ _ _ ?r")
    using cl1(3) by simp
  have "levels_post H h ll ls' m v0 WP i k t e proofs ?r" if "levels_post H h ll ls' m v0 WP i (Suc k) ?t2 e2 proofs2 ?r"
    by (rule levels_post_step [OF that pre k R f1 refl e2_def proofs2(2)])
  then have "levels_spec H h ll ls' m v0 WP i k t e proofs ?r"
    using spec levels_hash_ok_Suc [OF k R] True unfolding levels_spec_def by presburger
  then show ?thesis unfolding hash map_err.simps and_then.simps cl1(1) .
qed

lemma append_levels_left:
  assumes "k < cmt_height t" "even (m div 2 ^ k)" "k < length (zero_bytes H)"
    and "cmt_push_proof WP proofs i (zero_bytes H ! k) = Ok proofs2"
    and "BoundedVec_index_set (cmt_filled_subtrees t) k cur = (Ok f1 :: (ConcurrentMerkleTreeError, _) result)"
  shows "cmt_append_levels WP H ll i ci [k..<cmt_height t] t proofs (m div 2 ^ k) cur =
    (if \<not> ll then Ok (t\<lparr>cmt_filled_subtrees := f1\<rparr>, proofs2, cur)
     else and_then (map_err Hasher (hashv H [cur, zero_bytes H ! k])) (\<lambda>parent.
       and_then (if k < cmt_height t - 1
                 then cmt_set_changelog_path (t\<lparr>cmt_filled_subtrees := f1\<rparr>) ci (k + 1) parent
                 else Ok (t\<lparr>cmt_filled_subtrees := f1\<rparr>)) (\<lambda>t2.
       cmt_append_levels WP H ll i ci [Suc k..<cmt_height t] t2 proofs2 (m div 2 ^ Suc k) parent)))"
  using assms by (simp add: upt_conv_Cons Let_def div_pow_Suc index_eval even_iff_mod_2_eq_zero del: power_Suc)

lemma append_levels_right:
  assumes "k < cmt_height t" "odd (m div 2 ^ k)"
    and "k < length (BoundedVec_as_slice (cmt_filled_subtrees t))"
    and "cmt_push_proof WP proofs i (BoundedVec_as_slice (cmt_filled_subtrees t) ! k) = Ok proofs2"
  shows "cmt_append_levels WP H ll i ci [k..<cmt_height t] t proofs (m div 2 ^ k) cur =
    and_then (map_err Hasher (hashv H [BoundedVec_as_slice (cmt_filled_subtrees t) ! k, cur])) (\<lambda>parent.
       and_then (if k < cmt_height t - 1 then cmt_set_changelog_path t ci (k + 1) parent else Ok t) (\<lambda>t2.
       cmt_append_levels WP H ll i ci [Suc k..<cmt_height t] t2 proofs2 (m div 2 ^ Suc k) parent))"
  using assms by (simp add: upt_conv_Cons BoundedVec_index_def div_pow_Suc index_eval
      even_iff_mod_2_eq_zero del: power_Suc)

lemma levels_post_stop:
  assumes pre: "levels_pre H h ll ls' m v0 WP i k t e proofs cur"
    and k: "k < h" and even: "even (m div 2 ^ k)" and stop: "\<not> reached ll m (Suc k)"
    and f1: "bv_inv f1" "BoundedVec_len f1 = h"
      "BoundedVec_as_slice f1 = (BoundedVec_as_slice (cmt_filled_subtrees t))[k := cur]"
    and proofs2: "WP \<longrightarrow> proof_nodes proofs2 i = proof_nodes proofs i @ [node H ls' k (sibling (m div 2 ^ k))]"
      "proof_room WP proofs2 i n"
  shows "levels_post H h ll ls' m v0 WP i k t e proofs
    (Ok (t\<lparr>cmt_filled_subtrees := f1\<rparr>, proofs2, cur))"
proof -
  have pre': "reached ll m k" "cur = node H ls' k (m div 2 ^ k)" "length (cle_path e) = h"
    "length (BoundedVec_as_slice (cmt_filled_subtrees t)) = h" "cbv_pushed v0 [e] (cmt_changelog t)"
    using pre by (auto simp: levels_pre_def)
  have none: "\<not> (k < l \<and> reached ll m l)" for l using stop reached_mono Suc_leI by blast
  have "\<not> ll" using stop by auto
  moreover have "proof_room WP proofs2 i 0" using proofs2(2) by (rule proof_room_mono) simp
  moreover have "filter (reached ll m) [k..<h] = [k]"
    unfolding filter_reached_Cons [OF k pre'(1)] using none by (auto simp: filter_empty_conv)
  moreover have "BoundedVec_as_slice f1 ! l =
      (if k \<le> l \<and> even (m div 2 ^ l) \<and> reached ll m l then node H ls' l (m div 2 ^ l)
       else BoundedVec_as_slice (cmt_filled_subtrees t) ! l)" if "l < h" for l
    using f1(3) pre'(1,2,4) that even none [of l] by (cases "l = k") (auto simp: nth_list_update)
  ultimately show ?thesis unfolding levels_post_def
    by (intro exI [of _ f1] exI [of _ "cmt_changelog t"] exI [of _ proofs2] exI [of _ cur] exI [of _ e])
      (use f1 pre' none proofs2 in auto)
qed

lemma append_levels_spec:
  assumes "zero_chain H" "h \<le> MAX_HEIGHT" "ls' = ls @ [leaf]" "m = length ls"
    and "levels_pre H h ll ls' m v0 WP i k t e proofs cur"
    and "ci = CyclicBoundedVec_last_index (cmt_changelog t)"
  shows "levels_spec H h ll ls' m v0 WP i k t e proofs
    (cmt_append_levels WP H ll i ci [k..<h] t proofs (m div 2 ^ k) cur)"
  using assms(5,6)
proof (induction "h - k" arbitrary: k t e proofs cur)
  case 0
  then have k: "k = h" by (simp add: levels_pre_def)
  have "levels_hash_ok H h ll ls' m h" by (auto simp: levels_hash_ok_def)
  then show ?case using levels_post_base [OF 0(2) [unfolded k]] unfolding k levels_spec_def by simp
next
  case (Suc n)
  have k: "k < h" and Rk: "reached ll m k" and room: "proof_room WP proofs i (Suc (h - Suc k))"
    and fl: "bv_inv (cmt_filled_subtrees t)" "BoundedVec_len (cmt_filled_subtrees t) = h"
    and ht: "cmt_height t = h" and cur: "cur = node H ls' k (m div 2 ^ k)"
    and odd: "odd (m div 2 ^ k) \<Longrightarrow>
      BoundedVec_as_slice (cmt_filled_subtrees t) ! k = node H ls' k (sibling (m div 2 ^ k))"
    using Suc.prems(1) Suc.hyps(2) by (auto simp: levels_pre_def Suc_diff_Suc)
  have IH: "\<forall>t e proofs cur. levels_pre H h ll ls' m v0 WP i (Suc k) t e proofs cur \<longrightarrow>
      ci = CyclicBoundedVec_last_index (cmt_changelog t) \<longrightarrow>
      levels_spec H h ll ls' m v0 WP i (Suc k) t e proofs
        (cmt_append_levels WP H ll i ci [Suc k..<h] t proofs (m div 2 ^ Suc k) cur)"
    using Suc.hyps(2) by (intro allI impI Suc.hyps(1)) simp_all
  note tail = levels_tail [OF IH Suc.prems(1,2) k]
  from push_proof_spec [OF room, of "node H ls' k (sibling (m div 2 ^ k))"] obtain proofs2 where
    ps2: "cmt_push_proof WP proofs i (node H ls' k (sibling (m div 2 ^ k))) = Ok proofs2"
    "proof_room WP proofs2 i (h - Suc k)"
    "WP \<longrightarrow> proof_nodes proofs2 i = proof_nodes proofs i @ [node H ls' k (sibling (m div 2 ^ k))]"
    by blast
  show ?case
  proof (cases "even (m div 2 ^ k)")
    case True
    have zero: "zero_bytes H ! k = node H ls' k (sibling (m div 2 ^ k))"
      using right_sibling_empty [OF assms(1), of k ls leaf] True k assms(2,3,4) by simp
    have len: "k < length (zero_bytes H)" using k assms(2) zero_chain_length [OF assms(1)] by simp
    obtain f1 where f1: "BoundedVec_index_set (cmt_filled_subtrees t) k cur =
        (Ok f1 :: (ConcurrentMerkleTreeError, _) result)"
      using k fl(2) by (auto simp: BoundedVec_index_set_Ok)
    note f1f = BoundedVec_index_set_as_slice [OF f1 fl(1)]
    note unf = append_levels_left [OF k [folded ht] True len ps2(1) [folded zero] f1, unfolded ht zero]
    show ?thesis
    proof (cases ll)
      case False
      then have stop: "\<not> reached ll m (Suc k)" using reached_Suc [OF Rk] True by simp
      from levels_post_stop [OF Suc.prems(1) k True stop f1f(1) _ f1f(2) ps2(3,2)] show ?thesis
        using False f1f(4) fl(2) levels_hash_ok_stop [OF stop] unfolding unf levels_spec_def by simp
    next
      case ll: True
      then have R: "reached ll m (Suc k)" by simp
      from tail [OF R f1f(1) _ _ ps2(2,3) refl] show ?thesis
        using ll True f1f(2,4) fl(2) cur unfolding unf by simp
    qed
  next
    case False
    note sib = odd [OF False]
    have R: "reached ll m (Suc k)" using reached_Suc [OF Rk] False by simp
    have len: "k < length (BoundedVec_as_slice (cmt_filled_subtrees t))" using k fl by simp
    note unf = append_levels_right [OF k [folded ht] False len ps2(1) [folded sib], unfolded ht sib]
    have same: "t\<lparr>cmt_filled_subtrees := cmt_filled_subtrees t\<rparr> = t" by (cases t) simp
    from tail [OF R fl _ ps2(2,3) refl] show ?thesis
      using False cur unfolding unf same by simp
  qed
qed



section \<open>One leaf\<close>

definition cmt_base :: "nat \<Rightarrow> ConcurrentMerkleTree \<Rightarrow> bool" where
  [inv_defs]: "cmt_base h t \<longleftrightarrow> cmt_height t = h \<and> 0 < h \<and> h \<le> MAX_HEIGHT \<and> cmt_canopy_depth t \<le> h \<and>
     cbv_inv (cmt_changelog t) \<and> cbv_list (cmt_changelog t) \<noteq> [] \<and>
     (\<forall>e \<in> set (cbv_list (cmt_changelog t)). entry_wf h e) \<and>
     cbv_inv (cmt_roots t) \<and> cbv_list (cmt_roots t) \<noteq> []"

text \<open>The effect of appending \<open>leaves\<close>, up to the canopy, which the batch refreshes at its end.\<close>

definition appended ::
  "Hasher \<Rightarrow> nat \<Rightarrow> ChangelogEntry list \<Rightarrow> bytes list \<Rightarrow> bytes list \<Rightarrow> bytes list \<Rightarrow>
     ConcurrentMerkleTree \<Rightarrow> ConcurrentMerkleTree \<Rightarrow> bool" where
  "appended H h es roots ls leaves t t' \<longleftrightarrow>
     cmt_height t' = cmt_height t \<and> cmt_canopy_depth t' = cmt_canopy_depth t \<and>
     cmt_canopy t' = cmt_canopy t \<and>
     cmt_next_index t' = length (ls @ leaves) \<and>
     cmt_sequence_number t' = cmt_sequence_number t + length leaves \<and>
     cmt_rightmost_leaf t' = (if leaves = [] then cmt_rightmost_leaf t else last leaves) \<and>
     filled_ok H h (cmt_filled_subtrees t') (ls @ leaves) \<and>
     cbv_pushed (cmt_changelog t) es (cmt_changelog t') \<and>
     cbv_pushed (cmt_roots t) roots (cmt_roots t')"

lemma leaf_hash_ok_levels:
  "levels_hash_ok H h ll (ls @ [leaf]) (length ls) 0 \<longleftrightarrow> leaf_hash_ok H h ll ls leaf"
  by (auto simp: levels_hash_ok_def leaf_hash_ok_def reached_def)

lemma filled_ok_append:
  assumes "filled_ok H h f ls" "bv_inv f'" "BoundedVec_len f' = h"
    and f': "\<And>l. l < h \<Longrightarrow> BoundedVec_as_slice f' ! l =
       (if even (length ls div 2 ^ l) \<and> reached ll (length ls) l
        then node H (ls @ [leaf]) l (length ls div 2 ^ l) else BoundedVec_as_slice f ! l)"
  shows "filled_ok H h f' (ls @ [leaf])"
proof -
  have "BoundedVec_as_slice f' ! l = node H (ls @ [leaf]) l (sibling (Suc (length ls) div 2 ^ l))"
    if l: "l < h" "odd (Suc (length ls) div 2 ^ l)" for l
  proof (cases "2 ^ l dvd Suc (length ls)")
    case True
    then have d: "Suc (length ls) div 2 ^ l = Suc (length ls div 2 ^ l)"
      using completed_div [OF True] by (metis nonzero_mult_div_cancel_left power_not_zero zero_neq_numeral)
    then have "even (length ls div 2 ^ l)" using l(2) by simp
    then show ?thesis using f' [OF l(1)] True d by (simp add: reached_def sibling_odd)
  next
    case False
    then have "Suc (length ls) div 2 ^ l = length ls div 2 ^ l"
      unfolding dvd_eq_mod_eq_0 by (simp add: div_Suc)
    then show ?thesis using f' [OF l(1)] l assms(1) left_sibling_kept [of H ls leaf l]
      by (simp add: filled_ok_def)
  qed
  then show ?thesis using assms(2,3) by (simp add: filled_ok_def)
qed

lemma append_entry_eqI:
  assumes "cle_index e = length ls" "length (cle_path e) = h"
    and "\<And>l. l < h \<Longrightarrow> cle_path e ! l =
      (if reached ll (length ls) l then Some (node H (ls @ [leaf]) l (length ls div 2 ^ l)) else None)"
  shows "e = append_entry H h ll ls leaf"
  using assms by (cases e) (auto simp: append_entry_def reached_def intro!: nth_equalityI)

lemma pow_max_height: "h \<le> MAX_HEIGHT \<Longrightarrow> (2::nat) ^ h \<le> 4294967296"
  using power_increasing [of h MAX_HEIGHT "2::nat"] by (simp add: MAX_HEIGHT_def)

text \<open>Appending one leaf is the level loop followed by storing the root and the counters.\<close>

definition append_leaf_finish ::
  "bool \<Rightarrow> bytes \<Rightarrow> ConcurrentMerkleTree \<times> bytes BoundedVec list option \<times> bytes \<Rightarrow>
   (ConcurrentMerkleTreeError, ConcurrentMerkleTree \<times> bytes BoundedVec list option) result" where
  "append_leaf_finish ll leaf = (\<lambda>(t3, proofs', current_node).
      and_then (CyclicBoundedVec_push (cmt_roots t3)
          (if ll then current_node else replicate 32 0)) (\<lambda>roots.
      and_then (cmt_inc_next_index (t3\<lparr>cmt_roots := roots\<rparr>)) (\<lambda>t4.
      and_then (cmt_inc_sequence_number t4) (\<lambda>t5.
      Ok (cmt_set_rightmost_leaf t5 leaf, proofs')))))"

lemma append_leaf_loop:
  assumes H: "zero_chain H" and base: "cmt_base h t" and fo: "filled_ok H h (cmt_filled_subtrees t) ls"
    and n: "cmt_next_index t = length ls" and room: "proof_room WP proofs i h"
  shows "\<exists>u e1 r. cmt_append_leaf h WP H ll t proofs i leaf = and_then r (append_leaf_finish ll leaf) \<and>
    levels_spec H h ll (ls @ [leaf]) (length ls) (cmt_changelog t) WP i 0 (t\<lparr>cmt_changelog := u\<rparr>) e1 proofs r \<and>
    cle_index e1 = length ls \<and> (\<forall>l < h. cle_path e1 ! l = (if l = 0 then Some leaf else None))"
proof -
  have b: "cmt_height t = h" "0 < h" "h \<le> MAX_HEIGHT" "cbv_inv (cmt_changelog t)"
    "cbv_list (cmt_changelog t) \<noteq> []" "cbv_inv (cmt_roots t)" "cbv_list (cmt_roots t) \<noteq> []"
    using base by (auto simp: cmt_base_def)
  let ?e0 = "ChangelogEntry_default_with_index h (length ls)"
  let ?e1 = "?e0\<lparr>cle_path := (cle_path ?e0)[0 := Some leaf]\<rparr>"
  from cbv_push_pushed [OF b(4,5), of ?e0] obtain cl where cl:
    "CyclicBoundedVec_push (cmt_changelog t) ?e0 = (Ok cl :: (ConcurrentMerkleTreeError, _) result)"
    "cbv_pushed (cmt_changelog t) [?e0] cl" by blast
  let ?t1 = "t\<lparr>cmt_changelog := cl\<rparr>" and ?ci = "CyclicBoundedVec_last_index cl"
  have e0: "length (cle_path ?e0) = h" "cle_index ?e0 = length ls"
    "\<And>l. l < h \<Longrightarrow> cle_path ?e0 ! l = None"
    by (simp_all add: ChangelogEntry_default_with_index_def ChangelogPath_default_def)
  from set_changelog_path_spec [of "cmt_changelog t" ?e0 ?t1 0 leaf] cl(2) e0(1) b(2) obtain u where
    u: "cmt_set_changelog_path ?t1 ?ci 0 leaf = (Ok (t\<lparr>cmt_changelog := u\<rparr>) :: (ConcurrentMerkleTreeError, _) result)"
    "cbv_pushed (cmt_changelog t) [?e1] u" "CyclicBoundedVec_last_index u = ?ci" by auto
  let ?t2 = "t\<lparr>cmt_changelog := u\<rparr>"
  have "levels_pre H h ll (ls @ [leaf]) (length ls) (cmt_changelog t) WP i 0 ?t2 ?e1 proofs leaf"
    using fo b u(2) e0(1) room left_sibling_kept [of H ls leaf]
    by (simp add: levels_pre_def filled_ok_def)
  from append_levels_spec [OF H b(3) refl refl this, of ?ci] u(3)
  have spec: "levels_spec H h ll (ls @ [leaf]) (length ls) (cmt_changelog t) WP i 0 ?t2 ?e1 proofs
    (cmt_append_levels WP H ll i ?ci [0..<h] ?t2 proofs (length ls) leaf)" (is "levels_spec _ _ _ _ _ _ _ _ _ _ _ _ ?r")
    by simp
  have "cmt_append_leaf h WP H ll t proofs i leaf = and_then ?r (append_leaf_finish ll leaf)"
    using cl(1) u(1) n b(1)
    by (simp add: cmt_append_leaf_def Let_def cmt_changelog_index_def append_leaf_finish_def)
  moreover have "cle_path ?e1 ! l = (if l = 0 then Some leaf else None)" if "l < h" for l
    using e0 that by (simp add: nth_list_update)
  ultimately show ?thesis using spec e0(2)
    by (intro exI [of _ u] exI [of _ ?e1] exI [of _ ?r]) simp
qed

lemma append_leaf_finish_spec:
  assumes base: "cmt_base h t" and n: "cmt_next_index t = length ls" "length ls < 2 ^ h"
    and sn: "cmt_sequence_number t + 1 < u64_bound" and fo: "filled_ok H h f (ls @ [leaf])"
    and cl: "cbv_pushed (cmt_changelog t) [e] cl"
  shows "\<exists>t'. append_leaf_finish ll leaf (t\<lparr>cmt_filled_subtrees := f, cmt_changelog := cl\<rparr>, proofs', cur) =
      Ok (t', proofs') \<and>
    appended H h [e] [if ll then cur else replicate 32 0] ls [leaf] t t'"
proof -
  have b: "h \<le> MAX_HEIGHT" "cbv_inv (cmt_roots t)" "cbv_list (cmt_roots t) \<noteq> []"
    using base by (auto simp: cmt_base_def)
  from cbv_push_pushed [OF b(2,3), of "if ll then cur else replicate 32 0"] obtain roots where roots:
    "CyclicBoundedVec_push (cmt_roots t) (if ll then cur else replicate 32 0) =
      (Ok roots :: (ConcurrentMerkleTreeError, _) result)"
    "cbv_pushed (cmt_roots t) [if ll then cur else replicate 32 0] roots" by blast
  have "length ls + 1 < u64_bound" using n(2) pow_max_height [OF b(1)] by linarith
  then show ?thesis using n(1) sn roots fo cl
    by (simp add: append_leaf_finish_def cmt_inc_next_index_def cmt_inc_sequence_number_def
        cmt_set_rightmost_leaf_def checked_add_def appended_def)
qed

lemma append_leaf_spec:
  assumes H: "zero_chain H" and base: "cmt_base h t" and fo: "filled_ok H h (cmt_filled_subtrees t) ls"
    and n: "cmt_next_index t = length ls" "length ls < 2 ^ h"
    and sn: "cmt_sequence_number t + 1 < u64_bound" and room: "proof_room WP proofs i h"
  shows "if leaf_hash_ok H h ll ls leaf
    then \<exists>t' proofs'. cmt_append_leaf h WP H ll t proofs i leaf = Ok (t', proofs') \<and>
      appended H h [append_entry H h ll ls leaf]
        [if ll then merkle_root H h (ls @ [leaf]) else replicate 32 0] ls [leaf] t t' \<and>
      proof_room WP proofs' i 0 \<and>
      (WP \<and> ll \<longrightarrow> proof_nodes proofs' i = proof_nodes proofs i @ merkle_proof H h (ls @ [leaf]) (length ls))
    else \<not> is_ok (cmt_append_leaf h WP H ll t proofs i leaf)"
proof -
  obtain u e1 r where r: "cmt_append_leaf h WP H ll t proofs i leaf = and_then r (append_leaf_finish ll leaf)"
    and spec: "levels_spec H h ll (ls @ [leaf]) (length ls) (cmt_changelog t) WP i 0 (t\<lparr>cmt_changelog := u\<rparr>) e1 proofs r"
    and e1: "cle_index e1 = length ls" "\<And>l. l < h \<Longrightarrow> cle_path e1 ! l = (if l = 0 then Some leaf else None)"
    using append_leaf_loop [OF H base fo n(1) room] by blast
  show ?thesis
  proof (cases "leaf_hash_ok H h ll ls leaf")
    case False
    then have "\<not> is_ok r" using spec unfolding levels_spec_def leaf_hash_ok_levels by simp
    then show ?thesis using False r by (cases r) simp_all
  next
    case True
    then have "levels_post H h ll (ls @ [leaf]) (length ls) (cmt_changelog t) WP i 0
        (t\<lparr>cmt_changelog := u\<rparr>) e1 proofs r"
      using spec unfolding levels_spec_def leaf_hash_ok_levels by simp
    then obtain f cl proofs' cur e where
      rv: "r = Ok (t\<lparr>cmt_filled_subtrees := f, cmt_changelog := cl\<rparr>, proofs', cur)"
      and f: "bv_inv f" "BoundedVec_len f = h" "\<And>l. l < h \<Longrightarrow> BoundedVec_as_slice f ! l =
          (if even (length ls div 2 ^ l) \<and> reached ll (length ls) l
           then node H (ls @ [leaf]) l (length ls div 2 ^ l)
           else BoundedVec_as_slice (cmt_filled_subtrees t) ! l)"
      and e: "cbv_pushed (cmt_changelog t) [e] cl" "cle_index e = cle_index e1" "length (cle_path e) = h"
        "\<And>l. l < h \<Longrightarrow> cle_path e ! l = (if 0 < l \<and> reached ll (length ls) l
           then Some (node H (ls @ [leaf]) l (length ls div 2 ^ l)) else cle_path e1 ! l)"
      and cur: "ll \<longrightarrow> cur = node H (ls @ [leaf]) h (length ls div 2 ^ h)" "proof_room WP proofs' i 0"
      and ps: "WP \<longrightarrow> proof_nodes proofs' i = proof_nodes proofs i @
         map (\<lambda>l. node H (ls @ [leaf]) l (sibling (length ls div 2 ^ l)))
           (filter (reached ll (length ls)) [0..<h])"
      unfolding levels_post_def by auto
    have "e = append_entry H h ll ls leaf"
    proof (rule append_entry_eqI)
      fix l assume "l < h"
      then show "cle_path e ! l = (if reached ll (length ls) l
          then Some (node H (ls @ [leaf]) l (length ls div 2 ^ l)) else None)"
        using e(4) e1(2) by (cases "l = 0") auto
    qed (use e e1 in auto)
    moreover have "(if ll then cur else replicate 32 0) =
        (if ll then merkle_root H h (ls @ [leaf]) else replicate 32 0)"
      using cur(1) n(2) by (simp add: merkle_root_def)
    moreover have "WP \<and> ll \<longrightarrow>
        proof_nodes proofs' i = proof_nodes proofs i @ merkle_proof H h (ls @ [leaf]) (length ls)"
      using ps by (auto simp: merkle_proof_def)
    moreover note append_leaf_finish_spec [OF base n sn filled_ok_append [OF fo f] e(1), of ll proofs' cur]
    ultimately show ?thesis using True r rv cur(2) by auto
  qed
qed



section \<open>A batch\<close>

lemma cbv_pushed_nonempty:
  assumes "cbv_pushed v xs v'" "cbv_inv v" "cbv_list v \<noteq> []"
  shows "cbv_list v' \<noteq> []"
proof -
  have "0 < CyclicBoundedVec_capacity v" using assms(2) by (simp add: cbv_inv_def)
  then have "length (take_last (CyclicBoundedVec_capacity v) (cbv_list v @ xs)) \<noteq> 0"
    using assms(3) by (simp add: cbv_list_nonempty)
  then show ?thesis using assms(1) unfolding cbv_pushed_def by (metis list.size(3))
qed

lemma cbv_pushed_set: "cbv_pushed v xs v' \<Longrightarrow> set (cbv_list v') \<subseteq> set (cbv_list v) \<union> set xs"
  unfolding cbv_pushed_def take_last_def using set_drop_subset by fastforce

lemma cbv_pushed_last:
  assumes "cbv_pushed v xs v'" "cbv_inv v" "xs \<noteq> []"
  shows "last (cbv_list v') = last xs"
proof -
  have "0 < CyclicBoundedVec_capacity v" using assms(2) by (simp add: cbv_inv_def)
  then show ?thesis using assms(1,3) unfolding cbv_pushed_def by (simp add: last_take_last)
qed

lemma appended_base:
  assumes "cmt_base h t" "appended H h es roots ls leaves t t'" "\<forall>e \<in> set es. entry_wf h e"
  shows "cmt_base h t'"
  using assms cbv_pushed_nonempty [of "cmt_changelog t" es] cbv_pushed_nonempty [of "cmt_roots t" roots]
    cbv_pushed_set [of "cmt_changelog t" es]
  by (fastforce simp: cmt_base_def appended_def cbv_pushed_def)

lemma appended_trans:
  "appended H h es roots ls xs t t1 \<Longrightarrow> appended H h es' roots' (ls @ xs) ys t1 t2 \<Longrightarrow>
     appended H h (es @ es') (roots @ roots') ls (xs @ ys) t t2"
  by (auto simp: appended_def cbv_pushed_trans)

lemma appended_Nil:
  assumes "cmt_base h t" "filled_ok H h (cmt_filled_subtrees t) ls" "cmt_next_index t = length ls"
  shows "appended H h [] [] ls [] t t"
  using assms by (simp add: appended_def cmt_base_def cbv_pushed_refl)

text \<open>The roots a batch pushes: zero roots for all leaves but the last.\<close>

definition batch_roots :: "Hasher \<Rightarrow> nat \<Rightarrow> bytes list \<Rightarrow> bytes list \<Rightarrow> bytes list" where
  "batch_roots H h ls leaves =
     (if leaves = [] then []
      else replicate (length leaves - 1) (replicate 32 0) @ [merkle_root H h (ls @ leaves)])"

lemma batch_roots_Cons:
  "batch_roots H h ls (x # xs) =
     (if xs = [] then merkle_root H h (ls @ [x]) else replicate 32 0) # batch_roots H h (ls @ [x]) xs"
  by (cases xs) (auto simp: batch_roots_def)

lemma append_leaves_spec:
  assumes "zero_chain H" "cmt_base h t" "filled_ok H h (cmt_filled_subtrees t) ls"
    and "cmt_next_index t = length ls" "length ls + length leaves \<le> 2 ^ h"
    and "cmt_sequence_number t + length leaves < u64_bound"
  shows "if batch_hash_ok H h ls leaves
    then \<exists>t' proofs'. cmt_append_leaves h False H t proofs i leaves = Ok (t', proofs') \<and>
      appended H h (batch_entries H h ls leaves) (batch_roots H h ls leaves) ls leaves t t'
    else \<not> is_ok (cmt_append_leaves h False H t proofs i leaves)"
  using assms(2-)
proof (induction leaves arbitrary: t ls i proofs)
  case Nil
  then show ?case using appended_Nil [of h t H ls] by (simp add: batch_roots_def)
next
  case (Cons x xs)
  let ?r = "cmt_append_leaf h False H (xs = []) t proofs i x"
  have lt: "length ls < 2 ^ h" "cmt_sequence_number t + 1 < u64_bound" "proof_room False proofs i h"
    using Cons.prems(4,5) by (simp_all add: proof_room_def)
  note leaf = append_leaf_spec [OF assms(1) Cons.prems(1,2,3) lt, of "xs = []" x]
  show ?case
  proof (cases "leaf_hash_ok H h (xs = []) ls x")
    case False
    then show ?thesis using leaf by (cases ?r) simp_all
  next
    case True
    then obtain t1 proofs1 where t1: "?r = Ok (t1, proofs1)"
      "appended H h [append_entry H h (xs = []) ls x]
          [if xs = [] then merkle_root H h (ls @ [x]) else replicate 32 0] ls [x] t t1"
      using leaf by auto
    have "entry_wf h (append_entry H h (xs = []) ls x)"
      using batch_entries_wf [OF Cons.prems(4), of _ H] by simp
    then have base1: "cmt_base h t1" using appended_base [OF Cons.prems(1) t1(2)] by simp
    have "filled_ok H h (cmt_filled_subtrees t1) (ls @ [x])" "cmt_next_index t1 = length (ls @ [x])"
      "cmt_sequence_number t1 = cmt_sequence_number t + 1"
      using t1(2) by (simp_all add: appended_def)
    with Cons.IH [OF base1, of "ls @ [x]" proofs1 "i + 1"] Cons.prems(4,5)
    have "if batch_hash_ok H h (ls @ [x]) xs
      then \<exists>t' proofs'. cmt_append_leaves h False H t1 proofs1 (i + 1) xs = Ok (t', proofs') \<and>
        appended H h (batch_entries H h (ls @ [x]) xs) (batch_roots H h (ls @ [x]) xs) (ls @ [x]) xs t1 t'
      else \<not> is_ok (cmt_append_leaves h False H t1 proofs1 (i + 1) xs)" by simp
    then show ?thesis using t1 True appended_trans [OF t1(2)] by (auto simp: batch_roots_Cons)
  qed
qed


section \<open>The representation invariant and \<open>append_batch\<close>\<close>

text \<open>
  \<open>cmt_rep H h t ls\<close>: the tree \<open>t\<close> of height \<open>h\<close> represents the list of leaves \<open>ls\<close>.
\<close>

definition cmt_rep :: "Hasher \<Rightarrow> nat \<Rightarrow> ConcurrentMerkleTree \<Rightarrow> bytes list \<Rightarrow> bool" where
  [inv_defs]: "cmt_rep H h t ls \<longleftrightarrow> cmt_base h t \<and> cmt_next_index t = length ls \<and> length ls \<le> 2 ^ h \<and>
     filled_ok H h (cmt_filled_subtrees t) ls \<and>
     canopy_ok H h (cmt_canopy_depth t) (cmt_canopy t) ls \<and>
     last (cbv_list (cmt_roots t)) = merkle_root H h ls \<and> hashable H h ls \<and>
     (ls \<noteq> [] \<and> length ls < 2 ^ h \<longrightarrow> cmt_rightmost_leaf t = last ls)"

lemma cmt_rep_root:
  assumes "cmt_rep H h t ls"
  shows "cmt_root t = Ok (merkle_root H h ls)"
  using assms cbv_index_last [of "cmt_roots t"]
  by (auto simp: cmt_rep_def cmt_base_def cmt_root_def cmt_root_index_def)

lemma canopy_ok_depth_0: "canopy_ok H h 0 c ls \<Longrightarrow> canopy_ok H h 0 c ls'"
  by (simp add: canopy_ok_def)

lemma append_batch_canopy:
  assumes "cmt_base h t" "appended H h es roots ls leaves t t1" "es \<noteq> []"
    and "length es \<le> CyclicBoundedVec_capacity (cmt_changelog t)" "\<forall>e \<in> set es. entry_wf h e"
    and "canopy_ok H h (cmt_canopy_depth t) (cmt_canopy t) ls" "explains H h es ls (ls @ leaves)"
    and "fst_i = (CyclicBoundedVec_last_index (cmt_changelog t) + 1)
      mod CyclicBoundedVec_capacity (cmt_changelog t)"
  shows "\<exists>c. (if cmt_canopy_depth t1 > 0 then cmt_update_canopy t1 fst_i (length es) else Ok t1) =
      (Ok (t1\<lparr>cmt_canopy := c\<rparr>) :: ('e, _) result) \<and>
    canopy_ok H h (cmt_canopy_depth t) c (ls @ leaves)"
proof (cases "cmt_canopy_depth t = 0")
  case True
  moreover have "t1\<lparr>cmt_canopy := cmt_canopy t1\<rparr> = t1" by (cases t1) simp
  ultimately show ?thesis using assms(2,6) canopy_ok_depth_0 [of H h "cmt_canopy t" ls "ls @ leaves"]
    by (intro exI [of _ "cmt_canopy t1"]) (simp add: appended_def)
next
  case False
  have t: "cmt_height t = h" "h \<le> MAX_HEIGHT" "cmt_canopy_depth t \<le> h" "cbv_inv (cmt_changelog t)"
    using assms(1) by (auto simp: cmt_base_def)
  have t1: "cmt_height t1 = h" "cmt_canopy_depth t1 = cmt_canopy_depth t" "cmt_canopy t1 = cmt_canopy t"
    "cbv_pushed (cmt_changelog t) es (cmt_changelog t1)"
    using assms(2) t(1) by (auto simp: appended_def)
  from update_canopy_spec [OF t1(4) t(4) assms(4), of H ls "ls @ leaves" fst_i, where 'e = 'e]
  show ?thesis using False assms(5-8) t t1 by (auto simp: MAX_HEIGHT_def)
qed

lemma append_common_unfold:
  assumes rep: "cmt_rep H h t ls" and ne: "leaves \<noteq> []"
    and room: "length ls + length leaves \<le> 2 ^ h"
    and cap: "length leaves \<le> CyclicBoundedVec_capacity (cmt_changelog t)"
    and sn: "cmt_sequence_number t + length leaves < u64_bound"
  shows "cmt_append_batch_common h WP H t leaves proofs =
    and_then (cmt_append_leaves h WP H t proofs 0 leaves) (\<lambda>(t1, proofs').
    and_then (if cmt_canopy_depth t1 > 0
        then cmt_update_canopy t1 ((CyclicBoundedVec_last_index (cmt_changelog t) + 1) mod
          CyclicBoundedVec_capacity (cmt_changelog t)) (length leaves) else Ok t1) (\<lambda>t2.
      Ok (t2, proofs', (CyclicBoundedVec_last_index (cmt_changelog t) + 1) mod
        CyclicBoundedVec_capacity (cmt_changelog t), cmt_sequence_number t + 1)))"
proof -
  have t: "cmt_height t = h" "h \<le> MAX_HEIGHT" "cmt_next_index t = length ls"
    using rep by (auto simp: cmt_rep_def cmt_base_def)
  have b: "length ls + length leaves < u64_bound" using room pow_max_height [OF t(2)] by linarith
  have "0 < length leaves" using ne by simp
  then have b1: "\<not> 2 ^ h \<le> length ls + length leaves - 1" "Suc 0 \<le> length ls + length leaves"
    "cmt_sequence_number t + 1 < u64_bound"
    using room sn by linarith+
  have add1: "add_u64 (cmt_sequence_number t) (Suc 0) =
      (Ok (Suc (cmt_sequence_number t)) :: (ConcurrentMerkleTreeError, _) result)"
    using b1(3) by simp
  show ?thesis using ne t b b1(1) cap
    by (simp add: cmt_append_batch_common_def sub_u64_eval [OF b1(2)]
        add_u64_eval [OF b] add1 shl1_u64_eval Let_def MAX_HEIGHT_def case_prod_unfold cong: if_cong)
qed

lemma append_common_finish:
  assumes rep: "cmt_rep H h t ls" and ne: "leaves \<noteq> []"
    and room: "length ls + length leaves \<le> 2 ^ h"
    and cap: "length leaves \<le> CyclicBoundedVec_capacity (cmt_changelog t)"
    and app: "appended H h (batch_entries H h ls leaves) (batch_roots H h ls leaves) ls leaves t t1"
    and hs: "hashable H h (ls @ leaves)"
  shows "\<exists>c. (if cmt_canopy_depth t1 > 0
        then cmt_update_canopy t1 ((CyclicBoundedVec_last_index (cmt_changelog t) + 1) mod
          CyclicBoundedVec_capacity (cmt_changelog t)) (length leaves) else Ok t1) =
        (Ok (t1\<lparr>cmt_canopy := c\<rparr>) :: ('e, _) result) \<and> cmt_rep H h (t1\<lparr>cmt_canopy := c\<rparr>) (ls @ leaves)"
proof -
  have base: "cmt_base h t" and can: "canopy_ok H h (cmt_canopy_depth t) (cmt_canopy t) ls"
    and rt: "cbv_inv (cmt_roots t)"
    using rep by (auto simp: cmt_rep_def cmt_base_def)
  let ?es = "batch_entries H h ls leaves"
  have es: "?es \<noteq> []" "length ?es \<le> CyclicBoundedVec_capacity (cmt_changelog t)"
    "\<forall>e \<in> set ?es. entry_wf h e"
    using ne cap batch_entries_wf [OF room] by (cases leaves; simp)+
  from append_batch_canopy [OF base app es can batch_explains [OF ne] refl, where 'e = 'e] obtain c where
    c: "(if cmt_canopy_depth t1 > 0
        then cmt_update_canopy t1 ((CyclicBoundedVec_last_index (cmt_changelog t) + 1) mod
          CyclicBoundedVec_capacity (cmt_changelog t)) (length leaves) else Ok t1) =
      (Ok (t1\<lparr>cmt_canopy := c\<rparr>) :: ('e, _) result)"
    "canopy_ok H h (cmt_canopy_depth t) c (ls @ leaves)"
    unfolding length_batch_entries by blast
  have base1: "cmt_base h t1" by (rule appended_base [OF base app es(3)])
  have "last (cbv_list (cmt_roots t1)) = merkle_root H h (ls @ leaves)"
    using app cbv_pushed_last [of "cmt_roots t" "batch_roots H h ls leaves"] rt ne
    by (simp add: appended_def batch_roots_def)
  then have "cmt_rep H h (t1\<lparr>cmt_canopy := c\<rparr>) (ls @ leaves)"
    using base1 app c(2) hs room ne by (auto simp: cmt_rep_def cmt_base_def appended_def)
  then show ?thesis using c(1) by blast
qed

lemma append_batch_spec:
  assumes H: "zero_chain H" and rep: "cmt_rep H h t ls" and ne: "leaves \<noteq> []"
    and room: "length ls + length leaves \<le> 2 ^ h"
    and cap: "length leaves \<le> CyclicBoundedVec_capacity (cmt_changelog t)"
    and sn: "cmt_sequence_number t + length leaves < u64_bound"
  shows "if hashable H h (ls @ leaves)
    then \<exists>t'. cmt_append_batch h H t leaves = Ok (t',
        (CyclicBoundedVec_last_index (cmt_changelog t) + 1) mod CyclicBoundedVec_capacity (cmt_changelog t),
        cmt_sequence_number t + 1) \<and> cmt_rep H h t' (ls @ leaves) \<and>
      cmt_sequence_number t' = cmt_sequence_number t + length leaves \<and>
      cmt_canopy_depth t' = cmt_canopy_depth t \<and>
      cbv_pushed (cmt_changelog t) (batch_entries H h ls leaves) (cmt_changelog t') \<and>
      cbv_pushed (cmt_roots t) (batch_roots H h ls leaves) (cmt_roots t')
    else \<not> is_ok (cmt_append_batch h H t leaves)"
proof -
  have base: "cmt_base h t" and n: "cmt_next_index t = length ls"
    and fo: "filled_ok H h (cmt_filled_subtrees t) ls" and hs: "hashable H h ls"
    using rep by (auto simp: cmt_rep_def)
  note leaves = append_leaves_spec [OF H base fo n room sn, of None 0, unfolded batch_hash_ok_iff [OF hs ne]]
  note unf = append_common_unfold [OF rep ne room cap sn, of False None]
  show ?thesis
  proof (cases "hashable H h (ls @ leaves)")
    case False
    then show ?thesis using leaves unfolding cmt_append_batch_def unf
      by (cases "cmt_append_leaves h False H t None 0 leaves") simp_all
  next
    case True
    then obtain t1 proofs' where t1: "cmt_append_leaves h False H t None 0 leaves = Ok (t1, proofs')"
      and app: "appended H h (batch_entries H h ls leaves) (batch_roots H h ls leaves) ls leaves t t1"
      using leaves by auto
    from append_common_finish [OF rep ne room cap app True, where 'e = ConcurrentMerkleTreeError]
    show ?thesis using True app unfolding cmt_append_batch_def unf t1 and_then.simps case_prod_conv
      by (auto simp: appended_def)
  qed
qed

lemma append_with_proof_spec:
  assumes H: "zero_chain H" and rep: "cmt_rep H h t ls" and room: "length ls < 2 ^ h"
    and sn: "cmt_sequence_number t + 1 < u64_bound"
    and p: "bv_inv p" "BoundedVec_as_slice p = []" "h \<le> BoundedVec_capacity p"
  shows "if hashable H h (ls @ [leaf])
    then \<exists>t' p' ci. cmt_append_with_proof h H t leaf p = Ok (t', p', ci, cmt_sequence_number t + 1) \<and>
      cmt_rep H h t' (ls @ [leaf]) \<and> BoundedVec_as_slice p' = merkle_proof H h (ls @ [leaf]) (length ls) \<and>
      cmt_sequence_number t' = cmt_sequence_number t + 1 \<and> cmt_canopy_depth t' = cmt_canopy_depth t \<and>
      ci = cmt_changelog_index t' \<and>
      cbv_pushed (cmt_changelog t) (batch_entries H h ls [leaf]) (cmt_changelog t')
    else \<not> is_ok (cmt_append_with_proof h H t leaf p)"
proof -
  have base: "cmt_base h t" and n: "cmt_next_index t = length ls"
    and fo: "filled_ok H h (cmt_filled_subtrees t) ls" and hs: "hashable H h ls"
    and cap: "length [leaf] \<le> CyclicBoundedVec_capacity (cmt_changelog t)"
    using rep by (auto simp: cmt_rep_def cmt_base_def cbv_inv_def)
  have "BoundedVec_len p = 0" using p(1,2) length_as_slice [of p] by simp
  then have pr: "proof_room True (Some [p]) 0 h" using p by (simp add: proof_room_def)
  have batch: "hashable H h (ls @ [leaf]) \<longleftrightarrow> leaf_hash_ok H h True ls leaf"
    using batch_hash_ok_iff [OF hs, of "[leaf]"] by simp
  note leaf = append_leaf_spec [OF H base fo n room sn pr, of True leaf, folded batch]
  have room1: "length ls + length [leaf] \<le> 2 ^ h" and sn1: "cmt_sequence_number t + length [leaf] < u64_bound"
    using room sn by simp_all
  note unf = append_common_unfold [OF rep _ room1 cap sn1, of True "Some [p]", simplified]
  show ?thesis
  proof (cases "hashable H h (ls @ [leaf])")
    case False
    then show ?thesis using leaf
      unfolding cmt_append_with_proof_def cmt_append_batch_with_proofs_def unf
      by (cases "cmt_append_leaf h True H True t (Some [p]) 0 leaf") simp_all
  next
    case True
    then obtain t1 proofs' where t1: "cmt_append_leaf h True H True t (Some [p]) 0 leaf = Ok (t1, proofs')"
      and app: "appended H h (batch_entries H h ls [leaf]) (batch_roots H h ls [leaf]) ls [leaf] t t1"
      and pn: "proof_nodes proofs' 0 = merkle_proof H h (ls @ [leaf]) (length ls)" "proof_room True proofs' 0 0"
      using leaf p(2) by (auto simp: batch_roots_def proof_nodes_def)
    from pn obtain ps where ps: "proofs' = Some ps" "0 < length ps"
      "BoundedVec_as_slice (ps ! 0) = merkle_proof H h (ls @ [leaf]) (length ls)"
      by (auto simp: proof_room_def proof_nodes_def)
    from append_common_finish [OF rep _ room1 cap app True, where 'e = ConcurrentMerkleTreeError]
    show ?thesis using True t1 ps
      using app unfolding cmt_append_with_proof_def cmt_append_batch_with_proofs_def unf
      by (auto simp: index_eval appended_def cmt_changelog_index_def cbv_pushed_def)
  qed
qed

end
