(* ===== verification/Concurrent_Update.thy ===== *)
theory Concurrent_Update
  imports Concurrent_Append
begin

text \<open>
  Proof validation and leaf updates.  A proof that validates is the tree's own Merkle proof of the
  stored leaf, unless hashing along the path meets an explicit collision; an update with the tree's
  own proof replaces exactly that leaf.
\<close>

section \<open>Climbing a path\<close>

definition ordered :: "nat \<Rightarrow> nat \<Rightarrow> bytes \<Rightarrow> bytes \<Rightarrow> bytes list" where
  "ordered j l nd sib = (if even (j div 2 ^ l) then [nd, sib] else [sib, nd])"

lemma ordered_inj: "ordered j l a b = ordered j l c d \<longleftrightarrow> a = c \<and> b = d"
  by (auto simp: ordered_def)

lemma compute_parent_node_ordered:
  "compute_parent_node H nd sib j l = map_err Hasher (hashv H (ordered j l nd sib))"
  by (simp add: compute_parent_node_def ordered_def drop_bit_eq_div and_one_eq even_iff_mod_2_eq_zero Let_def)

lemma hash_ok_ordered:
  "hash_ok H ls l (j div 2 ^ Suc l) \<longleftrightarrow>
     hashv H (ordered j l (node H ls l (j div 2 ^ l)) (node H ls l (sibling (j div 2 ^ l)))) =
       Ok (node H ls (Suc l) (j div 2 ^ Suc l))"
  unfolding hash_ok_path ordered_def ..

text \<open>The node that leaf \<open>j\<close> and the first \<open>l\<close> proof nodes hash to.\<close>

fun climb :: "Hasher \<Rightarrow> nat \<Rightarrow> bytes \<Rightarrow> bytes list \<Rightarrow> nat \<Rightarrow> (HasherError, bytes) result" where
  "climb H j leaf xs 0 = Ok leaf"
| "climb H j leaf xs (Suc l) = and_then (climb H j leaf xs l) (\<lambda>nd. hashv H (ordered j l nd (xs ! l)))"

lemma enumerate_take_Suc:
  "k < length xs \<Longrightarrow> enumerate 0 (take (Suc k) xs) = enumerate 0 (take k xs) @ [(k, xs ! k)]"
  by (simp add: take_Suc_conv_app_nth enumerate_append_eq)

lemma compute_root_climb:
  "compute_root H leaf j p =
     map_err Hasher (climb H j leaf (BoundedVec_as_slice p) (length (BoundedVec_as_slice p)))"
proof -
  let ?xs = "BoundedVec_as_slice p"
  have "try_fold (\<lambda>nd (level, sib). compute_parent_node H nd sib j level) leaf (enumerate 0 (take k ?xs)) =
      map_err Hasher (climb H j leaf ?xs k)" if "k \<le> length ?xs" for k
    using that
  proof (induction k)
    case (Suc k)
    then show ?case
      by (cases "climb H j leaf ?xs k")
        (simp_all add: enumerate_take_Suc try_fold_append compute_parent_node_ordered del: take_Suc)
  qed simp
  from this [of "length ?xs"] show ?thesis by (simp add: compute_root_def)
qed

lemma climb_cong: "(\<And>l. l < k \<Longrightarrow> xs ! l = ys ! l) \<Longrightarrow> climb H j leaf xs k = climb H j leaf ys k"
  by (induction k) simp_all

text \<open>The path of the tree's own leaf and proof.\<close>

lemma climb_own:
  assumes "\<And>l. l < k \<Longrightarrow> hash_ok H ls l (j div 2 ^ Suc l)"
    and "\<And>l. l < k \<Longrightarrow> xs ! l = node H ls l (sibling (j div 2 ^ l))"
  shows "climb H j (node H ls 0 j) xs k = Ok (node H ls k (j div 2 ^ k))"
  using assms
proof (induction k)
  case (Suc k)
  then have "climb H j (node H ls 0 j) xs k = Ok (node H ls k (j div 2 ^ k))" by simp
  then show ?case using Suc.prems(1) [of k] Suc.prems(2) [of k] unfolding hash_ok_ordered by simp
qed simp


section \<open>Soundness of validation\<close>

text \<open>
  A collision on the path: the verifier hashed a pair that differs from the pair stored in the tree
  on the same level, with the same result.
\<close>

definition path_collision :: "Hasher \<Rightarrow> nat \<Rightarrow> bytes list \<Rightarrow> nat \<Rightarrow> bytes \<Rightarrow> bytes list \<Rightarrow> bool" where
  "path_collision H h ls j leaf xs \<longleftrightarrow>
     (\<exists>l < h. \<exists>nd r.
        climb H j leaf xs l = Ok nd \<and>
        (let computed = ordered j l nd (xs ! l);
             stored = ordered j l (node H ls l (j div 2 ^ l)) (node H ls l (sibling (j div 2 ^ l)))
         in computed \<noteq> stored \<and> hashv H computed = Ok r \<and> hashv H stored = Ok r))"

lemma climb_sound:
  assumes "climb H j leaf xs k = Ok (node H ls k (j div 2 ^ k))" "hashable H h ls" "k \<le> h"
    and "\<not> path_collision H h ls j leaf xs"
  shows "leaf = node H ls 0 j \<and> (\<forall>l < k. xs ! l = node H ls l (sibling (j div 2 ^ l)))"
  using assms(1,3)
proof (induction k)
  case (Suc k)
  then obtain nd where nd: "climb H j leaf xs k = Ok nd"
    "hashv H (ordered j k nd (xs ! k)) = Ok (node H ls (Suc k) (j div 2 ^ Suc k))"
    by (auto simp: and_then_eq_Ok)
  have "hash_ok H ls k (j div 2 ^ Suc k)" using assms(2) Suc.prems(2) by (simp add: hashable_def)
  then have "ordered j k nd (xs ! k) =
      ordered j k (node H ls k (j div 2 ^ k)) (node H ls k (sibling (j div 2 ^ k)))"
    using nd assms(4) Suc.prems(2) unfolding hash_ok_ordered path_collision_def Let_def
    by (metis Suc_le_eq)
  then have "nd = node H ls k (j div 2 ^ k)" "xs ! k = node H ls k (sibling (j div 2 ^ k))"
    by (simp_all add: ordered_inj)
  then show ?case using Suc.IH nd(1) Suc.prems(2) by (auto simp: less_Suc_eq)
qed simp

lemma validate_sound:
  assumes "cmt_validate_proof H t leaf j p = Ok ()" "cmt_rep H h t ls" "j < length ls"
    and "bv_inv p" "BoundedVec_len p = h"
    and "\<not> path_collision H h ls j leaf (BoundedVec_as_slice p)"
  shows "leaf = ls ! j" "BoundedVec_as_slice p = merkle_proof H h ls j"
proof -
  have hs: "hashable H h ls" "length ls \<le> 2 ^ h" using assms(2) by (auto simp: cmt_rep_def)
  then have "j div 2 ^ h = 0" using assms(3) by simp
  then have "climb H j leaf (BoundedVec_as_slice p) h = Ok (node H ls h (j div 2 ^ h))"
    using assms(1,4,5)
    by (auto simp: cmt_rep_root [OF assms(2)] cmt_validate_proof_def compute_root_climb merkle_root_def
        res_simps split: if_splits)
  from climb_sound [OF this hs(1) order_refl assms(6)]
  show "leaf = ls ! j" "BoundedVec_as_slice p = merkle_proof H h ls j"
    using assms(3-5) by (auto intro!: nth_equalityI)
qed

lemma validate_complete:
  assumes "cmt_rep H h t ls" "j < length ls" "BoundedVec_as_slice p = merkle_proof H h ls j"
  shows "cmt_validate_proof H t (ls ! j) j p = Ok ()"
proof -
  have hs: "hashable H h ls" "length ls \<le> 2 ^ h" using assms(1) by (auto simp: cmt_rep_def)
  have "climb H j (node H ls 0 j) (merkle_proof H h ls j) h = Ok (node H ls h (j div 2 ^ h))"
    using hs(1) by (intro climb_own) (simp_all add: hashable_def)
  moreover have "j div 2 ^ h = 0" using hs(2) assms(2) by simp
  ultimately show ?thesis using assms
    by (simp add: cmt_rep_root [OF assms(1)] cmt_validate_proof_def compute_root_climb merkle_root_def)
qed


section \<open>The update loop\<close>

lemma hashable_update:
  assumes "hashable H h ls"
  shows "hashable H h (ls[j := x]) \<longleftrightarrow> (\<forall>l < h. hash_ok H (ls[j := x]) l (j div 2 ^ Suc l))"
  using assms hash_ok_update_other unfolding hashable_def by metis

lemma sibling_update: "node H (ls[j := x]) l (sibling (j div 2 ^ l)) = node H ls l (sibling (j div 2 ^ l))"
  by (rule node_update_other) simp

definition partial_entry :: "Hasher \<Rightarrow> nat \<Rightarrow> bytes list \<Rightarrow> nat \<Rightarrow> nat \<Rightarrow> ChangelogEntry" where
  "partial_entry H h ls' j k =
     \<lparr>cle_path = map (\<lambda>l. if l < k then Some (node H ls' l (j div 2 ^ l)) else None) [0..<h], cle_index = j\<rparr>"

lemma partial_entry_full: "partial_entry H h ls' j h = update_entry H h ls' j"
  by (simp add: partial_entry_def update_entry_def)

lemma update_leaf_level_spec:
  assumes "k < h"
  shows "if hash_ok H ls' k (j div 2 ^ Suc k)
    then cmt_update_leaf_level H j (partial_entry H h ls' j k, node H ls' k (j div 2 ^ k))
        (k, node H ls' k (sibling (j div 2 ^ k))) =
      Ok (partial_entry H h ls' j (Suc k), node H ls' (Suc k) (j div 2 ^ Suc k))
    else \<not> is_ok (cmt_update_leaf_level H j (partial_entry H h ls' j k, node H ls' k (j div 2 ^ k))
        (k, node H ls' k (sibling (j div 2 ^ k))))"
proof -
  let ?xs = "ordered j k (node H ls' k (j div 2 ^ k)) (node H ls' k (sibling (j div 2 ^ k)))"
  have path: "(cle_path (partial_entry H h ls' j k))[k := Some (node H ls' k (j div 2 ^ k))] =
      cle_path (partial_entry H h ls' j (Suc k))" "k < length (cle_path (partial_entry H h ls' j k))"
    using assms by (auto simp: partial_entry_def nth_list_update intro!: nth_equalityI)
  have upd: "(partial_entry H h ls' j k)\<lparr>cle_path := cle_path (partial_entry H h ls' j (Suc k))\<rparr> =
      partial_entry H h ls' j (Suc k)" by (simp add: partial_entry_def)
  have "is_ok (hashv H ?xs) \<Longrightarrow> hash_ok H ls' k (j div 2 ^ Suc k)"
    using path_hash_is_ok(1) unfolding ordered_def is_ok_iff by blast
  then show ?thesis using path upd hash_ok_ordered [of H ls' k j]
    by (cases "hashv H ?xs")
      (simp_all add: cmt_update_leaf_level_def write_at_eval compute_parent_node_ordered)
qed

lemma update_leaf_path_spec:
  assumes "BoundedVec_as_slice p = merkle_proof H h ls j" "j < length ls" and ls': "ls' = ls[j := x]"
  shows "if \<forall>l < h. hash_ok H ls' l (j div 2 ^ Suc l)
    then cmt_update_leaf_path h H x j p = Ok (update_entry H h ls' j, node H ls' h (j div 2 ^ h))
    else \<not> is_ok (cmt_update_leaf_path h H x j p)"
proof -
  let ?r = "\<lambda>k. try_fold (cmt_update_leaf_level H j) (ChangelogEntry_default_with_index h j, x)
      (enumerate 0 (take k (merkle_proof H h ls j)))"
  have start: "ChangelogEntry_default_with_index h j = partial_entry H h ls' j 0" "x = node H ls' 0 j"
    using assms(2) ls' by (simp_all add: ChangelogEntry_default_with_index_def ChangelogPath_default_def
        partial_entry_def map_replicate_const)
  have "if \<forall>l < k. hash_ok H ls' l (j div 2 ^ Suc l)
      then ?r k = Ok (partial_entry H h ls' j k, node H ls' k (j div 2 ^ k))
      else \<not> is_ok (?r k)" if "k \<le> h" for k
    using that
  proof (induction k)
    case 0
    then show ?case using start by simp
  next
    case (Suc k)
    have "merkle_proof H h ls j ! k = node H ls' k (sibling (j div 2 ^ k))"
      using Suc.prems sibling_update ls' by simp
    then have fold: "?r (Suc k) = and_then (?r k)
        (\<lambda>s. cmt_update_leaf_level H j s (k, node H ls' k (sibling (j div 2 ^ k))))"
      using Suc.prems by (simp add: enumerate_take_Suc try_fold_append del: take_Suc nth_merkle_proof)
    have all: "(\<forall>l < Suc k. hash_ok H ls' l (j div 2 ^ Suc l)) \<longleftrightarrow>
        (\<forall>l < k. hash_ok H ls' l (j div 2 ^ Suc l)) \<and> hash_ok H ls' k (j div 2 ^ Suc k)"
      using less_Suc_eq by auto
    show ?case
    proof (cases "\<forall>l < k. hash_ok H ls' l (j div 2 ^ Suc l)")
      case False
      then have "\<not> is_ok (?r k)" using Suc by simp
      then show ?thesis unfolding all fold using False by (cases "?r k") simp_all
    next
      case True
      then have IH: "?r k = Ok (partial_entry H h ls' j k, node H ls' k (j div 2 ^ k))" using Suc by simp
      from update_leaf_level_spec [of k h H ls' j] Suc.prems show ?thesis
        unfolding all fold IH and_then.simps using True by simp
    qed
  qed
  note loop = this [OF order_refl]
  have "take h (merkle_proof H h ls j) = merkle_proof H h ls j" by simp
  from loop show ?thesis
    unfolding \<open>take h (merkle_proof H h ls j) = merkle_proof H h ls j\<close> partial_entry_full
      cmt_update_leaf_path_def assms(1) .
qed


section \<open>Updating a leaf\<close>

text \<open>The filled subtrees after an update; a full tree needs none.\<close>

lemma filled_ok_full: "bv_inv f \<Longrightarrow> BoundedVec_len f = h \<Longrightarrow> length ls = 2 ^ h \<Longrightarrow> filled_ok H h f ls"
proof -
  assume f: "bv_inv f" "BoundedVec_len f = h" and n: "length ls = 2 ^ h"
  have "even (length ls div 2 ^ l)" if "l < h" for l
    using that n by (simp add: power_diff [symmetric])
  with f show ?thesis unfolding filled_ok_def by blast
qed

lemma filled_ok_update:
  assumes "filled_ok H h f ls" "j < length ls" "length ls < 2 ^ h" "h \<le> MAX_HEIGHT"
  shows "\<exists>f'. ChangelogEntry_update_proof h (update_entry H h (ls[j := x]) j) (length ls) f = Ok f' \<and>
    filled_ok H h f' (ls[j := x])"
proof -
  let ?e = "update_entry H h (ls[j := x]) j"
  have e: "entry_wf h ?e" "length ls \<noteq> cle_index ?e" "h \<le> 64"
    using assms(2-4) by (simp_all add: update_entry_wf MAX_HEIGHT_def) (simp add: update_entry_def)
  have f: "bv_inv f" "BoundedVec_len f = h" using assms(1) by (auto simp: filled_ok_def)
  from update_proof_spec [OF f e(1) assms(3) e(3,2)] obtain f' where
    f': "ChangelogEntry_update_proof h ?e (length ls) f = Ok f'" "bv_inv f'" "BoundedVec_len f' = h"
    "\<And>l. l < h \<Longrightarrow> BoundedVec_as_slice f' ! l = (case entry_val ?e l (sibling (length ls div 2 ^ l)) of
       Some v \<Rightarrow> v | None \<Rightarrow> BoundedVec_as_slice f ! l)" by blast
  have "BoundedVec_as_slice f' ! l = node H (ls[j := x]) l (sibling (length ls div 2 ^ l))"
    if "l < h" "odd (length ls div 2 ^ l)" for l
    using f'(4) [OF that(1)] that assms(1) explainsD [OF update_explains that(1), of H ls j x]
    by (auto simp: filled_ok_def split: option.splits)
  then show ?thesis using f' by (auto simp: filled_ok_def)
qed

definition updated :: "Hasher \<Rightarrow> nat \<Rightarrow> bytes list \<Rightarrow> nat \<Rightarrow> ConcurrentMerkleTree \<Rightarrow> ConcurrentMerkleTree \<Rightarrow> bool" where
  "updated H h ls' j t t' \<longleftrightarrow>
     cmt_rep H h t' ls' \<and> cmt_sequence_number t' = cmt_sequence_number t + 1 \<and>
     cmt_canopy_depth t' = cmt_canopy_depth t \<and>
     cbv_pushed (cmt_changelog t) [update_entry H h ls' j] (cmt_changelog t') \<and>
     cbv_pushed (cmt_roots t) [merkle_root H h ls'] (cmt_roots t')"

text \<open>The part of \<open>update_leaf_in_tree\<close> between the root and the changelog.\<close>

lemma update_filled_part:
  assumes "filled_ok H h (cmt_filled_subtrees t) ls" "j < length ls" "length ls \<le> 2 ^ h" "h \<le> MAX_HEIGHT"
    and "cmt_next_index t = length ls" "ls \<noteq> [] \<and> length ls < 2 ^ h \<longrightarrow> cmt_rightmost_leaf t = last ls"
  shows "\<exists>f r. (if cmt_next_index t < 2 ^ h then
          and_then (ChangelogEntry_update_proof h (update_entry H h (ls[j := x]) j) (cmt_next_index t)
              (cmt_filled_subtrees t)) (\<lambda>filled.
          let t3 = t\<lparr>cmt_filled_subtrees := filled\<rparr> in
          if j \<ge> cmt_current_index t3 then Ok (cmt_set_rightmost_leaf t3 x) else Ok t3)
        else Ok t) = Ok (t\<lparr>cmt_filled_subtrees := f, cmt_rightmost_leaf := r\<rparr>) \<and>
    filled_ok H h f (ls[j := x]) \<and> (length ls < 2 ^ h \<longrightarrow> r = last (ls[j := x]))"
proof (cases "length ls < 2 ^ h")
  case True
  obtain f where f: "ChangelogEntry_update_proof h (update_entry H h (ls[j := x]) j) (length ls)
      (cmt_filled_subtrees t) = Ok f" "filled_ok H h f (ls[j := x])"
    using filled_ok_update [OF assms(1,2) True assms(4)] by blast
  have ne: "ls \<noteq> []" using assms(2) by auto
  have last: "last (ls[j := x]) = (if j = length ls - 1 then x else last ls)"
    using ne assms(2) by (simp add: last_list_update)
  have ci: "cmt_current_index (t\<lparr>cmt_filled_subtrees := f\<rparr>) = length ls - 1"
    using assms(5) by (simp add: cmt_current_index_def)
  show ?thesis
  proof (cases "j = length ls - 1")
    case True
    then show ?thesis using f last ci assms(5) \<open>length ls < 2 ^ h\<close>
      by (intro exI [of _ f] exI [of _ x]) (simp add: Let_def cmt_set_rightmost_leaf_def)
  next
    case False
    then have "\<not> length ls - 1 \<le> j" using assms(2) by linarith
    moreover have "t\<lparr>cmt_filled_subtrees := f, cmt_rightmost_leaf := cmt_rightmost_leaf t\<rparr> =
        t\<lparr>cmt_filled_subtrees := f\<rparr>" by (cases t) simp
    ultimately show ?thesis using f last ci assms(5,6) \<open>length ls < 2 ^ h\<close> ne False
      by (intro exI [of _ f] exI [of _ "cmt_rightmost_leaf t"]) (simp add: Let_def)
  qed
next
  case False
  then have "length (ls[j := x]) = 2 ^ h" using assms(3) by simp
  then have "filled_ok H h (cmt_filled_subtrees t) (ls[j := x])"
    using assms(1) filled_ok_full unfolding filled_ok_def by blast
  moreover have "t\<lparr>cmt_filled_subtrees := cmt_filled_subtrees t, cmt_rightmost_leaf := cmt_rightmost_leaf t\<rparr> = t"
    by (cases t) simp
  ultimately show ?thesis using False assms(5)
    by (intro exI [of _ "cmt_filled_subtrees t"] exI [of _ "cmt_rightmost_leaf t"]) simp
qed

lemma update_canopy_part:
  assumes "cbv_pushed cl [update_entry H h (ls[j := x]) j] (cmt_changelog t)" "cbv_inv cl"
    and "cmt_height t = h" "h \<le> MAX_HEIGHT" "cmt_canopy_depth t \<le> h" "j < 2 ^ h"
    and "canopy_ok H h (cmt_canopy_depth t) (cmt_canopy t) ls"
  shows "\<exists>c. (if cmt_canopy_depth t > 0
        then cmt_update_canopy t (CyclicBoundedVec_last_index (cmt_changelog t)) 1 else Ok t) =
      (Ok (t\<lparr>cmt_canopy := c\<rparr>) :: ('e, _) result) \<and>
    canopy_ok H h (cmt_canopy_depth t) c (ls[j := x])"
proof (cases "cmt_canopy_depth t = 0")
  case True
  moreover have "t\<lparr>cmt_canopy := cmt_canopy t\<rparr> = t" by (cases t) simp
  ultimately show ?thesis using assms(7) canopy_ok_depth_0 [of H h "cmt_canopy t" ls]
    by (intro exI [of _ "cmt_canopy t"]) simp
next
  case False
  let ?e = "update_entry H h (ls[j := x]) j"
  have "CyclicBoundedVec_last_index (cmt_changelog t) =
      (CyclicBoundedVec_last_index cl + 1) mod CyclicBoundedVec_capacity cl"
    using assms(1) by (simp add: cbv_pushed_def)
  moreover have "length [?e] \<le> CyclicBoundedVec_capacity cl" using assms(2) by (simp add: cbv_inv_def)
  moreover have "\<forall>e \<in> set [?e]. entry_wf (cmt_height t) e"
    using update_entry_wf [OF assms(6)] assms(3) by simp
  ultimately show ?thesis
    using update_canopy_spec [OF assms(1,2), of H ls "ls[j := x]", where 'e = 'e] False assms(3-7)
      update_explains [of H h ls j x] by (auto simp: MAX_HEIGHT_def)
qed

lemma updated_intro:
  assumes "cmt_base h t" "cmt_changelog t' = cl" "cmt_roots t' = roots" "cmt_height t' = cmt_height t"
    and "cbv_pushed (cmt_roots t) [merkle_root H h ls'] roots"
    and "cbv_pushed (cmt_changelog t) [update_entry H h ls' j] cl"
    and "cmt_canopy_depth t' = cmt_canopy_depth t" "cmt_sequence_number t' = cmt_sequence_number t + 1"
    and "cmt_next_index t' = length ls'" "length ls' \<le> 2 ^ h" "j < 2 ^ h"
    and "filled_ok H h (cmt_filled_subtrees t') ls'" "hashable H h ls'"
    and "canopy_ok H h (cmt_canopy_depth t') (cmt_canopy t') ls'"
    and "length ls' < 2 ^ h \<longrightarrow> cmt_rightmost_leaf t' = last ls'"
  shows "updated H h ls' j t t'"
proof -
  have b: "cbv_inv (cmt_changelog t)" "cbv_list (cmt_changelog t) \<noteq> []" "cbv_inv (cmt_roots t)"
    "cbv_list (cmt_roots t) \<noteq> []" using assms(1) by (auto simp: cmt_base_def)
  have "cbv_list roots \<noteq> []" "cbv_list cl \<noteq> []" "last (cbv_list roots) = merkle_root H h ls'"
    using cbv_pushed_nonempty [OF assms(5) b(3,4)] cbv_pushed_nonempty [OF assms(6) b(1,2)]
      cbv_pushed_last [OF assms(5) b(3)] by simp_all
  moreover have "\<forall>e \<in> set (cbv_list cl). entry_wf h e"
    using cbv_pushed_set [OF assms(6)] update_entry_wf [OF assms(11)] assms(1)
    by (auto simp: cmt_base_def)
  moreover have "cbv_inv roots" "cbv_inv cl" using assms(5,6) by (simp_all add: cbv_pushed_def)
  ultimately have "cmt_base h t'" "last (cbv_list (cmt_roots t')) = merkle_root H h ls'"
    using assms(1-4,7) by (simp_all add: cmt_base_def)
  then show ?thesis using assms(2,3,5-15) by (simp add: updated_def cmt_rep_def)
qed

lemma update_leaf_in_tree_spec:
  assumes rep: "cmt_rep H h t ls" and j: "j < length ls"
    and p: "BoundedVec_as_slice p = merkle_proof H h ls j" and sn: "cmt_sequence_number t + 1 < u64_bound"
  shows "if hashable H h (ls[j := x])
    then \<exists>t'. cmt_update_leaf_in_tree h H t x j p =
        Ok (t', cmt_changelog_index t', cmt_sequence_number t + 1) \<and> updated H h (ls[j := x]) j t t'
    else \<not> is_ok (cmt_update_leaf_in_tree h H t x j p)"
proof -
  let ?ls = "ls[j := x]" and ?e = "update_entry H h (ls[j := x]) j"
  have base: "cmt_base h t" and n: "cmt_next_index t = length ls" "length ls \<le> 2 ^ h"
    and fo: "filled_ok H h (cmt_filled_subtrees t) ls"
    and can: "canopy_ok H h (cmt_canopy_depth t) (cmt_canopy t) ls" and hs: "hashable H h ls"
    and rm: "ls \<noteq> [] \<and> length ls < 2 ^ h \<longrightarrow> cmt_rightmost_leaf t = last ls"
    using rep by (auto simp: cmt_rep_def)
  have t: "cmt_height t = h" "h \<le> MAX_HEIGHT" "cmt_canopy_depth t \<le> h"
    "cbv_inv (cmt_changelog t)" "cbv_list (cmt_changelog t) \<noteq> []" "cbv_inv (cmt_roots t)" "cbv_list (cmt_roots t) \<noteq> []"
    using base by (auto simp: cmt_base_def)
  note path = update_leaf_path_spec [OF p j refl, of x, folded hashable_update [OF hs]]
  show ?thesis
  proof (cases "hashable H h ?ls")
    case False
    then show ?thesis using path unfolding cmt_update_leaf_in_tree_def
      by (cases "cmt_update_leaf_path h H x j p") simp_all
  next
    case True
    have jh: "j < 2 ^ h" using j n(2) by linarith
    have path_ok: "cmt_update_leaf_path h H x j p = Ok (?e, merkle_root H h ?ls)"
      using path True jh by (simp add: merkle_root_def)
    obtain roots where roots: "CyclicBoundedVec_push (cmt_roots t) (merkle_root H h ?ls) =
        (Ok roots :: (ConcurrentMerkleTreeError, _) result)" "cbv_pushed (cmt_roots t) [merkle_root H h ?ls] roots"
      using cbv_push_pushed [OF t(6,7)] by blast
    let ?t2 = "t\<lparr>cmt_sequence_number := cmt_sequence_number t + 1, cmt_roots := roots\<rparr>"
    obtain f r where fr: "(if cmt_next_index ?t2 < 2 ^ h then
          and_then (ChangelogEntry_update_proof h ?e (cmt_next_index ?t2) (cmt_filled_subtrees ?t2)) (\<lambda>filled.
          let t3 = ?t2\<lparr>cmt_filled_subtrees := filled\<rparr> in
          if j \<ge> cmt_current_index t3 then Ok (cmt_set_rightmost_leaf t3 x) else Ok t3)
        else Ok ?t2) = Ok (?t2\<lparr>cmt_filled_subtrees := f, cmt_rightmost_leaf := r\<rparr>)"
      "filled_ok H h f ?ls" "length ls < 2 ^ h \<longrightarrow> r = last ?ls"
      using update_filled_part [of H h ?t2 ls j x] fo j n t(2) rm by auto
    let ?t4 = "?t2\<lparr>cmt_filled_subtrees := f, cmt_rightmost_leaf := r\<rparr>"
    obtain cl where cl: "CyclicBoundedVec_push (cmt_changelog t) ?e =
        (Ok cl :: (ConcurrentMerkleTreeError, _) result)" "cbv_pushed (cmt_changelog t) [?e] cl"
      using cbv_push_pushed [OF t(4,5)] by blast
    let ?t5 = "?t4\<lparr>cmt_changelog := cl\<rparr>"
    obtain c where c: "(if cmt_canopy_depth ?t5 > 0
        then cmt_update_canopy ?t5 (CyclicBoundedVec_last_index (cmt_changelog ?t5)) 1 else Ok ?t5) =
      (Ok (?t5\<lparr>cmt_canopy := c\<rparr>) :: (ConcurrentMerkleTreeError, _) result)"
      "canopy_ok H h (cmt_canopy_depth t) c ?ls"
      using update_canopy_part [of "cmt_changelog t" H h ls j x ?t5] cl(2) t jh can by auto
    let ?t6 = "?t5\<lparr>cmt_canopy := c\<rparr>"
    let ?t1 = "t\<lparr>cmt_sequence_number := cmt_sequence_number t + 1\<rparr>"
    have steps: "cmt_inc_sequence_number t = Ok ?t1"
      "CyclicBoundedVec_push (cmt_roots ?t1) (merkle_root H h ?ls) = (Ok roots :: (ConcurrentMerkleTreeError, _) result)"
      "shl1_u64 (cmt_height ?t2) = (Ok (2 ^ h) :: (ConcurrentMerkleTreeError, _) result)"
      "CyclicBoundedVec_push (cmt_changelog ?t4) ?e = (Ok cl :: (ConcurrentMerkleTreeError, _) result)"
      using sn roots(1) cl(1) t(1,2) by (simp_all add: cmt_inc_sequence_number_def MAX_HEIGHT_def checked_add_def)
    have "cmt_update_leaf_in_tree h H t x j p = Ok (?t6, cmt_changelog_index ?t6, cmt_sequence_number t + 1)"
      unfolding cmt_update_leaf_in_tree_def Let_def path_ok steps and_then.simps case_prod_conv
        fr(1) [unfolded Let_def] c(1) by (simp add: cmt_changelog_index_def)
    moreover have "updated H h ?ls j t ?t6"
      using updated_intro [OF base _ _ _ roots(2) cl(2), of ?t6] fr(2,3) c(2) True n jh by simp
    ultimately show ?thesis using True by auto
  qed
qed



section \<open>Preparing the proof\<close>

abbreviation upper_nodes :: "Hasher \<Rightarrow> nat \<Rightarrow> nat \<Rightarrow> bytes list \<Rightarrow> nat \<Rightarrow> bytes list" where
  "upper_nodes H h cd ls j \<equiv> map (\<lambda>l. node H ls l (sibling (j div 2 ^ l))) [h - cd..<h]"

lemma canopy_prepare:
  assumes "cmt_rep H h t ls" "j < 2 ^ h" "bv_inv p" "BoundedVec_len p = h - cmt_canopy_depth t"
    and "h \<le> BoundedVec_capacity p"
  shows "\<exists>p1. (if cmt_canopy_depth t > 0 then cmt_update_proof_from_canopy t j p else Ok p) = Ok p1 \<and>
    bv_inv p1 \<and> BoundedVec_len p1 = h \<and> BoundedVec_capacity p1 = BoundedVec_capacity p \<and>
    BoundedVec_as_slice p1 = BoundedVec_as_slice p @ upper_nodes H h (cmt_canopy_depth t) ls j"
proof (cases "cmt_canopy_depth t = 0")
  case True
  then show ?thesis using assms by simp
next
  case False
  have t: "cmt_height t = h" "h \<le> MAX_HEIGHT" "cmt_canopy_depth t \<le> h"
    "canopy_ok H h (cmt_canopy_depth t) (cmt_canopy t) ls"
    using assms(1) by (auto simp: cmt_rep_def cmt_base_def)
  with assms update_proof_from_canopy_spec [of H t ls j p] obtain p1 where
    p1: "cmt_update_proof_from_canopy t j p = Ok p1" "bv_inv p1"
    "BoundedVec_capacity p1 = BoundedVec_capacity p"
    "BoundedVec_as_slice p1 = BoundedVec_as_slice p @ upper_nodes H h (cmt_canopy_depth t) ls j"
    by (auto simp: MAX_HEIGHT_def)
  have "BoundedVec_len p1 = h"
    using arg_cong [OF p1(4), of length] assms(3,4) p1(2) t(3) by simp
  then show ?thesis using p1 False by simp
qed

lemma changelog_entries_wf:
  assumes "cmt_base h t" "cmt_changelog_entries t ci = Ok es"
  shows "\<forall>e \<in> set es. entry_wf h e"
proof -
  have cl: "cbv_inv (cmt_changelog t)" "\<forall>e \<in> set (cbv_list (cmt_changelog t)). entry_wf h e"
    using assms(1) by (auto simp: cmt_base_def)
  obtain it xs where it: "CyclicBoundedVec_iter_from (cmt_changelog t) ci = Ok it"
    "CyclicBoundedVecIterator_drain it = (Ok xs :: (BoundedVecError, _) result)" "es = drop 1 xs"
    using assms(2) by (auto simp: cmt_changelog_entries_def and_then_eq_Ok)
  then have "ci < CyclicBoundedVec_len (cmt_changelog t)"
    by (auto simp: CyclicBoundedVec_iter_from_def split: if_splits)
  from cbv_drain_iter_from [OF cl(1) this] it(1,2)
  have "xs = drop (cbv_logical (cmt_changelog t) ci) (cbv_list (cmt_changelog t))" by simp
  then show ?thesis using cl(2) it(3) by (auto dest!: in_set_dropD)
qed

lemma changelog_patch_wf:
  assumes "cmt_base h t" "bv_inv p" "BoundedVec_len p = h" "j < 2 ^ h"
    and "cmt_update_proof_from_changelog h t ci j p = Ok p'"
  shows "bv_inv p'" "BoundedVec_len p' = h"
proof -
  obtain es where es: "cmt_changelog_entries t ci = Ok es"
    "try_fold (\<lambda>p e. ChangelogEntry_update_proof h e j p) p es = Ok p'"
    using assms(5) by (auto simp: cmt_update_proof_from_changelog_def and_then_eq_Ok)
  have h: "h \<le> 64" using assms(1) by (simp add: cmt_base_def MAX_HEIGHT_def)
  from update_proof_fold [OF assms(2,3) changelog_entries_wf [OF assms(1) es(1)] assms(4) h] es(2)
  show "bv_inv p'" "BoundedVec_len p' = h" by (auto split: if_splits)
qed

lemma update_leaf_in_tree_seq:
  "cmt_update_leaf_in_tree h H t x j p = Ok r \<Longrightarrow> cmt_sequence_number t + 1 < u64_bound"
  by (auto simp: cmt_update_leaf_in_tree_def and_then_eq_Ok cmt_inc_sequence_number_def)


section \<open>\<open>update\<close>\<close>

text \<open>Soundness: a successful update replaced the leaf the caller named, and only that leaf.\<close>

lemma update_sound:
  assumes rep: "cmt_rep H h t ls" and p: "bv_inv p" "h \<le> BoundedVec_capacity p"
    and upd: "cmt_update h H t ci old new j p = Ok (t', p', ci', sn')"
    and nc: "\<not> path_collision H h ls j old (BoundedVec_as_slice p')"
  shows "j < length ls" "old = ls ! j" "BoundedVec_as_slice p' = merkle_proof H h ls j"
    "updated H h (ls[j := new]) j t t'" "ci' = cmt_changelog_index t'" "sn' = cmt_sequence_number t'"
proof -
  have t: "cmt_height t = h" "cmt_base h t" "cmt_next_index t = length ls" "length ls \<le> 2 ^ h"
    using rep by (auto simp: cmt_rep_def cmt_base_def)
  have len: "BoundedVec_len p = h - cmt_canopy_depth t" and j: "j < length ls"
    using upd t by (auto simp: cmt_update_def and_then_eq_Ok split: if_splits)
  have jh: "j < 2 ^ h" using j t(4) by linarith
  obtain p1 where p1: "(if cmt_canopy_depth t > 0 then cmt_update_proof_from_canopy t j p else Ok p) = Ok p1"
    "bv_inv p1" "BoundedVec_len p1 = h" using canopy_prepare [OF rep jh p(1) len p(2)] by blast
  have prep: "(if ci \<noteq> cmt_changelog_index t then cmt_update_proof_from_changelog h t ci j p1 else Ok p1) = Ok p'"
    and val: "cmt_validate_proof H t old j p' = Ok ()"
    and tree: "cmt_update_leaf_in_tree h H t new j p' = Ok (t', ci', sn')"
    using upd len j t(1,3) unfolding cmt_update_def p1(1) by (auto simp: and_then_eq_Ok split: if_splits)
  have p': "bv_inv p'" "BoundedVec_len p' = h"
    using prep p1(2,3) changelog_patch_wf [OF t(2) p1(2,3) jh] by (auto split: if_splits)
  note own = validate_sound [OF val rep j p' nc]
  show "j < length ls" "old = ls ! j" "BoundedVec_as_slice p' = merkle_proof H h ls j"
    using j own by simp_all
  from update_leaf_in_tree_spec [OF rep j own(2) update_leaf_in_tree_seq [OF tree], of new] tree
  show "updated H h (ls[j := new]) j t t'" "ci' = cmt_changelog_index t'" "sn' = cmt_sequence_number t'"
    by (auto simp: updated_def split: if_splits)
qed

text \<open>
  Completeness under concurrency: the caller's proof and changelog index are those of an older tree
  with leaves \<open>ls0\<close>; since then the entries \<open>es\<close> were pushed.
\<close>

lemma changelog_entries_pushed:
  assumes "cmt_base h t0" "cbv_pushed (cmt_changelog t0) es (cmt_changelog t)"
    and "length es < CyclicBoundedVec_capacity (cmt_changelog t0)"
  shows "cmt_changelog_entries t (cmt_changelog_index t0) = Ok es"
proof -
  have "cbv_inv (cmt_changelog t0)" "cbv_list (cmt_changelog t0) \<noteq> []"
    using assms(1) by (auto simp: cmt_base_def)
  from cbv_pushed_iter_from [OF assms(2) this assms(3)] show ?thesis
    by (auto simp: cmt_changelog_entries_def cmt_changelog_index_def and_then_eq_Ok)
qed

lemma changelog_index_moved:
  assumes "cmt_base h t0" "cbv_pushed (cmt_changelog t0) es (cmt_changelog t)" "es \<noteq> []"
    and "length es < CyclicBoundedVec_capacity (cmt_changelog t0)"
  shows "cmt_changelog_index t0 \<noteq> cmt_changelog_index t"
proof -
  have "cmt_changelog_index t0 < CyclicBoundedVec_capacity (cmt_changelog t0)"
    using assms(1) cbv_last_index_less by (auto simp: cmt_base_def cmt_changelog_index_def)
  then show ?thesis
    using ring_pos_less [of 0 "length es" "CyclicBoundedVec_capacity (cmt_changelog t0)" "cmt_changelog_index t0"] assms
    by (simp add: cbv_pushed_def cmt_changelog_index_def)
qed

text \<open>The outcome of bringing the caller's proof up to date.\<close>

lemma proof_patched:
  assumes base0: "cmt_base h t0" and rep: "cmt_rep H h t ls"
    and es: "cbv_pushed (cmt_changelog t0) es (cmt_changelog t)"
      "length es < CyclicBoundedVec_capacity (cmt_changelog t0)" "explains H h es ls0 ls"
      "\<forall>e \<in> set es. entry_wf h e"
    and p: "bv_inv p" "h \<le> BoundedVec_capacity p" "j < 2 ^ h"
      "BoundedVec_as_slice p = take (h - cmt_canopy_depth t) (merkle_proof H h ls0 j)"
    and p1: "(if cmt_canopy_depth t > 0 then cmt_update_proof_from_canopy t j p else Ok p) = Ok p1"
  shows "if j \<in> cle_index ` set es
    then (if cmt_changelog_index t0 \<noteq> cmt_changelog_index t
          then cmt_update_proof_from_changelog h t (cmt_changelog_index t0) j p1 else Ok p1) = Err CannotUpdateLeaf
    else \<exists>p2. (if cmt_changelog_index t0 \<noteq> cmt_changelog_index t
          then cmt_update_proof_from_changelog h t (cmt_changelog_index t0) j p1 else Ok p1) = Ok p2 \<and>
      bv_inv p2 \<and> BoundedVec_as_slice p2 = merkle_proof H h ls j"
proof -
  have t: "cmt_base h t" "cmt_canopy_depth t \<le> h" "h \<le> 64"
    using rep by (auto simp: cmt_rep_def cmt_base_def MAX_HEIGHT_def)
  have len: "BoundedVec_len p = h - cmt_canopy_depth t"
    using arg_cong [OF p(4), of length] p(1) by simp
  obtain q where q: "(if cmt_canopy_depth t > 0 then cmt_update_proof_from_canopy t j p else Ok p) = Ok q"
    "bv_inv q" "BoundedVec_len q = h" "BoundedVec_as_slice q = BoundedVec_as_slice p @ upper_nodes H h (cmt_canopy_depth t) ls j"
    using canopy_prepare [OF rep p(3,1) len p(2)] by blast
  have qp: "q = p1" using q(1) p1 by simp
  have fold: "(if cmt_changelog_index t0 \<noteq> cmt_changelog_index t
          then cmt_update_proof_from_changelog h t (cmt_changelog_index t0) j p1 else Ok p1) =
      try_fold (\<lambda>p e. ChangelogEntry_update_proof h e j p) p1 es"
  proof (cases "es = []")
    case True
    then have "cmt_changelog_index t0 = cmt_changelog_index t"
      using es(1) base0 cbv_last_index_less [of "cmt_changelog t0"]
      by (simp add: cbv_pushed_def cmt_changelog_index_def cmt_base_def)
    then show ?thesis using True by simp
  next
    case False
    then show ?thesis using changelog_index_moved [OF base0 es(1) False es(2)]
        changelog_entries_pushed [OF base0 es(1,2)] by (simp add: cmt_update_proof_from_changelog_def)
  qed
  note patch = update_proof_fold [OF q(2,3) es(4) p(3) t(3), unfolded qp]
  show ?thesis
  proof (cases "j \<in> cle_index ` set es")
    case True
    then show ?thesis using patch unfolding fold by simp
  next
    case False
    then obtain p2 where p2: "try_fold (\<lambda>p e. ChangelogEntry_update_proof h e j p) p1 es = Ok p2"
      "bv_inv p2" "BoundedVec_len p2 = h"
      "\<And>l. l < h \<Longrightarrow> BoundedVec_as_slice p2 ! l = (case overlay es l (sibling (j div 2 ^ l)) of
         Some v \<Rightarrow> v | None \<Rightarrow> BoundedVec_as_slice p1 ! l)"
      using patch by auto
    have "BoundedVec_as_slice p1 ! l =
        node H (if l < h - cmt_canopy_depth t then ls0 else ls) l (sibling (j div 2 ^ l))" if "l < h" for l
    proof (cases "l < h - cmt_canopy_depth t")
      case True
      then show ?thesis using that p(4) unfolding q(4) [unfolded qp] by (simp add: nth_append)
    next
      case False
      then have "[h - cmt_canopy_depth t..<h] ! (l - (h - cmt_canopy_depth t)) = l"
        using that by (subst nth_upt) auto
      moreover have "length (BoundedVec_as_slice p) = h - cmt_canopy_depth t" using len p(1) by simp
      ultimately show ?thesis using False that t(2) unfolding q(4) [unfolded qp]
        by (simp add: nth_append del: diff_diff_right)
    qed

    then have "BoundedVec_as_slice p2 ! l = merkle_proof H h ls j ! l" if "l < h" for l
      using p2(4) [OF that] that explainsD [OF es(3) that, of "sibling (j div 2 ^ l)"]
      by (auto split: option.splits)
    then have "BoundedVec_as_slice p2 = merkle_proof H h ls j"
      using p2(2,3) by (intro nth_equalityI) simp_all
    then show ?thesis using False p2 unfolding fold by auto
  qed
qed

lemma update_concurrent:
  assumes base0: "cmt_base h t0" and rep: "cmt_rep H h t ls"
    and es: "cbv_pushed (cmt_changelog t0) es (cmt_changelog t)"
      "length es < CyclicBoundedVec_capacity (cmt_changelog t0)" "explains H h es ls0 ls"
      "\<forall>e \<in> set es. entry_wf h e"
    and p: "bv_inv p" "h \<le> BoundedVec_capacity p"
      "BoundedVec_as_slice p = take (h - cmt_canopy_depth t) (merkle_proof H h ls0 j)"
    and j: "j < length ls" and sn: "cmt_sequence_number t + 1 < u64_bound"
  shows "if j \<in> cle_index ` set es
    then cmt_update h H t (cmt_changelog_index t0) old new j p = Err CannotUpdateLeaf
    else if hashable H h (ls[j := new])
    then \<exists>t' p'. cmt_update h H t (cmt_changelog_index t0) (ls ! j) new j p =
        Ok (t', p', cmt_changelog_index t', cmt_sequence_number t') \<and>
      updated H h (ls[j := new]) j t t' \<and> BoundedVec_as_slice p' = merkle_proof H h ls j
    else \<not> is_ok (cmt_update h H t (cmt_changelog_index t0) (ls ! j) new j p)"
proof -
  let ?ci = "cmt_changelog_index t0"
  have t: "cmt_height t = h" "cmt_canopy_depth t \<le> h" "cmt_next_index t = length ls" "length ls \<le> 2 ^ h"
    using rep by (auto simp: cmt_rep_def cmt_base_def)
  have jh: "j < 2 ^ h" using j t(4) by linarith
  have len: "BoundedVec_len p = h - cmt_canopy_depth t"
    using arg_cong [OF p(3), of length] p(1) by simp
  obtain p1 where p1: "(if cmt_canopy_depth t > 0 then cmt_update_proof_from_canopy t j p else Ok p) = Ok p1"
    using canopy_prepare [OF rep jh p(1) len p(2)] by blast
  have unf: "cmt_update h H t ?ci old new j p =
      and_then (if ?ci \<noteq> cmt_changelog_index t then cmt_update_proof_from_changelog h t ?ci j p1 else Ok p1)
       (\<lambda>proof2. and_then (cmt_validate_proof H t old j proof2) (\<lambda>_.
       and_then (cmt_update_leaf_in_tree h H t new j proof2) (\<lambda>(t', ci, sn). Ok (t', proof2, ci, sn))))" for old
    unfolding cmt_update_def p1 using len j t by (simp add: sub_u64_eval)
  note patch = proof_patched [OF base0 rep es p(1,2) jh p(3) p1]
  show ?thesis
  proof (cases "j \<in> cle_index ` set es")
    case True
    then have "(if ?ci \<noteq> cmt_changelog_index t then cmt_update_proof_from_changelog h t ?ci j p1 else Ok p1) =
        Err CannotUpdateLeaf" using patch by metis
    then show ?thesis using True unfolding unf by simp
  next
    case False
    then obtain p2 where p2: "(if ?ci \<noteq> cmt_changelog_index t
          then cmt_update_proof_from_changelog h t ?ci j p1 else Ok p1) = Ok p2"
      "bv_inv p2" "BoundedVec_as_slice p2 = merkle_proof H h ls j" using patch by metis
    note tree = update_leaf_in_tree_spec [OF rep j p2(3) sn, of new]
    have "cmt_update h H t ?ci (ls ! j) new j p =
       and_then (cmt_update_leaf_in_tree h H t new j p2) (\<lambda>(t', ci, sn). Ok (t', p2, ci, sn))"
      unfolding unf p2(1) and_then.simps validate_complete [OF rep j p2(3)] ..
    moreover have "\<not> is_ok (and_then m f)" if "\<not> is_ok m"
      for m :: "(ConcurrentMerkleTreeError, ConcurrentMerkleTree \<times> nat \<times> nat) result" and
        f :: "_ \<Rightarrow> (ConcurrentMerkleTreeError, ConcurrentMerkleTree \<times> bytes BoundedVec \<times> nat \<times> nat) result"
      using that by (cases m) simp_all
    ultimately show ?thesis using tree False p2(3) by (auto simp: updated_def split: if_splits)
  qed
qed

end
