(* ===== verification/Concurrent_Tree.thy ===== *)
theory Concurrent_Tree
  imports Concurrent_Update
begin

text \<open>
  The concurrent Merkle tree as a whole: initialisation establishes the representation invariant,
  every run of appends and updates keeps it, and the properties of the public operations.
\<close>

section \<open>Initialisation\<close>

lemma try_fold_unwrap:
  "try_fold f s xs = Ok s' \<Longrightarrow> try_fold (\<lambda>s x. unwrap (f s x)) s xs = Ok s'"
  by (induction xs arbitrary: s) (auto simp: and_then_eq_Ok)

lemma try_fold_map_err:
  "try_fold f s xs = Ok s' \<Longrightarrow> try_fold (\<lambda>s x. map_err g (f s x)) s xs = Ok s'"
  by (induction xs arbitrary: s) (auto simp: and_then_eq_Ok)

lemma init_path:
  assumes "h \<le> length zs"
  shows "try_fold (\<lambda>p i. and_then (index zs i) (\<lambda>z. Ok (p @ [Some z]))) [] [0..<h] =
    (Ok (map (\<lambda>i. Some (zs ! i)) [0..<h]) :: ('e, _) result)"
  using assms by (induction h) (auto simp: try_fold_append index_eval)

lemma init_filled:
  assumes "h \<le> length zs" "bv_inv v" "BoundedVec_as_slice v = []" "h \<le> BoundedVec_capacity v"
  shows "\<exists>v'. try_fold (\<lambda>v i. and_then (index zs i) (\<lambda>z. unwrap (BoundedVec_push v z))) v [0..<h] =
      (Ok v' :: ('e, _) result) \<and> bv_inv v' \<and> BoundedVec_as_slice v' = take h zs"
proof -
  obtain v' where v': "try_fold BoundedVec_push v (take h zs) = Ok v'" "bv_inv v'"
    "BoundedVec_as_slice v' = take h zs"
    using bvb.push_all [OF assms(2), of "take h zs"] assms by auto
  have "try_fold (\<lambda>v i. and_then (index zs i) (\<lambda>z. unwrap (BoundedVec_push v z))) v [0..<h] =
      (try_fold (\<lambda>v i. unwrap (BoundedVec_push v (zs ! i))) v [0..<h] :: ('e, _) result)"
    using assms(1) by (intro try_fold_cong) (auto simp: index_eval)
  also have "\<dots> = try_fold (\<lambda>v z. unwrap (BoundedVec_push v z)) v (map (nth zs) [0..<h])"
    by (rule try_fold_map [symmetric])
  also have "map (nth zs) [0..<h] = take h zs" using assms(1) by (intro nth_equalityI) auto
  finally show ?thesis using v' try_fold_unwrap [OF v'(1)] by auto
qed

lemma init_canopy_level:
  assumes "k < length zs" "bv_inv c" "BoundedVec_len c + n \<le> BoundedVec_capacity c"
  shows "\<exists>c'. try_fold (\<lambda>c _. and_then (index zs k) (\<lambda>nd. map_err BoundedVec (BoundedVec_push c nd))) c [0..<n] =
      Ok c' \<and> bv_inv c' \<and> BoundedVec_as_slice c' = BoundedVec_as_slice c @ replicate n (zs ! k) \<and>
      BoundedVec_capacity c' = BoundedVec_capacity c"
proof -
  obtain c' where c': "try_fold BoundedVec_push c (replicate n (zs ! k)) = Ok c'" "bv_inv c'"
    "BoundedVec_as_slice c' = BoundedVec_as_slice c @ replicate n (zs ! k)"
    "BoundedVec_capacity c' = BoundedVec_capacity c"
    using bvb.push_all [OF assms(2), of "replicate n (zs ! k)"] assms(2,3) by auto
  have "try_fold (\<lambda>c _. and_then (index zs k) (\<lambda>nd. map_err BoundedVec (BoundedVec_push c nd))) c [0..<n] =
      try_fold (\<lambda>c nd. map_err BoundedVec (BoundedVec_push c nd)) c (map (\<lambda>_. zs ! k) [0..<n])"
    using assms(1) by (simp add: try_fold_map index_eval)
  also have "map (\<lambda>_. zs ! k) [0..<n] = replicate n (zs ! k)" by (simp add: map_replicate_const)
  finally show ?thesis using c' try_fold_map_err [OF c'(1)] by auto
qed

lemma init_canopy:
  assumes "h \<le> length zs" "bv_inv c" "BoundedVec_as_slice c = []"
    and "BoundedVec_capacity c = 2 ^ (cd + 1) - 2" "cd \<le> h" "cd < 31" "n \<le> cd"
  shows "\<exists>c'. try_fold (\<lambda>c level_i.
         and_then (level_nodes_i32 (level_i + 1)) (\<lambda>level_nodes.
         try_fold (\<lambda>c _. and_then (index zs (h - level_i - 1))
             (\<lambda>nd. map_err BoundedVec (BoundedVec_push c nd))) c [0..<level_nodes]))
         c [0..<n] = Ok c' \<and> bv_inv c' \<and> BoundedVec_capacity c' = BoundedVec_capacity c \<and>
      BoundedVec_len c' = 2 ^ (n + 1) - 2 \<and>
      (\<forall>d x. 0 < d \<and> d \<le> n \<and> x < 2 ^ d \<longrightarrow> BoundedVec_as_slice c' ! canopy_pos d x = zs ! (h - d))"
  (is "\<exists>c'. try_fold ?f c _ = Ok c' \<and> ?P n c'")
  using assms(7)
proof (induction n)
  case 0
  have "BoundedVec_len c = 0" using assms(2,3) length_as_slice [of c] by simp
  then show ?case using assms by simp
next
  case (Suc n)
  then obtain c1 where c1: "try_fold ?f c [0..<n] = Ok c1" "bv_inv c1"
    "BoundedVec_capacity c1 = BoundedVec_capacity c" "BoundedVec_len c1 = 2 ^ (n + 1) - 2"
    "\<And>d x. 0 < d \<Longrightarrow> d \<le> n \<Longrightarrow> x < 2 ^ d \<Longrightarrow> BoundedVec_as_slice c1 ! canopy_pos d x = zs ! (h - d)"
    by auto
  have pow: "(2::nat) \<le> 2 ^ Suc n" "(2::nat) ^ Suc (Suc n) \<le> 2 ^ Suc cd"
    using two_le_pow [of "Suc n"] Suc.prems by (simp, intro power_increasing) auto
  have sum: "2 ^ Suc n - 2 + 2 ^ Suc n = (2::nat) ^ Suc (Suc n) - 2" using pow(1) by simp
  have "BoundedVec_len c1 + 2 ^ Suc n \<le> BoundedVec_capacity c1"
    using c1(3,4) assms(4) pow sum by simp
  moreover have "h - n - 1 < length zs" using assms(1,5) Suc.prems by linarith
  moreover have "level_nodes_i32 (n + 1) = (Ok (2 ^ Suc n) :: (ConcurrentMerkleTreeError, _) result)"
    using assms(6) Suc.prems by (simp add: level_nodes_i32_def)
  ultimately obtain c2 where
    c2: "?f c1 n = Ok c2" "bv_inv c2" "BoundedVec_capacity c2 = BoundedVec_capacity c1"
    "BoundedVec_as_slice c2 = BoundedVec_as_slice c1 @ replicate (2 ^ Suc n) (zs ! (h - n - 1))"
    using init_canopy_level [of "h - n - 1" zs c1 "2 ^ Suc n"] c1(2) by (auto simp del: power_Suc)
  have l1: "length (BoundedVec_as_slice c1) = 2 ^ Suc n - 2" using c1(2,4) by simp
  have "BoundedVec_len c2 = 2 ^ Suc n - 2 + 2 ^ Suc n"
    using arg_cong [OF c2(4), of length] c2(2) l1 by simp
  then have l2: "BoundedVec_len c2 = 2 ^ (Suc n + 1) - 2" using sum by simp
  have "BoundedVec_as_slice c2 ! canopy_pos d x = zs ! (h - d)" if "0 < d" "d \<le> Suc n" "x < 2 ^ d" for d x
  proof (cases "d = Suc n")
    case True
    then have "canopy_pos d x = length (BoundedVec_as_slice c1) + x" "x < 2 ^ Suc n"
      using pow(1) that(3) unfolding l1 by (simp_all add: canopy_pos_def)
    then show ?thesis unfolding c2(4) using True by (simp add: nth_append)
  next
    case False
    then have "d \<le> n" using that(2) by simp
    then have "canopy_pos d x < length (BoundedVec_as_slice c1)"
      using canopy_pos_less [OF that(1) _ that(3)] l1 by simp
    then show ?thesis using c1(5) [OF that(1) \<open>d \<le> n\<close> that(3)] unfolding c2(4) by (simp add: nth_append)
  qed
  then show ?case using c1(1,3) c2(1-3) l2 by (simp add: try_fold_append)
qed

lemma new_init_rep:
  assumes "zero_chain H" "0 < h" "h \<le> MAX_HEIGHT" "cd \<le> h" "cd < 31" "0 < cs" "0 < rs"
  shows "\<exists>t0 t. cmt_new h h cs rs cd = Ok t0 \<and> cmt_init h H t0 = Ok t \<and> cmt_rep H h t [] \<and>
    cmt_sequence_number t = 0 \<and> cmt_canopy_depth t = cd \<and>
    CyclicBoundedVec_capacity (cmt_changelog t) = cs \<and> CyclicBoundedVec_capacity (cmt_roots t) = rs \<and>
    cbv_list (cmt_roots t) = [merkle_root H h []]"
proof -
  have zl: "h < length (zero_bytes H)" "h \<le> length (zero_bytes H)"
    using assms(3) zero_chain_length [OF assms(1)] by simp_all
  let ?z = "zero_bytes H"
  have pow: "(2::nat) \<le> 2 ^ (cd + 1)" using two_le_pow [of "cd + 1"] by simp
  have size: "cmt_canopy_size cd = (Ok (2 ^ (cd + 1) - 2) :: (ConcurrentMerkleTreeError, _) result)"
    using assms(5) pow by (simp add: cmt_canopy_size_def shl1_u64_eval sub_u64_eval)
  define t0 where "t0 = \<lparr>cmt_height = h, cmt_canopy_depth = cd, cmt_next_index = 0,
    cmt_sequence_number = 0, cmt_rightmost_leaf = replicate 32 0,
    cmt_filled_subtrees = BoundedVec_with_capacity h,
    cmt_changelog = CyclicBoundedVec_with_capacity cs, cmt_roots = CyclicBoundedVec_with_capacity rs,
    cmt_canopy = BoundedVec_with_capacity (2 ^ (cd + 1) - 2)\<rparr>"
  have check: "cmt_check_size_constraints_new h h cs rs cd = Ok ()"
    using assms(2,4,6,7) by (simp add: cmt_check_size_constraints_new_def)
  then have new: "cmt_new h h cs rs cd = Ok t0" unfolding cmt_new_def size by (simp add: t0_def)
  let ?e = "\<lparr>cle_path = map (\<lambda>i. Some (?z ! i)) [0..<h], cle_index = 0\<rparr>"
  obtain rt where rt: "CyclicBoundedVec_push (cmt_roots t0) (?z ! h) = (Ok rt :: (ConcurrentMerkleTreeError, _) result)"
    "cbv_inv rt" "cbv_list rt = [?z ! h]" "CyclicBoundedVec_capacity rt = rs"
    using cbvr.push_history [of "CyclicBoundedVec_with_capacity rs" "?z ! h"] assms(7) by (auto simp: t0_def)
  obtain cl where cl: "CyclicBoundedVec_push (cmt_changelog t0) ?e = (Ok cl :: (ConcurrentMerkleTreeError, _) result)"
    "cbv_inv cl" "cbv_list cl = [?e]" "CyclicBoundedVec_capacity cl = cs"
    using cbvr.push_history [of "CyclicBoundedVec_with_capacity cs" ?e] assms(6) by (auto simp: t0_def)
  obtain f where f: "try_fold (\<lambda>v i. and_then (index ?z i) (\<lambda>z. unwrap (BoundedVec_push v z)))
      (cmt_filled_subtrees t0) [0..<h] = (Ok f :: (ConcurrentMerkleTreeError, _) result)" "bv_inv f" "BoundedVec_as_slice f = take h ?z"
    using init_filled [OF zl(2), of "BoundedVec_with_capacity h"] by (auto simp: t0_def)
  have zh: "length (zero_bytes H) \<ge> h" using zl by simp
  obtain c where c: "try_fold (\<lambda>c level_i.
         and_then (level_nodes_i32 (level_i + 1)) (\<lambda>level_nodes.
         try_fold (\<lambda>c _. and_then (index ?z (h - level_i - 1))
             (\<lambda>nd. map_err BoundedVec (BoundedVec_push c nd))) c [0..<level_nodes]))
         (cmt_canopy t0) [0..<cd] = Ok c" "bv_inv c" "BoundedVec_len c = 2 ^ (cd + 1) - 2"
      "\<And>d x. 0 < d \<Longrightarrow> d \<le> cd \<Longrightarrow> x < 2 ^ d \<Longrightarrow> BoundedVec_as_slice c ! canopy_pos d x = ?z ! (h - d)"
    using init_canopy [OF zl(2), of "cmt_canopy t0" cd cd] assms(4,5) by (auto simp: t0_def)
  let ?t = "t0\<lparr>cmt_roots := rt, cmt_changelog := cl, cmt_filled_subtrees := f, cmt_canopy := c\<rparr>"
  have acc: "cmt_height t0 = h" "cmt_canopy_depth t0 = cd" "cmt_check_size_constraints h t0 = Ok ()"
    using check by (simp_all add: t0_def cmt_check_size_constraints_def)
  have init: "cmt_init h H t0 = Ok ?t"
    unfolding cmt_init_def acc and_then.simps index_eval [OF zl(1)] rt(1) init_path [OF zl(2)] cl(1) f(1) c(1) ..
  have "BoundedVec_len f = h" using f(2,3) zl(2) length_as_slice [OF f(2)] by simp
  moreover have "canopy_ok H h cd c []"
    using c(2-4) assms(1,3,4) by (auto simp: canopy_ok_def node_empty)
  ultimately have "cmt_rep H h ?t []"
    using assms(1-4) rt cl f hashable_empty [OF assms(1,3)]
    by (auto simp: cmt_rep_def cmt_base_def t0_def filled_ok_def entry_wf_def merkle_root_def node_empty)
  then show ?thesis using new init rt(3,4) cl(4) assms(1,3)
    by (intro exI [of _ t0] exI [of _ ?t]) (simp add: t0_def merkle_root_def node_empty)
qed



section \<open>Runs of the tree\<close>

text \<open>What a successful append implies about its arguments.\<close>

lemma set_changelog_path_seq:
  "cmt_set_changelog_path t ci i nd = Ok t' \<Longrightarrow> cmt_sequence_number t' = cmt_sequence_number t"
  by (auto simp: cmt_set_changelog_path_def and_then_eq_Ok)

lemma append_levels_seq:
  "cmt_append_levels WP H ll i ci levels t proofs idx cur = Ok (t', proofs', cur') \<Longrightarrow>
     cmt_sequence_number t' = cmt_sequence_number t"
proof (induction levels arbitrary: t proofs idx cur)
  case (Cons k levels)
  have set: "cmt_sequence_number t2 = cmt_sequence_number t1"
    if "(if k < n then cmt_set_changelog_path t1 ci (k + 1) nd else Ok t1) =
      (Ok t2 :: (ConcurrentMerkleTreeError, _) result)" for t1 t2 n nd
    using that set_changelog_path_seq [of t1 ci "k + 1" nd t2] by (simp split: if_splits)
  show ?case
  proof (cases "idx mod 2 = 0")
    case True
    obtain z ps2 f where f: "and_then (BoundedVec_index_set (cmt_filled_subtrees t) k cur) (\<lambda>filled.
        let t1 = t\<lparr>cmt_filled_subtrees := filled\<rparr> in
        if \<not> ll then Ok (t1, ps2, cur)
        else and_then (map_err Hasher (hashv H [cur, z])) (\<lambda>parent.
          and_then (if k < cmt_height t1 - 1 then cmt_set_changelog_path t1 ci (k + 1) parent else Ok t1) (\<lambda>t2.
          cmt_append_levels WP H ll i ci levels t2 ps2 (idx div 2) parent))) = Ok (t', proofs', cur')"
      "BoundedVec_index_set (cmt_filled_subtrees t) k cur = (Ok f :: (ConcurrentMerkleTreeError, _) result)"
      using Cons.prems unfolding cmt_append_levels.simps if_P [OF True] by (elim and_then_OkE) auto
    let ?t1 = "t\<lparr>cmt_filled_subtrees := f\<rparr>"
    show ?thesis
    proof (cases ll)
      case True
      then have ll: "\<not> \<not> ll" by simp
      obtain nd t2 where "(if k < cmt_height ?t1 - 1 then cmt_set_changelog_path ?t1 ci (k + 1) nd
          else Ok ?t1) = (Ok t2 :: (ConcurrentMerkleTreeError, _) result)"
        "cmt_append_levels WP H ll i ci levels t2 ps2 (idx div 2) nd = Ok (t', proofs', cur')"
        using f(1) unfolding f(2) and_then.simps Let_def if_not_P [OF ll] by (elim and_then_OkE)
      then show ?thesis using Cons.IH [of t2 ps2 "idx div 2" nd] set [of _ ?t1 nd t2] by simp
    next
      case False
      then show ?thesis using f(1) unfolding f(2) and_then.simps Let_def by auto
    qed
  next
    case False
    then obtain nd t2 ps2 where "(if k < cmt_height t - 1 then cmt_set_changelog_path t ci (k + 1) nd else Ok t) =
        (Ok t2 :: (ConcurrentMerkleTreeError, _) result)"
      "cmt_append_levels WP H ll i ci levels t2 ps2 (idx div 2) nd = Ok (t', proofs', cur')"
      using Cons.prems by (auto simp: and_then_eq_Ok simp del: index_Ok)
    then show ?thesis using Cons.IH set by metis
  qed
qed simp

lemma append_leaf_seq:
  assumes "cmt_append_leaf h WP H ll t proofs i leaf = Ok (t', proofs')"
  shows "cmt_sequence_number t + 1 < u64_bound" "cmt_sequence_number t' = cmt_sequence_number t + 1"
  using assms
  by (auto simp: cmt_append_leaf_def Let_def and_then_eq_Ok cmt_inc_next_index_def
      cmt_inc_sequence_number_def cmt_set_rightmost_leaf_def dest!: set_changelog_path_seq append_levels_seq)

lemma append_leaves_seq:
  "cmt_append_leaves h WP H t proofs i leaves = Ok (t', proofs') \<Longrightarrow> leaves \<noteq> [] \<Longrightarrow>
     cmt_sequence_number t + length leaves < u64_bound"
proof (induction leaves arbitrary: t proofs i)
  case (Cons x xs)
  then obtain t1 proofs1 where t1: "cmt_append_leaf h WP H (xs = []) t proofs i x = Ok (t1, proofs1)"
    "cmt_append_leaves h WP H t1 proofs1 (i + 1) xs = Ok (t', proofs')"
    by (auto simp: and_then_eq_Ok)
  show ?case using append_leaf_seq [OF t1(1)] Cons.IH [OF t1(2)] by (cases "xs = []") simp_all
qed simp

lemma append_batch_Ok:
  assumes "cmt_append_batch h H t leaves = Ok r" "cmt_rep H h t ls"
  shows "leaves \<noteq> []" "length ls + length leaves \<le> 2 ^ h"
    "length leaves \<le> CyclicBoundedVec_capacity (cmt_changelog t)"
    "cmt_sequence_number t + length leaves < u64_bound"
  using assms append_leaves_seq
  by (auto simp: cmt_append_batch_def cmt_append_batch_common_def and_then_eq_Ok Let_def cmt_rep_def
      cmt_base_def split: if_splits)

text \<open>
  A run: appended batches and successful updates with arbitrary proofs.  The leaves and the recorded
  entries are ghost state.  The only runs excluded are those in which an update exhibits a collision
  of the hash function on its path.
\<close>

inductive cmt_run ::
  "Hasher \<Rightarrow> nat \<Rightarrow> ConcurrentMerkleTree \<Rightarrow> bytes list \<Rightarrow> ChangelogEntry list \<Rightarrow>
     ConcurrentMerkleTree \<Rightarrow> bytes list \<Rightarrow> bool"
  for H h t ls where
  run_refl: "cmt_run H h t ls [] t ls"
| run_append: "cmt_run H h t ls es t1 ls1 \<Longrightarrow> cmt_append_batch h H t1 leaves = Ok (t2, ci, sn) \<Longrightarrow>
    cmt_run H h t ls (es @ batch_entries H h ls1 leaves) t2 (ls1 @ leaves)"
| run_update: "cmt_run H h t ls es t1 ls1 \<Longrightarrow> cmt_update h H t1 ci old new j p = Ok (t2, p', ci', sn') \<Longrightarrow>
    bv_inv p \<Longrightarrow> h \<le> BoundedVec_capacity p \<Longrightarrow>
    \<not> path_collision H h ls1 j old (BoundedVec_as_slice p') \<Longrightarrow>
    cmt_run H h t ls (es @ [update_entry H h (ls1[j := new]) j]) t2 (ls1[j := new])"

lemma run_invariant:
  assumes "cmt_run H h t ls es t' ls'" "zero_chain H" "cmt_rep H h t ls"
  shows "cmt_rep H h t' ls' \<and> explains H h es ls ls' \<and> (\<forall>e \<in> set es. entry_wf h e) \<and>
    cbv_pushed (cmt_changelog t) es (cmt_changelog t') \<and>
    cmt_sequence_number t' = cmt_sequence_number t + length es \<and>
    cmt_canopy_depth t' = cmt_canopy_depth t \<and> length ls \<le> length ls'"
  using assms(1)
proof (induction rule: cmt_run.induct)
  case run_refl
  then show ?case using assms(3) by (simp add: explains_refl cbv_pushed_refl cmt_rep_def cmt_base_def)
next
  case (run_append es t1 ls1 leaves t2 ci sn)
  then have rep1: "cmt_rep H h t1 ls1" by simp
  note ok = append_batch_Ok [OF run_append.hyps(2) rep1]
  have "hashable H h (ls1 @ leaves)"
    using append_batch_spec [OF assms(2) rep1 ok] run_append.hyps(2) by (auto split: if_splits)
  with append_batch_spec [OF assms(2) rep1 ok] run_append.hyps(2)
  have "cmt_rep H h t2 (ls1 @ leaves)" "cmt_sequence_number t2 = cmt_sequence_number t1 + length leaves"
    "cmt_canopy_depth t2 = cmt_canopy_depth t1"
    "cbv_pushed (cmt_changelog t1) (batch_entries H h ls1 leaves) (cmt_changelog t2)" by auto
  moreover have "explains H h (es @ batch_entries H h ls1 leaves) ls (ls1 @ leaves)"
    using run_append.IH batch_explains [OF ok(1)] explains_trans by blast
  moreover have "\<forall>e \<in> set (es @ batch_entries H h ls1 leaves). entry_wf h e"
    using run_append.IH batch_entries_wf [OF ok(2)] by auto
  moreover have "cbv_pushed (cmt_changelog t) (es @ batch_entries H h ls1 leaves) (cmt_changelog t2)"
    using run_append.IH calculation(4) cbv_pushed_trans by blast
  ultimately show ?case using run_append.IH by simp
next
  case (run_update es t1 ls1 ci old new j p t2 p' ci' sn')
  then have rep1: "cmt_rep H h t1 ls1" by simp
  note snd = update_sound [OF rep1 run_update.hyps(3,4,2,5)]
  have "j < 2 ^ h" using snd(1) rep1 by (simp add: cmt_rep_def)
  then have "entry_wf h (update_entry H h (ls1[j := new]) j)" by (rule update_entry_wf)
  moreover have "explains H h (es @ [update_entry H h (ls1[j := new]) j]) ls (ls1[j := new])"
    using run_update.IH update_explains explains_trans by blast
  moreover have "cbv_pushed (cmt_changelog t) (es @ [update_entry H h (ls1[j := new]) j]) (cmt_changelog t2)"
    using run_update.IH snd(4) cbv_pushed_trans unfolding updated_def by blast
  ultimately show ?case using run_update.IH snd(4) by (simp add: updated_def)
qed

lemma run_leaf_unchanged:
  assumes "explains H h es ls ls'" "0 < h" "j \<notin> cle_index ` set es" "j < length ls" "length ls \<le> length ls'"
  shows "ls' ! j = ls ! j"
proof -
  have "overlay es 0 j = None"
    using assms(3) by (induction es) (auto simp: entry_val_def)
  then show ?thesis using explainsD [OF assms(1,2), of j] assms(4,5) by simp
qed


lemma cmt_rep_canopy:
  "cmt_rep H h t ls \<Longrightarrow> 0 < d \<Longrightarrow> d \<le> cmt_canopy_depth t \<Longrightarrow> x < 2 ^ d \<Longrightarrow>
     BoundedVec_as_slice (cmt_canopy t) ! canopy_pos d x = node H ls (h - d) x"
  by (simp add: cmt_rep_def canopy_ok_def)


lemma update_now:
  assumes rep: "cmt_rep H h t ls" and j: "j < length ls" and sn: "cmt_sequence_number t + 1 < u64_bound"
    and p: "bv_inv p" "h \<le> BoundedVec_capacity p"
      "BoundedVec_as_slice p = take (h - cmt_canopy_depth t) (merkle_proof H h ls j)"
    and hs: "hashable H h (ls[j := new])"
  shows "\<exists>t' p'. cmt_update h H t (cmt_changelog_index t) (ls ! j) new j p =
      Ok (t', p', cmt_changelog_index t', cmt_sequence_number t') \<and> updated H h (ls[j := new]) j t t' \<and>
    BoundedVec_as_slice p' = merkle_proof H h ls j"
proof -
  have b: "cmt_base h t" using rep by (simp add: cmt_rep_def)
  then have "cbv_inv (cmt_changelog t)" "0 < CyclicBoundedVec_capacity (cmt_changelog t)"
    by (auto simp: cmt_base_def cbv_inv_def)
  then show ?thesis
    using update_concurrent [OF b rep cbv_pushed_refl, of ls p j "ls ! j" new] explains_refl p j sn hs by auto
qed

text \<open>A proof of the tree itself rests on no collision.\<close>

lemma own_proof_no_collision:
  assumes "hashable H h ls" "j < length ls" "xs = merkle_proof H h ls j"
  shows "\<not> path_collision H h ls j (ls ! j) xs"
proof -
  have x: "xs ! l = node H ls l (sibling (j div 2 ^ l))" if "l < h" for l using assms(3) that by (simp add: merkle_proof_def)
  have "hash_ok H ls l (j div 2 ^ Suc l)" if "l < h" for l
    using assms(1) that unfolding hashable_def by blast
  then have "climb H j (node H ls 0 j) xs l = Ok (node H ls l (j div 2 ^ l))" if "l < h" for l
    using x that by (intro climb_own) auto
  then show ?thesis using x assms(2) by (auto simp: path_collision_def Let_def)
qed


section \<open>A small run\<close>

text \<open>
  A tree of height 3 with one canopy level over the sample hasher: three leaves are appended, then a
  fourth.  The properties below are exercised on it.
\<close>

lemma bounded_vec_exists:
  "length xs \<le> c \<Longrightarrow> \<exists>p. bv_inv p \<and> BoundedVec_capacity p = c \<and> BoundedVec_as_slice p = xs"
  using bvb.push_all [of "BoundedVec_with_capacity c" xs] by auto

lemma sample_run:
  "\<exists>t1 t2 ci sn. cmt_rep sample_hasher 3 t1 [[1], [2], [3]] \<and> cmt_sequence_number t1 = 3 \<and>
     CyclicBoundedVec_capacity (cmt_changelog t1) = 4 \<and> cmt_canopy_depth t1 = 1 \<and>
     cmt_append_batch 3 sample_hasher t1 [[4]] = Ok (t2, ci, sn) \<and>
     cmt_rep sample_hasher 3 t2 [[1], [2], [3], [4]] \<and> cmt_sequence_number t2 = 4 \<and>
     cmt_canopy_depth t2 = 1 \<and>
     cmt_run sample_hasher 3 t1 [[1], [2], [3]]
       (batch_entries sample_hasher 3 [[1], [2], [3]] [[4]]) t2 [[1], [2], [3], [4]]"
proof -
  let ?H = sample_hasher
  obtain t0 where t0: "cmt_rep ?H 3 t0 []" "cmt_sequence_number t0 = 0" "cmt_canopy_depth t0 = 1"
    "CyclicBoundedVec_capacity (cmt_changelog t0) = 4"
    using new_init_rep [OF sample_zero_chain, of 3 1 4 4] by (auto simp: MAX_HEIGHT_def)
  obtain t1 where t1: "cmt_rep ?H 3 t1 [[1], [2], [3]]" "cmt_sequence_number t1 = 3"
    "cmt_canopy_depth t1 = 1" "CyclicBoundedVec_capacity (cmt_changelog t1) = 4"
    using append_batch_spec [OF sample_zero_chain t0(1), of "[[1], [2], [3]]"] t0
    by (auto simp: sample_hashable cbv_pushed_def)
  obtain t2 ci sn where t2: "cmt_append_batch 3 ?H t1 [[4]] = Ok (t2, ci, sn)"
    "cmt_rep ?H 3 t2 [[1], [2], [3], [4]]" "cmt_sequence_number t2 = 4" "cmt_canopy_depth t2 = 1"
    using append_batch_spec [OF sample_zero_chain t1(1), of "[[4]]"] t1 by (auto simp: sample_hashable)
  have "cmt_run ?H 3 t1 [[1], [2], [3]] ([] @ batch_entries ?H 3 [[1], [2], [3]] [[4]]) t2
      ([[1], [2], [3]] @ [[4]])"
    by (rule run_append [OF run_refl t2(1)])
  then show ?thesis using t1 t2 by auto
qed


section \<open>Properties\<close>

text \<open>
  C16. \<open>append_batch\<close> refines appending to a list of leaves, on every branch: an empty batch, a batch
  that does not fit into the tree and a batch longer than the changelog are rejected with their
  errors; otherwise, if the hasher accepts the nodes of the new tree, the call succeeds, reports the
  changelog index and sequence number of its first leaf, and the new state represents the old leaves
  followed by the batch (so its root is their Merkle root); if the hasher rejects a node, the call
  does not succeed.
\<close>

theorem append_batch_correct:
  assumes "zero_chain H" "cmt_rep H h t ls" "cmt_sequence_number t + length leaves < u64_bound"
    and "length leaves < 2 ^ 63"
  shows "if leaves = [] then cmt_append_batch h H t leaves = Err EmptyLeaves
    else if 2 ^ h < length ls + length leaves then cmt_append_batch h H t leaves = Err TreeFull
    else if CyclicBoundedVec_capacity (cmt_changelog t) < length leaves
    then cmt_append_batch h H t leaves = Err (BatchGreaterThanChangelog (length leaves)
           (CyclicBoundedVec_capacity (cmt_changelog t)))
    else if hashable H h (ls @ leaves)
    then \<exists>t'. cmt_append_batch h H t leaves =
          Ok (t', (cmt_changelog_index t + 1) mod CyclicBoundedVec_capacity (cmt_changelog t),
              cmt_sequence_number t + 1) \<and>
        cmt_rep H h t' (ls @ leaves) \<and> cmt_root t' = (Ok (merkle_root H h (ls @ leaves)) :: (ConcurrentMerkleTreeError, _) result) \<and>
        cmt_sequence_number t' = cmt_sequence_number t + length leaves
    else \<not> is_ok (cmt_append_batch h H t leaves)"
proof -
  have t: "cmt_next_index t = length ls" "cmt_height t = h" "h \<le> MAX_HEIGHT" "length ls \<le> 2 ^ h"
    using assms(2) by (auto simp: cmt_rep_def cmt_base_def)
  have b: "length ls + length leaves < u64_bound" "h < 64"
    using t(4) assms(4) pow_max_height [OF t(3)] t(3) by (simp_all add: MAX_HEIGHT_def)
  consider "leaves = []" | "leaves \<noteq> []" "2 ^ h < length ls + length leaves"
    | "leaves \<noteq> []" "\<not> 2 ^ h < length ls + length leaves"
      "CyclicBoundedVec_capacity (cmt_changelog t) < length leaves"
    | "leaves \<noteq> []" "length ls + length leaves \<le> 2 ^ h"
      "length leaves \<le> CyclicBoundedVec_capacity (cmt_changelog t)" by linarith
  then show ?thesis
  proof cases
    case 4
    with append_batch_spec [OF assms(1,2) 4 assms(3)] cmt_rep_root show ?thesis
      by (auto simp: cmt_changelog_index_def)
  next
    case 2
    then have "2 ^ h \<le> length ls + length leaves - 1" "Suc 0 \<le> length ls + length leaves" by linarith+
    then show ?thesis using 2 t b
      by (simp add: cmt_append_batch_def cmt_append_batch_common_def u64_eval)
  next
    case 3
    then have "\<not> 2 ^ h \<le> length ls + length leaves - 1" "Suc 0 \<le> length ls + length leaves"
      by (simp_all add: Suc_le_eq not_le)
    then show ?thesis using 3 t b
      by (simp add: cmt_append_batch_def cmt_append_batch_common_def u64_eval)
  qed (simp add: cmt_append_batch_def cmt_append_batch_common_def)
qed

theorem append_batch_correct_witness:
  "\<exists>t t' ci. cmt_rep sample_hasher 3 t [[1], [2], [3]] \<and>
     cmt_append_batch 3 sample_hasher t [[4]] = Ok (t', ci, 4) \<and>
     cmt_root t' = (Ok (merkle_root sample_hasher 3 [[1], [2], [3], [4]]) :: (ConcurrentMerkleTreeError, _) result)"
proof -
  obtain t where t: "cmt_rep sample_hasher 3 t [[1], [2], [3]]" "cmt_sequence_number t = 3"
    "CyclicBoundedVec_capacity (cmt_changelog t) = 4" using sample_run by blast
  from append_batch_correct [OF sample_zero_chain t(1), of "[[4]]"] t show ?thesis
    by (auto simp: sample_hashable)
qed

text \<open>
  C17. The concurrency guarantee: take a proof of leaf \<open>j\<close> from any state of the tree, together with
  that state's changelog index, and let fewer than \<open>changelog_size\<close> leaf writes happen (appends in
  any batches and updates of other leaves, with arbitrary interleaving).  Then the update with the
  old proof still succeeds: the canopy and the changelog patch the proof into the current proof of
  leaf \<open>j\<close>, and the new root is the Merkle root with exactly leaf \<open>j\<close> replaced.
\<close>

theorem concurrent_update_succeeds:
  assumes "zero_chain H" "cmt_rep H h t0 ls0" "cmt_run H h t0 ls0 es t ls"
    and "length es < CyclicBoundedVec_capacity (cmt_changelog t0)" "j \<notin> cle_index ` set es"
    and "j < length ls0" "bv_inv p" "h \<le> BoundedVec_capacity p"
    and "BoundedVec_as_slice p = take (h - cmt_canopy_depth t0) (merkle_proof H h ls0 j)"
    and "cmt_sequence_number t + 1 < u64_bound" "hashable H h (ls[j := new])"
  shows "\<exists>t' p'. cmt_update h H t (cmt_changelog_index t0) (ls0 ! j) new j p =
      Ok (t', p', cmt_changelog_index t', cmt_sequence_number t + 1) \<and>
    cmt_rep H h t' (ls[j := new]) \<and>
    cmt_root t' = (Ok (merkle_root H h (ls[j := new])) :: (ConcurrentMerkleTreeError, _) result) \<and>
    BoundedVec_as_slice p' = merkle_proof H h ls j"
proof -
  note inv = run_invariant [OF assms(3,1,2)]
  have b: "cmt_base h t0" "0 < h" using assms(2) by (auto simp: cmt_rep_def cmt_base_def)
  have "ls ! j = ls0 ! j" "j < length ls"
    using run_leaf_unchanged [of H h es ls0 ls j] inv b(2) assms(5,6) by auto
  with update_concurrent [OF b(1), of H t ls es ls0 p j "ls0 ! j" new] inv assms(4,5,7-11)
  show ?thesis using cmt_rep_root by (auto simp: updated_def)
qed

theorem concurrent_update_succeeds_witness:
  "\<exists>t1 t2 p t3 p'. cmt_rep sample_hasher 3 t1 [[1], [2], [3]] \<and>
     (\<exists>ci sn. cmt_append_batch 3 sample_hasher t1 [[4]] = Ok (t2, ci, sn)) \<and>
     BoundedVec_as_slice p = take 2 (merkle_proof sample_hasher 3 [[1], [2], [3]] 1) \<and>
     cmt_update 3 sample_hasher t2 (cmt_changelog_index t1) [2] [9] 1 p =
       Ok (t3, p', cmt_changelog_index t3, 5) \<and>
     cmt_rep sample_hasher 3 t3 [[1], [9], [3], [4]]"
proof -
  let ?H = sample_hasher
  obtain t1 t2 ci sn where t: "cmt_rep ?H 3 t1 [[1], [2], [3]]"
    "CyclicBoundedVec_capacity (cmt_changelog t1) = 4" "cmt_canopy_depth t1 = 1"
    "cmt_append_batch 3 ?H t1 [[4]] = Ok (t2, ci, sn)" "cmt_sequence_number t2 = 4"
    "cmt_run ?H 3 t1 [[1], [2], [3]] (batch_entries ?H 3 [[1], [2], [3]] [[4]]) t2 [[1], [2], [3], [4]]"
    using sample_run by blast
  obtain p where p: "bv_inv p" "BoundedVec_capacity p = 3"
    "BoundedVec_as_slice p = take 2 (merkle_proof ?H 3 [[1], [2], [3]] 1)"
    using bounded_vec_exists [of "take 2 (merkle_proof ?H 3 [[1], [2], [3]] 1)" 3] by auto
  have "\<exists>t3 p'. cmt_update 3 ?H t2 (cmt_changelog_index t1) [2] [9] 1 p =
       Ok (t3, p', cmt_changelog_index t3, 5) \<and> cmt_rep ?H 3 t3 [[1], [9], [3], [4]]"
    using concurrent_update_succeeds [OF sample_zero_chain t(1,6), of 1 p "[9]"] t p
    by (auto simp: sample_hashable append_entry_def)
  then show ?thesis using t(1,4) p(3) by blast
qed

text \<open>
  C18. As long as fewer leaf writes than the capacity of the changelog happened since the proof was made, a
  leaf that was itself among them cannot be updated with the old proof: the update fails with
  \<open>CannotUpdateLeaf\<close>, whatever leaf values the caller gives.  The bound is needed: after exactly as many writes
  as the changelog holds, the changelog index of the caller is the current one again and no entry is examined.
\<close>

theorem stale_update_rejected:
  assumes "zero_chain H" "cmt_rep H h t0 ls0" "cmt_run H h t0 ls0 es t ls"
    and "length es < CyclicBoundedVec_capacity (cmt_changelog t0)" "j \<in> cle_index ` set es"
    and "j < length ls" "bv_inv p" "h \<le> BoundedVec_capacity p"
    and "BoundedVec_as_slice p = take (h - cmt_canopy_depth t0) (merkle_proof H h ls0 j)"
    and "cmt_sequence_number t + 1 < u64_bound"
  shows "cmt_update h H t (cmt_changelog_index t0) old new j p = Err CannotUpdateLeaf"
proof -
  note inv = run_invariant [OF assms(3,1,2)]
  have b: "cmt_base h t0" using assms(2) by (auto simp: cmt_rep_def)
  from update_concurrent [OF b, of H t ls es ls0 p j old new] inv assms(4-10) show ?thesis by auto
qed

theorem stale_update_rejected_witness:
  "\<exists>t1 t2 p. cmt_rep sample_hasher 3 t1 [[1], [2], [3]] \<and>
     (\<exists>ci sn. cmt_append_batch 3 sample_hasher t1 [[4]] = Ok (t2, ci, sn)) \<and>
     cmt_update 3 sample_hasher t2 (cmt_changelog_index t1) [4] [9] 3 p = Err CannotUpdateLeaf"
proof -
  let ?H = sample_hasher
  obtain t1 t2 ci sn where t: "cmt_rep ?H 3 t1 [[1], [2], [3]]"
    "CyclicBoundedVec_capacity (cmt_changelog t1) = 4" "cmt_canopy_depth t1 = 1"
    "cmt_append_batch 3 ?H t1 [[4]] = Ok (t2, ci, sn)" "cmt_sequence_number t2 = 4"
    "cmt_run ?H 3 t1 [[1], [2], [3]] (batch_entries ?H 3 [[1], [2], [3]] [[4]]) t2 [[1], [2], [3], [4]]"
    using sample_run by blast
  obtain p where p: "bv_inv p" "BoundedVec_capacity p = 3"
    "BoundedVec_as_slice p = take 2 (merkle_proof ?H 3 [[1], [2], [3]] 3)"
    using bounded_vec_exists [of "take 2 (merkle_proof ?H 3 [[1], [2], [3]] 3)" 3] by auto
  have "cmt_update 3 ?H t2 (cmt_changelog_index t1) [4] [9] 3 p = Err CannotUpdateLeaf"
    using stale_update_rejected [OF sample_zero_chain t(1,6), of 3 p] t p by (simp add: append_entry_def)
  then show ?thesis using t(1,4) by blast
qed

text \<open>
  C19. Soundness of updates against arbitrary callers: whatever proof, changelog index and old leaf a
  caller supplies, an update that succeeds replaced leaf \<open>leaf_index\<close> of the current tree whose
  value was the claimed old leaf, and nothing else, unless the caller's path exhibits two different
  pairs of nodes with the same hash on the same level.  In particular a leaf that was never appended
  cannot be written, and the sequence number and changelog index reported are those of the new state.
\<close>

theorem update_sound_or_collision:
  assumes "cmt_rep H h t ls" "bv_inv p" "h \<le> BoundedVec_capacity p"
    and "cmt_update h H t ci old new j p = Ok (t', p', ci', sn')"
  shows "j < length ls \<and> old = ls ! j \<and> BoundedVec_as_slice p' = merkle_proof H h ls j \<and>
      cmt_rep H h t' (ls[j := new]) \<and> sn' = cmt_sequence_number t + 1 \<and> ci' = cmt_changelog_index t' \<or>
    path_collision H h ls j old (BoundedVec_as_slice p')"
  using update_sound [OF assms] by (auto simp: updated_def)

theorem update_sound_or_collision_witness:
  "\<exists>t p t' p' ci' sn'. cmt_rep sample_hasher 3 t [[1], [2], [3], [4]] \<and>
     cmt_update 3 sample_hasher t (cmt_changelog_index t) [3] [9] 2 p = Ok (t', p', ci', sn') \<and>
     (cmt_rep sample_hasher 3 t' [[1], [2], [9], [4]] \<or>
      path_collision sample_hasher 3 [[1], [2], [3], [4]] 2 [3] (BoundedVec_as_slice p'))"
proof -
  let ?H = sample_hasher and ?ls = "[[1], [2], [3], [4]] :: bytes list"
  obtain t where t: "cmt_rep ?H 3 t ?ls" "cmt_sequence_number t = 4" "cmt_canopy_depth t = 1"
    using sample_run by blast
  have cap: "0 < CyclicBoundedVec_capacity (cmt_changelog t)"
    using t(1) by (simp add: cmt_rep_def cmt_base_def cbv_inv_def)
  obtain p where p: "bv_inv p" "BoundedVec_capacity p = 3"
    "BoundedVec_as_slice p = take 2 (merkle_proof ?H 3 ?ls 2)"
    using bounded_vec_exists [of "take 2 (merkle_proof ?H 3 ?ls 2)" 3] by auto
  have b: "cmt_base 3 t" "cbv_pushed (cmt_changelog t) [] (cmt_changelog t)"
    using t(1) by (auto simp: cmt_rep_def cmt_base_def cbv_pushed_refl)
  obtain t' p' ci' sn' where u: "cmt_update 3 ?H t (cmt_changelog_index t) [3] [9] 2 p = Ok (t', p', ci', sn')"
    using update_concurrent [OF b(1) t(1) b(2), of ?ls p 2 "[3]" "[9]"] t(2,3) p cap
    by (auto simp: explains_refl sample_hashable)
  have "cmt_rep ?H 3 t' [[1], [2], [9], [4]] \<or> path_collision ?H 3 ?ls 2 [3] (BoundedVec_as_slice p')"
    using update_sound_or_collision [OF t(1) p(1) _ u] p(2) by (auto simp: numeral_2_eq_2)
  then show ?thesis using t(1) u by blast
qed

text \<open>
  C20. Every reachable tree is right: after \<open>new\<close>, \<open>init\<close> and any collision-free sequence of
  successful appends and updates, \<open>root()\<close> does not panic and is the Merkle root of the leaves
  written so far, \<open>next_index\<close> counts the leaves and never exceeds the capacity of the tree, the
  sequence number counts the leaf writes, and every canopy node is the node of the tree it caches.
\<close>

theorem reachable_tree_correct:
  assumes "zero_chain H" "0 < h" "h \<le> MAX_HEIGHT" "cd \<le> h" "cd < 31" "0 < cs" "0 < rs"
    and "cmt_new h h cs rs cd = Ok t0" "cmt_init h H t0 = Ok t1" "cmt_run H h t1 [] es t ls"
  shows "cmt_root t = (Ok (merkle_root H h ls) :: (ConcurrentMerkleTreeError, _) result) \<and>
    cmt_next_index t = length ls \<and> length ls \<le> 2 ^ h \<and> cmt_sequence_number t = length es \<and>
    (\<forall>d x. 0 < d \<and> d \<le> cd \<and> x < 2 ^ d \<longrightarrow>
       BoundedVec_as_slice (cmt_canopy t) ! (2 ^ d + x - 2) = node H ls (h - d) x)"
proof -
  have init: "cmt_rep H h t1 []" "cmt_sequence_number t1 = 0" "cmt_canopy_depth t1 = cd"
    using new_init_rep [OF assms(1-7)] assms(8,9) by auto
  note inv = run_invariant [OF assms(10,1) init(1)]
  then have "cmt_root t = (Ok (merkle_root H h ls) :: (ConcurrentMerkleTreeError, _) result)"
    using cmt_rep_root by blast
  then show ?thesis using inv init by (auto simp: cmt_rep_def canopy_ok_def canopy_pos_def)
qed

theorem reachable_tree_correct_witness:
  "\<exists>t0 t1 t ci sn. cmt_new 3 3 4 4 1 = Ok t0 \<and> cmt_init 3 sample_hasher t0 = Ok t1 \<and>
     cmt_append_batch 3 sample_hasher t1 [[1], [2]] = Ok (t, ci, sn) \<and>
     cmt_root t = (Ok (merkle_root sample_hasher 3 [[1], [2]]) :: (ConcurrentMerkleTreeError, _) result)"
proof -
  obtain t0 t1 where t: "cmt_new 3 3 4 4 1 = Ok t0" "cmt_init 3 sample_hasher t0 = Ok t1"
    "cmt_rep sample_hasher 3 t1 []" "cmt_sequence_number t1 = 0"
    "CyclicBoundedVec_capacity (cmt_changelog t1) = 4"
    using new_init_rep [OF sample_zero_chain, of 3 1 4 4] by (auto simp: MAX_HEIGHT_def)
  obtain t2 ci sn where t2: "cmt_append_batch 3 sample_hasher t1 [[1], [2]] = Ok (t2, ci, sn)"
    using append_batch_spec [OF sample_zero_chain t(3), of "[[1], [2]]"] t(4,5)
    by (auto simp: sample_hashable)
  have "cmt_run sample_hasher 3 t1 [] ([] @ batch_entries sample_hasher 3 [] [[1], [2]]) t2 ([] @ [[1], [2]])"
    by (rule run_append [OF run_refl t2])
  from reachable_tree_correct [OF sample_zero_chain _ _ _ _ _ _ t(1,2) this]
  have "cmt_root t2 = (Ok (merkle_root sample_hasher 3 [[1], [2]]) :: (ConcurrentMerkleTreeError, _) result)"
    by (simp add: MAX_HEIGHT_def)
  then show ?thesis using t(1,2) t2 by blast
qed

text \<open>
  C34. \<open>append_with_proof\<close> returns a usable proof: on a tree that is not full it succeeds when the hasher
  accepts the new nodes, fills the caller's empty proof buffer with the Merkle proof of the new leaf
  in the new tree, and \<open>validate_proof\<close> accepts that proof against the new root.
\<close>

theorem append_with_proof_correct:
  assumes "zero_chain H" "cmt_rep H h t ls" "length ls < 2 ^ h" "cmt_sequence_number t + 1 < u64_bound"
    and "bv_inv p" "BoundedVec_as_slice p = []" "h \<le> BoundedVec_capacity p" "hashable H h (ls @ [leaf])"
  shows "\<exists>t' p' ci. cmt_append_with_proof h H t leaf p = Ok (t', p', ci, cmt_sequence_number t + 1) \<and>
    cmt_rep H h t' (ls @ [leaf]) \<and>
    BoundedVec_as_slice p' = merkle_proof H h (ls @ [leaf]) (length ls) \<and>
    cmt_validate_proof H t' leaf (length ls) p' = Ok ()"
proof -
  obtain t' p' ci where t': "cmt_append_with_proof h H t leaf p = Ok (t', p', ci, cmt_sequence_number t + 1)"
    "cmt_rep H h t' (ls @ [leaf])" "BoundedVec_as_slice p' = merkle_proof H h (ls @ [leaf]) (length ls)"
    using append_with_proof_spec [OF assms(1-7), of leaf] assms(8) by auto
  from validate_complete [OF t'(2) _ t'(3)] have "cmt_validate_proof H t' leaf (length ls) p' = Ok ()" by simp
  then show ?thesis using t' by blast
qed

theorem append_with_proof_correct_witness:
  "\<exists>t t' p' ci. cmt_rep sample_hasher 3 t [[1], [2], [3]] \<and>
     cmt_append_with_proof 3 sample_hasher t [4] (BoundedVec_with_capacity 3) = Ok (t', p', ci, 4) \<and>
     cmt_validate_proof sample_hasher t' [4] 3 p' = Ok ()"
proof -
  obtain t where t: "cmt_rep sample_hasher 3 t [[1], [2], [3]]" "cmt_sequence_number t = 3"
    using sample_run by blast
  from append_with_proof_correct [OF sample_zero_chain t(1), of "BoundedVec_with_capacity 3" "[4]"] t(2)
  have "\<exists>t' p' ci. cmt_append_with_proof 3 sample_hasher t [4] (BoundedVec_with_capacity 3) = Ok (t', p', ci, 4) \<and>
     cmt_validate_proof sample_hasher t' [4] 3 p' = Ok ()" by (auto simp: sample_hashable numeral_3_eq_3)
  then show ?thesis using t(1) by blast
qed

text \<open>
  A batch is equivalent to its leaves appended in any smaller batches (one by one included): the
  resulting trees have the same root, the same counters, the same rightmost leaf and the same canopy,
  although a batch computes each inner node at most once.
\<close>

theorem append_batch_split:
  assumes "zero_chain H" "cmt_rep H h t ls"
    and "cmt_append_batch h H t (xs @ ys) = Ok (t1, ci1, sn1)"
    and "cmt_append_batch h H t xs = Ok (t2, ci2, sn2)" "cmt_append_batch h H t2 ys = Ok (t3, ci3, sn3)"
  shows "cmt_root t1 = (cmt_root t3 :: (ConcurrentMerkleTreeError, _) result) \<and>
    cmt_next_index t1 = cmt_next_index t3 \<and> cmt_sequence_number t1 = cmt_sequence_number t3 \<and>
    (length ls + length xs + length ys < 2 ^ h \<longrightarrow> cmt_rightmost_leaf t1 = cmt_rightmost_leaf t3) \<and>
    (\<forall>d x. 0 < d \<and> d \<le> cmt_canopy_depth t \<and> x < 2 ^ d \<longrightarrow>
       BoundedVec_as_slice (cmt_canopy t1) ! (2 ^ d + x - 2) = BoundedVec_as_slice (cmt_canopy t3) ! (2 ^ d + x - 2))"
proof -
  have "cmt_run H h t ls ([] @ batch_entries H h ls (xs @ ys)) t1 (ls @ xs @ ys)"
    by (rule run_append [OF run_refl assms(3)])
  note one = run_invariant [OF this assms(1,2)]
  have "cmt_run H h t ls (([] @ batch_entries H h ls xs) @ batch_entries H h (ls @ xs) ys) t3 ((ls @ xs) @ ys)"
    by (rule run_append [OF run_append [OF run_refl assms(4)] assms(5)])
  note two = run_invariant [OF this assms(1,2)]
  have rep1: "cmt_rep H h t1 (ls @ xs @ ys)" and rep3: "cmt_rep H h t3 (ls @ xs @ ys)"
    using one two by simp_all
  have "xs \<noteq> []" by (rule append_batch_Ok(1) [OF assms(4,2)])
  then have "ls @ xs @ ys \<noteq> []" by simp
  then have "length (ls @ xs @ ys) < 2 ^ h \<longrightarrow> cmt_rightmost_leaf t1 = cmt_rightmost_leaf t3"
    using rep1 rep3 unfolding cmt_rep_def by metis
  then have "length ls + length xs + length ys < 2 ^ h \<longrightarrow> cmt_rightmost_leaf t1 = cmt_rightmost_leaf t3"
    by (simp only: length_append add.assoc)
  moreover have "cmt_next_index t1 = cmt_next_index t3" using rep1 rep3 unfolding cmt_rep_def by metis
  moreover have "cmt_sequence_number t1 = cmt_sequence_number t3" using one two by simp
  moreover have "cmt_canopy_depth t1 = cmt_canopy_depth t" "cmt_canopy_depth t3 = cmt_canopy_depth t"
    using one two by blast+
  moreover have "BoundedVec_as_slice (cmt_canopy t1) ! canopy_pos d x = BoundedVec_as_slice (cmt_canopy t3) ! canopy_pos d x"
    if "0 < d" "d \<le> cmt_canopy_depth t" "x < 2 ^ d" for d x
    using cmt_rep_canopy [OF rep1] cmt_rep_canopy [OF rep3] calculation(4,5) that by metis
  ultimately show ?thesis unfolding cmt_rep_root [OF rep1] cmt_rep_root [OF rep3] canopy_pos_def by blast
qed

theorem append_batch_split_witness:
  "\<exists>t t1 t2 t3 a b c d e f. cmt_append_batch 3 sample_hasher t [[1], [2]] = Ok (t1, a, b) \<and>
     cmt_append_batch 3 sample_hasher t [[1]] = Ok (t2, c, d) \<and>
     cmt_append_batch 3 sample_hasher t2 [[2]] = Ok (t3, e, f) \<and>
     cmt_root t1 = (cmt_root t3 :: (ConcurrentMerkleTreeError, _) result)"
proof -
  let ?H = sample_hasher
  obtain t where t: "cmt_rep ?H 3 t []" "cmt_sequence_number t = 0"
    "CyclicBoundedVec_capacity (cmt_changelog t) = 4"
    using new_init_rep [OF sample_zero_chain, of 3 1 4 4] by (auto simp: MAX_HEIGHT_def)
  note app = append_batch_spec [OF sample_zero_chain t(1)]
  obtain t1 a b where t1: "cmt_append_batch 3 ?H t ([[1]] @ [[2]]) = Ok (t1, a, b)"
    using app [of "[[1], [2]]"] t(2,3) by (auto simp: sample_hashable)
  obtain t2 c d where t2: "cmt_append_batch 3 ?H t [[1]] = Ok (t2, c, d)" "cmt_rep ?H 3 t2 [[1]]"
    "cmt_sequence_number t2 = 1" "CyclicBoundedVec_capacity (cmt_changelog t2) = 4"
    using app [of "[[1]]"] t(2,3) by (auto simp: sample_hashable cbv_pushed_def)
  obtain t3 e f where t3: "cmt_append_batch 3 ?H t2 [[2]] = Ok (t3, e, f)"
    using append_batch_spec [OF sample_zero_chain t2(2), of "[[2]]"] t2(3,4) by (auto simp: sample_hashable)
  have root: "cmt_root t1 = (cmt_root t3 :: (ConcurrentMerkleTreeError, _) result)"
    using append_batch_split [OF sample_zero_chain t(1) t1 t2(1) t3] by blast
  have "cmt_append_batch 3 ?H t [[1], [2]] = Ok (t1, a, b)" using t1 by simp
  then show ?thesis using t2(1) t3 root by (intro exI conjI)
qed

end
