(* ===== verification/Indexed_Tree.thy ===== *)
theory Indexed_Tree
  imports Indexed_Array Concurrent_Tree
begin

text \<open>
  \<open>merkle-tree/indexed/src/lib.rs\<close> and \<open>changelog.rs\<close>: the indexed Merkle tree, a concurrent tree whose
  leaves are the hashes of the elements of an indexed array.  Inserting a value updates the leaf of
  its low element and appends the leaf of the new element.

  \<open>patch_elements_and_proof\<close> calls itself; the model bounds the depth of these calls by its first
  argument, and running out of it is a panic, as exhausting the stack of the program is.
\<close>

section \<open>Model\<close>

record IndexedChangelogEntry =
  ice_element :: RawIndexedElement
  ice_proof :: "bytes list"
  ice_changelog_index :: nat

record IndexedMerkleTree =
  imt_merkle_tree :: ConcurrentMerkleTree
  imt_indexed_changelog :: "IndexedChangelogEntry CyclicBoundedVec"

text \<open>The metadata of a ring buffer takes 32 bytes.\<close>

definition imt_non_dyn_fields_size :: nat where
  "imt_non_dyn_fields_size = cmt_non_dyn_fields_size + 32"

text \<open>
  \<open>size_of::<IndexedChangelogEntry<usize, NET_HEIGHT>>()\<close>: the element (two values of 32 bytes and
  two indices), the proof and the changelog index.
\<close>

definition IndexedChangelogEntry_size :: "nat \<Rightarrow> nat" where
  "IndexedChangelogEntry_size NET = 80 + 32 * NET + 8"

definition imt_size_in_account ::
  "nat \<Rightarrow> nat \<Rightarrow> nat \<Rightarrow> nat \<Rightarrow> nat \<Rightarrow> nat \<Rightarrow> nat \<Rightarrow> ('e, nat) result" where
  "imt_size_in_account HT NET height changelog_size roots_size canopy_depth indexed_changelog_size =
     and_then (cmt_size_in_account HT height changelog_size roots_size canopy_depth) (\<lambda>s.
     and_then (add_u64 s 32) (\<lambda>s1.
     and_then (mul_u64 (IndexedChangelogEntry_size NET) indexed_changelog_size) (\<lambda>e. add_u64 s1 e)))"

definition imt_new ::
  "nat \<Rightarrow> nat \<Rightarrow> nat \<Rightarrow> nat \<Rightarrow> nat \<Rightarrow> nat \<Rightarrow> (ConcurrentMerkleTreeError, IndexedMerkleTree) result" where
  "imt_new HT height changelog_size roots_size canopy_depth indexed_changelog_size =
     and_then (cmt_new HT height changelog_size roots_size canopy_depth) (\<lambda>merkle_tree.
     Ok \<lparr>imt_merkle_tree = merkle_tree,
         imt_indexed_changelog = CyclicBoundedVec_with_capacity indexed_changelog_size\<rparr>)"

text \<open>\<open>xs[..n]\<close>.\<close>

definition slice_to :: "'a list \<Rightarrow> nat \<Rightarrow> ('e, 'a list) result" where
  "slice_to xs n = (if n \<le> length xs then Ok (take n xs) else Panic)"

definition imt_push_changelog ::
  "IndexedMerkleTree \<Rightarrow> IndexedChangelogEntry \<Rightarrow> ('e, IndexedMerkleTree) result" where
  "imt_push_changelog t e =
     and_then (CyclicBoundedVec_push (imt_indexed_changelog t) e) (\<lambda>cl.
     Ok (t\<lparr>imt_indexed_changelog := cl\<rparr>))"

definition imt_init ::
  "nat \<Rightarrow> nat \<Rightarrow> Hasher \<Rightarrow> IndexedMerkleTree \<Rightarrow> (IndexedMerkleTreeError, IndexedMerkleTree) result" where
  "imt_init HT NET H t =
     and_then (map_err ImtConcurrentMerkleTree (cmt_init HT H (imt_merkle_tree t))) (\<lambda>mt.
     and_then (map_err ImtConcurrentMerkleTree (cmt_append HT H mt (zero_indexed_leaf H))) (\<lambda>(mt, _, _).
     and_then (slice_to (zero_bytes H) NET) (\<lambda>proof.
     let element = \<lparr>rie_value = replicate 32 0, rie_next_index = 0, rie_next_value = replicate 32 0, rie_index = 0\<rparr>;
         entry = \<lparr>ice_element = element, ice_proof = proof, ice_changelog_index = 0\<rparr> in
     and_then (imt_push_changelog (t\<lparr>imt_merkle_tree := mt\<rparr>) entry) (\<lambda>t.
     imt_push_changelog t entry))))"

definition imt_indexed_changelog_index :: "IndexedMerkleTree \<Rightarrow> nat" where
  "imt_indexed_changelog_index t = CyclicBoundedVec_last_index (imt_indexed_changelog t)"

definition imt_validate_proof ::
  "Hasher \<Rightarrow> IndexedMerkleTree \<Rightarrow> bytes \<Rightarrow> nat \<Rightarrow> bytes BoundedVec \<Rightarrow> (IndexedMerkleTreeError, unit) result" where
  "imt_validate_proof H t leaf leaf_index proof =
     map_err ImtConcurrentMerkleTree (cmt_validate_proof H (imt_merkle_tree t) leaf leaf_index proof)"

definition imt_zero_proof ::
  "Hasher \<Rightarrow> IndexedMerkleTree \<Rightarrow> (IndexedMerkleTreeError, bytes BoundedVec) result" where
  "imt_zero_proof H t =
     and_then (sub_u64 (cmt_height (imt_merkle_tree t)) (cmt_canopy_depth (imt_merkle_tree t))) (\<lambda>n.
     try_fold (\<lambda>p i. and_then (index (zero_bytes H) i) (\<lambda>z. unwrap (BoundedVec_push p z)))
       (BoundedVec_with_capacity (cmt_height (imt_merkle_tree t))) [0..<n])"

definition imt_add_highest_element ::
  "nat \<Rightarrow> nat \<Rightarrow> Hasher \<Rightarrow> IndexedMerkleTree \<Rightarrow> (IndexedMerkleTreeError, IndexedMerkleTree) result" where
  "imt_add_highest_element HT NET H t =
     and_then (ia_init IndexedArray_default) (\<lambda>(_, bundle).
     let low = ieb_new_low_element bundle; new = ieb_new_element bundle in
     and_then (IndexedElement_hash H low (ie_value new)) (\<lambda>new_low_leaf.
     and_then (imt_zero_proof H t) (\<lambda>proof.
     and_then (map_err ImtConcurrentMerkleTree (cmt_update HT H (imt_merkle_tree t)
         (cmt_changelog_index (imt_merkle_tree t)) (zero_indexed_leaf H) new_low_leaf 0 proof)) (\<lambda>(mt, _, ci, _).
     \<comment> \<open>Emit changelog for low element.\<close>
     and_then (map_err ImtUtils (bigint_to_be_bytes_array 32 (ie_value low))) (\<lambda>low_value.
     and_then (map_err ImtUtils (bigint_to_be_bytes_array 32 (ie_value new))) (\<lambda>new_value.
     and_then (slice_to (zero_bytes H) NET) (\<lambda>zeros.
     and_then (imt_push_changelog (t\<lparr>imt_merkle_tree := mt\<rparr>)
         \<lparr>ice_element = \<lparr>rie_value = low_value, rie_next_index = ie_next_index low,
            rie_next_value = new_value, rie_index = ie_index low\<rparr>,
          ice_proof = zeros, ice_changelog_index = ci\<rparr>) (\<lambda>t.
     and_then (IndexedElement_hash H new (ieb_new_element_next_value bundle)) (\<lambda>new_leaf.
     and_then (map_err ImtConcurrentMerkleTree (cmt_append_with_proof HT H (imt_merkle_tree t) new_leaf
         (BoundedVec_with_capacity (cmt_height (imt_merkle_tree t))))) (\<lambda>(mt, proof, ci, _).
     \<comment> \<open>Emit changelog for new element.\<close>
     and_then (slice_to (BoundedVec_as_slice proof) NET) (\<lambda>path.
     imt_push_changelog (t\<lparr>imt_merkle_tree := mt\<rparr>)
         \<lparr>ice_element = \<lparr>rie_value = new_value, rie_next_index = ie_next_index new,
            rie_next_value = replicate 32 0, rie_index = ie_index new\<rparr>,
          ice_proof = path, ice_changelog_index = ci\<rparr>)))))))))))"

text \<open>The arguments of \<open>patch_elements_and_proof\<close> that it changes in place.\<close>

record Patch =
  pt_changelog_index :: nat
  pt_new_element :: IndexedElement
  pt_low_element :: IndexedElement
  pt_low_element_next_value :: nat
  pt_low_leaf_proof :: "bytes BoundedVec"

text \<open>The positions of the entries after \<open>start\<close> that belong to the element \<open>low_index\<close>.\<close>

definition imt_patch_indices ::
  "IndexedMerkleTree \<Rightarrow> nat \<Rightarrow> nat \<Rightarrow> (IndexedMerkleTreeError, nat list) result" where
  "imt_patch_indices t start low_index =
     and_then (map_err ImtBoundedVec (and_then (CyclicBoundedVec_iter_from (imt_indexed_changelog t) start)
         CyclicBoundedVecIterator_drain)) (\<lambda>es.
     Ok (map (\<lambda>(i, e). (start + 1 + i) mod CyclicBoundedVec_len (imt_indexed_changelog t))
       (filter (\<lambda>(i, e). rie_index (ice_element e) = low_index) (enumerate 0 (drop 1 es)))))"

definition imt_copy_proof :: "bytes BoundedVec \<Rightarrow> bytes list \<Rightarrow> ('e, bytes BoundedVec) result" where
  "imt_copy_proof p xs =
     try_fold (\<lambda>p i. and_then (index xs i) (\<lambda>x. BoundedVec_index_set p i x)) p [0..<BoundedVec_len p]"

text \<open>The loop; it stops at the first entry whose next value is lower than the new value.\<close>

fun imt_patch_loop ::
  "IndexedMerkleTree \<Rightarrow> Patch \<Rightarrow> nat list \<Rightarrow> (IndexedMerkleTreeError, Patch \<times> (nat \<times> nat) option) result" where
  "imt_patch_loop t s [] = Ok (s, None)"
| "imt_patch_loop t s (i # rest) =
     and_then (CyclicBoundedVec_index (imt_indexed_changelog t) i) (\<lambda>entry.
     let next_element_value = from_bytes_be (rie_next_value (ice_element entry)) in
     if next_element_value < ie_value (pt_new_element s)
     then Ok (s, Some ((i + 1) mod CyclicBoundedVec_len (imt_indexed_changelog t), next_element_value))
     else
       and_then (imt_copy_proof (pt_low_leaf_proof s) (ice_proof entry)) (\<lambda>proof.
       imt_patch_loop t
         (s\<lparr>pt_changelog_index := ice_changelog_index entry,
            pt_new_element := (pt_new_element s)\<lparr>ie_next_index := rie_next_index (ice_element entry)\<rparr>,
            pt_low_element := IndexedElement_update_from_raw_element (pt_low_element s) (ice_element entry),
            pt_low_element_next_value := next_element_value,
            pt_low_leaf_proof := proof\<rparr>) rest))"

text \<open>The new low element that was found.\<close>

definition imt_patch_restart ::
  "IndexedMerkleTree \<Rightarrow> Patch \<Rightarrow> nat \<Rightarrow> nat \<Rightarrow> (IndexedMerkleTreeError, Patch) result" where
  "imt_patch_restart t s i new_low_value =
     and_then (CyclicBoundedVec_index (imt_indexed_changelog t) i) (\<lambda>entry.
     let low = \<lparr>ie_index = rie_index (ice_element entry), ie_value = new_low_value,
                ie_next_index = rie_next_index (ice_element entry)\<rparr> in
     and_then (imt_copy_proof (pt_low_leaf_proof s) (ice_proof entry)) (\<lambda>proof.
     Ok (s\<lparr>pt_changelog_index := ice_changelog_index entry,
           pt_low_element := low, pt_low_leaf_proof := proof,
           pt_new_element := (pt_new_element s)\<lparr>ie_next_index := ie_next_index low\<rparr>\<rparr>)))"

text \<open>One call: the state, and where the function calls itself again, if it does.\<close>

definition imt_patch_call ::
  "IndexedMerkleTree \<Rightarrow> nat \<Rightarrow> Patch \<Rightarrow> (IndexedMerkleTreeError, Patch \<times> nat option) result" where
  "imt_patch_call t start s =
     and_then (imt_patch_indices t start (ie_index (pt_low_element s))) (\<lambda>indices.
     and_then (imt_patch_loop t s indices) (\<lambda>(s, new_low_element).
     case new_low_element of
       Some (i, v) \<Rightarrow> and_then (imt_patch_restart t s i v) (\<lambda>s. Ok (s, Some i))
     | None \<Rightarrow> Ok (s, None)))"

text \<open>\<open>None\<close>: the recursion is deeper than \<open>depth\<close>.  An error or a panic within that depth is a value.\<close>

fun imt_patch_elements_and_proof ::
  "nat \<Rightarrow> IndexedMerkleTree \<Rightarrow> nat \<Rightarrow> Patch \<Rightarrow> (IndexedMerkleTreeError, Patch) result option" where
  "imt_patch_elements_and_proof 0 t start s = None"
| "imt_patch_elements_and_proof (Suc depth) t start s =
     (case imt_patch_call t start s of
        Ok (s, Some i) \<Rightarrow> imt_patch_elements_and_proof depth t i s
      | Ok (s, None) \<Rightarrow> Some (Ok s)
      | Err e \<Rightarrow> Some (Err e)
      | Panic \<Rightarrow> Some Panic)"

text \<open>The call on a stack of the given depth; the program is aborted when the stack overflows.\<close>

definition imt_patch_on_stack ::
  "nat \<Rightarrow> IndexedMerkleTree \<Rightarrow> nat \<Rightarrow> Patch \<Rightarrow> (IndexedMerkleTreeError, Patch) result" where
  "imt_patch_on_stack depth t start s =
     (case imt_patch_elements_and_proof depth t start s of Some r \<Rightarrow> r | None \<Rightarrow> Panic)"

record IndexedMerkleTreeUpdate =
  imu_new_low_element :: RawIndexedElement
  imu_new_low_element_hash :: bytes
  imu_new_high_element :: RawIndexedElement
  imu_new_high_element_hash :: bytes

text \<open>
  The part of \<open>update\<close> after the patching and the range check: the low leaf is updated and the new
  leaf is appended.  \<open>usize::try_from\<close> of the next index does not fail.
\<close>

definition imt_insert ::
  "nat \<Rightarrow> nat \<Rightarrow> Hasher \<Rightarrow> IndexedMerkleTree \<Rightarrow> Patch \<Rightarrow>
     (IndexedMerkleTreeError, IndexedMerkleTree \<times> bytes BoundedVec \<times> IndexedMerkleTreeUpdate) result" where
  "imt_insert HT NET H t s =
     (let low = pt_low_element s; new = pt_new_element s;
          new_low = \<lparr>ie_index = ie_index low, ie_value = ie_value low, ie_next_index = ie_index new\<rparr> in
     and_then (IndexedElement_hash H low (pt_low_element_next_value s)) (\<lambda>old_low_leaf.
     and_then (IndexedElement_hash H new_low (ie_value new)) (\<lambda>new_low_leaf.
     and_then (map_err ImtConcurrentMerkleTree (cmt_update HT H (imt_merkle_tree t) (pt_changelog_index s)
         old_low_leaf new_low_leaf (ie_index low) (pt_low_leaf_proof s))) (\<lambda>(mt, low_leaf_proof, ci, _).
     \<comment> \<open>Emit changelog entry for low element.\<close>
     and_then (unwrap (bigint_to_be_bytes_array 32 (ie_value new_low))) (\<lambda>low_value.
     and_then (map_err ImtUtils (bigint_to_be_bytes_array 32 (ie_value new))) (\<lambda>low_next_value.
     let raw_low = \<lparr>rie_value = low_value, rie_next_index = ie_next_index new_low,
                    rie_next_value = low_next_value, rie_index = ie_index new_low\<rparr> in
     and_then (slice_to (BoundedVec_as_slice low_leaf_proof) NET) (\<lambda>low_path.
     and_then (imt_push_changelog (t\<lparr>imt_merkle_tree := mt\<rparr>)
         \<lparr>ice_element = raw_low, ice_proof = low_path, ice_changelog_index = ci\<rparr>) (\<lambda>t.
     \<comment> \<open>Append new element.\<close>
     let new = new\<lparr>ie_index := cmt_next_index (imt_merkle_tree t)\<rparr> in
     and_then (IndexedElement_hash H new (pt_low_element_next_value s)) (\<lambda>new_leaf.
     and_then (map_err ImtConcurrentMerkleTree (cmt_append_with_proof HT H (imt_merkle_tree t) new_leaf
         (BoundedVec_with_capacity (cmt_height (imt_merkle_tree t))))) (\<lambda>(mt, proof, ci, _).
     and_then (unwrap (bigint_to_be_bytes_array 32 (ie_value new))) (\<lambda>new_value.
     and_then (map_err ImtUtils (bigint_to_be_bytes_array 32 (pt_low_element_next_value s))) (\<lambda>new_next_value.
     let raw_new = \<lparr>rie_value = new_value, rie_next_index = ie_next_index new,
                    rie_next_value = new_next_value, rie_index = ie_index new\<rparr> in
     and_then (slice_to (BoundedVec_as_slice proof) NET) (\<lambda>path.
     and_then (imt_push_changelog (t\<lparr>imt_merkle_tree := mt\<rparr>)
         \<lparr>ice_element = raw_new, ice_proof = path, ice_changelog_index = ci\<rparr>) (\<lambda>t.
     Ok (t, low_leaf_proof,
       \<lparr>imu_new_low_element = raw_low, imu_new_low_element_hash = new_low_leaf,
        imu_new_high_element = raw_new, imu_new_high_element_hash = new_leaf\<rparr>)))))))))))))))"

definition imt_update ::
  "nat \<Rightarrow> nat \<Rightarrow> nat \<Rightarrow> Hasher \<Rightarrow> IndexedMerkleTree \<Rightarrow> nat \<Rightarrow> nat \<Rightarrow> nat \<Rightarrow> IndexedElement \<Rightarrow> nat \<Rightarrow>
     bytes BoundedVec \<Rightarrow>
     (IndexedMerkleTreeError, IndexedMerkleTree \<times> bytes BoundedVec \<times> IndexedMerkleTreeUpdate) result" where
  "imt_update depth HT NET H t changelog_index indexed_changelog_index new_element_value low_element
     low_element_next_value low_leaf_proof =
     and_then (imt_patch_on_stack depth t indexed_changelog_index
         \<lparr>pt_changelog_index = changelog_index,
          pt_new_element = \<lparr>ie_index = cmt_next_index (imt_merkle_tree t), ie_value = new_element_value,
                            ie_next_index = ie_next_index low_element\<rparr>,
          pt_low_element = low_element, pt_low_element_next_value = low_element_next_value,
          pt_low_leaf_proof = low_leaf_proof\<rparr>) (\<lambda>s.
     and_then (check_low_element_range (ie_value (pt_new_element s)) (ie_value (pt_low_element s))
         (ie_next_index (pt_low_element s)) (Ok (pt_low_element_next_value s)) (\<lambda>e. e)) (\<lambda>_.
     imt_insert HT NET H t s))"

definition imt_eq :: "IndexedMerkleTree \<Rightarrow> IndexedMerkleTree \<Rightarrow> ('e, bool) result" where
  "imt_eq t u =
     (let a = imt_indexed_changelog t; b = imt_indexed_changelog u in
     and_then (cmt_eq (imt_merkle_tree t) (imt_merkle_tree u)) (\<lambda>e.
     if \<not> e then Ok False
     else if CyclicBoundedVec_capacity a \<noteq> CyclicBoundedVec_capacity b then Ok False
     else if CyclicBoundedVec_len a \<noteq> CyclicBoundedVec_len b then Ok False
     else if CyclicBoundedVec_first_index a \<noteq> CyclicBoundedVec_first_index b then Ok False
     else if CyclicBoundedVec_last_index a \<noteq> CyclicBoundedVec_last_index b then Ok False
     else CyclicBoundedVec_eq a b))"


section \<open>Representation\<close>

text \<open>The hash of an element given by its value, next index and next value.\<close>

definition elem_hash :: "Hasher \<Rightarrow> nat \<times> nat \<times> nat \<Rightarrow> (IndexedMerkleTreeError, bytes) result" where
  "elem_hash H = (\<lambda>(v, n, nv). IndexedElement_hash H \<lparr>ie_index = 0, ie_value = v, ie_next_index = n\<rparr> nv)"

lemma IndexedElement_hash_elem: "IndexedElement_hash H e nv = elem_hash H (ie_value e, ie_next_index e, nv)"
  by (simp add: elem_hash_def IndexedElement_hash_def)

lemma elem_hash_bound: "elem_hash H (v, n, nv) = Ok x \<Longrightarrow> v < 256 ^ 32 \<and> nv < 256 ^ 32"
  using bigint_to_be_bytes_array_Ok_iff [of 32] by (auto simp: elem_hash_def IndexedElement_hash_def and_then_eq_Ok)

definition elem_collision :: "Hasher \<Rightarrow> nat \<times> nat \<times> nat \<Rightarrow> nat \<times> nat \<times> nat \<Rightarrow> bool" where
  "elem_collision H e e' \<longleftrightarrow> e \<noteq> e' \<and> (\<exists>r. elem_hash H e = Ok r \<and> elem_hash H e' = Ok r)"

text \<open>Element \<open>i\<close> of a chain with the value it points at.\<close>

definition chain_elem :: "(nat \<times> nat) list \<Rightarrow> nat \<Rightarrow> nat \<times> nat \<times> nat" where
  "chain_elem xs i = (fst (xs ! i), snd (xs ! i), fst (xs ! snd (xs ! i)))"

definition imt_rep :: "Hasher \<Rightarrow> nat \<Rightarrow> IndexedMerkleTree \<Rightarrow> (nat \<times> nat) list \<Rightarrow> bytes list \<Rightarrow> bool" where
  [inv_defs]: "imt_rep H h t xs ls \<longleftrightarrow> cmt_rep H h (imt_merkle_tree t) ls \<and> length ls = length xs \<and> chain xs \<and>
     (\<forall>i < length xs. elem_hash H (chain_elem xs i) = Ok (ls ! i)) \<and>
     cbv_inv (imt_indexed_changelog t) \<and> cbv_list (imt_indexed_changelog t) \<noteq> []"

lemma chain_elem_insert:
  assumes c: "chain xs" and j: "j < length xs"
  shows "chain_elem (chain_insert xs j v) j = (fst (xs ! j), length xs, v)"
    and "chain_elem (chain_insert xs j v) (length xs) = (v, snd (xs ! j), fst (xs ! snd (xs ! j)))"
    and "i < length xs \<Longrightarrow> i \<noteq> j \<Longrightarrow> chain_elem (chain_insert xs j v) i = chain_elem xs i"
  using chain_insert_nth [OF j] chainD(4) [OF c] j by (auto simp: chain_elem_def)

lemma imt_rep_insert:
  assumes rep: "imt_rep H h t xs ls" and j: "j < length xs" "in_range xs j v"
    and mt: "cmt_rep H h mt (ls[j := low] @ [new])"
    and low: "elem_hash H (fst (xs ! j), length xs, v) = Ok low"
    and new: "elem_hash H (v, snd (xs ! j), fst (xs ! snd (xs ! j))) = Ok new"
    and cl: "cbv_inv cl" "cbv_list cl \<noteq> []"
  shows "imt_rep H h \<lparr>imt_merkle_tree = mt, imt_indexed_changelog = cl\<rparr> (chain_insert xs j v) (ls[j := low] @ [new])"
proof -
  have c: "chain xs" and len: "length ls = length xs"
    and leaf: "\<And>i. i < length xs \<Longrightarrow> elem_hash H (chain_elem xs i) = Ok (ls ! i)"
    using rep by (auto simp: imt_rep_def)
  note ce = chain_elem_insert [OF c j(1)]
  have "elem_hash H (chain_elem (chain_insert xs j v) i) = Ok ((ls[j := low] @ [new]) ! i)" if "i < Suc (length xs)" for i
    using that leaf low new len j(1) ce by (auto simp: nth_append nth_list_update less_Suc_eq)
  then show ?thesis using mt len cl chain_insert_chain [OF c j] chain_insert_nth(1) [OF j(1)]
    by (simp add: imt_rep_def)
qed


section \<open>Patching keeps the shape of its arguments\<close>

lemma copy_proof_inv:
  assumes "imt_copy_proof p xs = Ok p'" "bv_inv p"
  shows "bv_inv p'" "BoundedVec_capacity p' = BoundedVec_capacity p" "BoundedVec_len p' = BoundedVec_len p"
proof -
  have "bv_inv p' \<and> BoundedVec_capacity p' = BoundedVec_capacity p \<and> BoundedVec_len p' = BoundedVec_len p"
    using assms(1) unfolding imt_copy_proof_def
    by (rule try_fold_invariant)
      (auto simp: assms(2) and_then_eq_Ok simp del: index_Ok dest: BoundedVec_index_set_as_slice)
  then show "bv_inv p'" "BoundedVec_capacity p' = BoundedVec_capacity p" "BoundedVec_len p' = BoundedVec_len p"
    by simp_all
qed

definition patch_ok :: "nat \<Rightarrow> nat \<Rightarrow> nat \<Rightarrow> Patch \<Rightarrow> bool" where
  "patch_ok n v c s \<longleftrightarrow> ie_index (pt_new_element s) = n \<and> ie_value (pt_new_element s) = v \<and>
     ie_next_index (pt_new_element s) = ie_next_index (pt_low_element s) \<and>
     bv_inv (pt_low_leaf_proof s) \<and> BoundedVec_capacity (pt_low_leaf_proof s) = c"

lemma patch_loop_ok:
  "imt_patch_loop t s is = Ok (s', r) \<Longrightarrow> patch_ok n v c s \<Longrightarrow> patch_ok n v c s'"
proof (induction "is" arbitrary: s)
  case (Cons i "is")
  from Cons.prems(1) obtain entry where entry: "CyclicBoundedVec_index (imt_indexed_changelog t) i =
      (Ok entry :: (IndexedMerkleTreeError, _) result)"
    by (auto elim: and_then_OkE)
  show ?case
  proof (cases "from_bytes_be (rie_next_value (ice_element entry)) < ie_value (pt_new_element s)")
    case True
    then show ?thesis using Cons.prems by (simp add: entry)
  next
    case False
    then obtain p where p: "imt_copy_proof (pt_low_leaf_proof s) (ice_proof entry) = (Ok p :: (IndexedMerkleTreeError, _) result)"
      and rest: "imt_patch_loop t
         (s\<lparr>pt_changelog_index := ice_changelog_index entry,
            pt_new_element := (pt_new_element s)\<lparr>ie_next_index := rie_next_index (ice_element entry)\<rparr>,
            pt_low_element := IndexedElement_update_from_raw_element (pt_low_element s) (ice_element entry),
            pt_low_element_next_value := from_bytes_be (rie_next_value (ice_element entry)),
            pt_low_leaf_proof := p\<rparr>) is = Ok (s', r)"
      using Cons.prems(1) by (auto simp: entry elim: and_then_OkE)
    show ?thesis
      by (rule Cons.IH [OF rest])
        (use Cons.prems(2) copy_proof_inv [OF p] in
          \<open>simp add: patch_ok_def IndexedElement_update_from_raw_element_def\<close>)
  qed
qed simp

lemma patch_restart_ok:
  assumes "imt_patch_restart t s i nv = Ok s'" "patch_ok n v c s"
  shows "patch_ok n v c s'"
proof -
  obtain entry where e: "CyclicBoundedVec_index (imt_indexed_changelog t) i = (Ok entry :: (IndexedMerkleTreeError, _) result)"
    using assms(1) by (auto simp: imt_patch_restart_def elim: and_then_OkE)
  obtain p where p: "imt_copy_proof (pt_low_leaf_proof s) (ice_proof entry) = (Ok p :: (IndexedMerkleTreeError, _) result)"
    using assms(1) by (auto simp: imt_patch_restart_def e Let_def elim: and_then_OkE)
  have s': "s' = s\<lparr>pt_changelog_index := ice_changelog_index entry,
      pt_low_element := \<lparr>ie_index = rie_index (ice_element entry), ie_value = nv,
                ie_next_index = rie_next_index (ice_element entry)\<rparr>, pt_low_leaf_proof := p,
      pt_new_element := (pt_new_element s)\<lparr>ie_next_index := rie_next_index (ice_element entry)\<rparr>\<rparr>"
    using assms(1) by (simp add: imt_patch_restart_def e p Let_def)
  show ?thesis using assms(2) copy_proof_inv [OF p] unfolding s' by (simp add: patch_ok_def)
qed

lemma and_then_case: "and_then m f = (case m of Ok x \<Rightarrow> f x | Err e \<Rightarrow> Err e | Panic \<Rightarrow> Panic)"
  by (cases m) simp_all

lemma patch_on_stack_simps [simp]:
  "imt_patch_on_stack 0 t start s = Panic"
  "imt_patch_on_stack (Suc d) t start s =
     and_then (imt_patch_indices t start (ie_index (pt_low_element s))) (\<lambda>indices.
     and_then (imt_patch_loop t s indices) (\<lambda>(s, new_low_element).
     case new_low_element of
       Some (i, v) \<Rightarrow> and_then (imt_patch_restart t s i v) (imt_patch_on_stack d t i)
     | None \<Rightarrow> Ok s))"
  by (simp_all add: imt_patch_on_stack_def imt_patch_call_def and_then_case split: result.splits option.splits)

lemma patch_on_stack_Ok: "imt_patch_on_stack d t start s = Ok s' \<longleftrightarrow> imt_patch_elements_and_proof d t start s = Some (Ok s')"
  by (simp add: imt_patch_on_stack_def split: option.splits)

lemma patch_elements_ok:
  "imt_patch_on_stack d t start s = Ok s' \<Longrightarrow> patch_ok n v c s \<Longrightarrow> patch_ok n v c s'"
proof (induction d arbitrary: start s)
  case (Suc d)
  from Suc.prems(1) obtain "is" s1 r where s1: "imt_patch_loop t s is = Ok (s1, r)"
    and rest: "(case r of Some (i, v) \<Rightarrow> and_then (imt_patch_restart t s1 i v) (imt_patch_on_stack d t i)
       | None \<Rightarrow> Ok s1) = Ok s'"
    by (auto elim!: and_then_OkE)
  note ok1 = patch_loop_ok [OF s1 Suc.prems(2)]
  show ?case
  proof (cases r)
    case None
    then show ?thesis using rest ok1 by simp
  next
    case (Some iv)
    obtain i w where iv: "iv = (i, w)" by force
    obtain s2 where s2: "imt_patch_restart t s1 i w = Ok s2" "imt_patch_on_stack d t i s2 = Ok s'"
      using rest Some iv by (auto elim: and_then_OkE)
    show ?thesis using Suc.IH [OF s2(2) patch_restart_ok [OF s2(1) ok1]] .
  qed
qed simp


section \<open>A successful insertion\<close>

lemma case_prod_OkE:
  assumes "(case x of (a, b) \<Rightarrow> f a b) = Ok y"
  obtains a b where "x = (a, b)" "f a b = Ok y"
  using assms by (cases x) simp

lemma insert_OkE:
  assumes "imt_insert HT NET H t s = Ok (t', p', u)"
  obtains old low_leaf mt1 ci sn e1 cl1 new_leaf mt2 p2 ci2 sn2 e2 cl2 where
    "IndexedElement_hash H (pt_low_element s) (pt_low_element_next_value s) = Ok old"
    "IndexedElement_hash H \<lparr>ie_index = ie_index (pt_low_element s), ie_value = ie_value (pt_low_element s),
       ie_next_index = ie_index (pt_new_element s)\<rparr> (ie_value (pt_new_element s)) = Ok low_leaf"
    "cmt_update HT H (imt_merkle_tree t) (pt_changelog_index s) old low_leaf
       (ie_index (pt_low_element s)) (pt_low_leaf_proof s) = Ok (mt1, p', ci, sn)"
    "CyclicBoundedVec_push (imt_indexed_changelog t) e1 = (Ok cl1 :: (IndexedMerkleTreeError, _) result)"
    "IndexedElement_hash H ((pt_new_element s)\<lparr>ie_index := cmt_next_index mt1\<rparr>) (pt_low_element_next_value s) = Ok new_leaf"
    "cmt_append_with_proof HT H mt1 new_leaf (BoundedVec_with_capacity (cmt_height mt1)) = Ok (mt2, p2, ci2, sn2)"
    "CyclicBoundedVec_push cl1 e2 = (Ok cl2 :: (IndexedMerkleTreeError, _) result)"
    "t\<lparr>imt_merkle_tree := mt2, imt_indexed_changelog := cl2\<rparr> = t'"
  using assms unfolding imt_insert_def imt_push_changelog_def Let_def and_then_assoc and_then.simps
  by (elim and_then_OkE case_prod_OkE) (simp (no_asm_use) del: index_Ok, blast)

lemma append_with_proof_Ok:
  assumes "cmt_append_with_proof h H t leaf p = Ok r" "cmt_rep H h t ls"
  shows "length ls < 2 ^ h" "cmt_sequence_number t + 1 < u64_bound"
proof -
  obtain r1 where r1: "cmt_append_batch_common h True H t [leaf] (Some [p]) = Ok r1"
    using assms(1) by (auto simp: cmt_append_with_proof_def cmt_append_batch_with_proofs_def elim!: and_then_OkE)
  have "cmt_next_index t = length ls" "cmt_height t = h" using assms(2) by (auto simp: cmt_rep_def cmt_base_def)
  then show "length ls < 2 ^ h" "cmt_sequence_number t + 1 < u64_bound"
    using r1 append_leaf_seq(1) [of h True H True t "Some [p]" 0 leaf]
    by (auto simp: cmt_append_batch_common_def Let_def elim!: and_then_OkE split: if_splits)
qed

lemma append_with_proof_rep:
  assumes "zero_chain H" "cmt_rep H h t ls" "cmt_append_with_proof h H t leaf (BoundedVec_with_capacity h) = Ok (t', p', ci, sn)"
  shows "cmt_rep H h t' (ls @ [leaf])"
  using append_with_proof_spec [OF assms(1,2) append_with_proof_Ok [OF assms(3,2)], of "BoundedVec_with_capacity h" leaf] assms(3)
  by (auto simp: is_ok_iff split: if_splits)

lemma cbv_push_nonempty:
  assumes "CyclicBoundedVec_push v x = (Ok v' :: ('e, _) result)" "cbv_inv v" "cbv_list v \<noteq> []"
  shows "cbv_inv v'" "cbv_list v' \<noteq> []"
  using cbv_push_pushed [OF assms(2,3), of x, where 'e = 'e] assms(1) by (auto simp: cbv_pushed_def)


section \<open>An insertion with current arguments\<close>

lemma patch_current:
  assumes "cbv_inv (imt_indexed_changelog t)" "cbv_list (imt_indexed_changelog t) \<noteq> []"
  shows "imt_patch_on_stack (Suc d) t (imt_indexed_changelog_index t) s = Ok s"
proof -
  have "0 < CyclicBoundedVec_capacity (imt_indexed_changelog t)" using assms(1) by (simp add: cbv_inv_def)
  from cbv_pushed_iter_from [OF cbv_pushed_refl [OF assms(1)] assms] this
  have "and_then (CyclicBoundedVec_iter_from (imt_indexed_changelog t) (imt_indexed_changelog_index t))
      CyclicBoundedVecIterator_drain = Ok [last (cbv_list (imt_indexed_changelog t))]"
    by (simp add: imt_indexed_changelog_index_def)
  then show ?thesis by (simp add: imt_patch_indices_def)
qed

lemma bigint_be_32: "v < 256 ^ 32 \<Longrightarrow> bigint_to_be_bytes_array 32 v = Ok (be_bytes 32 v)"
  using bigint_to_be_bytes_array_Ok_iff [of 32 v "be_bytes 32 v"] by (simp add: be_bytes_def from_bytes_be_def)

lemma from_bytes_be_32: "v < 256 ^ 32 \<Longrightarrow> from_bytes_be (be_bytes 32 v) = v"
  by (simp add: be_bytes_def from_bytes_be_def)

text \<open>The two entries an insertion records, for the low element and for the new element.\<close>

definition low_entry :: "Hasher \<Rightarrow> nat \<Rightarrow> nat \<Rightarrow> (nat \<times> nat) list \<Rightarrow> bytes list \<Rightarrow> nat \<Rightarrow> nat \<Rightarrow> nat \<Rightarrow> IndexedChangelogEntry" where
  "low_entry H h NET xs ls j v ci =
     \<lparr>ice_element = \<lparr>rie_value = be_bytes 32 (fst (xs ! j)), rie_next_index = length xs,
        rie_next_value = be_bytes 32 v, rie_index = j\<rparr>,
      ice_proof = take NET (merkle_proof H h ls j), ice_changelog_index = ci\<rparr>"

definition new_entry :: "Hasher \<Rightarrow> nat \<Rightarrow> nat \<Rightarrow> (nat \<times> nat) list \<Rightarrow> bytes list \<Rightarrow> nat \<Rightarrow> nat \<Rightarrow> nat \<Rightarrow> IndexedChangelogEntry" where
  "new_entry H h NET xs ls' j v ci =
     \<lparr>ice_element = \<lparr>rie_value = be_bytes 32 v, rie_next_index = snd (xs ! j),
        rie_next_value = be_bytes 32 (fst (xs ! snd (xs ! j))), rie_index = length xs\<rparr>,
      ice_proof = take NET (merkle_proof H h ls' (length xs)), ice_changelog_index = ci\<rparr>"

text \<open>
  What an insertion of \<open>v\<close> behind element \<open>j\<close> does to the state; \<open>mt1\<close> is the concurrent tree
  between the update of the low leaf and the append.
\<close>

definition inserted ::
  "Hasher \<Rightarrow> nat \<Rightarrow> nat \<Rightarrow> (nat \<times> nat) list \<Rightarrow> bytes list \<Rightarrow> nat \<Rightarrow> nat \<Rightarrow> IndexedMerkleTree \<Rightarrow>
     bytes list \<Rightarrow> IndexedMerkleTree \<Rightarrow> ConcurrentMerkleTree \<Rightarrow> bool" where
  "inserted H h NET xs ls j v t ls' t' mt1 \<longleftrightarrow> (\<exists>ll nl. j < length xs \<and> in_range xs j v \<and> ls' = ls[j := ll] @ [nl] \<and>
     imt_rep H h t' (chain_insert xs j v) ls' \<and> updated H h (ls[j := ll]) j (imt_merkle_tree t) mt1 \<and>
     cmt_sequence_number (imt_merkle_tree t') = cmt_sequence_number (imt_merkle_tree t) + 2 \<and>
     cmt_canopy_depth (imt_merkle_tree t') = cmt_canopy_depth (imt_merkle_tree t) \<and>
     cbv_pushed (cmt_changelog mt1) (batch_entries H h (ls[j := ll]) [nl]) (cmt_changelog (imt_merkle_tree t')) \<and>
     cbv_pushed (imt_indexed_changelog t) [low_entry H h NET xs ls j v (cmt_changelog_index mt1),
       new_entry H h NET xs ls' j v (cmt_changelog_index (imt_merkle_tree t'))] (imt_indexed_changelog t'))"

lemma insert_complete:
  assumes H: "zero_chain H" and rep: "imt_rep H h t xs ls" and j: "j < length xs" "in_range xs j v"
    and s: "ie_index (pt_low_element s) = j" "(ie_value (pt_low_element s), ie_next_index (pt_low_element s),
        pt_low_element_next_value s) = chain_elem xs j"
      "ie_value (pt_new_element s) = v" "ie_index (pt_new_element s) = length xs"
      "ie_next_index (pt_new_element s) = snd (xs ! j)"
    and low: "elem_hash H (fst (xs ! j), length xs, v) = Ok low_leaf"
    and new: "elem_hash H (v, snd (xs ! j), fst (xs ! snd (xs ! j))) = Ok new_leaf"
    and upd: "cmt_update h H (imt_merkle_tree t) (pt_changelog_index s) (ls ! j) low_leaf j (pt_low_leaf_proof s) =
        Ok (mt1, p', cmt_changelog_index mt1, sn1)" "updated H h (ls[j := low_leaf]) j (imt_merkle_tree t) mt1"
      "BoundedVec_as_slice p' = merkle_proof H h ls j"
    and room: "length xs < 2 ^ h" "cmt_sequence_number (imt_merkle_tree t) + 2 < u64_bound" "NET \<le> h"
    and hs: "hashable H h (ls[j := low_leaf] @ [new_leaf])"
  shows "\<exists>t' u. imt_insert h NET H t s = Ok (t', p', u) \<and>
    inserted H h NET xs ls j v t (ls[j := low_leaf] @ [new_leaf]) t' mt1"
proof -
  let ?mt = "imt_merkle_tree t" and ?cl = "imt_indexed_changelog t" and ?low = "pt_low_element s" and ?new = "pt_new_element s"
  have mt: "cmt_rep H h ?mt ls" "length ls = length xs" and cl: "cbv_inv ?cl" "cbv_list ?cl \<noteq> []"
    and leaf: "elem_hash H (chain_elem xs j) = Ok (ls ! j)"
    using rep j by (auto simp: imt_rep_def)
  have el: "ie_value ?low = fst (xs ! j)" "ie_next_index ?low = snd (xs ! j)"
    "pt_low_element_next_value s = fst (xs ! snd (xs ! j))" using s(2) by (auto simp: chain_elem_def)
  have m1: "cmt_rep H h mt1 (ls[j := low_leaf])" "cmt_sequence_number mt1 = cmt_sequence_number ?mt + 1"
    "cmt_canopy_depth mt1 = cmt_canopy_depth ?mt"
    "cbv_pushed (cmt_changelog ?mt) [update_entry H h (ls[j := low_leaf]) j] (cmt_changelog mt1)"
    using upd(2) by (auto simp: updated_def)
  have m1': "cmt_next_index mt1 = length xs" "cmt_height mt1 = h" "cmt_base h mt1"
    using m1(1) mt(2) by (auto simp: cmt_rep_def cmt_base_def)
  have pre: "length (ls[j := low_leaf]) < 2 ^ h" "cmt_sequence_number mt1 + 1 < u64_bound"
    using room m1(2) mt(2) by simp_all
  obtain mt2 p2 where app: "cmt_append_with_proof h H mt1 new_leaf (BoundedVec_with_capacity h) =
      Ok (mt2, p2, cmt_changelog_index mt2, cmt_sequence_number mt1 + 1)"
    "cmt_rep H h mt2 (ls[j := low_leaf] @ [new_leaf])"
    "BoundedVec_as_slice p2 = merkle_proof H h (ls[j := low_leaf] @ [new_leaf]) (length (ls[j := low_leaf]))"
    "cmt_sequence_number mt2 = cmt_sequence_number mt1 + 1" "cmt_canopy_depth mt2 = cmt_canopy_depth mt1"
    "cbv_pushed (cmt_changelog mt1) (batch_entries H h (ls[j := low_leaf]) [new_leaf]) (cmt_changelog mt2)"
    using append_with_proof_spec [OF H m1(1) pre, of "BoundedVec_with_capacity h" new_leaf] hs by auto
  have be: "bigint_to_be_bytes_array 32 v = Ok (be_bytes 32 v)"
    "bigint_to_be_bytes_array 32 (fst (xs ! j)) = Ok (be_bytes 32 (fst (xs ! j)))"
    "bigint_to_be_bytes_array 32 (fst (xs ! snd (xs ! j))) = Ok (be_bytes 32 (fst (xs ! snd (xs ! j))))"
    using elem_hash_bound [OF new] elem_hash_bound [OF low] by (simp_all add: bigint_be_32)
  have sl: "slice_to (BoundedVec_as_slice p') NET = (Ok (take NET (merkle_proof H h ls j)) :: (IndexedMerkleTreeError, _) result)"
    "slice_to (BoundedVec_as_slice p2) NET =
      (Ok (take NET (merkle_proof H h (ls[j := low_leaf] @ [new_leaf]) (length xs))) :: (IndexedMerkleTreeError, _) result)"
    using upd(3) app(3) room(3) mt(2) by (simp_all add: slice_to_def)
  define e1 where "e1 = low_entry H h NET xs ls j v (cmt_changelog_index mt1)"
  define e2 where "e2 = new_entry H h NET xs (ls[j := low_leaf] @ [new_leaf]) j v (cmt_changelog_index mt2)"
  obtain cl1 where cl1: "CyclicBoundedVec_push ?cl e1 = (Ok cl1 :: (IndexedMerkleTreeError, _) result)"
    "cbv_pushed ?cl [e1] cl1" "cbv_list cl1 \<noteq> []"
    using cbv_push_pushed [OF cl, of e1, where 'e = IndexedMerkleTreeError] by blast
  have "cbv_inv cl1" using cl1(2) by (simp add: cbv_pushed_def)
  then obtain cl2 where cl2: "CyclicBoundedVec_push cl1 e2 = (Ok cl2 :: (IndexedMerkleTreeError, _) result)"
    "cbv_pushed cl1 [e2] cl2" "cbv_list cl2 \<noteq> []"
    using cbv_push_pushed [of cl1 e2, where 'e = IndexedMerkleTreeError] cl1(3) by blast
  let ?t' = "\<lparr>imt_merkle_tree = mt2, imt_indexed_changelog = cl2\<rparr>"
  define u where "u = \<lparr>imu_new_low_element = ice_element e1, imu_new_low_element_hash = low_leaf,
    imu_new_high_element = ice_element e2, imu_new_high_element_hash = new_leaf\<rparr>"
  have "imt_insert h NET H t s = Ok (?t', p', u)"
    unfolding imt_insert_def Let_def IndexedElement_hash_elem s(1-5)
    using leaf low new upd(1) be sl cl1(1) cl2(1) app(1) m1' el s
    by (cases t) (simp add: chain_elem_def imt_push_changelog_def e1_def e2_def low_entry_def new_entry_def u_def)
  moreover have "imt_rep H h ?t' (chain_insert xs j v) (ls[j := low_leaf] @ [new_leaf])"
    using cl2(2,3) by (intro imt_rep_insert [OF rep j app(2) low new]) (auto simp: cbv_pushed_def)
  moreover have "cbv_pushed ?cl ([e1] @ [e2]) cl2" using cbv_pushed_trans [OF cl1(2) cl2(2)] .
  ultimately show ?thesis using app(4-6) m1(2,3) j upd(2)
    by (intro exI [of _ ?t'] exI [of _ u]) (auto simp: e1_def e2_def inserted_def)
qed

lemma insert_sound:
  assumes H: "zero_chain H" and rep: "imt_rep H h t xs ls" and s: "patch_ok (length xs) v c s" "h \<le> c" and NET: "NET \<le> h"
    and ins: "imt_insert h NET H t s = Ok (t', p', u)"
    and rng: "check_low_element_range v (ie_value (pt_low_element s)) (ie_next_index (pt_low_element s))
        (Ok (pt_low_element_next_value s)) (\<lambda>e. e) = (Ok () :: (IndexedMerkleTreeError, _) result)"
  shows "\<exists>old. IndexedElement_hash H (pt_low_element s) (pt_low_element_next_value s) = Ok old \<and>
    (let j = ie_index (pt_low_element s) in
     (\<exists>ls' mt1. inserted H h NET xs ls j v t ls' t' mt1) \<or>
     elem_collision H (ie_value (pt_low_element s), ie_next_index (pt_low_element s), pt_low_element_next_value s)
       (chain_elem xs j) \<or>
     path_collision H h ls j old (BoundedVec_as_slice p'))"
proof -
  let ?low = "pt_low_element s" and ?nv = "pt_low_element_next_value s" and ?new = "pt_new_element s"
  let ?j = "ie_index ?low" and ?e = "(ie_value ?low, ie_next_index ?low, ?nv)"
  have mt: "cmt_rep H h (imt_merkle_tree t) ls" "length ls = length xs" and cl: "cbv_inv (imt_indexed_changelog t)"
    "cbv_list (imt_indexed_changelog t) \<noteq> []"
    and leaf: "\<And>i. i < length xs \<Longrightarrow> elem_hash H (chain_elem xs i) = Ok (ls ! i)"
    using rep by (auto simp: imt_rep_def)
  have new: "ie_index ?new = length xs" "ie_value ?new = v" "ie_next_index ?new = ie_next_index ?low"
    "bv_inv (pt_low_leaf_proof s)" "h \<le> BoundedVec_capacity (pt_low_leaf_proof s)"
    using s by (auto simp: patch_ok_def)
  from ins obtain old low_leaf mt1 ci sn e1 cl1 new_leaf mt2 p2 ci2 sn2 e2 cl2 where
    old: "elem_hash H ?e = Ok old" and low: "elem_hash H (ie_value ?low, length xs, v) = Ok low_leaf"
    and upd: "cmt_update h H (imt_merkle_tree t) (pt_changelog_index s) old low_leaf ?j (pt_low_leaf_proof s) = Ok (mt1, p', ci, sn)"
    and cl1: "CyclicBoundedVec_push (imt_indexed_changelog t) e1 = (Ok cl1 :: (IndexedMerkleTreeError, _) result)"
    and nl: "elem_hash H (v, ie_next_index ?low, ?nv) = Ok new_leaf"
    and app: "cmt_append_with_proof h H mt1 new_leaf (BoundedVec_with_capacity (cmt_height mt1)) = Ok (mt2, p2, ci2, sn2)"
    and cl2: "CyclicBoundedVec_push cl1 e2 = (Ok cl2 :: (IndexedMerkleTreeError, _) result)"
    and t': "t' = \<lparr>imt_merkle_tree = mt2, imt_indexed_changelog = cl2\<rparr>"
    by (rule insert_OkE) (cases t, simp add: IndexedElement_hash_elem new)
  have "inserted H h NET xs ls ?j v t (ls[?j := low_leaf] @ [new_leaf]) t' mt1"
    if np: "\<not> path_collision H h ls ?j old (BoundedVec_as_slice p')" and ne: "\<not> elem_collision H ?e (chain_elem xs ?j)"
  proof -
    note up = update_sound [OF mt(1) new(4,5) upd np]
    have j: "?j < length xs" using up(1) mt(2) by simp
    have e: "?e = chain_elem xs ?j" using ne old leaf [OF j] up(2) by (auto simp: elem_collision_def)
    then have el: "ie_value ?low = fst (xs ! ?j)" "ie_next_index ?low = snd (xs ! ?j)" "?nv = fst (xs ! snd (xs ! ?j))"
      by (auto simp: chain_elem_def)
    have r: "in_range xs ?j v"
      using rng unfolding el by (auto simp: check_low_element_range_def in_range_def split: if_splits)
    have m1: "cmt_rep H h mt1 (ls[?j := low_leaf])" "cmt_sequence_number mt1 = cmt_sequence_number (imt_merkle_tree t) + 1"
      using up(4) by (simp_all add: updated_def)
    then have "cmt_height mt1 = h" by (simp add: cmt_rep_def cmt_base_def)
    then have m2: "cmt_rep H h mt2 (ls[?j := low_leaf] @ [new_leaf])" and room: "length (ls[?j := low_leaf]) < 2 ^ h"
        "cmt_sequence_number mt1 + 1 < u64_bound"
      using append_with_proof_rep [OF H m1(1)] append_with_proof_Ok [OF _ m1(1)] app by auto
    have upd': "cmt_update h H (imt_merkle_tree t) (pt_changelog_index s) (ls ! ?j) low_leaf ?j (pt_low_leaf_proof s) =
        Ok (mt1, p', cmt_changelog_index mt1, cmt_sequence_number mt1)"
      using upd up(2,5,6) by simp
    obtain t2 u2 where "imt_insert h NET H t s = Ok (t2, p', u2)"
      "inserted H h NET xs ls ?j v t (ls[?j := low_leaf] @ [new_leaf]) t2 mt1"
      using insert_complete [OF H rep j r refl e new(2,1) _ _ _ upd' up(4,3) _ _ NET, of new_leaf] new(3) low nl room m1(2) mt(2) m2 el
      by (auto simp: cmt_rep_def)
    then show ?thesis using ins by simp
  qed
  then show ?thesis using old by (auto simp: IndexedElement_hash_elem Let_def)
qed



section \<open>Initialisation\<close>

text \<open>
  What the tree relies on of the generated constant \<open>ZERO_INDEXED_LEAF\<close>
  (\<open>xtask/src/zero_indexed_leaf.rs\<close>): it is the hash of the element with value 0 that points at
  nothing.
\<close>

definition indexed_zero :: "Hasher \<Rightarrow> bool" where
  "indexed_zero H \<longleftrightarrow> hashv H [replicate 32 0, replicate 8 0, replicate 32 0] = Ok (zero_indexed_leaf H)"

lemma le_bytes_0: "le_bytes n 0 = replicate n 0"
  by (induction n) simp_all

lemma elem_hash_zero: "indexed_zero H \<Longrightarrow> elem_hash H (0, 0, 0) = Ok (zero_indexed_leaf H)"
  by (simp add: elem_hash_def IndexedElement_hash_def bigint_be_32 be_bytes_def le_bytes_0 indexed_zero_def)

lemma push_fresh:
  assumes "cbv_inv v"
  shows "\<exists>v'. CyclicBoundedVec_push v x = (Ok v' :: ('e, _) result) \<and> cbv_inv v' \<and> cbv_list v' \<noteq> [] \<and>
    CyclicBoundedVec_capacity v' = CyclicBoundedVec_capacity v"
proof -
  obtain v' where v': "CyclicBoundedVec_push v x = (Ok v' :: ('e, _) result)" "cbv_inv v'"
    "cbv_list v' = take_last (CyclicBoundedVec_capacity v) (cbv_list v @ [x])"
    "CyclicBoundedVec_capacity v' = CyclicBoundedVec_capacity v"
    using cbvr.push_history [OF assms, of x] by blast
  have "0 < CyclicBoundedVec_capacity v" using assms by (simp add: cbv_inv_def)
  then have "0 < length (cbv_list v')" unfolding v'(3) by simp
  then have "cbv_list v' \<noteq> []" by (metis length_greater_0_conv)
  then show ?thesis using v' by blast
qed

lemma imt_init_rep:
  assumes H: "zero_chain H" "indexed_zero H" and h: "0 < h" "h \<le> MAX_HEIGHT" and cd: "cd \<le> h" "cd < 31"
    and sz: "0 < cs" "0 < rs" "0 < ics" and NET: "NET \<le> h" and hs: "hashable H h [zero_indexed_leaf H]"
  shows "\<exists>t0 t. imt_new h h cs rs cd ics = Ok t0 \<and> imt_init h NET H t0 = Ok t \<and>
    imt_rep H h t [(0, 0)] [zero_indexed_leaf H] \<and> cmt_sequence_number (imt_merkle_tree t) = 1 \<and>
    cmt_canopy_depth (imt_merkle_tree t) = cd \<and>
    CyclicBoundedVec_capacity (cmt_changelog (imt_merkle_tree t)) = cs \<and>
    CyclicBoundedVec_capacity (imt_indexed_changelog t) = ics"
proof -
  obtain m0 m1 where m: "cmt_new h h cs rs cd = Ok m0" "cmt_init h H m0 = Ok m1" "cmt_rep H h m1 []"
    "cmt_sequence_number m1 = 0" "cmt_canopy_depth m1 = cd" "CyclicBoundedVec_capacity (cmt_changelog m1) = cs"
    using new_init_rep [OF H(1) h cd sz(1,2)] by blast
  obtain m2 ci sn where m2: "cmt_append h H m1 (zero_indexed_leaf H) = Ok (m2, ci, sn)"
    "cmt_rep H h m2 [zero_indexed_leaf H]" "cmt_sequence_number m2 = 1" "cmt_canopy_depth m2 = cd"
    "CyclicBoundedVec_capacity (cmt_changelog m2) = cs"
    using append_batch_spec [OF H(1) m(3), of "[zero_indexed_leaf H]"] m(4-6) sz(1) hs
    by (auto simp: cmt_append_def cbv_pushed_def)
  define e where "e = \<lparr>ice_element = \<lparr>rie_value = replicate 32 0, rie_next_index = 0, rie_next_value = replicate 32 0, rie_index = 0\<rparr>,
    ice_proof = take NET (zero_bytes H), ice_changelog_index = 0\<rparr>"
  let ?c0 = "CyclicBoundedVec_with_capacity ics :: IndexedChangelogEntry CyclicBoundedVec"
  have "cbv_inv ?c0" "CyclicBoundedVec_capacity ?c0 = ics" using sz(3) by simp_all
  then obtain c1 where c1: "CyclicBoundedVec_push ?c0 e = (Ok c1 :: (IndexedMerkleTreeError, _) result)" "cbv_inv c1"
    "CyclicBoundedVec_capacity c1 = ics" using push_fresh [of ?c0 e, where 'e = IndexedMerkleTreeError] by auto
  obtain c2 where c2: "CyclicBoundedVec_push c1 e = (Ok c2 :: (IndexedMerkleTreeError, _) result)" "cbv_inv c2"
    "cbv_list c2 \<noteq> []" "CyclicBoundedVec_capacity c2 = ics"
    using push_fresh [OF c1(2), of e, where 'e = IndexedMerkleTreeError] c1(3) by auto
  let ?new = "\<lparr>imt_merkle_tree = m0, imt_indexed_changelog = ?c0\<rparr>"
  let ?t = "\<lparr>imt_merkle_tree = m2, imt_indexed_changelog = c2\<rparr>"
  have "NET \<le> length (zero_bytes H)" using NET h(2) zero_chain_length [OF H(1)] by simp
  then have "imt_init h NET H ?new = Ok ?t"
    using m(2) m2(1) c1(1) c2(1) by (simp add: imt_init_def imt_push_changelog_def slice_to_def e_def Let_def)
  moreover have "imt_new h h cs rs cd ics = Ok ?new" using m(1) by (simp add: imt_new_def)
  moreover have "imt_rep H h ?t [(0, 0)] [zero_indexed_leaf H]"
    using m2(2) c2(2,3) elem_hash_zero [OF H(2)] chain_single by (simp add: imt_rep_def chain_elem_def)
  ultimately show ?thesis using m2 c2(4) by (intro exI [of _ ?new] exI [of _ ?t]) simp
qed

lemma ia_init_default:
  "\<exists>a. ia_init IndexedArray_default = Ok (a,
     \<lparr>ieb_new_low_element = \<lparr>ie_index = 0, ie_value = 0, ie_next_index = 1\<rparr>,
      ieb_new_element = \<lparr>ie_index = 1, ie_value = HIGHEST_ADDRESS_PLUS_ONE, ie_next_index = 0\<rparr>,
      ieb_new_element_next_value = 0\<rparr>)"
  by (simp add: ia_init_def ia_append_def ia_find_low_element_index_for_nonexistent_def IndexedArray_default_def
      HIGHEST_ADDRESS_PLUS_ONE_def ia_append_with_low_element_index_def index_eval check_low_element_range_def
      ia_new_element_with_low_element_index_def write_at_eval Let_def del: checked_add_Some)
    (simp add: checked_add_def write_at_eval)

lemma zero_proof_spec:
  assumes H: "zero_chain H" and rep: "cmt_rep H h (imt_merkle_tree t) [x]"
  shows "\<exists>p. imt_zero_proof H t = Ok p \<and> bv_inv p \<and> BoundedVec_capacity p = h \<and>
    BoundedVec_as_slice p = take (h - cmt_canopy_depth (imt_merkle_tree t)) (merkle_proof H h [x] 0)"
    "NET \<le> h \<Longrightarrow> take NET (zero_bytes H) = take NET (merkle_proof H h [x] 0)"
proof -
  have t: "cmt_height (imt_merkle_tree t) = h" "cmt_canopy_depth (imt_merkle_tree t) \<le> h" "h \<le> MAX_HEIGHT"
    using rep by (auto simp: cmt_rep_def cmt_base_def)
  have zl: "h \<le> length (zero_bytes H)" using t(3) zero_chain_length [OF H] by simp
  have mp: "take n (merkle_proof H h [x] 0) = take n (zero_bytes H)" if "n \<le> h" for n
  proof (rule nth_equalityI)
    fix i assume "i < length (take n (merkle_proof H h [x] 0))"
    then have "i < n" using that by simp
    then show "take n (merkle_proof H h [x] 0) ! i = take n (zero_bytes H) ! i"
      using that t(3) node_beyond [OF H, of i "[x]" 1] by (simp add: sibling_even)
  qed (use that zl in simp)
  show "NET \<le> h \<Longrightarrow> take NET (zero_bytes H) = take NET (merkle_proof H h [x] 0)" by (simp add: mp)
  let ?n = "h - cmt_canopy_depth (imt_merkle_tree t)"
  have n: "?n \<le> h" "?n \<le> length (zero_bytes H)" using zl by simp_all
  have "try_fold (\<lambda>p i. and_then (index (zero_bytes H) i) (\<lambda>z. unwrap (BoundedVec_push p z)))
      (BoundedVec_with_capacity h) [0..<?n] =
    (try_fold (\<lambda>p z. unwrap (BoundedVec_push p z)) (BoundedVec_with_capacity h) (map ((!) (zero_bytes H)) [0..<?n]) :: (IndexedMerkleTreeError, _) result)"
    unfolding try_fold_map using n(2) by (intro try_fold_cong) (auto simp: index_eval)
  moreover have "map ((!) (zero_bytes H)) [0..<?n] = take ?n (zero_bytes H)" using n(2) by (simp add: nth_image list_eq_iff_nth_eq)
  moreover obtain p where "try_fold BoundedVec_push (BoundedVec_with_capacity h) (take ?n (zero_bytes H)) = Ok p"
    "bv_inv p" "BoundedVec_capacity p = h" "BoundedVec_as_slice p = take ?n (zero_bytes H)"
    using bvb.push_all [of "BoundedVec_with_capacity h" "take ?n (zero_bytes H)"] n by auto
  ultimately show "\<exists>p. imt_zero_proof H t = Ok p \<and> bv_inv p \<and> BoundedVec_capacity p = h \<and>
      BoundedVec_as_slice p = take ?n (merkle_proof H h [x] 0)"
    using t(1,2) mp [OF n(1)] by (auto simp: imt_zero_proof_def u64_eval dest: try_fold_unwrap)
qed

lemma add_highest_rep:
  assumes H: "zero_chain H" "indexed_zero H" and rep: "imt_rep H h t [(0, 0)] [zero_indexed_leaf H]"
    and low: "elem_hash H (0, 1, HIGHEST_ADDRESS_PLUS_ONE) = Ok ll"
    and new: "elem_hash H (HIGHEST_ADDRESS_PLUS_ONE, 0, 0) = Ok nl"
    and hs: "hashable H h [ll]" "hashable H h [ll, nl]" and sn: "cmt_sequence_number (imt_merkle_tree t) + 2 < u64_bound"
    and NET: "NET \<le> h"
  shows "\<exists>t' mt1. imt_add_highest_element h NET H t = Ok t' \<and>
    inserted H h NET [(0, 0)] [zero_indexed_leaf H] 0 HIGHEST_ADDRESS_PLUS_ONE t [ll, nl] t' mt1"
proof -
  let ?V = HIGHEST_ADDRESS_PLUS_ONE and ?z = "zero_indexed_leaf H"
  have mt: "cmt_rep H h (imt_merkle_tree t) [?z]" using rep by (simp add: imt_rep_def)
  have h: "0 < h" "cmt_height (imt_merkle_tree t) = h" using mt by (auto simp: cmt_rep_def cmt_base_def)
  then have room: "(1::nat) < 2 ^ h" using one_less_power [of "2::nat" h] by simp
  obtain p where p: "imt_zero_proof H t = Ok p" "bv_inv p" "BoundedVec_capacity p = h"
    "BoundedVec_as_slice p = take (h - cmt_canopy_depth (imt_merkle_tree t)) (merkle_proof H h [?z] 0)"
    using zero_proof_spec(1) [OF H(1) mt] by blast
  obtain mt1 p' where up: "cmt_update h H (imt_merkle_tree t) (cmt_changelog_index (imt_merkle_tree t)) ?z ll 0 p =
      Ok (mt1, p', cmt_changelog_index mt1, cmt_sequence_number mt1)"
    "updated H h ([?z][0 := ll]) 0 (imt_merkle_tree t) mt1" "BoundedVec_as_slice p' = merkle_proof H h [?z] 0"
    using update_now [OF mt, of 0 p ll] p(2-4) sn hs(1) by auto
  define s where "s = \<lparr>pt_changelog_index = cmt_changelog_index (imt_merkle_tree t),
    pt_new_element = \<lparr>ie_index = 1, ie_value = ?V, ie_next_index = 0\<rparr>,
    pt_low_element = \<lparr>ie_index = 0, ie_value = 0, ie_next_index = 0\<rparr>,
    pt_low_element_next_value = 0, pt_low_leaf_proof = p\<rparr>"
  have V: "?V < 256 ^ 32" "in_range [(0, 0)] 0 ?V" by (simp_all add: HIGHEST_ADDRESS_PLUS_ONE_def in_range_def)
  obtain t' u where t': "imt_insert h NET H t s = Ok (t', p', u)"
    "inserted H h NET [(0, 0)] [?z] 0 ?V t [ll, nl] t' mt1"
    using insert_complete [OF H(1) rep _ V(2), of s ll nl mt1 p' "cmt_sequence_number mt1" NET]
      low new up hs(2) sn NET room by (auto simp: s_def chain_elem_def)
  have sl: "slice_to (zero_bytes H) NET = (Ok (take NET (merkle_proof H h [?z] 0)) :: (IndexedMerkleTreeError, _) result)"
    "slice_to (BoundedVec_as_slice p') NET = (Ok (take NET (merkle_proof H h [?z] 0)) :: (IndexedMerkleTreeError, _) result)"
    using zero_proof_spec(2) [OF H(1) mt NET] up(3) NET zero_chain_length [OF H(1)] rep
    by (auto simp: slice_to_def imt_rep_def cmt_rep_def cmt_base_def)
  have be0: "replicate 32 0 = be_bytes 32 0" by (simp add: be_bytes_def le_bytes_0)
  obtain a where a: "ia_init IndexedArray_default = Ok (a,
     \<lparr>ieb_new_low_element = \<lparr>ie_index = 0, ie_value = 0, ie_next_index = 1\<rparr>,
      ieb_new_element = \<lparr>ie_index = 1, ie_value = ?V, ie_next_index = 0\<rparr>, ieb_new_element_next_value = 0\<rparr>)"
    using ia_init_default by blast
  have n1: "cmt_next_index mt1 = 1" "cmt_height mt1 = h" using up(2) by (auto simp: updated_def cmt_rep_def cmt_base_def)
  have "imt_add_highest_element h NET H t = and_then (imt_insert h NET H t s) (\<lambda>(t', _). Ok t')"
    unfolding imt_add_highest_element_def a imt_insert_def s_def
    using low new elem_hash_zero [OF H(2)] up(1) p(1) sl V(1) n1
    by (simp add: IndexedElement_hash_elem bigint_be_32 be0 Let_def imt_push_changelog_def and_then_assoc case_prod_unfold)
  then show ?thesis using t' by auto
qed

end
