(* ===== verification/Indexed_Concurrency.thy ===== *)
theory Indexed_Concurrency
  imports Indexed_Tree
begin

text \<open>
  Concurrent insertions into the indexed tree.  \<open>patch_elements_and_proof\<close> walks over the ring buffer
  of indexed changelog entries; it is related to a recursion over the list of insertions made since
  the caller looked at the tree, and that recursion is shown to maintain the caller's low element and
  proof.
\<close>

section \<open>Positions in the ring buffer\<close>

text \<open>\<open>E\<close> are the entries pushed since the state \<open>v\<close>; they all are still in the buffer.\<close>

definition ring :: "'a CyclicBoundedVec \<Rightarrow> 'a list \<Rightarrow> 'a CyclicBoundedVec \<Rightarrow> bool" where
  "ring v E u \<longleftrightarrow> cbv_inv v \<and> cbv_list v \<noteq> [] \<and> cbv_pushed v E u \<and> length E < CyclicBoundedVec_capacity v"

lemma pushed_exists:
  assumes "cbv_inv v" "cbv_list v \<noteq> []"
  shows "\<exists>w. cbv_pushed v xs w \<and> cbv_list w \<noteq> []"
proof (induction xs rule: rev_induct)
  case Nil
  then show ?case using cbv_pushed_refl [OF assms(1)] assms(2) by blast
next
  case (snoc x xs)
  then obtain w where w: "cbv_pushed v xs w" "cbv_list w \<noteq> []" by blast
  then have "cbv_inv w" by (simp add: cbv_pushed_def)
  from cbv_push_pushed [OF this w(2), of x] obtain w' where "cbv_pushed w [x] w'" "cbv_list w' \<noteq> []" by blast
  then show ?case using cbv_pushed_trans [OF w(1)] by blast
qed

lemma ring_split:
  assumes "ring v (xs @ ys) u"
  obtains w where "ring w ys u" "CyclicBoundedVec_last_index w =
    (CyclicBoundedVec_last_index v + length xs) mod CyclicBoundedVec_capacity v"
    "CyclicBoundedVec_capacity w = CyclicBoundedVec_capacity v"
proof -
  obtain w where w: "cbv_pushed v xs w" "cbv_list w \<noteq> []"
    using pushed_exists [of v xs] assms by (auto simp: ring_def)
  have "cbv_pushed w ys u"
    using w(1) assms take_last_append [of "CyclicBoundedVec_capacity v" "cbv_list v @ xs" ys]
    by (auto simp: ring_def cbv_pushed_def mod_add_left_eq add.assoc)
  then have "ring w ys u" using assms w by (auto simp: ring_def cbv_pushed_def)
  then show thesis using that w(1) by (simp add: cbv_pushed_def)
qed

text \<open>The code reduces positions modulo the length, which here agrees with the capacity.\<close>

lemma ring_mod_len:
  assumes "ring v E u" "i < length E"
  shows "(CyclicBoundedVec_last_index v + 1 + i) mod CyclicBoundedVec_len u =
    (CyclicBoundedVec_last_index v + 1 + i) mod CyclicBoundedVec_capacity v"
proof (cases "CyclicBoundedVec_len u = CyclicBoundedVec_capacity v")
  case False
  have v: "cbv_inv v" "0 < CyclicBoundedVec_len v" using assms(1) by (auto simp: ring_def cbv_list_nonempty)
  have "cbv_list u = take_last (CyclicBoundedVec_capacity v) (cbv_list v @ E)"
    using assms(1) by (simp add: ring_def cbv_pushed_def)
  from arg_cong [OF this, of length]
  have len: "CyclicBoundedVec_len u = min (CyclicBoundedVec_capacity v) (CyclicBoundedVec_len v + length E)" by simp
  then have "CyclicBoundedVec_len v < CyclicBoundedVec_capacity v" using False assms(2) by linarith
  then have "CyclicBoundedVec_last_index v = CyclicBoundedVec_len v - 1" using v by (auto simp: cbv_inv_def)
  then show ?thesis using len False v(2) assms(2) by simp
qed simp

lemma ring_index:
  assumes "ring v E u" "i < length E"
  shows "CyclicBoundedVec_index u ((CyclicBoundedVec_last_index v + 1 + i) mod CyclicBoundedVec_len u) = Ok (E ! i)"
  unfolding ring_mod_len [OF assms] using assms by (intro cbv_pushed_index) (auto simp: ring_def)

lemma ring_iter_from:
  "ring v E u \<Longrightarrow> and_then (CyclicBoundedVec_iter_from u (CyclicBoundedVec_last_index v))
     CyclicBoundedVecIterator_drain = Ok (last (cbv_list v) # E)"
  unfolding ring_def by (rule cbv_pushed_iter_from) auto


section \<open>Patching along a list of insertions\<close>

type_synonym imt_step = "IndexedChangelogEntry \<times> IndexedChangelogEntry"

definition flat :: "imt_step list \<Rightarrow> IndexedChangelogEntry list" where
  "flat steps = concat (map (\<lambda>(a, b). [a, b]) steps)"

lemma flat_simps [simp]: "flat [] = []" "flat (ab # steps) = fst ab # snd ab # flat steps"
  "flat (steps @ steps') = flat steps @ flat steps'" "length (flat steps) = 2 * length steps"
  by (auto simp: flat_def case_prod_unfold length_concat comp_def sum_list_triv)

abbreviation entry_index :: "IndexedChangelogEntry \<Rightarrow> nat" where
  "entry_index e \<equiv> rie_index (ice_element e)"

abbreviation entry_next_value :: "IndexedChangelogEntry \<Rightarrow> nat" where
  "entry_next_value e \<equiv> from_bytes_be (rie_next_value (ice_element e))"

text \<open>The proof copied from an entry.\<close>

definition copied :: "bytes BoundedVec \<Rightarrow> bytes list \<Rightarrow> bytes BoundedVec" where
  "copied p xs = (case imt_copy_proof p xs :: (unit, _) result of Ok p' \<Rightarrow> p' | _ \<Rightarrow> p)"

lemma copy_proof_steps:
  assumes "bv_inv p" "BoundedVec_len p \<le> length xs" "n \<le> BoundedVec_len p"
  shows "\<exists>p'. try_fold (\<lambda>p i. and_then (index xs i) (\<lambda>x. BoundedVec_index_set p i x)) p [0..<n] = (Ok p' :: ('e, _) result) \<and>
    bv_inv p' \<and> BoundedVec_capacity p' = BoundedVec_capacity p \<and> BoundedVec_len p' = BoundedVec_len p \<and>
    BoundedVec_as_slice p' = take n xs @ drop n (BoundedVec_as_slice p)"
  using assms(3)
proof (induction n)
  case (Suc n)
  then obtain q where q: "try_fold (\<lambda>p i. and_then (index xs i) (\<lambda>x. BoundedVec_index_set p i x)) p [0..<n] = (Ok q :: ('e, _) result)"
    "bv_inv q" "BoundedVec_capacity q = BoundedVec_capacity p" "BoundedVec_len q = BoundedVec_len p"
    "BoundedVec_as_slice q = take n xs @ drop n (BoundedVec_as_slice p)" by auto
  have n: "n < length xs" "n < BoundedVec_len q" "n < length (BoundedVec_as_slice p)"
    using Suc.prems assms q(4) by simp_all
  obtain q' where q': "BoundedVec_index_set q n (xs ! n) = (Ok q' :: ('e, _) result)"
    using n(2) by (auto simp: BoundedVec_index_set_Ok)
  note set = BoundedVec_index_set_as_slice [OF q' q(2)]
  have "BoundedVec_as_slice q' = take (Suc n) xs @ drop (Suc n) (BoundedVec_as_slice p)"
    unfolding set(2) q(5) using n(1,3)
    by (simp add: list_update_append take_Suc_conv_app_nth Cons_nth_drop_Suc [symmetric])
  then show ?case using q(1) q' set(1,3,4) q(3,4) n(1) by (simp add: try_fold_append index_eval)
qed (use assms(1) in simp)

lemma copy_proof_spec:
  assumes "bv_inv p" "BoundedVec_len p = length xs"
  shows "imt_copy_proof p xs = (Ok (copied p xs) :: ('e, _) result)" "bv_inv (copied p xs)"
    "BoundedVec_capacity (copied p xs) = BoundedVec_capacity p" "BoundedVec_as_slice (copied p xs) = xs"
proof -
  obtain p1 where p1: "imt_copy_proof p xs = (Ok p1 :: (unit, _) result)" "bv_inv p1"
    "BoundedVec_capacity p1 = BoundedVec_capacity p" "BoundedVec_as_slice p1 = xs"
    using copy_proof_steps [OF assms(1), of xs "BoundedVec_len p", where 'e = unit] assms
    by (auto simp: imt_copy_proof_def)
  have lift: "try_fold (\<lambda>p i. and_then (index xs i) (\<lambda>x. BoundedVec_index_set p i x)) p is = (Ok q :: (unit, _) result) \<Longrightarrow>
      try_fold (\<lambda>p i. and_then (index xs i) (\<lambda>x. BoundedVec_index_set p i x)) p is = (Ok q :: ('e, _) result)" for q "is" p
    by (induction "is" arbitrary: p) (auto simp: and_then_eq_Ok BoundedVec_index_set_Ok)
  show "imt_copy_proof p xs = (Ok (copied p xs) :: ('e, _) result)"
    using lift p1(1) by (simp add: copied_def imt_copy_proof_def)
  show "bv_inv (copied p xs)" "BoundedVec_capacity (copied p xs) = BoundedVec_capacity p"
    "BoundedVec_as_slice (copied p xs) = xs" using p1 by (simp_all add: copied_def)
qed

text \<open>One insertion seen by a caller whose low element it concerns.\<close>

definition patch_step :: "Patch \<Rightarrow> imt_step \<Rightarrow> Patch" where
  "patch_step s = (\<lambda>(a, b).
     if entry_index a \<noteq> ie_index (pt_low_element s) then s
     else if entry_next_value a < ie_value (pt_new_element s) then
       s\<lparr>pt_changelog_index := ice_changelog_index b,
         pt_low_element := \<lparr>ie_index = entry_index b, ie_value = entry_next_value a,
                            ie_next_index = rie_next_index (ice_element b)\<rparr>,
         pt_low_leaf_proof := copied (pt_low_leaf_proof s) (ice_proof b),
         pt_new_element := (pt_new_element s)\<lparr>ie_next_index := rie_next_index (ice_element b)\<rparr>\<rparr>
     else
       s\<lparr>pt_changelog_index := ice_changelog_index a,
         pt_new_element := (pt_new_element s)\<lparr>ie_next_index := rie_next_index (ice_element a)\<rparr>,
         pt_low_element := IndexedElement_update_from_raw_element (pt_low_element s) (ice_element a),
         pt_low_element_next_value := entry_next_value a,
         pt_low_leaf_proof := copied (pt_low_leaf_proof s) (ice_proof a)\<rparr>)"

definition steps_ok :: "nat \<Rightarrow> nat \<Rightarrow> imt_step list \<Rightarrow> bool" where
  "steps_ok NET n steps \<longleftrightarrow> map (entry_index \<circ> snd) steps = [n..<n + length steps] \<and>
     (\<forall>(a, b) \<in> set steps. length (ice_proof a) = NET \<and> length (ice_proof b) = NET)"

lemma steps_ok_Cons:
  "steps_ok NET n ((a, b) # steps) \<longleftrightarrow> entry_index b = n \<and> length (ice_proof a) = NET \<and>
     length (ice_proof b) = NET \<and> steps_ok NET (Suc n) steps"
  by (auto simp: steps_ok_def upt_conv_Cons simp del: upt_Suc)

definition proof_len :: "nat \<Rightarrow> Patch \<Rightarrow> bool" where
  "proof_len NET s \<longleftrightarrow> bv_inv (pt_low_leaf_proof s) \<and> BoundedVec_len (pt_low_leaf_proof s) = NET"

lemma copied_len:
  "bv_inv p \<Longrightarrow> BoundedVec_len p = NET \<Longrightarrow> length xs = NET \<Longrightarrow> bv_inv (copied p xs) \<and> BoundedVec_len (copied p xs) = NET"
  using copy_proof_spec [of p xs] length_as_slice [of "copied p xs"] by simp

lemma patch_step_len: "steps_ok NET n [ab] \<Longrightarrow> proof_len NET s \<Longrightarrow> proof_len NET (patch_step s ab)"
  by (cases ab) (auto simp: patch_step_def proof_len_def steps_ok_Cons copied_len)

text \<open>What follows the loop in \<open>patch_elements_and_proof\<close>.\<close>

definition patch_continue ::
  "nat \<Rightarrow> IndexedMerkleTree \<Rightarrow> Patch \<times> (nat \<times> nat) option \<Rightarrow> (IndexedMerkleTreeError, Patch) result" where
  "patch_continue d t = (\<lambda>(s, r). case r of
       Some (i, v) \<Rightarrow> and_then (imt_patch_restart t s i v) (imt_patch_on_stack d t i)
     | None \<Rightarrow> Ok s)"

lemma patch_loop_steps:
  assumes IH: "\<And>w rest s' n'. ring w (flat rest) (imt_indexed_changelog t) \<Longrightarrow> length rest < d \<Longrightarrow>
      steps_ok NET n' rest \<Longrightarrow> ie_index (pt_low_element s') < n' \<Longrightarrow> proof_len NET s' \<Longrightarrow>
      imt_patch_on_stack d t (CyclicBoundedVec_last_index w) s' = Ok (foldl patch_step s' rest)"
  shows "ring v (flat (pre @ steps)) (imt_indexed_changelog t) \<Longrightarrow> length steps \<le> d \<Longrightarrow>
    steps_ok NET n steps \<Longrightarrow> ie_index (pt_low_element s) < n \<Longrightarrow> proof_len NET s \<Longrightarrow>
    and_then (imt_patch_loop t s
      (map (\<lambda>(i, e). (CyclicBoundedVec_last_index v + 1 + i) mod CyclicBoundedVec_len (imt_indexed_changelog t))
        (filter (\<lambda>(i, e). entry_index e = ie_index (pt_low_element s)) (enumerate (2 * length pre) (flat steps)))))
      (patch_continue d t) = Ok (foldl patch_step s steps)"
proof (induction steps arbitrary: pre s n)
  case Nil
  then show ?case by (simp add: patch_continue_def)
next
  case (Cons ab steps)
  obtain a b where ab: "ab = (a, b)" by force
  let ?cl = "imt_indexed_changelog t" and ?j = "ie_index (pt_low_element s)"
  let ?pos = "\<lambda>i. (CyclicBoundedVec_last_index v + 1 + i) mod CyclicBoundedVec_len ?cl"
  let ?q = "2 * length pre"
  have ok: "entry_index b = n" "length (ice_proof a) = NET" "length (ice_proof b) = NET" "steps_ok NET (Suc n) steps"
    using Cons.prems(3) by (auto simp: ab steps_ok_Cons)
  have r': "ring v (flat ((pre @ [ab]) @ steps)) ?cl" using Cons.prems(1) by simp
  note p = Cons.prems(5) [unfolded proof_len_def]
  have ea: "CyclicBoundedVec_index ?cl (?pos ?q) = (Ok a :: (IndexedMerkleTreeError, _) result)"
    "CyclicBoundedVec_index ?cl (?pos (Suc ?q)) = (Ok b :: (IndexedMerkleTreeError, _) result)"
    using ring_index [OF Cons.prems(1), of ?q] ring_index [OF Cons.prems(1), of "Suc ?q"] by (simp_all add: ab nth_append)
  show ?case
  proof (cases "entry_index a = ?j")
    case False
    have "patch_step s ab = s" using False by (simp add: patch_step_def ab)
    then show ?thesis using Cons.IH [OF r' _ ok(4), of s] Cons.prems(2,4,5) False ok(1) by (simp add: ab)
  next
    case True
    show ?thesis
    proof (cases "entry_next_value a < ie_value (pt_new_element s)")
      case lt: True
      obtain w where w: "ring w (flat steps) ?cl"
        "CyclicBoundedVec_last_index w = (CyclicBoundedVec_last_index v + (?q + 2)) mod CyclicBoundedVec_capacity v"
        using ring_split [of v "flat (pre @ [ab])" "flat steps" ?cl] Cons.prems(1) by auto
      have pos: "(?pos ?q + 1) mod CyclicBoundedVec_len ?cl = ?pos (Suc ?q)"
        using mod_add_left_eq [of "CyclicBoundedVec_last_index v + 1 + ?q" "CyclicBoundedVec_len ?cl" 1] by simp
      have wpos: "?pos (Suc ?q) = CyclicBoundedVec_last_index w"
        using ring_mod_len [OF Cons.prems(1), of "Suc ?q"] w(2) by simp
      have rs: "imt_patch_restart t s (?pos (Suc ?q)) (entry_next_value a) = Ok (patch_step s ab)"
        using True lt p ok(3) ea(2) by (simp add: imt_patch_restart_def patch_step_def ab Let_def copy_proof_spec(1))
      have "ie_index (pt_low_element (patch_step s ab)) < Suc n" using True lt ok(1) by (simp add: patch_step_def ab)
      then have "imt_patch_on_stack d t (CyclicBoundedVec_last_index w) (patch_step s ab) =
          Ok (foldl patch_step (patch_step s ab) steps)"
        using Cons.prems(2,5) patch_step_len [of NET n ab s] ok by (intro IH [OF w(1) _ ok(4)]) (simp_all add: ab steps_ok_Cons steps_ok_def)
      then show ?thesis using True lt ea(1) pos rs wpos
        by (simp add: ab patch_continue_def del: add_Suc_right mod_Suc_eq)
    next
      case ge: False
      have "ie_index (pt_low_element (patch_step s ab)) = ?j"
        using True ge by (simp add: patch_step_def ab IndexedElement_update_from_raw_element_def)
      moreover have "proof_len NET (patch_step s ab)"
        using Cons.prems(5) patch_step_len [of NET n ab s] ok by (simp add: ab steps_ok_Cons steps_ok_def)
      ultimately show ?thesis using Cons.IH [OF r' _ ok(4), of "patch_step s ab"] Cons.prems(2,4) True ge ea(1) p ok
        by (simp add: ab patch_step_def Let_def copy_proof_spec(1))
    qed
  qed
qed

lemma patch_elements_steps:
  "ring v (flat steps) (imt_indexed_changelog t) \<Longrightarrow> length steps < d \<Longrightarrow> steps_ok NET n steps \<Longrightarrow>
     ie_index (pt_low_element s) < n \<Longrightarrow> proof_len NET s \<Longrightarrow>
     imt_patch_on_stack d t (CyclicBoundedVec_last_index v) s = Ok (foldl patch_step s steps)"
proof (induction d arbitrary: v steps n s)
  case (Suc d)
  have "imt_patch_indices t (CyclicBoundedVec_last_index v) (ie_index (pt_low_element s)) =
      Ok (map (\<lambda>(i, e). (CyclicBoundedVec_last_index v + 1 + i) mod CyclicBoundedVec_len (imt_indexed_changelog t))
        (filter (\<lambda>(i, e). entry_index e = ie_index (pt_low_element s)) (enumerate 0 (flat steps))))"
    using ring_iter_from [OF Suc.prems(1)] by (simp add: imt_patch_indices_def)
  then show ?case
    using patch_loop_steps [where t = t and d = d and NET = NET and v = v and pre = "[]" and steps = steps
        and n = n and s = s, OF Suc.IH] Suc.prems
    by (simp add: patch_continue_def)
qed simp


section \<open>The caller's view stays correct\<close>

text \<open>The low element of a patch is that of \<open>v\<close> in the chain.\<close>

definition low_of :: "(nat \<times> nat) list \<Rightarrow> nat \<Rightarrow> Patch \<Rightarrow> bool" where
  "low_of xs v s \<longleftrightarrow> ie_index (pt_low_element s) < length xs \<and>
     (ie_value (pt_low_element s), ie_next_index (pt_low_element s), pt_low_element_next_value s) =
       chain_elem xs (ie_index (pt_low_element s)) \<and>
     in_range xs (ie_index (pt_low_element s)) v \<and> ie_value (pt_new_element s) = v \<and>
     ie_next_index (pt_new_element s) = snd (xs ! ie_index (pt_low_element s))"

text \<open>
  The changelog index and the proof of a patch are those of an earlier concurrent tree, since which
  the low leaf has not changed; \<open>k\<close> more entries fit before the changelog forgets that tree.
\<close>

definition proof_of :: "Hasher \<Rightarrow> nat \<Rightarrow> nat \<Rightarrow> Patch \<Rightarrow> ConcurrentMerkleTree \<Rightarrow> bytes list \<Rightarrow> nat \<Rightarrow> bool" where
  "proof_of H h NET s mt ls k \<longleftrightarrow> (\<exists>mt0 ls0 es. cmt_base h mt0 \<and> pt_changelog_index s = cmt_changelog_index mt0 \<and>
     cbv_pushed (cmt_changelog mt0) es (cmt_changelog mt) \<and>
     length es + k < CyclicBoundedVec_capacity (cmt_changelog mt0) \<and> explains H h es ls0 ls \<and>
     (\<forall>e \<in> set es. entry_wf h e) \<and> ie_index (pt_low_element s) \<notin> cle_index ` set es \<and>
     bv_inv (pt_low_leaf_proof s) \<and> BoundedVec_capacity (pt_low_leaf_proof s) = h \<and>
     BoundedVec_as_slice (pt_low_leaf_proof s) = take NET (merkle_proof H h ls0 (ie_index (pt_low_element s))))"

lemma in_range_elem: "in_range xs j v \<longleftrightarrow> (case chain_elem xs j of (a, n, b) \<Rightarrow> a < v \<and> (n \<noteq> 0 \<longrightarrow> v < b))"
  by (simp add: in_range_def chain_elem_def)

lemma merkle_proof_update_own: "merkle_proof H h (ls[j := x]) j = merkle_proof H h ls j"
  by (simp add: merkle_proof_def sibling_update)

lemma inserted_bounds:
  assumes "inserted H h NET xs ls j v t ls' t' mt1" "chain xs"
  shows "v < 256 ^ 32" "fst (xs ! j) < 256 ^ 32" "j < length xs" "in_range xs j v"
proof -
  have j: "j < length xs" "in_range xs j v" and rep: "imt_rep H h t' (chain_insert xs j v) ls'"
    using assms(1) by (auto simp: inserted_def)
  have "elem_hash H (chain_elem (chain_insert xs j v) j) = Ok (ls' ! j)"
    using rep j(1) chain_insert_nth(1) [OF j(1), of v] by (simp add: imt_rep_def)
  then show "v < 256 ^ 32" "fst (xs ! j) < 256 ^ 32" "j < length xs" "in_range xs j v"
    using elem_hash_bound j unfolding chain_elem_insert(1) [OF assms(2) j(1)] by blast+
qed

lemma step_low_of:
  assumes ins: "inserted H h NET xs ls j v' t ls' t' mt1" and c: "chain xs" and s: "low_of xs v s" and ne: "v \<noteq> v'"
  shows "low_of (chain_insert xs j v') v (patch_step s (low_entry H h NET xs ls j v' c1, new_entry H h NET xs ls' j v' c2))"
proof -
  note b = inserted_bounds [OF ins c]
  let ?i = "ie_index (pt_low_element s)"
  have i: "?i < length xs" "(ie_value (pt_low_element s), ie_next_index (pt_low_element s), pt_low_element_next_value s) = chain_elem xs ?i"
    "in_range xs ?i v" "ie_value (pt_new_element s) = v" "ie_next_index (pt_new_element s) = snd (xs ! ?i)"
    using s by (auto simp: low_of_def)
  note nth = chain_insert_nth [OF b(3)] and fb = from_bytes_be_32 [OF b(1)] from_bytes_be_32 [OF b(2)]
  show ?thesis
  proof (cases "?i = j")
    case False
    then have "chain_elem (chain_insert xs j v') ?i = chain_elem xs ?i" using chain_elem_insert(3) [OF c b(3) i(1)] by simp
    then show ?thesis using False i nth
      by (simp add: low_of_def patch_step_def low_entry_def in_range_elem)
  next
    case True
    note e = i(2) [unfolded True chain_elem_def]
    show ?thesis
    proof (cases "v' < v")
      case lt: True
      then show ?thesis using True i e fb b nth chain_elem_insert(2) [OF c b(3), of v']
        by (auto simp: low_of_def patch_step_def low_entry_def new_entry_def in_range_elem chain_elem_def)
    next
      case False
      then have "v < v'" using ne by simp
      then show ?thesis using True i e fb b nth chain_elem_insert(1) [OF c b(3), of v']
        by (auto simp: low_of_def patch_step_def low_entry_def in_range_elem chain_elem_def
            IndexedElement_update_from_raw_element_def)
    qed
  qed
qed

lemma inserted_changelog:
  assumes ins: "inserted H h NET xs ls j v t ls' t' mt1" and rep: "imt_rep H h t xs ls"
  obtains ll nl where "ls' = ls[j := ll] @ [nl]" "updated H h (ls[j := ll]) j (imt_merkle_tree t) mt1"
    "cbv_pushed (cmt_changelog (imt_merkle_tree t)) [update_entry H h (ls[j := ll]) j] (cmt_changelog mt1)"
    "cbv_pushed (cmt_changelog mt1) (batch_entries H h (ls[j := ll]) [nl]) (cmt_changelog (imt_merkle_tree t'))"
    "explains H h [update_entry H h (ls[j := ll]) j] ls (ls[j := ll])"
    "explains H h (batch_entries H h (ls[j := ll]) [nl]) (ls[j := ll]) ls'"
    "entry_wf h (update_entry H h (ls[j := ll]) j)" "\<forall>e \<in> set (batch_entries H h (ls[j := ll]) [nl]). entry_wf h e"
    "cle_index ` set (batch_entries H h (ls[j := ll]) [nl]) = {length xs}"
    "cle_index (update_entry H h (ls[j := ll]) j) = j"
proof -
  obtain ll nl where l: "j < length xs" "ls' = ls[j := ll] @ [nl]" "imt_rep H h t' (chain_insert xs j v) ls'"
    "updated H h (ls[j := ll]) j (imt_merkle_tree t) mt1"
    "cbv_pushed (cmt_changelog mt1) (batch_entries H h (ls[j := ll]) [nl]) (cmt_changelog (imt_merkle_tree t'))"
    using ins by (auto simp: inserted_def)
  have len: "length ls = length xs" "length ls' \<le> 2 ^ h"
    using rep l(3) by (auto simp: imt_rep_def cmt_rep_def)
  have "j < 2 ^ h" using l(1,2) len by simp
  show thesis
    using l len \<open>j < 2 ^ h\<close> batch_explains [of "[nl]" H h "ls[j := ll]"] batch_entries_wf [of "ls[j := ll]" "[nl]" h]
    by (intro that [of ll nl] update_explains update_entry_wf)
      (auto simp: updated_def append_entry_def update_entry_def)
qed

lemma step_proof_of:
  assumes ins: "inserted H h NET xs ls j v' t ls' t' mt1" and rep: "imt_rep H h t xs ls" and s: "low_of xs v s"
    and pr: "proof_of H h NET s (imt_merkle_tree t) ls (k + 2)" and NET: "NET \<le> h"
  shows "proof_of H h NET (patch_step s (low_entry H h NET xs ls j v' (cmt_changelog_index mt1),
    new_entry H h NET xs ls' j v' (cmt_changelog_index (imt_merkle_tree t')))) (imt_merkle_tree t') ls' k"
proof -
  let ?i = "ie_index (pt_low_element s)" and ?mt = "imt_merkle_tree t" and ?mt' = "imt_merkle_tree t'"
  have i: "?i < length xs" "chain xs" using s rep by (auto simp: low_of_def imt_rep_def)
  from inserted_changelog [OF ins rep] obtain ll nl where l: "ls' = ls[j := ll] @ [nl]"
    and up: "updated H h (ls[j := ll]) j ?mt mt1"
    and c1: "cbv_pushed (cmt_changelog ?mt) [update_entry H h (ls[j := ll]) j] (cmt_changelog mt1)"
    and c2: "cbv_pushed (cmt_changelog mt1) (batch_entries H h (ls[j := ll]) [nl]) (cmt_changelog ?mt')"
    and e1: "explains H h [update_entry H h (ls[j := ll]) j] ls (ls[j := ll])"
    and e2: "explains H h (batch_entries H h (ls[j := ll]) [nl]) (ls[j := ll]) ls'"
    and wf: "entry_wf h (update_entry H h (ls[j := ll]) j)" "\<forall>e \<in> set (batch_entries H h (ls[j := ll]) [nl]). entry_wf h e"
    and ix: "cle_index ` set (batch_entries H h (ls[j := ll]) [nl]) = {length xs}"
      "cle_index (update_entry H h (ls[j := ll]) j) = j" by metis
  obtain mt0 ls0 es where pr: "cmt_base h mt0" "pt_changelog_index s = cmt_changelog_index mt0"
     "cbv_pushed (cmt_changelog mt0) es (cmt_changelog ?mt)"
     "length es + (k + 2) < CyclicBoundedVec_capacity (cmt_changelog mt0)" "explains H h es ls0 ls"
     "\<forall>e \<in> set es. entry_wf h e" "?i \<notin> cle_index ` set es"
     "bv_inv (pt_low_leaf_proof s)" "BoundedVec_capacity (pt_low_leaf_proof s) = h"
     "BoundedVec_as_slice (pt_low_leaf_proof s) = take NET (merkle_proof H h ls0 ?i)"
    using pr by (auto simp: proof_of_def)
  have cap: "CyclicBoundedVec_capacity (cmt_changelog mt1) = CyclicBoundedVec_capacity (cmt_changelog mt0)"
    "CyclicBoundedVec_capacity (cmt_changelog ?mt') = CyclicBoundedVec_capacity (cmt_changelog mt0)"
    using c1 c2 pr(3) by (auto simp: cbv_pushed_def)
  have plen: "BoundedVec_len (pt_low_leaf_proof s) = NET" using arg_cong [OF pr(10), of length] pr(8) NET by simp
  note b = inserted_bounds [OF ins i(2)] and cp = copy_proof_spec(2-4) [OF pr(8)]
  have v': "from_bytes_be (be_bytes 32 v') = v'" using from_bytes_be_32 [OF b(1)] .
  have base: "cmt_base h mt1" "cmt_base h ?mt'" using up ins by (auto simp: updated_def inserted_def imt_rep_def cmt_rep_def)
  show ?thesis
  proof (cases "?i = j")
    case False
    let ?es = "es @ [update_entry H h (ls[j := ll]) j] @ batch_entries H h (ls[j := ll]) [nl]"
    have "cbv_pushed (cmt_changelog mt0) ?es (cmt_changelog ?mt')"
      using cbv_pushed_trans [OF pr(3) cbv_pushed_trans [OF c1 c2]] .
    moreover have "explains H h ?es ls0 ls'" using explains_trans [OF pr(5) explains_trans [OF e1 e2]] .
    moreover have "\<forall>e \<in> set ?es. entry_wf h e" using pr(6) wf by auto
    moreover have "?i \<notin> cle_index ` set ?es" using pr(7) False ix i(1) unfolding set_append image_Un by auto
    moreover have "length ?es + k < CyclicBoundedVec_capacity (cmt_changelog mt0)" using pr(4) by simp
    ultimately show ?thesis using pr(1,2,8-10) False unfolding proof_of_def
      by (intro exI [of _ mt0] exI [of _ ls0] exI [of _ ?es]) (simp add: patch_step_def low_entry_def)
  next
    case True
    show ?thesis
    proof (cases "v' < ie_value (pt_new_element s)")
      case lt: True
      have "cbv_inv (cmt_changelog ?mt')" using base by (simp add: cmt_base_def)
      then show ?thesis using base(2) pr(4,9) cap(2) cp plen NET True lt v' unfolding proof_of_def
        by (intro exI [of _ ?mt'] exI [of _ ls'] exI [of _ "[]"])
          (simp add: patch_step_def low_entry_def new_entry_def explains_refl cbv_pushed_refl)
    next
      case ge: False
      then show ?thesis using base(1) pr(4,9) cap(1) cp plen NET True v' c2 e2 wf(2) ix(1) i(1) unfolding proof_of_def
        by (intro exI [of _ mt1] exI [of _ "ls[j := ll]"] exI [of _ "batch_entries H h (ls[j := ll]) [nl]"])
          (simp add: patch_step_def low_entry_def merkle_proof_update_own IndexedElement_update_from_raw_element_def)
    qed
  qed
qed


section \<open>Runs of insertions\<close>

inductive imt_run ::
  "Hasher \<Rightarrow> nat \<Rightarrow> nat \<Rightarrow> IndexedMerkleTree \<Rightarrow> (nat \<times> nat) list \<Rightarrow> bytes list \<Rightarrow> imt_step list \<Rightarrow>
     IndexedMerkleTree \<Rightarrow> (nat \<times> nat) list \<Rightarrow> bytes list \<Rightarrow> bool"
  for H h NET where
  run_nil: "imt_run H h NET t xs ls [] t xs ls"
| run_cons: "inserted H h NET xs ls j v t ls1 t1 mt1 \<Longrightarrow>
    imt_run H h NET t1 (chain_insert xs j v) ls1 steps t' xs' ls' \<Longrightarrow>
    imt_run H h NET t xs ls ((low_entry H h NET xs ls j v (cmt_changelog_index mt1),
      new_entry H h NET xs ls1 j v (cmt_changelog_index (imt_merkle_tree t1))) # steps) t' xs' ls'"

inductive_cases run_nilE: "imt_run H h NET t xs ls [] t' xs' ls'"

lemma run_rep:
  "imt_run H h NET t xs ls steps t' xs' ls' \<Longrightarrow> imt_rep H h t xs ls \<Longrightarrow> imt_rep H h t' xs' ls'"
  by (induction rule: imt_run.induct) (auto simp: inserted_def)

lemma run_values:
  "imt_run H h NET t xs ls steps t' xs' ls' \<Longrightarrow> map fst xs' = map fst xs @ map (entry_next_value \<circ> fst) steps"
proof (induction rule: imt_run.induct)
  case (run_cons xs ls j v t ls1 t1 mt1 steps t' xs' ls')
  obtain ll nl where j: "j < length xs" and rep: "imt_rep H h t1 (chain_insert xs j v) ls1"
    using run_cons(1) by (auto simp: inserted_def)
  have n: "chain_insert xs j v ! length xs = (v, snd (xs ! j))" "length (chain_insert xs j v) = Suc (length xs)"
    using chain_insert_nth(1,4) [OF j] by auto
  have "elem_hash H (chain_elem (chain_insert xs j v) (length xs)) = Ok (ls1 ! length xs)"
    using rep n(2) by (simp add: imt_rep_def)
  then have "v < 256 ^ 32" using elem_hash_bound n(1) by (auto simp: chain_elem_def)
  then show ?case using run_cons.IH chain_insert_nth(5) [OF j, of v] by (simp add: low_entry_def from_bytes_be_32)
qed simp

lemma run_changelog:
  "imt_run H h NET t xs ls steps t' xs' ls' \<Longrightarrow> imt_rep H h t xs ls \<Longrightarrow> NET \<le> h \<Longrightarrow>
    cbv_pushed (imt_indexed_changelog t) (flat steps) (imt_indexed_changelog t') \<and> steps_ok NET (length xs) steps \<and>
    cmt_canopy_depth (imt_merkle_tree t') = cmt_canopy_depth (imt_merkle_tree t) \<and>
    cmt_sequence_number (imt_merkle_tree t') = cmt_sequence_number (imt_merkle_tree t) + 2 * length steps"
proof (induction rule: imt_run.induct)
  case (run_nil t xs ls)
  then show ?case by (simp add: cbv_pushed_refl imt_rep_def steps_ok_def)
next
  case (run_cons xs ls j v t ls1 t1 mt1 steps t' xs' ls')
  have i: "j < length xs" "imt_rep H h t1 (chain_insert xs j v) ls1"
    "cmt_sequence_number (imt_merkle_tree t1) = cmt_sequence_number (imt_merkle_tree t) + 2"
    "cmt_canopy_depth (imt_merkle_tree t1) = cmt_canopy_depth (imt_merkle_tree t)"
    "cbv_pushed (imt_indexed_changelog t) [low_entry H h NET xs ls j v (cmt_changelog_index mt1),
       new_entry H h NET xs ls1 j v (cmt_changelog_index (imt_merkle_tree t1))] (imt_indexed_changelog t1)"
    using run_cons(1) by (auto simp: inserted_def)
  note IH = run_cons.IH [OF i(2) run_cons.prems(2)]
  show ?case using IH i(1,3,4) cbv_pushed_trans [OF i(5), of "flat steps"] chain_insert_nth(1) [OF i(1), of v] run_cons.prems(2)
    by (simp add: steps_ok_Cons low_entry_def new_entry_def)
qed

lemma run_patch:
  "imt_run H h NET t xs ls steps t' xs' ls' \<Longrightarrow> imt_rep H h t xs ls \<Longrightarrow> NET \<le> h \<Longrightarrow> v \<notin> fst ` set xs' \<Longrightarrow>
    low_of xs v s \<Longrightarrow> proof_of H h NET s (imt_merkle_tree t) ls (2 * length steps) \<Longrightarrow>
    low_of xs' v (foldl patch_step s steps) \<and> proof_of H h NET (foldl patch_step s steps) (imt_merkle_tree t') ls' 0 \<and>
    ie_index (pt_new_element (foldl patch_step s steps)) = ie_index (pt_new_element s)"
proof (induction arbitrary: s rule: imt_run.induct)
  case (run_cons xs ls j w t ls1 t1 mt1 steps t' xs' ls')
  let ?ab = "(low_entry H h NET xs ls j w (cmt_changelog_index mt1),
      new_entry H h NET xs ls1 j w (cmt_changelog_index (imt_merkle_tree t1)))"
  have c: "chain xs" using run_cons.prems(1) by (simp add: imt_rep_def)
  have i: "j < length xs" "imt_rep H h t1 (chain_insert xs j w) ls1" using run_cons(1) by (auto simp: inserted_def)
  have "w \<in> set (map fst xs')"
    using run_values [OF run_cons(2)] chain_insert_nth(5) [OF i(1), of w] by simp
  then have ne: "v \<noteq> w" using run_cons.prems(3) by auto
  have lo: "low_of (chain_insert xs j w) v (patch_step s ?ab)"
    by (rule step_low_of [OF run_cons(1) c run_cons.prems(4) ne])
  have pr: "proof_of H h NET (patch_step s ?ab) (imt_merkle_tree t1) ls1 (2 * length steps)"
    using run_cons.prems(5) by (intro step_proof_of [OF run_cons(1) run_cons.prems(1,4) _ run_cons.prems(2)]) simp
  have "ie_index (pt_new_element (patch_step s ?ab)) = ie_index (pt_new_element s)" by (simp add: patch_step_def)
  then show ?case using run_cons.IH [OF i(2) run_cons.prems(2,3) lo pr] by simp
qed simp

text \<open>Where the caller starts: its low element and proof in the tree it looked at.\<close>

lemma start_proof_of:
  assumes "imt_rep H h t xs ls" "bv_inv p" "BoundedVec_capacity p = h"
    "BoundedVec_as_slice p = take NET (merkle_proof H h ls (ie_index (pt_low_element s)))"
    "pt_low_leaf_proof s = p" "pt_changelog_index s = cmt_changelog_index (imt_merkle_tree t)"
    "k < CyclicBoundedVec_capacity (cmt_changelog (imt_merkle_tree t))"
  shows "proof_of H h NET s (imt_merkle_tree t) ls k"
proof -
  have b: "cmt_base h (imt_merkle_tree t)" using assms(1) by (simp add: imt_rep_def cmt_rep_def)
  then have "cbv_inv (cmt_changelog (imt_merkle_tree t))" by (simp add: cmt_base_def)
  then show ?thesis using assms b unfolding proof_of_def
    by (intro exI [of _ "imt_merkle_tree t"] exI [of _ ls] exI [of _ "[]"]) (simp add: explains_refl cbv_pushed_refl)
qed

lemma proof_of_update:
  assumes rep: "imt_rep H h t xs ls" and pr: "proof_of H h NET s (imt_merkle_tree t) ls 0"
    and j: "ie_index (pt_low_element s) = j" "j < length xs" and NET: "NET = h - cmt_canopy_depth (imt_merkle_tree t)"
    and sn: "cmt_sequence_number (imt_merkle_tree t) + 1 < u64_bound" and hs: "hashable H h (ls[j := new])"
  shows "\<exists>mt1 p'. cmt_update h H (imt_merkle_tree t) (pt_changelog_index s) (ls ! j) new j (pt_low_leaf_proof s) =
      Ok (mt1, p', cmt_changelog_index mt1, cmt_sequence_number mt1) \<and>
    updated H h (ls[j := new]) j (imt_merkle_tree t) mt1 \<and> BoundedVec_as_slice p' = merkle_proof H h ls j"
proof -
  have mt: "cmt_rep H h (imt_merkle_tree t) ls" "length ls = length xs" using rep by (auto simp: imt_rep_def)
  obtain mt0 ls0 es where p: "cmt_base h mt0" "pt_changelog_index s = cmt_changelog_index mt0"
     "cbv_pushed (cmt_changelog mt0) es (cmt_changelog (imt_merkle_tree t))"
     "length es < CyclicBoundedVec_capacity (cmt_changelog mt0)" "explains H h es ls0 ls"
     "\<forall>e \<in> set es. entry_wf h e" "j \<notin> cle_index ` set es"
     "bv_inv (pt_low_leaf_proof s)" "BoundedVec_capacity (pt_low_leaf_proof s) = h"
     "BoundedVec_as_slice (pt_low_leaf_proof s) = take NET (merkle_proof H h ls0 j)"
    using pr j(1) by (auto simp: proof_of_def)
  from update_concurrent [OF p(1) mt(1) p(3-6) p(8), of j "ls ! j" new] p(2,7,9,10) NET j(2) mt(2) sn hs
  show ?thesis by auto
qed


section \<open>A small run\<close>

text \<open>The sample hasher with the leaf of the zero element, and a tree of height 3 over it.\<close>

definition sample_indexed :: Hasher where
  "sample_indexed = sample_hasher\<lparr>zero_indexed_leaf := sample_hash [replicate 32 0, replicate 8 0, replicate 32 0]\<rparr>"

lemma sample_indexed_laws:
  "zero_chain sample_indexed" "indexed_zero sample_indexed" "hashable sample_indexed h ls"
  using sample_zero_chain
  by (auto simp: zero_chain_def indexed_zero_def sample_indexed_def sample_hasher_def hashable_def hash_ok_iff)

lemma sample_elem_hash:
  "v < 256 ^ 32 \<Longrightarrow> nv < 256 ^ 32 \<Longrightarrow> \<exists>l. elem_hash sample_indexed (v, n, nv) = Ok l"
  by (simp add: elem_hash_def IndexedElement_hash_def bigint_be_32 sample_indexed_def sample_hasher_def)

lemma sample_indexed_tree:
  "\<exists>t0 t1 ls. imt_new 3 3 8 8 1 8 = Ok t0 \<and> imt_init 3 2 sample_indexed t0 = Ok t1 \<and>
     imt_rep sample_indexed 3 t1 [(0, 0)] ls \<and> cmt_sequence_number (imt_merkle_tree t1) = 1 \<and>
     cmt_canopy_depth (imt_merkle_tree t1) = 1 \<and> CyclicBoundedVec_capacity (cmt_changelog (imt_merkle_tree t1)) = 8 \<and>
     CyclicBoundedVec_capacity (imt_indexed_changelog t1) = 8"
  using imt_init_rep [OF sample_indexed_laws(1,2), of 3 1 8 8 8 2] sample_indexed_laws(3)
  by (auto simp: MAX_HEIGHT_def)


section \<open>Properties\<close>

lemma update_inserted:
  assumes "zero_chain H" "imt_rep H h t xs ls" "NET \<le> h" "bv_inv p" "h \<le> BoundedVec_capacity p"
    and "imt_update depth h NET H t ci ici v low low_next p = Ok (t', p', u)"
  obtains s old where "imt_patch_elements_and_proof depth t ici
      \<lparr>pt_changelog_index = ci, pt_new_element = \<lparr>ie_index = length xs, ie_value = v, ie_next_index = ie_next_index low\<rparr>,
       pt_low_element = low, pt_low_element_next_value = low_next, pt_low_leaf_proof = p\<rparr> = Some (Ok s)"
    "IndexedElement_hash H (pt_low_element s) (pt_low_element_next_value s) = Ok old"
    "let j = ie_index (pt_low_element s) in (\<exists>ls' mt1. inserted H h NET xs ls j v t ls' t' mt1) \<or>
      elem_collision H (ie_value (pt_low_element s), ie_next_index (pt_low_element s), pt_low_element_next_value s) (chain_elem xs j) \<or>
      path_collision H h ls j old (BoundedVec_as_slice p')"
proof -
  have n: "cmt_next_index (imt_merkle_tree t) = length xs" using assms(2) by (auto simp: imt_rep_def cmt_rep_def)
  let ?s0 = "\<lparr>pt_changelog_index = ci, pt_new_element = \<lparr>ie_index = length xs, ie_value = v, ie_next_index = ie_next_index low\<rparr>,
    pt_low_element = low, pt_low_element_next_value = low_next, pt_low_leaf_proof = p\<rparr>"
  obtain s where s: "imt_patch_on_stack depth t ici ?s0 = Ok s"
    and rng: "check_low_element_range (ie_value (pt_new_element s)) (ie_value (pt_low_element s))
        (ie_next_index (pt_low_element s)) (Ok (pt_low_element_next_value s)) (\<lambda>e. e) = (Ok () :: (IndexedMerkleTreeError, _) result)"
    and ins: "imt_insert h NET H t s = Ok (t', p', u)"
    using assms(6) n by (auto simp: imt_update_def elim!: and_then_OkE)
  have ok: "patch_ok (length xs) v (BoundedVec_capacity p) s"
    using patch_elements_ok [OF s, of "length xs" v "BoundedVec_capacity p"] assms(4) by (simp add: patch_ok_def)
  then have "ie_value (pt_new_element s) = v" by (simp add: patch_ok_def)
  from insert_sound [OF assms(1,2) ok assms(5,3) ins rng [unfolded this]] show thesis
    using that s [unfolded patch_on_stack_Ok] by blast
qed

text \<open>
  C22. Whatever the caller supplies (indices, low element, next value, proof), a successful update of
  the indexed tree inserted exactly the new value behind its true predecessor: the value was absent
  before, the linked list stays sorted, and two leaves changed.  Otherwise the call exhibits an
  explicit collision: of the leaf hash on the low element it used, or of the node hash on the path.
\<close>

theorem indexed_update_sound:
  assumes "zero_chain H" "imt_rep H h t xs ls" "NET \<le> h" "bv_inv p" "h \<le> BoundedVec_capacity p"
    and "imt_update depth h NET H t ci ici v low low_next p = Ok (t', p', u)"
  shows "\<exists>s old. imt_patch_elements_and_proof depth t ici
      \<lparr>pt_changelog_index = ci, pt_new_element = \<lparr>ie_index = length xs, ie_value = v, ie_next_index = ie_next_index low\<rparr>,
       pt_low_element = low, pt_low_element_next_value = low_next, pt_low_leaf_proof = p\<rparr> = Some (Ok s) \<and>
    IndexedElement_hash H (pt_low_element s) (pt_low_element_next_value s) = Ok old \<and>
    (let j = ie_index (pt_low_element s) in
     (v \<notin> fst ` set xs \<and> (\<exists>ls'. in_range xs j v \<and> imt_rep H h t' (chain_insert xs j v) ls' \<and>
        take (length xs) (ls'[j := ls ! j]) = ls)) \<or>
     elem_collision H (ie_value (pt_low_element s), ie_next_index (pt_low_element s), pt_low_element_next_value s)
       (chain_elem xs j) \<or>
     path_collision H h ls j old (BoundedVec_as_slice p'))"
proof -
  have n: "chain xs" "length ls = length xs" using assms(2) by (auto simp: imt_rep_def)
  have "v \<notin> fst ` set xs \<and> in_range xs j v \<and> imt_rep H h t' (chain_insert xs j v) ls' \<and>
      take (length xs) (ls'[j := ls ! j]) = ls" if "inserted H h NET xs ls j v t ls' t' mt1" for j ls' mt1
    using that in_range_absent [OF n(1)] n(2) by (auto simp: inserted_def list_update_append)
  note ins = this
  show ?thesis by (rule update_inserted [OF assms]) (use ins in \<open>fastforce simp: Let_def\<close>)
qed

text \<open>
  C21. Concurrent insertions succeed: a caller that looked at the tree before other insertions (fewer
  than either changelog remembers) and supplies the low element, its next value and its proof as of
  then, inserts a value that is still absent, even when its low element was changed or is no longer
  the low element.  The recursion of the patching is at most one deeper than the insertions made
  meanwhile.
\<close>

theorem concurrent_insert_succeeds:
  assumes "zero_chain H" "imt_rep H h t0 xs0 ls0" "imt_run H h NET t0 xs0 ls0 steps t xs ls"
    and "NET = h - cmt_canopy_depth (imt_merkle_tree t0)"
    and "2 * length steps < CyclicBoundedVec_capacity (imt_indexed_changelog t0)"
    and "2 * length steps < CyclicBoundedVec_capacity (cmt_changelog (imt_merkle_tree t0))"
    and "j < length xs0" "in_range xs0 j v" "v \<notin> fst ` set xs"
    and "bv_inv p" "BoundedVec_capacity p = h" "BoundedVec_as_slice p = take NET (merkle_proof H h ls0 j)"
    and "length steps < depth" "length xs < 2 ^ h" "cmt_sequence_number (imt_merkle_tree t) + 2 < u64_bound"
    and "\<forall>k < length xs. in_range xs k v \<longrightarrow> (\<exists>ll nl. elem_hash H (fst (xs ! k), length xs, v) = Ok ll \<and>
      elem_hash H (v, snd (xs ! k), fst (xs ! snd (xs ! k))) = Ok nl \<and>
      hashable H h (ls[k := ll]) \<and> hashable H h (ls[k := ll] @ [nl]))"
  shows "\<exists>t' p' u k ls' mt1. imt_update depth h NET H t (cmt_changelog_index (imt_merkle_tree t0))
      (imt_indexed_changelog_index t0) v \<lparr>ie_index = j, ie_value = fst (xs0 ! j), ie_next_index = snd (xs0 ! j)\<rparr>
      (fst (xs0 ! snd (xs0 ! j))) p = Ok (t', p', u) \<and>
    inserted H h NET xs ls k v t ls' t' mt1"
proof -
  have NET: "NET \<le> h" using assms(4) by simp
  note rep = run_rep [OF assms(3,2)] and cl = run_changelog [OF assms(3,2) NET]
  define s0 where "s0 = \<lparr>pt_changelog_index = cmt_changelog_index (imt_merkle_tree t0),
    pt_new_element = \<lparr>ie_index = cmt_next_index (imt_merkle_tree t), ie_value = v, ie_next_index = snd (xs0 ! j)\<rparr>,
    pt_low_element = \<lparr>ie_index = j, ie_value = fst (xs0 ! j), ie_next_index = snd (xs0 ! j)\<rparr>,
    pt_low_element_next_value = fst (xs0 ! snd (xs0 ! j)), pt_low_leaf_proof = p\<rparr>"
  let ?s = "foldl patch_step s0 steps" and ?k = "ie_index (pt_low_element (foldl patch_step s0 steps))"
  have low0: "low_of xs0 v s0" using assms(7,8) by (simp add: low_of_def s0_def chain_elem_def)
  have pr0: "proof_of H h NET s0 (imt_merkle_tree t0) ls0 (2 * length steps)"
    using assms(6,10-12) by (intro start_proof_of [OF assms(2)]) (simp_all add: s0_def)
  have s: "low_of xs v ?s" "proof_of H h NET ?s (imt_merkle_tree t) ls 0"
    "ie_index (pt_new_element ?s) = length xs"
    using run_patch [OF assms(3,2) NET assms(9) low0 pr0] rep by (auto simp: s0_def imt_rep_def cmt_rep_def)
  have ring: "ring (imt_indexed_changelog t0) (flat steps) (imt_indexed_changelog t)"
    using assms(2,5) cl by (simp add: ring_def imt_rep_def)
  have "length (BoundedVec_as_slice p) = NET" using assms(12) NET by simp
  then have patch: "imt_patch_on_stack depth t (imt_indexed_changelog_index t0) s0 = Ok ?s"
    using patch_elements_steps [OF ring assms(13), of NET "length xs0" s0] cl assms(7,10)
    by (simp add: s0_def proof_len_def imt_indexed_changelog_index_def)
  have k: "?k < length xs" "in_range xs ?k v"
    and el: "(ie_value (pt_low_element ?s), ie_next_index (pt_low_element ?s), pt_low_element_next_value ?s) = chain_elem xs ?k"
    and nw: "ie_value (pt_new_element ?s) = v" "ie_next_index (pt_new_element ?s) = snd (xs ! ?k)"
    using s(1) by (auto simp: low_of_def)
  have rng: "check_low_element_range v (ie_value (pt_low_element ?s)) (ie_next_index (pt_low_element ?s))
      (Ok (pt_low_element_next_value ?s)) (\<lambda>e. e) = (Ok () :: (IndexedMerkleTreeError, _) result)"
    using k(2) el by (auto simp: check_low_element_range_def in_range_def chain_elem_def)
  obtain ll nl where l: "elem_hash H (fst (xs ! ?k), length xs, v) = Ok ll"
    "elem_hash H (v, snd (xs ! ?k), fst (xs ! snd (xs ! ?k))) = Ok nl"
    "hashable H h (ls[?k := ll])" "hashable H h (ls[?k := ll] @ [nl])" using assms(16) k by blast
  have NETt: "NET = h - cmt_canopy_depth (imt_merkle_tree t)" using cl assms(4) by simp
  obtain mt1 p' where up: "cmt_update h H (imt_merkle_tree t) (pt_changelog_index ?s) (ls ! ?k) ll ?k (pt_low_leaf_proof ?s) =
      Ok (mt1, p', cmt_changelog_index mt1, cmt_sequence_number mt1)"
    "updated H h (ls[?k := ll]) ?k (imt_merkle_tree t) mt1" "BoundedVec_as_slice p' = merkle_proof H h ls ?k"
    using proof_of_update [OF rep s(2) refl k(1) NETt _ l(3)] assms(15) by auto
  obtain t' u where "imt_insert h NET H t ?s = Ok (t', p', u)" "inserted H h NET xs ls ?k v t (ls[?k := ll] @ [nl]) t' mt1"
    using insert_complete [OF assms(1) rep k refl el nw(1) s(3) nw(2) l(1,2) up assms(14,15) NET l(4)] by blast
  moreover have "imt_update depth h NET H t (cmt_changelog_index (imt_merkle_tree t0)) (imt_indexed_changelog_index t0) v
      \<lparr>ie_index = j, ie_value = fst (xs0 ! j), ie_next_index = snd (xs0 ! j)\<rparr> (fst (xs0 ! snd (xs0 ! j))) p =
      imt_insert h NET H t ?s"
    using patch rng nw(1) by (simp add: imt_update_def s0_def)
  ultimately show ?thesis by (intro exI [of _ t'] exI [of _ p'] exI [of _ u] exI [of _ ?k]) auto
qed

lemma sample_insert:
  assumes t: "imt_rep sample_indexed 3 t1 [(0, 0)] ls1" "cmt_sequence_number (imt_merkle_tree t1) = 1"
     "cmt_canopy_depth (imt_merkle_tree t1) = 1"
    and p: "bv_inv p" "BoundedVec_capacity p = 3" "BoundedVec_as_slice p = take 2 (merkle_proof sample_indexed 3 ls1 0)"
  shows "\<exists>t2 u p' ls2 mt1. imt_insert 3 2 sample_indexed t1 \<lparr>pt_changelog_index = cmt_changelog_index (imt_merkle_tree t1),
      pt_new_element = \<lparr>ie_index = 1, ie_value = 30, ie_next_index = 0\<rparr>,
      pt_low_element = \<lparr>ie_index = 0, ie_value = 0, ie_next_index = 0\<rparr>,
      pt_low_element_next_value = 0, pt_low_leaf_proof = p\<rparr> = Ok (t2, p', u) \<and>
    inserted sample_indexed 3 2 [(0, 0)] ls1 0 30 t1 ls2 t2 mt1 \<and> BoundedVec_as_slice p' = merkle_proof sample_indexed 3 ls1 0"
proof -
  let ?H = sample_indexed
  obtain ll nl where l: "elem_hash ?H (0, 1, 30) = Ok ll" "elem_hash ?H (30, 0, 0) = Ok nl"
    using sample_elem_hash [of 0 30 1] sample_elem_hash [of 30 0 0] by auto
  have mt: "cmt_rep ?H 3 (imt_merkle_tree t1) ls1" "length ls1 = 1" using t(1) by (auto simp: imt_rep_def)
  obtain mt1 p' where up: "cmt_update 3 ?H (imt_merkle_tree t1) (cmt_changelog_index (imt_merkle_tree t1)) (ls1 ! 0) ll 0 p =
      Ok (mt1, p', cmt_changelog_index mt1, cmt_sequence_number mt1)"
    "updated ?H 3 (ls1[0 := ll]) 0 (imt_merkle_tree t1) mt1" "BoundedVec_as_slice p' = merkle_proof ?H 3 ls1 0"
    using update_now [OF mt(1), of 0 p ll] p mt(2) t(2,3) sample_indexed_laws(3) by auto
  have r: "in_range [(0, 0)] 0 30" by (simp add: in_range_def)
  have "\<exists>t2 u. imt_insert 3 2 ?H t1 \<lparr>pt_changelog_index = cmt_changelog_index (imt_merkle_tree t1),
      pt_new_element = \<lparr>ie_index = 1, ie_value = 30, ie_next_index = 0\<rparr>,
      pt_low_element = \<lparr>ie_index = 0, ie_value = 0, ie_next_index = 0\<rparr>,
      pt_low_element_next_value = 0, pt_low_leaf_proof = p\<rparr> = Ok (t2, p', u) \<and>
    inserted ?H 3 2 [(0, 0)] ls1 0 30 t1 (ls1[0 := ll] @ [nl]) t2 mt1"
    using up l t(2) sample_indexed_laws(3)
    by (intro insert_complete [OF sample_indexed_laws(1) t(1) _ r]) (simp_all add: chain_elem_def)
  then show ?thesis using up(3) by blast
qed

lemma sample_update:
  assumes t: "imt_rep sample_indexed 3 t1 [(0, 0)] ls1" "cmt_sequence_number (imt_merkle_tree t1) = 1"
     "cmt_canopy_depth (imt_merkle_tree t1) = 1"
    and p: "bv_inv p" "BoundedVec_capacity p = 3" "BoundedVec_as_slice p = take 2 (merkle_proof sample_indexed 3 ls1 0)"
  shows "\<exists>t' p' u. imt_update 1 3 2 sample_indexed t1 (cmt_changelog_index (imt_merkle_tree t1))
      (imt_indexed_changelog_index t1) 30 \<lparr>ie_index = 0, ie_value = 0, ie_next_index = 0\<rparr> 0 p = Ok (t', p', u) \<and>
    BoundedVec_as_slice p' = merkle_proof sample_indexed 3 ls1 0"
proof -
  have c: "cbv_inv (imt_indexed_changelog t1)" "cbv_list (imt_indexed_changelog t1) \<noteq> []"
    "cmt_next_index (imt_merkle_tree t1) = 1" using t(1) by (auto simp: imt_rep_def cmt_rep_def)
  show ?thesis using sample_insert [OF assms] patch_current [OF c(1,2), of 0] c(3)
    by (auto simp: imt_update_def check_low_element_range_def simp del: patch_on_stack_simps)
qed

lemma sample_inserted:
  "\<exists>t1 t2 ls1 ls2 mt1. imt_rep sample_indexed 3 t1 [(0, 0)] ls1 \<and>
     inserted sample_indexed 3 2 [(0, 0)] ls1 0 30 t1 ls2 t2 mt1 \<and>
     cmt_sequence_number (imt_merkle_tree t2) = 3 \<and> cmt_canopy_depth (imt_merkle_tree t1) = 1 \<and>
     CyclicBoundedVec_capacity (cmt_changelog (imt_merkle_tree t1)) = 8 \<and>
     CyclicBoundedVec_capacity (imt_indexed_changelog t1) = 8"
proof -
  obtain t1 ls1 where t: "imt_rep sample_indexed 3 t1 [(0, 0)] ls1" "cmt_sequence_number (imt_merkle_tree t1) = 1"
     "cmt_canopy_depth (imt_merkle_tree t1) = 1" "CyclicBoundedVec_capacity (cmt_changelog (imt_merkle_tree t1)) = 8"
     "CyclicBoundedVec_capacity (imt_indexed_changelog t1) = 8"
    using sample_indexed_tree by blast
  obtain p where p: "bv_inv p" "BoundedVec_capacity p = 3" "BoundedVec_as_slice p = take 2 (merkle_proof sample_indexed 3 ls1 0)"
    using bounded_vec_exists [of "take 2 (merkle_proof sample_indexed 3 ls1 0)" 3] by auto
  obtain t2 ls2 mt1 where "inserted sample_indexed 3 2 [(0, 0)] ls1 0 30 t1 ls2 t2 mt1"
    using sample_insert [OF t(1-3) p] by blast
  moreover from this have "cmt_sequence_number (imt_merkle_tree t2) = 3" using t(2) by (auto simp: inserted_def)
  ultimately show ?thesis using t by blast
qed

theorem concurrent_insert_succeeds_witness:
  "\<exists>(t1 :: IndexedMerkleTree) t2 p t3 p' u ls3. imt_rep sample_indexed 3 t2 [(0, 1), (30, 0)] ls3 \<and>
     imt_update 2 3 2 sample_indexed t2 (cmt_changelog_index (imt_merkle_tree t1)) (imt_indexed_changelog_index t1)
       10 \<lparr>ie_index = 0, ie_value = 0, ie_next_index = 0\<rparr> 0 p = Ok (t3, p', u) \<and>
     (\<exists>xs ls. imt_rep sample_indexed 3 t3 xs ls \<and> map fst xs = [0, 30, 10])"
proof -
  let ?H = sample_indexed
  obtain t1 t2 ls1 ls2 mt1 where t: "imt_rep ?H 3 t1 [(0, 0)] ls1" "inserted ?H 3 2 [(0, 0)] ls1 0 30 t1 ls2 t2 mt1"
     "cmt_sequence_number (imt_merkle_tree t2) = 3" "cmt_canopy_depth (imt_merkle_tree t1) = 1"
     "CyclicBoundedVec_capacity (cmt_changelog (imt_merkle_tree t1)) = 8"
     "CyclicBoundedVec_capacity (imt_indexed_changelog t1) = 8" using sample_inserted by blast
  have xs: "chain_insert [(0, 0)] 0 30 = [(0, 1), (30, 0)]" by (simp add: chain_insert_def)
  have run: "imt_run ?H 3 2 t1 [(0, 0)] ls1 [(low_entry ?H 3 2 [(0, 0)] ls1 0 30 (cmt_changelog_index mt1),
      new_entry ?H 3 2 [(0, 0)] ls2 0 30 (cmt_changelog_index (imt_merkle_tree t2)))] t2 [(0, 1), (30, 0)] ls2"
    using run_cons [OF t(2) run_nil] unfolding xs .
  obtain p where p: "bv_inv p" "BoundedVec_capacity p = 3" "BoundedVec_as_slice p = take 2 (merkle_proof ?H 3 ls1 0)"
    using bounded_vec_exists [of "take 2 (merkle_proof ?H 3 ls1 0)" 3] by auto
  have hash: "\<forall>k < length [(0 :: nat, 1 :: nat), (30, 0)]. in_range [(0, 1), (30, 0)] k 10 \<longrightarrow> (\<exists>ll nl.
      elem_hash ?H (fst ([(0, 1 :: nat), (30, 0)] ! k), length [(0 :: nat, 1 :: nat), (30, 0)], 10) = Ok ll \<and>
      elem_hash ?H (10, snd ([(0 :: nat, 1), (30, 0)] ! k), fst ([(0, 1 :: nat), (30, 0)] ! snd ([(0 :: nat, 1), (30, 0)] ! k))) = Ok nl \<and>
      hashable ?H 3 (ls2[k := ll]) \<and> hashable ?H 3 (ls2[k := ll] @ [nl]))"
    using sample_elem_hash [of 0 10 2] sample_elem_hash [of 10 30 1] sample_indexed_laws(3)
    by (auto simp: less_Suc_eq in_range_def numeral_2_eq_2)
  have "\<exists>t3 p' u k ls' mt'. imt_update 2 3 2 ?H t2 (cmt_changelog_index (imt_merkle_tree t1)) (imt_indexed_changelog_index t1)
       10 \<lparr>ie_index = 0, ie_value = fst ([(0, 0 :: nat)] ! 0), ie_next_index = snd ([(0 :: nat, 0)] ! 0)\<rparr>
       (fst ([(0, 0 :: nat)] ! snd ([(0 :: nat, 0)] ! 0))) p = Ok (t3, p', u) \<and>
     inserted ?H 3 2 [(0, 1), (30, 0)] ls2 k 10 t2 ls' t3 mt'"
    by (rule concurrent_insert_succeeds [OF sample_indexed_laws(1) t(1) run _ _ _ _ _ _ p _ _ _ hash])
      (simp_all add: t(3-6) in_range_def)
  then obtain t3 p' u k ls' mt' where t3: "imt_update 2 3 2 ?H t2 (cmt_changelog_index (imt_merkle_tree t1))
      (imt_indexed_changelog_index t1) 10 \<lparr>ie_index = 0, ie_value = 0, ie_next_index = 0\<rparr> 0 p = Ok (t3, p', u)"
    "inserted ?H 3 2 [(0, 1), (30, 0)] ls2 k 10 t2 ls' t3 mt'" by auto
  have "imt_rep ?H 3 t3 (chain_insert [(0, 1), (30, 0)] k 10) ls'" "k < 2"
    using t3(2) by (auto simp: inserted_def)
  then have "\<exists>xs ls. imt_rep ?H 3 t3 xs ls \<and> map fst xs = [0, 30, 10]"
    using chain_insert_nth(5) [of k "[(0, 1), (30, 0)]" 10] by auto
  with run_rep [OF run t(1)] t3(1) show ?thesis
    by (intro exI [of _ t1] exI [of _ t2] exI [of _ p] exI [of _ t3] exI [of _ p'] exI [of _ u] exI [of _ ls2] conjI)
qed

theorem indexed_update_sound_witness:
  "\<exists>t1 ls p t' p' u. imt_rep sample_indexed 3 t1 [(0, 0)] ls \<and>
     imt_update 1 3 2 sample_indexed t1 (cmt_changelog_index (imt_merkle_tree t1)) (imt_indexed_changelog_index t1)
       30 \<lparr>ie_index = 0, ie_value = 0, ie_next_index = 0\<rparr> 0 p = Ok (t', p', u) \<and>
     (\<exists>s old. IndexedElement_hash sample_indexed (pt_low_element (s :: Patch)) (pt_low_element_next_value s) = Ok old \<and>
       (30 \<notin> fst ` set [(0 :: nat, 0 :: nat)] \<or>
        elem_collision sample_indexed (ie_value (pt_low_element s), ie_next_index (pt_low_element s), pt_low_element_next_value s)
          (chain_elem [(0, 0)] (ie_index (pt_low_element s)))))"
proof -
  let ?H = sample_indexed
  obtain t1 ls1 where t: "imt_rep ?H 3 t1 [(0, 0)] ls1" "cmt_sequence_number (imt_merkle_tree t1) = 1"
     "cmt_canopy_depth (imt_merkle_tree t1) = 1" "CyclicBoundedVec_capacity (cmt_changelog (imt_merkle_tree t1)) = 8"
     "CyclicBoundedVec_capacity (imt_indexed_changelog t1) = 8"
    using sample_indexed_tree by blast
  obtain p where p: "bv_inv p" "BoundedVec_capacity p = 3" "BoundedVec_as_slice p = take 2 (merkle_proof ?H 3 ls1 0)"
    using bounded_vec_exists [of "take 2 (merkle_proof ?H 3 ls1 0)" 3] by auto
  have "\<exists>t' p' u. imt_update 1 3 2 ?H t1 (cmt_changelog_index (imt_merkle_tree t1)) (imt_indexed_changelog_index t1)
       30 \<lparr>ie_index = 0, ie_value = 0, ie_next_index = 0\<rparr> 0 p = Ok (t', p', u)"
    using sample_update [OF t(1-3) p] by blast
  then obtain t' p' u where u: "imt_update 1 3 2 ?H t1 (cmt_changelog_index (imt_merkle_tree t1)) (imt_indexed_changelog_index t1)
       30 \<lparr>ie_index = 0, ie_value = 0, ie_next_index = 0\<rparr> 0 p = Ok (t', p', u)" by blast
  from indexed_update_sound [OF sample_indexed_laws(1) t(1) _ p(1) _ u] p(2) t(1) u show ?thesis
    by (intro exI [of _ t1] exI [of _ ls1] exI [of _ p] exI [of _ t'] exI [of _ p'] exI [of _ u]) (auto simp: Let_def)
qed

text \<open>
  Initialisation: \<open>new\<close>, \<open>init\<close> and \<open>add_highest_element\<close> leave a tree with the two elements 0 and
  \<open>HIGHEST_ADDRESS_PLUS_ONE\<close>, so that every value strictly between them can be inserted behind
  element 0.
\<close>

theorem indexed_tree_initialised:
  assumes "zero_chain H" "indexed_zero H" "0 < h" "h \<le> MAX_HEIGHT" "cd \<le> h" "cd < 31" "0 < cs" "0 < rs" "0 < ics" "NET \<le> h"
    and "elem_hash H (0, 1, HIGHEST_ADDRESS_PLUS_ONE) = Ok ll" "elem_hash H (HIGHEST_ADDRESS_PLUS_ONE, 0, 0) = Ok nl"
    and "hashable H h [zero_indexed_leaf H]" "hashable H h [ll]" "hashable H h [ll, nl]"
  shows "\<exists>t0 t1 t. imt_new h h cs rs cd ics = Ok t0 \<and> imt_init h NET H t0 = Ok t1 \<and>
    imt_add_highest_element h NET H t1 = Ok t \<and>
    imt_rep H h t [(0, 1), (HIGHEST_ADDRESS_PLUS_ONE, 0)] [ll, nl] \<and>
    (\<forall>v. in_range [(0, 1), (HIGHEST_ADDRESS_PLUS_ONE, 0)] 0 v \<longleftrightarrow> 0 < v \<and> v < HIGHEST_ADDRESS_PLUS_ONE)"
proof -
  obtain t0 t1 where t: "imt_new h h cs rs cd ics = Ok t0" "imt_init h NET H t0 = Ok t1"
    "imt_rep H h t1 [(0, 0)] [zero_indexed_leaf H]" "cmt_sequence_number (imt_merkle_tree t1) = 1"
    using imt_init_rep [OF assms(1-10,13)] by blast
  obtain t mt1 where "imt_add_highest_element h NET H t1 = Ok t"
    "inserted H h NET [(0, 0)] [zero_indexed_leaf H] 0 HIGHEST_ADDRESS_PLUS_ONE t1 [ll, nl] t mt1"
    using add_highest_rep [OF assms(1,2) t(3) assms(11,12,14,15) _ assms(10)] t(4) by auto
  then show ?thesis using t(1,2) by (auto simp: inserted_def chain_insert_def in_range_def)
qed

theorem indexed_tree_initialised_witness:
  "\<exists>t0 t1 t ls. imt_new 3 3 8 8 1 8 = Ok t0 \<and> imt_init 3 2 sample_indexed t0 = Ok t1 \<and>
     imt_add_highest_element 3 2 sample_indexed t1 = Ok t \<and>
     imt_rep sample_indexed 3 t [(0, 1), (HIGHEST_ADDRESS_PLUS_ONE, 0)] ls"
proof -
  have "HIGHEST_ADDRESS_PLUS_ONE < 256 ^ 32" by (simp add: HIGHEST_ADDRESS_PLUS_ONE_def)
  then obtain ll nl where l: "elem_hash sample_indexed (0, 1, HIGHEST_ADDRESS_PLUS_ONE) = Ok ll"
    "elem_hash sample_indexed (HIGHEST_ADDRESS_PLUS_ONE, 0, 0) = Ok nl"
    using sample_elem_hash [of 0 HIGHEST_ADDRESS_PLUS_ONE 1] sample_elem_hash [of HIGHEST_ADDRESS_PLUS_ONE 0 0] by auto
  have "\<exists>t0 t1 t. imt_new 3 3 8 8 1 8 = Ok t0 \<and> imt_init 3 2 sample_indexed t0 = Ok t1 \<and>
    imt_add_highest_element 3 2 sample_indexed t1 = Ok t \<and>
    imt_rep sample_indexed 3 t [(0, 1), (HIGHEST_ADDRESS_PLUS_ONE, 0)] [ll, nl] \<and>
    (\<forall>v. in_range [(0, 1), (HIGHEST_ADDRESS_PLUS_ONE, 0)] 0 v \<longleftrightarrow> 0 < v \<and> v < HIGHEST_ADDRESS_PLUS_ONE)"
    by (rule indexed_tree_initialised [OF sample_indexed_laws(1,2) _ _ _ _ _ _ _ _ l])
      (simp_all add: MAX_HEIGHT_def sample_indexed_laws(3))
  then show ?thesis by blast
qed

lemma init_changelog:
  assumes "imt_new HT height cs rs cd ics = Ok t0" "imt_init HT NET H t0 = Ok t" "2 \<le> ics"
  obtains e where "CyclicBoundedVec_len (imt_indexed_changelog t) = 2"
    "and_then (CyclicBoundedVec_iter_from (imt_indexed_changelog t) 0) CyclicBoundedVecIterator_drain = Ok [e, e]"
    "CyclicBoundedVec_index (imt_indexed_changelog t) 0 = (Ok e :: (IndexedMerkleTreeError, _) result)"
    "CyclicBoundedVec_index (imt_indexed_changelog t) 1 = (Ok e :: (IndexedMerkleTreeError, _) result)"
    "entry_index e = 0" "entry_next_value e = 0" "length (ice_proof e) = NET"
proof -
  define e where "e = \<lparr>ice_element = \<lparr>rie_value = replicate 32 0, rie_next_index = 0, rie_next_value = replicate 32 0, rie_index = 0\<rparr>,
    ice_proof = take NET (zero_bytes H), ice_changelog_index = 0\<rparr>"
  let ?c0 = "CyclicBoundedVec_with_capacity ics :: IndexedChangelogEntry CyclicBoundedVec"
  have c0: "imt_indexed_changelog t0 = ?c0" "cbv_inv ?c0" using assms(1,3) by (auto simp: imt_new_def and_then_eq_Ok)
  have "\<exists>c1. CyclicBoundedVec_push ?c0 e = (Ok c1 :: (IndexedMerkleTreeError, _) result) \<and>
      CyclicBoundedVec_push c1 e = (Ok (imt_indexed_changelog t) :: (IndexedMerkleTreeError, _) result) \<and> NET \<le> length (zero_bytes H)"
    using assms(2) unfolding imt_init_def imt_push_changelog_def Let_def slice_to_def
    by (elim and_then_OkE case_prod_OkE) (auto simp: c0 e_def split: if_splits)
  then obtain c1 where c1: "CyclicBoundedVec_push ?c0 e = (Ok c1 :: (IndexedMerkleTreeError, _) result)"
      "CyclicBoundedVec_push c1 e = (Ok (imt_indexed_changelog t) :: (IndexedMerkleTreeError, _) result)" "NET \<le> length (zero_bytes H)"
    by blast
  obtain c where "CyclicBoundedVec_push ?c0 e = (Ok c :: (IndexedMerkleTreeError, _) result)" "cbv_inv c"
    "cbv_list c = take_last (CyclicBoundedVec_capacity ?c0) (cbv_list ?c0 @ [e])"
    "CyclicBoundedVec_capacity c = CyclicBoundedVec_capacity ?c0"
    using cbvr.push_history [OF c0(2), of e] by blast
  then have l1: "cbv_inv c1" "cbv_list c1 = [e]" "CyclicBoundedVec_capacity c1 = ics"
    using c1(1) assms(3) by (auto simp: take_last_def)
  have "CyclicBoundedVec_len c1 = 1" using arg_cong [OF l1(2), of length] by simp
  moreover have "CyclicBoundedVec_first_index c1 = 0" using l1 calculation assms(3) by (auto simp: cbv_inv_def)
  ultimately have z: "CyclicBoundedVec_last_index c1 = 0" using l1(1) by (auto simp: cbv_inv_def)
  obtain c2 where "CyclicBoundedVec_push c1 e = (Ok c2 :: (IndexedMerkleTreeError, _) result)" "cbv_pushed c1 [e] c2"
    using cbv_push_pushed [OF l1(1), of e, where 'e = IndexedMerkleTreeError] l1(2) by auto
  then have p: "cbv_pushed c1 [e] (imt_indexed_changelog t)" using c1(2) by simp
  then have r: "ring c1 [e] (imt_indexed_changelog t)" using l1 assms(3) by (simp add: ring_def)
  have l2: "cbv_list (imt_indexed_changelog t) = [e, e]" "cbv_inv (imt_indexed_changelog t)"
    "CyclicBoundedVec_capacity (imt_indexed_changelog t) = ics" "CyclicBoundedVec_last_index (imt_indexed_changelog t) = 1"
    using p l1 z assms(3) by (auto simp: cbv_pushed_def take_last_def)
  have len: "CyclicBoundedVec_len (imt_indexed_changelog t) = 2" using arg_cong [OF l2(1), of length] by simp
  have "CyclicBoundedVec_get (imt_indexed_changelog t) 0 = Some e"
    using cbv_steps_back(1) [OF l2(2), of 1 0] l2 len assms(3) by simp
  then show thesis using that [of e] len ring_iter_from [OF r] ring_index [OF r, of 0] z l1(2) c1(3)
    by (simp add: CyclicBoundedVec_index_def e_def from_bytes_be_def)
qed

lemma patch_recursion:
  assumes "imt_new HT height cs rs cd ics = Ok t0" "imt_init HT NET H t0 = Ok t" "2 \<le> ics"
    and "0 < ie_value (pt_new_element s)" "ie_index (pt_low_element s) = 0"
    and "bv_inv (pt_low_leaf_proof s)" "BoundedVec_len (pt_low_leaf_proof s) \<le> NET"
  shows "imt_patch_elements_and_proof depth t 0 s = None"
proof -
  from init_changelog [OF assms(1-3)] obtain e where e: "CyclicBoundedVec_len (imt_indexed_changelog t) = 2"
    "and_then (CyclicBoundedVec_iter_from (imt_indexed_changelog t) 0) CyclicBoundedVecIterator_drain = Ok [e, e]"
    "CyclicBoundedVec_index (imt_indexed_changelog t) 0 = (Ok e :: (IndexedMerkleTreeError, _) result)"
    "CyclicBoundedVec_index (imt_indexed_changelog t) 1 = (Ok e :: (IndexedMerkleTreeError, _) result)"
    "entry_index e = 0" "entry_next_value e = 0" "length (ice_proof e) = NET" by blast
  have ix: "imt_patch_indices t 0 0 = Ok [1]" using e(1,2,5) by (simp add: imt_patch_indices_def)
  show ?thesis using assms(4-7)
  proof (induction depth arbitrary: s)
    case (Suc d)
    obtain q where q: "imt_copy_proof (pt_low_leaf_proof s) (ice_proof e) = (Ok q :: (IndexedMerkleTreeError, _) result)"
      "bv_inv q" "BoundedVec_len q = BoundedVec_len (pt_low_leaf_proof s)"
      using copy_proof_steps [OF Suc.prems(3), of "ice_proof e" "BoundedVec_len (pt_low_leaf_proof s)", where 'e = IndexedMerkleTreeError]
        Suc.prems(4) e(7) by (auto simp: imt_copy_proof_def)
    have loop: "imt_patch_loop t s [1] = Ok (s, Some (0, 0))" using e Suc.prems(1) by simp
    show ?case using ix loop q Suc.prems e
      by (simp add: imt_patch_call_def imt_patch_restart_def Suc.IH Let_def del: imt_patch_loop.simps)
  qed simp
qed

text \<open>
  C29. The recursion of \<open>patch_elements_and_proof\<close> does not always end: in a tree that was only
  initialised, an update that refers to the first indexed changelog entry and inserts any positive
  value makes it call itself for ever.  Whatever the depth, the recursion is deeper: no call fails and
  none returns, so that the update is aborted by the overflow of the stack.  The entry of the greatest
  element has next value 0, which the code takes for a next element lower than the new one.
\<close>

theorem patch_recursion_diverges:
  assumes "imt_new HT height cs rs cd ics = Ok t0" "imt_init HT NET H t0 = Ok t" "2 \<le> ics"
    and "0 < v" "ie_index low = 0" "bv_inv p" "BoundedVec_len p \<le> NET"
  shows "imt_patch_elements_and_proof depth t 0
      \<lparr>pt_changelog_index = ci, pt_new_element = \<lparr>ie_index = cmt_next_index (imt_merkle_tree t), ie_value = v, ie_next_index = ie_next_index low\<rparr>,
       pt_low_element = low, pt_low_element_next_value = low_next, pt_low_leaf_proof = p\<rparr> = None \<and>
    imt_update depth HT NET H t ci 0 v low low_next p = Panic"
  using patch_recursion [OF assms(1-3)] assms(4-7) by (simp add: imt_update_def imt_patch_on_stack_def)

theorem patch_recursion_diverges_witness:
  "\<exists>t0 t. imt_new 3 3 8 8 1 8 = Ok t0 \<and> imt_init 3 2 sample_indexed t0 = Ok t \<and>
     imt_patch_elements_and_proof 64 t 0 \<lparr>pt_changelog_index = 0, pt_new_element =
         \<lparr>ie_index = cmt_next_index (imt_merkle_tree t), ie_value = 5, ie_next_index = 0\<rparr>,
       pt_low_element = \<lparr>ie_index = 0, ie_value = 0, ie_next_index = 0\<rparr>, pt_low_element_next_value = 0,
       pt_low_leaf_proof = BoundedVec_with_capacity 3\<rparr> = None"
proof -
  obtain t0 t where t: "imt_new 3 3 8 8 1 8 = Ok t0" "imt_init 3 2 sample_indexed t0 = Ok t"
    using sample_indexed_tree by blast
  from patch_recursion_diverges [OF t, of 5 "\<lparr>ie_index = 0, ie_value = 0, ie_next_index = 0\<rparr>" "BoundedVec_with_capacity 3" 64 0 0]
  show ?thesis using t by auto
qed

end
