(* ===== verification/Reference_Merkle_Tree.thy ===== *)
theory Reference_Merkle_Tree
  imports Concurrent_Tree
begin

text \<open>
  \<open>merkle-tree/reference/src/lib.rs\<close>: the reference Merkle tree, which stores every layer and which
  clients use to compute proofs.  It represents a list of leaves as the concurrent tree does; the
  interface locale \<open>merkle_accumulator\<close> is interpreted on both, and the proofs of the reference tree
  are accepted by the concurrent tree.
\<close>

section \<open>Model\<close>

datatype ReferenceMerkleTreeError =
    LeafDoesNotExist nat
  | RefHasher HasherError
  | RefInvalidProofLength nat nat

record MerkleTree =
  rmt_height :: nat
  rmt_capacity :: nat
  rmt_canopy_depth :: nat
  rmt_layers :: "bytes list list"
  rmt_roots :: "bytes list"
  rmt_rightmost_index :: nat
  rmt_sequence_number :: nat

definition rmt_new :: "Hasher \<Rightarrow> nat \<Rightarrow> nat \<Rightarrow> ('e, MerkleTree) result" where
  "rmt_new H height canopy_depth =
     and_then (shl1_u64 height) (\<lambda>capacity.
     and_then (index (zero_bytes H) height) (\<lambda>root.
     Ok \<lparr>rmt_height = height, rmt_capacity = capacity, rmt_canopy_depth = canopy_depth,
         rmt_layers = replicate height [], rmt_roots = [root], rmt_rightmost_index = 0,
         rmt_sequence_number = 0\<rparr>))"

definition rmt_canopy_size :: "MerkleTree \<Rightarrow> ('e, nat) result" where
  "rmt_canopy_size t = and_then (shl1_u64 (rmt_canopy_depth t + 1)) (\<lambda>s. sub_u64 s 2)"

text \<open>\<open>layers[level].get(i).cloned().unwrap_or(H::zero_bytes()[level])\<close>.\<close>

definition rmt_node :: "Hasher \<Rightarrow> bytes list list \<Rightarrow> nat \<Rightarrow> nat \<Rightarrow> ('e, bytes) result" where
  "rmt_node H layers level i =
     and_then (index layers level) (\<lambda>layer.
     and_then (index (zero_bytes H) level) (\<lambda>z.
     Ok (if i < length layer then layer ! i else z)))"

text \<open>The body of the loop over the levels, with the index already halved.\<close>

definition rmt_update_level ::
  "Hasher \<Rightarrow> bytes list list \<times> nat \<Rightarrow> nat \<Rightarrow> (HasherError, bytes list list \<times> nat) result" where
  "rmt_update_level H = (\<lambda>(layers, i) level.
     let i = i div 2; left_index = i * 2; right_index = i * 2 + 1 in
     and_then (rmt_node H layers (level - 1) left_index) (\<lambda>left_child.
     and_then (rmt_node H layers (level - 1) right_index) (\<lambda>right_child.
     and_then (hashv H [left_child, right_child]) (\<lambda>nd.
     and_then (index layers level) (\<lambda>layer.
     Ok (layers[level := (if length layer > i then layer[i := nd] else layer @ [nd])], i))))))"

definition rmt_update_upper_layers :: "Hasher \<Rightarrow> MerkleTree \<Rightarrow> nat \<Rightarrow> (HasherError, MerkleTree) result" where
  "rmt_update_upper_layers H t i =
     and_then (try_fold (rmt_update_level H) (rmt_layers t, i) [1..<rmt_height t]) (\<lambda>(layers, _).
     and_then (sub_u64 (rmt_height t) 1) (\<lambda>top.
     and_then (rmt_node H layers top 0) (\<lambda>left_child.
     and_then (rmt_node H layers top 1) (\<lambda>right_child.
     and_then (hashv H [left_child, right_child]) (\<lambda>root.
     Ok (t\<lparr>rmt_layers := layers, rmt_roots := rmt_roots t @ [root]\<rparr>))))))"

definition rmt_append :: "Hasher \<Rightarrow> MerkleTree \<Rightarrow> bytes \<Rightarrow> (HasherError, MerkleTree) result" where
  "rmt_append H t leaf =
     and_then (index (rmt_layers t) 0) (\<lambda>layer.
     and_then (add_u64 (rmt_rightmost_index t) 1) (\<lambda>rightmost.
     and_then (rmt_update_upper_layers H
         (t\<lparr>rmt_layers := (rmt_layers t)[0 := layer @ [leaf]], rmt_rightmost_index := rightmost\<rparr>)
         (rmt_rightmost_index t)) (\<lambda>t'.
     and_then (add_u64 (rmt_sequence_number t') 1) (\<lambda>sn.
     Ok (t'\<lparr>rmt_sequence_number := sn\<rparr>)))))"

definition rmt_append_batch :: "Hasher \<Rightarrow> MerkleTree \<Rightarrow> bytes list \<Rightarrow> (HasherError, MerkleTree) result" where
  "rmt_append_batch H t leaves = try_fold (rmt_append H) t leaves"

definition rmt_update ::
  "Hasher \<Rightarrow> MerkleTree \<Rightarrow> bytes \<Rightarrow> nat \<Rightarrow> (ReferenceMerkleTreeError, MerkleTree) result" where
  "rmt_update H t leaf leaf_index =
     and_then (index (rmt_layers t) 0) (\<lambda>layer.
     if leaf_index \<ge> length layer then Err (LeafDoesNotExist leaf_index)
     else
       and_then (map_err RefHasher (rmt_update_upper_layers H
         (t\<lparr>rmt_layers := (rmt_layers t)[0 := layer[leaf_index := leaf]]\<rparr>) leaf_index)) (\<lambda>t'.
       and_then (add_u64 (rmt_sequence_number t') 1) (\<lambda>sn.
       Ok (t'\<lparr>rmt_sequence_number := sn\<rparr>))))"

definition rmt_root :: "MerkleTree \<Rightarrow> ('e, bytes) result" where
  "rmt_root t = (if rmt_roots t = [] then Panic else Ok (last (rmt_roots t)))"

definition rmt_limit :: "MerkleTree \<Rightarrow> bool \<Rightarrow> ('e, nat) result" where
  "rmt_limit t full =
     (if full then Ok (rmt_height t) else sub_u64 (rmt_height t) (rmt_canopy_depth t))"

definition rmt_get_path_of_leaf ::
  "Hasher \<Rightarrow> MerkleTree \<Rightarrow> nat \<Rightarrow> bool \<Rightarrow> (BoundedVecError, bytes BoundedVec) result" where
  "rmt_get_path_of_leaf H t i full =
     and_then (rmt_limit t full) (\<lambda>limit.
     and_then
       (try_fold (\<lambda>(path, i) level.
           and_then (rmt_node H (rmt_layers t) level i) (\<lambda>nd.
           and_then (BoundedVec_push path nd) (\<lambda>path. Ok (path, i div 2))))
         (BoundedVec_with_capacity (rmt_height t), i) [0..<limit])
       (\<lambda>(path, _). Ok path))"

definition rmt_get_proof_of_leaf ::
  "Hasher \<Rightarrow> MerkleTree \<Rightarrow> nat \<Rightarrow> bool \<Rightarrow> (BoundedVecError, bytes BoundedVec) result" where
  "rmt_get_proof_of_leaf H t i full =
     and_then (rmt_limit t full) (\<lambda>limit.
     and_then
       (try_fold (\<lambda>(proof, i) level.
           let sibling_index = (if i mod 2 = 0 then i + 1 else i - 1) in
           and_then (rmt_node H (rmt_layers t) level sibling_index) (\<lambda>nd.
           and_then (BoundedVec_push proof nd) (\<lambda>proof. Ok (proof, i div 2))))
         (BoundedVec_with_capacity (rmt_height t), i) [0..<limit])
       (\<lambda>(proof, _). Ok proof))"

text \<open>\<open>num_nodes_in_level\<close> starts at 2 and doubles on every level.\<close>

definition rmt_canopy_level ::
  "Hasher \<Rightarrow> MerkleTree \<Rightarrow> bytes BoundedVec \<times> nat \<Rightarrow> nat \<Rightarrow> (BoundedVecError, bytes BoundedVec \<times> nat) result" where
  "rmt_canopy_level H t = (\<lambda>(canopy, num_nodes_in_level) i.
     and_then (sub_u64 (rmt_height t) 1) (\<lambda>top.
     and_then (sub_u64 top i) (\<lambda>level.
     and_then (try_fold (\<lambda>c j. and_then (rmt_node H (rmt_layers t) level j)
         (\<lambda>nd. BoundedVec_push c nd)) canopy [0..<num_nodes_in_level]) (\<lambda>canopy.
     and_then (mul_u64 num_nodes_in_level 2) (\<lambda>n. Ok (canopy, n))))))"

definition rmt_get_canopy :: "Hasher \<Rightarrow> MerkleTree \<Rightarrow> (BoundedVecError, bytes BoundedVec) result" where
  "rmt_get_canopy H t =
     (if rmt_canopy_depth t = 0 then Ok (BoundedVec_with_capacity 0)
      else
        and_then (rmt_canopy_size t) (\<lambda>size.
        and_then
          (try_fold (rmt_canopy_level H t) (BoundedVec_with_capacity size, 2) [0..<rmt_canopy_depth t])
          (\<lambda>(canopy, _). Ok canopy)))"

definition rmt_leaf :: "Hasher \<Rightarrow> MerkleTree \<Rightarrow> nat \<Rightarrow> ('e, bytes) result" where
  "rmt_leaf H t leaf_index = rmt_node H (rmt_layers t) 0 leaf_index"

fun position :: "('a \<Rightarrow> bool) \<Rightarrow> 'a list \<Rightarrow> nat option" where
  "position P [] = None"
| "position P (x # xs) = (if P x then Some 0 else map_option Suc (position P xs))"

definition rmt_get_leaf_index :: "MerkleTree \<Rightarrow> bytes \<Rightarrow> ('e, nat option) result" where
  "rmt_get_leaf_index t leaf =
     and_then (index (rmt_layers t) 0) (\<lambda>layer. Ok (position (\<lambda>nd. nd = leaf) layer))"

definition rmt_leaves :: "MerkleTree \<Rightarrow> ('e, bytes list) result" where
  "rmt_leaves t = index (rmt_layers t) 0"

definition rmt_verify_step :: "Hasher \<Rightarrow> bytes \<times> nat \<Rightarrow> bytes \<Rightarrow> (HasherError, bytes \<times> nat) result" where
  "rmt_verify_step H = (\<lambda>(computed_hash, current_index) sibling_hash.
     let hashes = (if current_index mod 2 = 0 then [computed_hash, sibling_hash]
                   else [sibling_hash, computed_hash]) in
     and_then (hashv H hashes) (\<lambda>computed_hash. Ok (computed_hash, current_index div 2)))"

definition rmt_verify ::
  "Hasher \<Rightarrow> MerkleTree \<Rightarrow> bytes \<Rightarrow> bytes BoundedVec \<Rightarrow> nat \<Rightarrow> (ReferenceMerkleTreeError, bool) result" where
  "rmt_verify H t leaf proof leaf_index =
     (if leaf_index \<ge> rmt_capacity t then Err (LeafDoesNotExist leaf_index)
      else if BoundedVec_len proof \<noteq> rmt_height t
        then Err (RefInvalidProofLength (BoundedVec_len proof) (rmt_height t))
      else
        and_then
          (map_err RefHasher
            (try_fold (rmt_verify_step H) (leaf, leaf_index) (BoundedVec_as_slice proof)))
          (\<lambda>(computed_hash, _). and_then (rmt_root t) (\<lambda>root. Ok (computed_hash = root))))"


section \<open>Representation\<close>

text \<open>A layer holds the nodes that cover at least one leaf.\<close>

definition layer_ok :: "Hasher \<Rightarrow> bytes list \<Rightarrow> nat \<Rightarrow> bytes list \<Rightarrow> bool" where
  "layer_ok H ls l layer \<longleftrightarrow>
     (\<forall>k. k < length layer \<longleftrightarrow> k * 2 ^ l < length ls) \<and> (\<forall>k < length layer. layer ! k = node H ls l k)"

definition rmt_rep :: "Hasher \<Rightarrow> nat \<Rightarrow> MerkleTree \<Rightarrow> bytes list \<Rightarrow> bool" where
  [inv_defs]: "rmt_rep H h t ls \<longleftrightarrow> rmt_height t = h \<and> 0 < h \<and> h \<le> MAX_HEIGHT \<and> rmt_capacity t = 2 ^ h \<and>
     rmt_canopy_depth t \<le> h \<and> rmt_rightmost_index t = length ls \<and> length ls \<le> 2 ^ h \<and>
     length (rmt_layers t) = h \<and> (\<forall>l < h. layer_ok H ls l (rmt_layers t ! l)) \<and>
     rmt_roots t \<noteq> [] \<and> last (rmt_roots t) = merkle_root H h ls \<and> hashable H h ls"

text \<open>Leaf \<open>j\<close> of \<open>ls\<close> was written: updated, or appended at the end.\<close>

definition written :: "bytes list \<Rightarrow> nat \<Rightarrow> bytes \<Rightarrow> bytes list \<Rightarrow> bool" where
  "written ls j x ls' \<longleftrightarrow> j < length ls \<and> ls' = ls[j := x] \<or> j = length ls \<and> ls' = ls @ [x]"

lemma written_node: "written ls j x ls' \<Longrightarrow> i \<noteq> j div 2 ^ l \<Longrightarrow> node H ls' l i = node H ls l i"
  by (auto simp: written_def node_update_other node_append_other)

lemma written_hash_ok:
  "written ls j x ls' \<Longrightarrow> s \<noteq> j div 2 ^ Suc l \<Longrightarrow> hash_ok H ls' l s \<longleftrightarrow> hash_ok H ls l s"
  unfolding written_def using hash_ok_update_other hash_ok_append_other by metis

lemma written_hashable:
  assumes "written ls j x ls'" "hashable H h ls"
  shows "hashable H h ls' \<longleftrightarrow> (\<forall>l < h. hash_ok H ls' l (j div 2 ^ Suc l))"
  using assms written_hash_ok unfolding hashable_def by metis

lemma written_length: "written ls j x ls' \<Longrightarrow> j < length ls' \<and> length ls \<le> length ls'"
  by (auto simp: written_def)

lemma rmt_node_spec:
  assumes "zero_chain H" "l \<le> MAX_HEIGHT" "l < length layers" "layer_ok H ls l (layers ! l)"
  shows "rmt_node H layers l i = (Ok (node H ls l i) :: ('e, _) result)"
proof -
  have "l < length (zero_bytes H)" using assms(2) zero_chain_length [OF assms(1)] by simp
  moreover have "(if i < length (layers ! l) then layers ! l ! i else zero_bytes H ! l) = node H ls l i"
    using assms(4) node_beyond [OF assms(1,2), of ls i] by (auto simp: layer_ok_def not_less)
  ultimately show ?thesis using assms(3) by (simp add: rmt_node_def index_eval)
qed

lemma layer_ok_written:
  assumes "layer_ok H ls l layer" "written ls j x ls'" "i = j div 2 ^ l"
  shows "layer_ok H ls' l
    (if length layer > i then layer[i := node H ls' l i] else layer @ [node H ls' l i])"
proof -
  let ?n = "length ls"
  have len: "\<And>k. k < length layer \<longleftrightarrow> k * 2 ^ l < ?n"
    and val: "\<And>k. k < length layer \<Longrightarrow> layer ! k = node H ls l k"
    using assms(1) by (auto simp: layer_ok_def)
  note other = written_node [OF assms(2)]
  have ij: "i * 2 ^ l \<le> j" "j < Suc i * 2 ^ l"
    unfolding assms(3) by (simp, metis div_less_iff_less_mult lessI zero_less_numeral zero_less_power)
  show ?thesis
  proof (cases "i < length layer")
    case True
    then have "i * 2 ^ l < ?n" using len by simp
    have "k * 2 ^ l < ?n \<longleftrightarrow> k * 2 ^ l < length ls'" for k
    proof (cases "j = ?n")
      case True
      then have "length ls' = Suc ?n" using assms(2) by (auto simp: written_def)
      moreover have "k * 2 ^ l \<noteq> ?n"
      proof
        assume "k * 2 ^ l = ?n"
        then have "i = k" using assms(3) \<open>j = ?n\<close> by (metis nonzero_mult_div_cancel_right power_not_zero zero_neq_numeral)
        then show False using \<open>i * 2 ^ l < ?n\<close> \<open>k * 2 ^ l = ?n\<close> by simp
      qed
      ultimately show ?thesis by linarith
    next
      case False
      then show ?thesis using assms(2) by (auto simp: written_def)
    qed
    then show ?thesis using True len val other assms(3) unfolding layer_ok_def
      by (auto simp: nth_list_update)
  next
    case False
    then have "?n \<le> i * 2 ^ l" using len by (simp add: not_less)
    then have j: "j = ?n" "i * 2 ^ l = ?n" using ij assms(2) by (auto simp: written_def)
    then have n': "length ls' = Suc ?n" using assms(2) by (auto simp: written_def)
    have "k < length layer \<longleftrightarrow> k < i" for k unfolding len j(2) [symmetric] by simp
    then have L: "length layer = i" by (metis less_irrefl linorder_neqE_nat)
    have "k < Suc i \<longleftrightarrow> k * 2 ^ l < length ls'" for k
      unfolding n' j(2) [symmetric] less_Suc_eq_le by simp
    moreover have "(layer @ [node H ls' l i]) ! k = node H ls' l k" if "k < Suc i" for k
      using that L val other assms(3) by (cases "k = i") (simp_all add: nth_append)
    ultimately show ?thesis using False L by (simp add: layer_ok_def)
  qed
qed


section \<open>Appending and updating\<close>

lemma hash_children:
  "hashv H [node H ls l (2 * s), node H ls l (2 * s + 1)] = Ok x \<longleftrightarrow>
     hash_ok H ls l s \<and> x = node H ls (Suc l) s"
  using hash_ok_iff [of H ls l s] by (auto simp: hash_ok_def)

text \<open>The levels below \<open>k\<close> are those of the new leaves, the others still those of the old leaves.\<close>

definition layers_upto :: "Hasher \<Rightarrow> nat \<Rightarrow> bytes list \<Rightarrow> bytes list \<Rightarrow> nat \<Rightarrow> bytes list list \<Rightarrow> bool" where
  "layers_upto H h ls ls' k layers \<longleftrightarrow> length layers = h \<and>
     (\<forall>l < h. layer_ok H (if l < k then ls' else ls) l (layers ! l))"

lemma update_level_spec:
  assumes H: "zero_chain H" and h: "h \<le> MAX_HEIGHT" and w: "written ls j x ls'"
    and L: "layers_upto H h ls ls' (Suc k) layers" and k: "Suc k < h"
  shows "if hash_ok H ls' k (j div 2 ^ Suc k)
    then \<exists>layers'. rmt_update_level H (layers, j div 2 ^ k) (Suc k) = Ok (layers', j div 2 ^ Suc k) \<and>
      layers_upto H h ls ls' (Suc (Suc k)) layers'
    else \<not> is_ok (rmt_update_level H (layers, j div 2 ^ k) (Suc k))"
proof -
  let ?i = "j div 2 ^ Suc k"
  let ?lay = "layers ! Suc k"
  let ?lay' = "if length ?lay > ?i then ?lay[?i := node H ls' (Suc k) ?i] else ?lay @ [node H ls' (Suc k) ?i]"
  have len: "length layers = h" and ok: "\<And>l. l < h \<Longrightarrow> layer_ok H (if l < Suc k then ls' else ls) l (layers ! l)"
    using L by (auto simp: layers_upto_def)
  have nd: "rmt_node H layers k i = (Ok (node H ls' k i) :: (HasherError, _) result)" for i
    using ok [of k] h k len by (intro rmt_node_spec [OF H]) auto
  have body: "rmt_update_level H (layers, j div 2 ^ k) (Suc k) =
      and_then (hashv H [node H ls' k (2 * ?i), node H ls' k (2 * ?i + 1)])
        (\<lambda>nd. Ok (layers[Suc k := (if length ?lay > ?i then ?lay[?i := nd] else ?lay @ [nd])], ?i))"
    using k len by (simp add: rmt_update_level_def nd div_pow_Suc index_eval Let_def mult.commute del: power_Suc cong: if_cong)
  have "layer_ok H ls (Suc k) ?lay" using ok [of "Suc k"] k by simp
  then have "layer_ok H ls' (Suc k) ?lay'" by (rule layer_ok_written [OF _ w refl])
  then have "layers_upto H h ls ls' (Suc (Suc k)) (layers[Suc k := ?lay'])"
    using len ok k by (auto simp: layers_upto_def nth_list_update less_Suc_eq split: if_splits)
  moreover have "hashv H [node H ls' k (2 * ?i), node H ls' k (2 * ?i + 1)] = Ok (node H ls' (Suc k) ?i)"
    if "hash_ok H ls' k ?i" using that by (simp add: hash_ok_def)
  ultimately have "\<exists>layers'. rmt_update_level H (layers, j div 2 ^ k) (Suc k) = Ok (layers', ?i) \<and>
      layers_upto H h ls ls' (Suc (Suc k)) layers'" if "hash_ok H ls' k ?i"
    unfolding body using that by (intro exI [of _ "layers[Suc k := ?lay']"]) (simp only: and_then.simps)
  moreover have "\<not> is_ok (rmt_update_level H (layers, j div 2 ^ k) (Suc k))" if "\<not> hash_ok H ls' k ?i"
    unfolding body using that hash_ok_iff [of H ls' k ?i] by (simp add: is_ok_iff and_then_eq_Ok del: power_Suc)
  ultimately show ?thesis by presburger
qed

lemma update_levels_spec:
  assumes H: "zero_chain H" and h: "h \<le> MAX_HEIGHT" and w: "written ls j x ls'"
    and L: "layers_upto H h ls ls' 1 layers" and k: "k < h"
  shows "if \<forall>l < k. hash_ok H ls' l (j div 2 ^ Suc l)
    then \<exists>layers'. try_fold (rmt_update_level H) (layers, j) [1..<Suc k] = Ok (layers', j div 2 ^ k) \<and>
      layers_upto H h ls ls' (Suc k) layers'
    else \<not> is_ok (try_fold (rmt_update_level H) (layers, j) [1..<Suc k])"
  using k
proof (induction k)
  case 0
  then show ?case using L by simp
next
  case (Suc k)
  let ?F = "\<lambda>k. try_fold (rmt_update_level H) (layers, j) [1..<Suc k]"
  have F: "?F (Suc k) = and_then (?F k) (\<lambda>s. rmt_update_level H s (Suc k))"
    by (simp add: try_fold_append)
  show ?case
  proof (cases "\<forall>l < k. hash_ok H ls' l (j div 2 ^ Suc l)")
    case True
    then obtain layers' where L': "?F k = Ok (layers', j div 2 ^ k)" "layers_upto H h ls ls' (Suc k) layers'"
      using Suc by (auto split: if_splits)
    have "(\<forall>l < Suc k. hash_ok H ls' l (j div 2 ^ Suc l)) \<longleftrightarrow> hash_ok H ls' k (j div 2 ^ Suc k)"
      using True by (auto simp: less_Suc_eq)
    then show ?thesis
      unfolding F L'(1) using update_level_spec [OF H h w L'(2) Suc.prems] by (simp del: power_Suc)
  next
    case False
    then have "\<not> is_ok (?F k)" using Suc by (simp split: if_splits)
    moreover have "\<not> (\<forall>l < Suc k. hash_ok H ls' l (j div 2 ^ Suc l))" using False less_Suc_eq by blast
    ultimately show ?thesis unfolding F by (simp add: is_ok_iff and_then_eq_Ok)
  qed
qed

lemma update_upper_layers_spec:
  assumes H: "zero_chain H" and h: "0 < h" "h \<le> MAX_HEIGHT" and w: "written ls j x ls'"
    and room: "length ls' \<le> 2 ^ h" and hs: "hashable H h ls"
    and L: "layers_upto H h ls ls' 1 (rmt_layers t)" and t: "rmt_height t = h"
  shows "if hashable H h ls'
    then \<exists>layers. rmt_update_upper_layers H t j =
        Ok (t\<lparr>rmt_layers := layers, rmt_roots := rmt_roots t @ [merkle_root H h ls']\<rparr>) \<and>
      length layers = h \<and> (\<forall>l < h. layer_ok H ls' l (layers ! l))
    else \<not> is_ok (rmt_update_upper_layers H t j)"
proof -
  obtain k where k: "h = Suc k" using h(1) by (cases h) auto
  have jh: "j div 2 ^ h = 0" using written_length [OF w] room by (simp add: div_eq_0_iff)
  let ?F = "try_fold (rmt_update_level H) (rmt_layers t, j) [1..<Suc k]"
  let ?hash = "hashv H [node H ls' k 0, node H ls' k 1]"
  note lv = update_levels_spec [OF H h(2) w L, of k]
  have all: "hashable H h ls' \<longleftrightarrow> (\<forall>l < k. hash_ok H ls' l (j div 2 ^ Suc l)) \<and> hash_ok H ls' k 0"
    unfolding written_hashable [OF w hs] using jh by (auto simp: k less_Suc_eq simp del: power_Suc)
  show ?thesis
  proof (cases "\<forall>l < k. hash_ok H ls' l (j div 2 ^ Suc l)")
    case True
    then obtain layers where Ly: "?F = Ok (layers, j div 2 ^ k)" "layers_upto H h ls ls' (Suc k) layers"
      using lv k by auto
    then have ok: "length layers = h" "\<And>l. l < h \<Longrightarrow> layer_ok H ls' l (layers ! l)"
      by (auto simp: layers_upto_def k)
    have nd: "rmt_node H layers k i = (Ok (node H ls' k i) :: (HasherError, _) result)" for i
      using ok h(2) by (intro rmt_node_spec [OF H]) (auto simp: k)
    have "rmt_update_upper_layers H t j =
        and_then ?hash (\<lambda>root. Ok (t\<lparr>rmt_layers := layers, rmt_roots := rmt_roots t @ [root]\<rparr>))"
      using Ly(1) by (simp add: rmt_update_upper_layers_def t k nd u64_eval)
    then show ?thesis unfolding all using ok True
      using hash_children [of H ls' k 0] by (auto simp: is_ok_iff and_then_eq_Ok merkle_root_def k)
  next
    case False
    then have "\<not> is_ok ?F" using lv k by (metis lessI)
    then have "\<not> is_ok (rmt_update_upper_layers H t j)"
      by (simp add: rmt_update_upper_layers_def is_ok_iff and_then_eq_Ok t k del: upt_Suc)
    then show ?thesis using all False by metis
  qed
qed

lemma rmt_rep_height: "rmt_rep H h t ls \<Longrightarrow> 0 < h \<and> h \<le> MAX_HEIGHT \<and> h < 64"
  by (auto simp: rmt_rep_def MAX_HEIGHT_def)

lemma layers_upto_start:
  assumes "rmt_rep H h t ls" "layer_ok H ls' 0 layer"
  shows "layers_upto H h ls ls' 1 ((rmt_layers t)[0 := layer])"
  using assms by (auto simp: rmt_rep_def layers_upto_def nth_list_update)

lemma layer_ok_0: "layer_ok H ls 0 layer \<longleftrightarrow> layer = ls"
  by (auto simp: layer_ok_def intro!: nth_equalityI) (meson linorder_neqE_nat less_irrefl)+

lemma rmt_rep_leaves: "rmt_rep H h t ls \<Longrightarrow> rmt_layers t \<noteq> [] \<and> rmt_layers t ! 0 = ls"
  by (auto simp: rmt_rep_def layer_ok_0)

lemma rmt_new_rep:
  assumes "zero_chain H" "0 < h" "h \<le> MAX_HEIGHT" "cd \<le> h"
  shows "\<exists>t. rmt_new H h cd = (Ok t :: ('e, _) result) \<and> rmt_rep H h t [] \<and>
    rmt_sequence_number t = 0 \<and> rmt_canopy_depth t = cd"
  using assms zero_chain_length [OF assms(1)] node_empty [OF assms(1,3), of 0] hashable_empty [OF assms(1,3)]
  by (auto simp: rmt_new_def rmt_rep_def index_eval layer_ok_def merkle_root_def MAX_HEIGHT_def u64_eval)

lemma rmt_append_spec:
  assumes H: "zero_chain H" and rep: "rmt_rep H h t ls" and room: "length ls < 2 ^ h"
    and sn: "rmt_sequence_number t + 1 < u64_bound"
  shows "if hashable H h (ls @ [x])
    then \<exists>t'. rmt_append H t x = Ok t' \<and> rmt_rep H h t' (ls @ [x]) \<and>
      rmt_sequence_number t' = rmt_sequence_number t + 1 \<and> rmt_canopy_depth t' = rmt_canopy_depth t
    else \<not> is_ok (rmt_append H t x)"
proof -
  note hh = rmt_rep_height [OF rep] and lv = rmt_rep_leaves [OF rep]
  have "(2::nat) ^ h < 2 ^ 64" using hh by (intro power_strict_increasing) auto
  then have r: "rmt_rightmost_index t = length ls" "Suc (length ls) < u64_bound"
    using rep room by (auto simp: rmt_rep_def)
  let ?t = "t\<lparr>rmt_layers := (rmt_layers t)[0 := ls @ [x]], rmt_rightmost_index := length ls + 1\<rparr>"
  have app: "rmt_append H t x = and_then (rmt_update_upper_layers H ?t (length ls))
      (\<lambda>t'. and_then (add_u64 (rmt_sequence_number t') 1) (\<lambda>sn. Ok (t'\<lparr>rmt_sequence_number := sn\<rparr>)))"
    using lv r by (simp add: rmt_append_def index_eval u64_eval)
  have "if hashable H h (ls @ [x])
    then \<exists>layers. rmt_update_upper_layers H ?t (length ls) =
        Ok (?t\<lparr>rmt_layers := layers, rmt_roots := rmt_roots ?t @ [merkle_root H h (ls @ [x])]\<rparr>) \<and>
      length layers = h \<and> (\<forall>l < h. layer_ok H (ls @ [x]) l (layers ! l))
    else \<not> is_ok (rmt_update_upper_layers H ?t (length ls))"
    using rep hh room layers_upto_start [OF rep, of "ls @ [x]" "ls @ [x]"]
    by (intro update_upper_layers_spec [OF H]) (auto simp: written_def layer_ok_0 rmt_rep_def)
  then show ?thesis unfolding app using rep room sn
    by (cases "hashable H h (ls @ [x])")
      (auto simp: u64_eval rmt_rep_def is_ok_iff and_then_eq_Ok)
qed

lemma rmt_update_spec:
  assumes H: "zero_chain H" and rep: "rmt_rep H h t ls" and sn: "rmt_sequence_number t + 1 < u64_bound"
  shows "if length ls \<le> j then rmt_update H t x j = Err (LeafDoesNotExist j)
    else if hashable H h (ls[j := x])
    then \<exists>t'. rmt_update H t x j = Ok t' \<and> rmt_rep H h t' (ls[j := x]) \<and>
      rmt_sequence_number t' = rmt_sequence_number t + 1 \<and> rmt_canopy_depth t' = rmt_canopy_depth t
    else \<not> is_ok (rmt_update H t x j)"
proof (cases "length ls \<le> j")
  case True
  then show ?thesis using rmt_rep_leaves [OF rep] by (simp add: rmt_update_def index_eval)
next
  case False
  note lv = rmt_rep_leaves [OF rep]
  let ?t = "t\<lparr>rmt_layers := (rmt_layers t)[0 := ls[j := x]]\<rparr>"
  have upd: "rmt_update H t x j = and_then (map_err RefHasher (rmt_update_upper_layers H ?t j))
      (\<lambda>t'. and_then (add_u64 (rmt_sequence_number t') 1) (\<lambda>sn. Ok (t'\<lparr>rmt_sequence_number := sn\<rparr>)))"
    using lv False by (simp add: rmt_update_def index_eval)
  have "if hashable H h (ls[j := x])
    then \<exists>layers. rmt_update_upper_layers H ?t j =
        Ok (?t\<lparr>rmt_layers := layers, rmt_roots := rmt_roots ?t @ [merkle_root H h (ls[j := x])]\<rparr>) \<and>
      length layers = h \<and> (\<forall>l < h. layer_ok H (ls[j := x]) l (layers ! l))
    else \<not> is_ok (rmt_update_upper_layers H ?t j)"
    using rep False layers_upto_start [OF rep, of "ls[j := x]" "ls[j := x]"]
    by (intro update_upper_layers_spec [OF H]) (auto simp: written_def layer_ok_0 rmt_rep_def)
  then show ?thesis unfolding upd using rep False sn
    by (cases "hashable H h (ls[j := x])")
      (auto simp: u64_eval rmt_rep_def is_ok_iff and_then_eq_Ok)
qed


section \<open>Paths, proofs and the canopy\<close>

lemma collect_path:
  fixes i :: nat
  assumes "\<And>p l. l < n \<Longrightarrow> body (p, i div 2 ^ l) l =
      and_then (BoundedVec_push p (f l)) (\<lambda>p. Ok (p, i div 2 ^ Suc l))" "n \<le> c"
  shows "\<exists>v. try_fold body (BoundedVec_with_capacity c, i) [0..<n] = Ok (v, i div 2 ^ n) \<and>
    bv_inv v \<and> BoundedVec_as_slice v = map f [0..<n] \<and> BoundedVec_capacity v = c"
  using assms
proof (induction n)
  case (Suc n)
  then obtain v where v: "try_fold body (BoundedVec_with_capacity c, i) [0..<n] = Ok (v, i div 2 ^ n)"
    "bv_inv v" "BoundedVec_as_slice v = map f [0..<n]" "BoundedVec_capacity v = c" by auto
  obtain w where w: "BoundedVec_push v (f n) = Ok w" "bv_inv w"
    "BoundedVec_as_slice w = map f [0..<Suc n]" "BoundedVec_capacity w = c"
    using bvb.push_ok [of v "f n"] v Suc.prems(2) by auto
  have "try_fold body (BoundedVec_with_capacity c, i) [0..<Suc n] = Ok (w, i div 2 ^ Suc n)"
    using v(1) w(1) Suc.prems(1) [of n v] by (simp add: try_fold_append)
  then show ?case using w by blast
qed simp

lemma sibling_if: "(if i mod 2 = 0 then i + 1 else i - 1) = sibling (i :: nat)"
  by (auto simp: sibling_even sibling_odd even_iff_mod_2_eq_zero)

lemma rep_node:
  "zero_chain H \<Longrightarrow> rmt_rep H h t ls \<Longrightarrow> l < h \<Longrightarrow>
     rmt_node H (rmt_layers t) l i = (Ok (node H ls l i) :: ('e, _) result)"
  by (rule rmt_node_spec) (auto simp: rmt_rep_def)

lemma get_proof_spec:
  assumes H: "zero_chain H" and rep: "rmt_rep H h t ls" and n: "n = (if full then h else h - rmt_canopy_depth t)"
  shows "\<exists>p. rmt_get_proof_of_leaf H t j full = Ok p \<and> bv_inv p \<and> BoundedVec_capacity p = h \<and>
    BoundedVec_as_slice p = take n (merkle_proof H h ls j)"
proof -
  have nh: "n \<le> h" "rmt_limit t full = (Ok n :: (BoundedVecError, _) result)" "rmt_height t = h"
    using rep n by (auto simp: rmt_rep_def rmt_limit_def u64_eval)
  have "take n (merkle_proof H h ls j) = map (\<lambda>l. node H ls l (sibling (j div 2 ^ l))) [0..<n]"
    using nh(1) by (simp add: merkle_proof_def take_map)
  moreover note collect_path [of n "\<lambda>(proof, i) level.
           let sibling_index = (if i mod 2 = 0 then i + 1 else i - 1) in
           and_then (rmt_node H (rmt_layers t) level sibling_index) (\<lambda>nd.
           and_then (BoundedVec_push proof nd) (\<lambda>proof. Ok (proof, i div 2)))" j
        "\<lambda>l. node H ls l (sibling (j div 2 ^ l))" h]
  ultimately show ?thesis using nh
    by (auto simp: rmt_get_proof_of_leaf_def Let_def sibling_if rep_node [OF H rep] div_pow_Suc simp del: power_Suc)
qed

lemma get_path_spec:
  assumes H: "zero_chain H" and rep: "rmt_rep H h t ls" and n: "n = (if full then h else h - rmt_canopy_depth t)"
  shows "\<exists>p. rmt_get_path_of_leaf H t j full = Ok p \<and> bv_inv p \<and>
    BoundedVec_as_slice p = map (\<lambda>l. node H ls l (j div 2 ^ l)) [0..<n]"
proof -
  have nh: "n \<le> h" "rmt_limit t full = (Ok n :: (BoundedVecError, _) result)" "rmt_height t = h"
    using rep n by (auto simp: rmt_rep_def rmt_limit_def u64_eval)
  note collect_path [of n "\<lambda>(path, i) level.
           and_then (rmt_node H (rmt_layers t) level i) (\<lambda>nd.
           and_then (BoundedVec_push path nd) (\<lambda>path. Ok (path, i div 2)))" j
        "\<lambda>l. node H ls l (j div 2 ^ l)" h]
  then show ?thesis using nh
    by (auto simp: rmt_get_path_of_leaf_def rep_node [OF H rep] div_pow_Suc simp del: power_Suc)
qed

text \<open>The canopy in the order the code collects it: level by level, from the children of the root.\<close>

definition canopy_list :: "Hasher \<Rightarrow> nat \<Rightarrow> bytes list \<Rightarrow> nat \<Rightarrow> bytes list" where
  "canopy_list H h ls cd = concat (map (\<lambda>i. map (node H ls (h - 1 - i)) [0..<2 ^ Suc i]) [0..<cd])"

lemma length_canopy_list: "length (canopy_list H h ls cd) = 2 ^ Suc cd - 2"
proof (induction cd)
  case (Suc cd)
  have "length (canopy_list H h ls (Suc cd)) = length (canopy_list H h ls cd) + 2 ^ Suc cd"
    by (simp add: canopy_list_def)
  then show ?case using Suc two_le_pow [of "Suc cd"] by simp
qed (simp add: canopy_list_def)

lemma canopy_list_nth:
  "d < cd \<Longrightarrow> x < 2 ^ Suc d \<Longrightarrow> canopy_list H h ls cd ! (2 ^ Suc d - 2 + x) = node H ls (h - 1 - d) x"
proof (induction cd)
  case (Suc cd)
  have app: "canopy_list H h ls (Suc cd) = canopy_list H h ls cd @ map (node H ls (h - 1 - cd)) [0..<2 ^ Suc cd]"
    by (simp add: canopy_list_def)
  show ?case
  proof (cases "d = cd")
    case True
    then have "canopy_list H h ls (Suc cd) ! (2 ^ Suc d - 2 + x) = map (node H ls (h - 1 - cd)) [0..<2 ^ Suc cd] ! x"
      unfolding app by (metis length_canopy_list nth_append_length_plus)
    then show ?thesis using Suc.prems True by (simp del: power_Suc)
  next
    case False
    then have "d < cd" using Suc.prems by simp
    have "(2::nat) ^ Suc (Suc d) \<le> 2 ^ Suc cd" using \<open>d < cd\<close> by (intro power_increasing) auto
    then have "2 ^ Suc d - 2 + x < 2 ^ Suc cd - 2"
      using Suc.prems(2) two_le_pow [of "Suc d"] unfolding power_Suc [of _ "Suc d"] by linarith
    then show ?thesis using Suc.IH [OF \<open>d < cd\<close> Suc.prems(2)] unfolding app nth_append length_canopy_list by simp
  qed
qed simp

lemma canopy_list_canopy_ok:
  assumes "canopy_ok H h cd c ls"
  shows "BoundedVec_as_slice c = canopy_list H h ls cd"
proof (rule nth_equalityI)
  have len: "length (BoundedVec_as_slice c) = 2 ^ Suc cd - 2" using assms by (simp add: canopy_ok_def)
  then show "length (BoundedVec_as_slice c) = length (canopy_list H h ls cd)"
    by (simp add: length_canopy_list)
  fix i assume "i < length (BoundedVec_as_slice c)"
  then have i: "i + 2 < 2 ^ Suc cd" unfolding len by linarith
  define d where "d = bit_len (i + 2) - 1"
  have "bit_len (i + 2) = Suc d" by (simp add: d_def bit_len_pos)
  then have d: "(i + 2) div 2 ^ d = 1" using bit_len_Suc by blast
  have dpos: "0 < d" using d by (cases d) auto
  have lo: "2 ^ d \<le> i + 2" using d by (metis div_less not_less zero_neq_one)
  have hi: "i + 2 < 2 ^ Suc d"
    using bit_len_le [of "i + 2" "Suc d"] \<open>bit_len (i + 2) = Suc d\<close> by (metis order_refl)
  have dcd: "d \<le> cd" using bit_len_le [of "i + 2" "Suc cd"] i \<open>bit_len (i + 2) = Suc d\<close> by simp
  define x where "x = i + 2 - 2 ^ d"
  have x: "x < 2 ^ d" "canopy_pos d x = i" using lo hi by (auto simp: x_def canopy_pos_def)
  have "BoundedVec_as_slice c ! i = node H ls (h - d) x"
    using assms x dpos dcd unfolding canopy_ok_def by metis
  moreover obtain e where e: "d = Suc e" using dpos by (cases d) auto
  moreover have "2 ^ Suc e - 2 + x = i" using x lo e two_le_pow [of d] by (simp add: canopy_pos_def x_def)
  ultimately show "BoundedVec_as_slice c ! i = canopy_list H h ls cd ! i"
    using canopy_list_nth [of e cd x H h ls] x(1) dcd by simp
qed

lemma try_fold_snoc: "try_fold f s (xs @ [x]) = and_then (try_fold f s xs) (\<lambda>s. f s x)"
  by (simp add: try_fold_append)

lemma canopy_level_spec:
  assumes H: "zero_chain H" and rep: "rmt_rep H h t ls" and i: "i < rmt_canopy_depth t"
    and v: "try_fold BoundedVec_push v (map (node H ls (h - 1 - i)) [0..<2 ^ Suc i]) = Ok w"
  shows "rmt_canopy_level H t (v, 2 ^ Suc i) i = Ok (w, 2 ^ Suc (Suc i))"
proof -
  have t: "rmt_height t = h" "i < h" "h \<le> MAX_HEIGHT" using rep i by (auto simp: rmt_rep_def)
  have "(2::nat) ^ Suc i * 2 < 2 ^ 64"
    using t power_strict_increasing [of "Suc (Suc i)" 64 "2::nat"] by (simp add: MAX_HEIGHT_def)
  then have "mul_u64 (2 ^ Suc i) 2 = (Ok (2 ^ Suc (Suc i)) :: (BoundedVecError, _) result)"
    by (simp add: u64_eval)
  moreover have "try_fold (\<lambda>c j. and_then (rmt_node H (rmt_layers t) (h - 1 - i) j)
      (\<lambda>nd. BoundedVec_push c nd)) v [0..<2 ^ Suc i] = Ok w"
    using v t by (simp add: rep_node [OF H rep] try_fold_map del: upt_Suc power_Suc)
  ultimately show ?thesis using t by (simp add: rmt_canopy_level_def u64_eval del: upt_Suc power_Suc)
qed

lemma get_canopy_spec:
  assumes H: "zero_chain H" and rep: "rmt_rep H h t ls"
  shows "\<exists>c. rmt_get_canopy H t = Ok c \<and> BoundedVec_as_slice c = canopy_list H h ls (rmt_canopy_depth t)"
proof (cases "rmt_canopy_depth t = 0")
  case True
  then show ?thesis by (simp add: rmt_get_canopy_def canopy_list_def)
next
  case False
  let ?cd = "rmt_canopy_depth t"
  let ?c = "(2::nat) ^ Suc ?cd - 2"
  have t: "?cd \<le> h" "h \<le> MAX_HEIGHT" using rep by (auto simp: rmt_rep_def)
  have size: "rmt_canopy_size t = (Ok ?c :: (BoundedVecError, _) result)"
    using t two_le_pow [of "Suc ?cd"] by (simp add: rmt_canopy_size_def u64_eval MAX_HEIGHT_def)
  have "\<exists>v. try_fold (rmt_canopy_level H t) (BoundedVec_with_capacity ?c, 2) [0..<k] = Ok (v, 2 ^ Suc k) \<and>
      bv_inv v \<and> BoundedVec_as_slice v = canopy_list H h ls k \<and> BoundedVec_capacity v = ?c"
    if "k \<le> ?cd" for k using that
  proof (induction k)
    case 0
    then show ?case by (simp add: canopy_list_def)
  next
    case (Suc k)
    then obtain v where v: "try_fold (rmt_canopy_level H t) (BoundedVec_with_capacity ?c, 2) [0..<k] = Ok (v, 2 ^ Suc k)"
      "bv_inv v" "BoundedVec_as_slice v = canopy_list H h ls k" "BoundedVec_capacity v = ?c"
      using Suc_leD by blast
    let ?row = "map (node H ls (h - 1 - k)) [0..<2 ^ Suc k]"
    have app: "canopy_list H h ls (Suc k) = canopy_list H h ls k @ ?row" by (simp add: canopy_list_def)
    have "length (canopy_list H h ls k @ ?row) \<le> ?c"
      unfolding app [symmetric] length_canopy_list using Suc.prems by (intro diff_le_mono power_increasing) simp_all
    then have "length (BoundedVec_as_slice v) + length ?row \<le> BoundedVec_capacity v"
      unfolding v(3,4) length_append .
    from bvb.push_all [OF v(2) this]
    obtain w where w: "try_fold BoundedVec_push v ?row = Ok w" "bv_inv w"
      "BoundedVec_as_slice w = canopy_list H h ls (Suc k)" "BoundedVec_capacity w = ?c"
      unfolding app v(3,4) by blast
    have "rmt_canopy_level H t (v, 2 ^ Suc k) k = Ok (w, 2 ^ Suc (Suc k))"
      using Suc.prems by (intro canopy_level_spec [OF H rep _ w(1)]) simp
    then show ?case using v(1) w by (simp add: try_fold_snoc del: power_Suc)
  qed
  from this [OF order_refl] obtain v where
    "try_fold (rmt_canopy_level H t) (BoundedVec_with_capacity ?c, 2) [0..<?cd] = Ok (v, 2 ^ Suc ?cd)"
    "BoundedVec_as_slice v = canopy_list H h ls ?cd" by blast
  then show ?thesis using False by (simp add: rmt_get_canopy_def size del: power_Suc)
qed

lemma rmt_rep_root: "rmt_rep H h t ls \<Longrightarrow> rmt_root t = Ok (merkle_root H h ls)"
  by (simp add: rmt_rep_def rmt_root_def)

lemma verify_step_ordered:
  "rmt_verify_step H (c, j div 2 ^ l) x = and_then (hashv H (ordered j l c x)) (\<lambda>h. Ok (h, j div 2 ^ Suc l))"
  unfolding rmt_verify_step_def ordered_def div_pow_Suc dvd_eq_mod_eq_0 by (simp add: Let_def)

lemma verify_climb:
  "try_fold (rmt_verify_step H) (leaf, j) xs =
   and_then (climb H j leaf xs (length xs)) (\<lambda>h. Ok (h, j div 2 ^ length xs))"
proof (induction xs rule: rev_induct)
  case (snoc x xs)
  have "climb H j leaf (xs @ [x]) (length xs) = climb H j leaf xs (length xs)"
    by (intro climb_cong) (simp add: nth_append)
  then show ?case
    by (cases "climb H j leaf xs (length xs)")
      (simp_all add: snoc try_fold_snoc verify_step_ordered del: power_Suc)
qed simp

lemma verify_unfold:
  assumes "rmt_rep H h t ls" "j < 2 ^ h" "bv_inv p" "BoundedVec_len p = h"
  shows "rmt_verify H t leaf p j =
    and_then (map_err RefHasher (climb H j leaf (BoundedVec_as_slice p) h))
      (\<lambda>c. Ok (c = merkle_root H h ls))"
proof -
  have "length (BoundedVec_as_slice p) = h" "rmt_height t = h" "rmt_capacity t = 2 ^ h"
    using assms by (auto simp: rmt_rep_def)
  then show ?thesis using assms rmt_rep_root [OF assms(1)]
    by (cases "climb H j leaf (BoundedVec_as_slice p) h") (simp_all add: rmt_verify_def verify_climb rmt_rep_root [OF assms(1)])
qed

lemma update_upper_layers_seq:
  "rmt_update_upper_layers H t i = Ok t' \<Longrightarrow> rmt_sequence_number t' = rmt_sequence_number t"
  by (auto simp: rmt_update_upper_layers_def and_then_eq_Ok split: prod.splits)

lemma rmt_append_Ok:
  assumes "zero_chain H" "rmt_rep H h t ls" "length ls < 2 ^ h" "rmt_append H t x = Ok t'"
  shows "rmt_rep H h t' (ls @ [x])" "rmt_canopy_depth t' = rmt_canopy_depth t"
proof -
  have "rmt_sequence_number t + 1 < u64_bound"
    using assms(4) by (auto simp: rmt_append_def and_then_eq_Ok dest!: update_upper_layers_seq)
  from rmt_append_spec [OF assms(1-3) this, of x] assms(4)
  show "rmt_rep H h t' (ls @ [x])" "rmt_canopy_depth t' = rmt_canopy_depth t"
    by (auto simp: is_ok_iff split: if_splits)
qed

lemma rmt_append_batch_Ok:
  "zero_chain H \<Longrightarrow> rmt_rep H h t ls \<Longrightarrow> length ls + length xs \<le> 2 ^ h \<Longrightarrow>
     rmt_append_batch H t xs = Ok t' \<Longrightarrow>
     rmt_rep H h t' (ls @ xs) \<and> rmt_canopy_depth t' = rmt_canopy_depth t"
proof (induction xs arbitrary: t ls)
  case (Cons x xs)
  then obtain t1 where t1: "rmt_append H t x = Ok t1" "rmt_append_batch H t1 xs = Ok t'"
    by (auto simp: rmt_append_batch_def and_then_eq_Ok)
  show ?case using rmt_append_Ok [OF Cons.prems(1,2) _ t1(1)] Cons.IH [OF Cons.prems(1) _ _ t1(2), of "ls @ [x]"]
      Cons.prems(3) by simp
qed (simp add: rmt_append_batch_def)


section \<open>One interface for both trees\<close>

text \<open>What is written to a tree: batches that are appended and leaves that are replaced.\<close>

datatype leaf_write = AppendLeaves "bytes list" | UpdateLeaf nat bytes

fun leaves_after :: "bytes list \<Rightarrow> leaf_write list \<Rightarrow> bytes list" where
  "leaves_after ls [] = ls"
| "leaves_after ls (AppendLeaves xs # ws) = leaves_after (ls @ xs) ws"
| "leaves_after ls (UpdateLeaf j x # ws) = leaves_after (ls[j := x]) ws"

lemma length_leaves_after: "length ls \<le> length (leaves_after ls ws)"
proof (induction ws arbitrary: ls)
  case (Cons w ws)
  show ?case
  proof (cases w)
    case (AppendLeaves xs)
    then show ?thesis using Cons [of "ls @ xs"] by simp
  next
    case (UpdateLeaf j x)
    then show ?thesis using Cons [of "ls[j := x]"] by simp
  qed
qed simp

text \<open>A run of writes; an update may depend on the leaves that are there.\<close>

fun writes ::
  "('s \<Rightarrow> bytes list \<Rightarrow> 's \<Rightarrow> bool) \<Rightarrow> (bytes list \<Rightarrow> 's \<Rightarrow> nat \<Rightarrow> bytes \<Rightarrow> 's \<Rightarrow> bool) \<Rightarrow>
     bytes list \<Rightarrow> 's \<Rightarrow> leaf_write list \<Rightarrow> 's \<Rightarrow> bool" where
  "writes app upd ls s [] s' \<longleftrightarrow> s' = s"
| "writes app upd ls s (AppendLeaves xs # ws) s' \<longleftrightarrow> (\<exists>s1. app s xs s1 \<and> writes app upd (ls @ xs) s1 ws s')"
| "writes app upd ls s (UpdateLeaf j x # ws) s' \<longleftrightarrow> (\<exists>s1. upd ls s j x s1 \<and> writes app upd (ls[j := x]) s1 ws s')"

text \<open>
  The contract a client of either tree relies on: a state represents a list of leaves, appending a
  batch extends the list, an update replaces a leaf, and the root is that of the list.
\<close>

locale merkle_accumulator =
  fixes rep :: "Hasher \<Rightarrow> nat \<Rightarrow> 's \<Rightarrow> bytes list \<Rightarrow> bool"
    and append_all :: "Hasher \<Rightarrow> nat \<Rightarrow> 's \<Rightarrow> bytes list \<Rightarrow> 's \<Rightarrow> bool"
    and update_at :: "Hasher \<Rightarrow> nat \<Rightarrow> bytes list \<Rightarrow> 's \<Rightarrow> nat \<Rightarrow> bytes \<Rightarrow> 's \<Rightarrow> bool"
    and root_is :: "'s \<Rightarrow> bytes \<Rightarrow> bool"
  assumes append_rep: "zero_chain H \<Longrightarrow> rep H h s ls \<Longrightarrow> length ls + length xs \<le> 2 ^ h \<Longrightarrow>
      append_all H h s xs s' \<Longrightarrow> rep H h s' (ls @ xs)"
    and update_rep: "zero_chain H \<Longrightarrow> rep H h s ls \<Longrightarrow> update_at H h ls s j x s' \<Longrightarrow> rep H h s' (ls[j := x])"
    and root_rep: "rep H h s ls \<Longrightarrow> root_is s r \<longleftrightarrow> r = merkle_root H h ls"
begin

lemma writes_rep:
  assumes "zero_chain H" "rep H h s ls" "length (leaves_after ls ws) \<le> 2 ^ h"
    and "writes (append_all H h) (update_at H h) ls s ws s'"
  shows "rep H h s' (leaves_after ls ws)"
  using assms(2-4)
proof (induction ws arbitrary: s ls)
  case (Cons w ws)
  show ?case
  proof (cases w)
    case (AppendLeaves xs)
    then obtain s1 where s1: "append_all H h s xs s1" "writes (append_all H h) (update_at H h) (ls @ xs) s1 ws s'"
      using Cons.prems(3) by auto
    have "length (ls @ xs) \<le> 2 ^ h" using Cons.prems(2) length_leaves_after [of "ls @ xs" ws] AppendLeaves by simp
    then have "rep H h s1 (ls @ xs)" using append_rep [OF assms(1) Cons.prems(1) _ s1(1)] by simp
    from Cons.IH [OF this _ s1(2)] Cons.prems(2) AppendLeaves show ?thesis by simp
  next
    case (UpdateLeaf j x)
    then obtain s1 where s1: "update_at H h ls s j x s1" "writes (append_all H h) (update_at H h) (ls[j := x]) s1 ws s'"
      using Cons.prems(3) by auto
    from Cons.IH [OF update_rep [OF assms(1) Cons.prems(1) s1(1)] _ s1(2)] Cons.prems(2) UpdateLeaf show ?thesis by simp
  qed
qed simp

lemma writes_root:
  "zero_chain H \<Longrightarrow> rep H h s ls \<Longrightarrow> length (leaves_after ls ws) \<le> 2 ^ h \<Longrightarrow>
     writes (append_all H h) (update_at H h) ls s ws s' \<Longrightarrow> root_is s' r \<longleftrightarrow> r = merkle_root H h (leaves_after ls ws)"
  by (rule root_rep [OF writes_rep])

end

definition cmt_appends :: "Hasher \<Rightarrow> nat \<Rightarrow> ConcurrentMerkleTree \<Rightarrow> bytes list \<Rightarrow> ConcurrentMerkleTree \<Rightarrow> bool" where
  "cmt_appends H h t xs t' \<longleftrightarrow> (\<exists>ci sn. cmt_append_batch h H t xs = Ok (t', ci, sn))"

text \<open>A successful update with any changelog index, old leaf and proof that does not exhibit a collision.\<close>

definition cmt_updates ::
  "Hasher \<Rightarrow> nat \<Rightarrow> bytes list \<Rightarrow> ConcurrentMerkleTree \<Rightarrow> nat \<Rightarrow> bytes \<Rightarrow> ConcurrentMerkleTree \<Rightarrow> bool" where
  "cmt_updates H h ls t j x t' \<longleftrightarrow> (\<exists>ci old p p' ci' sn'. cmt_update h H t ci old x j p = Ok (t', p', ci', sn') \<and>
     bv_inv p \<and> h \<le> BoundedVec_capacity p \<and> \<not> path_collision H h ls j old (BoundedVec_as_slice p'))"

definition rmt_appends :: "Hasher \<Rightarrow> nat \<Rightarrow> MerkleTree \<Rightarrow> bytes list \<Rightarrow> MerkleTree \<Rightarrow> bool" where
  "rmt_appends H h t xs t' \<longleftrightarrow> rmt_append_batch H t xs = Ok t'"

definition rmt_updates :: "Hasher \<Rightarrow> nat \<Rightarrow> bytes list \<Rightarrow> MerkleTree \<Rightarrow> nat \<Rightarrow> bytes \<Rightarrow> MerkleTree \<Rightarrow> bool" where
  "rmt_updates H h ls t j x t' \<longleftrightarrow> rmt_update H t x j = Ok t'"

lemma cmt_appends_rep:
  assumes "zero_chain H" "cmt_rep H h t ls" "cmt_appends H h t xs t'"
  shows "cmt_rep H h t' (ls @ xs)"
proof -
  obtain ci sn where a: "cmt_append_batch h H t xs = Ok (t', ci, sn)" using assms(3) by (auto simp: cmt_appends_def)
  from append_batch_spec [OF assms(1,2) append_batch_Ok [OF a assms(2)]] a
  show ?thesis by (auto simp: is_ok_iff split: if_splits)
qed

lemma cmt_updates_rep: "cmt_rep H h t ls \<Longrightarrow> cmt_updates H h ls t j x t' \<Longrightarrow> cmt_rep H h t' (ls[j := x])"
  using update_sound(4) unfolding cmt_updates_def updated_def by blast

lemma rmt_updates_rep:
  assumes "zero_chain H" "rmt_rep H h t ls" "rmt_updates H h ls t j x t'"
  shows "rmt_rep H h t' (ls[j := x])"
proof -
  have ok: "rmt_update H t x j = Ok t'" using assms(3) by (simp add: rmt_updates_def)
  then have "rmt_sequence_number t + 1 < u64_bound"
    by (auto simp: rmt_update_def and_then_eq_Ok map_err_eq_Ok split: if_splits dest!: update_upper_layers_seq)
  from rmt_update_spec [OF assms(1,2) this, of j x] ok show ?thesis by (auto simp: is_ok_iff split: if_splits)
qed

interpretation cmt_acc: merkle_accumulator cmt_rep cmt_appends cmt_updates
  "\<lambda>t r. cmt_root t = (Ok r :: (ConcurrentMerkleTreeError, _) result)"
  by unfold_locales (use cmt_appends_rep in blast, use cmt_updates_rep in blast, auto simp: cmt_rep_root)

interpretation rmt_acc: merkle_accumulator rmt_rep rmt_appends rmt_updates
  "\<lambda>t r. rmt_root t = (Ok r :: (HasherError, _) result)"
  by unfold_locales (use rmt_append_batch_Ok in \<open>auto simp: rmt_appends_def\<close>, use rmt_updates_rep in blast, auto simp: rmt_rep_root)


section \<open>Properties\<close>

lemma rmt_append_batch_total:
  assumes "zero_chain H" "\<And>ys. hashable H h ys"
  shows "rmt_rep H h t ls \<Longrightarrow> length ls + length xs \<le> 2 ^ h \<Longrightarrow>
    rmt_sequence_number t + length xs < u64_bound \<Longrightarrow>
    \<exists>t'. rmt_append_batch H t xs = Ok t' \<and> rmt_rep H h t' (ls @ xs) \<and>
      rmt_sequence_number t' = rmt_sequence_number t + length xs \<and> rmt_canopy_depth t' = rmt_canopy_depth t"
proof (induction xs arbitrary: t ls)
  case (Cons x xs)
  then obtain t1 where "rmt_append H t x = Ok t1" "rmt_rep H h t1 (ls @ [x])"
    "rmt_sequence_number t1 = rmt_sequence_number t + 1" "rmt_canopy_depth t1 = rmt_canopy_depth t"
    using rmt_append_spec [OF assms(1) Cons.prems(1), of x] assms(2) by auto
  then show ?case using Cons.IH [of t1 "ls @ [x]"] Cons.prems(2,3) by (auto simp: rmt_append_batch_def)
qed (simp add: rmt_append_batch_def)

lemma sample_reference:
  "\<exists>r. rmt_rep sample_hasher 3 r [[1], [2], [3]] \<and> rmt_sequence_number r = 3 \<and> rmt_canopy_depth r = 1"
proof -
  obtain r0 where r0: "rmt_new sample_hasher 3 1 = (Ok r0 :: (HasherError, _) result)"
    "rmt_rep sample_hasher 3 r0 []" "rmt_sequence_number r0 = 0" "rmt_canopy_depth r0 = 1"
    using rmt_new_rep [OF sample_zero_chain, of 3 1] by (auto simp: MAX_HEIGHT_def)
  show ?thesis
    using rmt_append_batch_total [OF sample_zero_chain sample_hashable r0(2), of "[[1], [2], [3]]"] r0(3,4) by auto
qed

text \<open>
  C23. The concurrent tree and the reference tree agree: from trees with the same leaves, after any appended
  batches and updates that lead to the same leaves in both, in whatever order and batches, they have the
  same root, and the canopy of the concurrent tree is the canopy the reference tree computes.  The updates
  of the concurrent tree are successful calls with any proofs that do not exhibit a hash collision.
\<close>

theorem trees_agree:
  assumes "zero_chain H" "cmt_rep H h t ls" "rmt_rep H h r ls"
    and "writes (cmt_appends H h) (cmt_updates H h) ls t ws t'" "writes (rmt_appends H h) (rmt_updates H h) ls r vs r'"
    and "leaves_after ls ws = leaves_after ls vs" "length (leaves_after ls vs) \<le> 2 ^ h"
    and "rmt_canopy_depth r' = cmt_canopy_depth t'"
  shows "\<exists>root c. cmt_root t' = (Ok root :: (ConcurrentMerkleTreeError, _) result) \<and>
    rmt_root r' = (Ok root :: (HasherError, _) result) \<and>
    rmt_get_canopy H r' = Ok c \<and> BoundedVec_as_slice c = BoundedVec_as_slice (cmt_canopy t')"
proof -
  have rep: "cmt_rep H h t' (leaves_after ls vs)" "rmt_rep H h r' (leaves_after ls vs)"
    using cmt_acc.writes_rep [OF assms(1,2) _ assms(4)] rmt_acc.writes_rep [OF assms(1,3,7,5)] assms(6,7) by simp_all
  then have "canopy_ok H h (cmt_canopy_depth t') (cmt_canopy t') (leaves_after ls vs)" by (simp add: cmt_rep_def)
  from canopy_list_canopy_ok [OF this] get_canopy_spec [OF assms(1) rep(2)] show ?thesis
    unfolding assms(8) by (auto simp: cmt_rep_root [OF rep(1)] rmt_rep_root [OF rep(2)])
qed

theorem trees_agree_witness:
  "\<exists>t r t' r' root. writes (cmt_appends sample_hasher 3) (cmt_updates sample_hasher 3) [[1], [2], [3]] t
       [AppendLeaves [[4]], UpdateLeaf 1 [9]] t' \<and>
     writes (rmt_appends sample_hasher 3) (rmt_updates sample_hasher 3) [[1], [2], [3]] r
       [UpdateLeaf 1 [9], AppendLeaves [[4]]] r' \<and>
     cmt_root t' = (Ok root :: (ConcurrentMerkleTreeError, _) result) \<and>
     rmt_root r' = (Ok root :: (HasherError, _) result)"
proof -
  let ?H = sample_hasher and ?ls = "[[1], [2], [3], [4]] :: bytes list"
  obtain t t1 ci sn where t: "cmt_rep ?H 3 t [[1], [2], [3]]" "cmt_canopy_depth t1 = 1" "cmt_rep ?H 3 t1 ?ls"
    "cmt_append_batch 3 ?H t [[4]] = Ok (t1, ci, sn)" "cmt_sequence_number t1 = 4" using sample_run by blast
  obtain p where p: "bv_inv p" "BoundedVec_capacity p = 3" "BoundedVec_as_slice p = take 2 (merkle_proof ?H 3 ?ls 1)"
    using bounded_vec_exists [of "take 2 (merkle_proof ?H 3 ?ls 1)" 3] by auto
  obtain t' p' where t': "cmt_update 3 ?H t1 (cmt_changelog_index t1) [2] [9] 1 p =
      Ok (t', p', cmt_changelog_index t', cmt_sequence_number t')" "cmt_canopy_depth t' = 1"
    "BoundedVec_as_slice p' = merkle_proof ?H 3 ?ls 1"
    using update_now [OF t(3), of 1 p "[9]"] p t(2,5) sample_hashable by (auto simp: updated_def)
  have "\<not> path_collision ?H 3 ?ls 1 [2] (merkle_proof ?H 3 ?ls 1)"
    using own_proof_no_collision [OF sample_hashable _ refl, of 1 ?ls 3] by simp
  then have "cmt_updates ?H 3 ?ls t1 1 [9] t'" unfolding cmt_updates_def t'(3) [symmetric]
    using t'(1) p(1,2) by (intro exI conjI) auto
  then have c: "writes (cmt_appends ?H 3) (cmt_updates ?H 3) [[1], [2], [3]] t [AppendLeaves [[4]], UpdateLeaf 1 [9]] t'"
    using t(4) by (auto simp: cmt_appends_def)
  obtain r where r: "rmt_rep ?H 3 r [[1], [2], [3]]" "rmt_sequence_number r = 3" "rmt_canopy_depth r = 1"
    using sample_reference by blast
  obtain r1 where r1: "rmt_update ?H r [9] 1 = Ok r1" "rmt_rep ?H 3 r1 [[1], [9], [3]]" "rmt_sequence_number r1 = 4" "rmt_canopy_depth r1 = 1"
    using rmt_update_spec [OF sample_zero_chain r(1), of 1 "[9]"] sample_hashable r(2,3) by auto
  obtain r' where r': "rmt_append_batch ?H r1 [[4]] = Ok r'" "rmt_canopy_depth r' = 1"
    using rmt_append_batch_total [OF sample_zero_chain sample_hashable r1(2), of "[[4]]"] r1(3,4) by auto
  have d: "writes (rmt_appends ?H 3) (rmt_updates ?H 3) [[1], [2], [3]] r [UpdateLeaf 1 [9], AppendLeaves [[4]]] r'"
    using r1(1) r'(1) by (auto simp: rmt_appends_def rmt_updates_def)
  from trees_agree [OF sample_zero_chain t(1) r(1) c d] t'(2) r'(2)
  have "\<exists>root. cmt_root t' = (Ok root :: (ConcurrentMerkleTreeError, _) result) \<and> rmt_root r' = (Ok root :: (HasherError, _) result)"
    by auto
  then show ?thesis using c d by blast
qed

text \<open>
  C40. A proof made by the reference tree (without the nodes of the canopy) updates the concurrent
  tree, also when fewer writes of other leaves than the capacity of the changelog happened meanwhile, and
  the two trees again have the same root after the same update.
\<close>

theorem reference_proof_accepted:
  assumes "zero_chain H" "cmt_rep H h t0 ls0" "rmt_rep H h r0 ls0" "cmt_run H h t0 ls0 es t ls"
    and "rmt_rep H h r ls" "rmt_canopy_depth r0 = cmt_canopy_depth t0"
    and "length es < CyclicBoundedVec_capacity (cmt_changelog t0)" "j \<notin> cle_index ` set es"
    and "j < length ls0" "hashable H h (ls[j := new])"
    and "cmt_sequence_number t + 1 < u64_bound" "rmt_sequence_number r + 1 < u64_bound"
  shows "\<exists>p t' p' r' root. rmt_get_proof_of_leaf H r0 j False = Ok p \<and>
    cmt_update h H t (cmt_changelog_index t0) (ls0 ! j) new j p =
      Ok (t', p', cmt_changelog_index t', cmt_sequence_number t + 1) \<and>
    rmt_update H r new j = Ok r' \<and>
    cmt_root t' = (Ok root :: (ConcurrentMerkleTreeError, _) result) \<and>
    rmt_root r' = (Ok root :: (HasherError, _) result)"
proof -
  note inv = run_invariant [OF assms(4,1,2)]
  have b: "cmt_base h t0" "0 < h" using assms(2) by (auto simp: cmt_rep_def cmt_base_def)
  have j: "ls ! j = ls0 ! j" "j < length ls"
    using run_leaf_unchanged [of H h es ls0 ls j] inv b(2) assms(8,9) by auto
  obtain p where p: "rmt_get_proof_of_leaf H r0 j False = Ok p" "bv_inv p" "BoundedVec_capacity p = h"
    "BoundedVec_as_slice p = take (h - cmt_canopy_depth t0) (merkle_proof H h ls0 j)"
    using get_proof_spec [OF assms(1,3) refl, of j False] assms(6) by auto
  obtain t' p' where t': "cmt_update h H t (cmt_changelog_index t0) (ls0 ! j) new j p =
      Ok (t', p', cmt_changelog_index t', cmt_sequence_number t + 1)" "cmt_rep H h t' (ls[j := new])"
    using update_concurrent [OF b(1), of H t ls es ls0 p j "ls0 ! j" new] inv j p assms(7,8,10,11)
    by (auto simp: updated_def)
  obtain r' where r': "rmt_update H r new j = Ok r'" "rmt_rep H h r' (ls[j := new])"
    using rmt_update_spec [OF assms(1,5,12), of j new] j(2) assms(10) by auto
  show ?thesis using p(1) t'(1) r'(1) cmt_rep_root [OF t'(2)] rmt_rep_root [OF r'(2)] by blast
qed

theorem reference_proof_accepted_witness:
  "\<exists>t0 t r0 r p t' p' r' root ci sn. cmt_append_batch 3 sample_hasher t0 [[4]] = Ok (t, ci, sn) \<and>
     rmt_append_batch sample_hasher r0 [[4]] = Ok r \<and>
     rmt_get_proof_of_leaf sample_hasher r0 1 False = Ok p \<and>
     cmt_update 3 sample_hasher t (cmt_changelog_index t0) [2] [9] 1 p = Ok (t', p', cmt_changelog_index t', 5) \<and>
     rmt_update sample_hasher r [9] 1 = Ok r' \<and>
     cmt_root t' = (Ok root :: (ConcurrentMerkleTreeError, _) result) \<and>
     rmt_root r' = (Ok root :: (HasherError, _) result)"
proof -
  let ?H = sample_hasher
  obtain t1 t2 ci sn where t: "cmt_rep ?H 3 t1 [[1], [2], [3]]"
    "CyclicBoundedVec_capacity (cmt_changelog t1) = 4" "cmt_canopy_depth t1 = 1"
    "cmt_append_batch 3 ?H t1 [[4]] = Ok (t2, ci, sn)" "cmt_sequence_number t2 = 4"
    "cmt_run ?H 3 t1 [[1], [2], [3]] (batch_entries ?H 3 [[1], [2], [3]] [[4]]) t2 [[1], [2], [3], [4]]"
    using sample_run by blast
  obtain r0 where r0: "rmt_rep ?H 3 r0 [[1], [2], [3]]" "rmt_sequence_number r0 = 3" "rmt_canopy_depth r0 = 1"
    using sample_reference by blast
  obtain r where r: "rmt_append_batch ?H r0 [[4]] = Ok r" "rmt_rep ?H 3 r [[1], [2], [3], [4]]" "rmt_sequence_number r = 4"
    using rmt_append_batch_total [OF sample_zero_chain sample_hashable r0(1), of "[[4]]"] r0(2) by auto
  from reference_proof_accepted [OF sample_zero_chain t(1) r0(1) t(6) r(2), of 1 "[9]"]
  have "\<exists>p t' p' r' root. rmt_get_proof_of_leaf ?H r0 1 False = Ok p \<and>
     cmt_update 3 ?H t2 (cmt_changelog_index t1) [2] [9] 1 p = Ok (t', p', cmt_changelog_index t', 5) \<and>
     rmt_update ?H r [9] 1 = Ok r' \<and> cmt_root t' = (Ok root :: (ConcurrentMerkleTreeError, _) result) \<and>
     rmt_root r' = (Ok root :: (HasherError, _) result)"
    using t r0(3) r(3) by (simp add: sample_hashable append_entry_def)
  then show ?thesis using t(4) r(1) by blast
qed

text \<open>
  C28. \<open>verify\<close> of the reference tree is sound and complete: a proof of full length for an index within
  the capacity verifies with the stored leaf and the sibling path, and whenever it verifies, either
  the leaf and the proof are the stored ones or the path exhibits a collision of the hash function.
  An index beyond the capacity and a proof of another length are errors.
\<close>

theorem reference_verify_correct:
  assumes "rmt_rep H h r ls" "bv_inv p"
  shows "(if 2 ^ h \<le> j then rmt_verify H r leaf p j = Err (LeafDoesNotExist j)
     else if BoundedVec_len p \<noteq> h then rmt_verify H r leaf p j = Err (RefInvalidProofLength (BoundedVec_len p) h)
     else (leaf = node H ls 0 j \<and> BoundedVec_as_slice p = merkle_proof H h ls j \<longrightarrow> rmt_verify H r leaf p j = Ok True) \<and>
       (rmt_verify H r leaf p j = Ok True \<longrightarrow>
         leaf = node H ls 0 j \<and> BoundedVec_as_slice p = merkle_proof H h ls j \<or>
         path_collision H h ls j leaf (BoundedVec_as_slice p)))"
proof (cases "j < 2 ^ h \<and> BoundedVec_len p = h")
  case False
  then show ?thesis using assms(1) by (auto simp: rmt_verify_def rmt_rep_def)
next
  case True
  then have j: "j < 2 ^ h" "BoundedVec_len p = h" "j div 2 ^ h = 0" by auto
  note unf = verify_unfold [OF assms(1) j(1) assms(2) j(2), of leaf]
  have hs: "hashable H h ls" using assms(1) by (simp add: rmt_rep_def)
  have "climb H j (node H ls 0 j) (merkle_proof H h ls j) h = Ok (node H ls h (j div 2 ^ h))"
    using hs by (intro climb_own) (simp_all add: hashable_def)
  then have complete: "rmt_verify H r leaf p j = Ok True"
    if "leaf = node H ls 0 j" "BoundedVec_as_slice p = merkle_proof H h ls j"
    using that j(3) unfolding unf by (simp add: merkle_root_def)
  have sound: "leaf = node H ls 0 j \<and> BoundedVec_as_slice p = merkle_proof H h ls j"
    if v: "rmt_verify H r leaf p j = Ok True" and nc: "\<not> path_collision H h ls j leaf (BoundedVec_as_slice p)"
  proof -
    have "climb H j leaf (BoundedVec_as_slice p) h = Ok (node H ls h (j div 2 ^ h))"
      using v j(3) unfolding unf by (auto simp: and_then_eq_Ok merkle_root_def)
    from climb_sound [OF this hs order_refl nc] show ?thesis
      using assms(2) j(2) by (auto intro!: nth_equalityI)
  qed
  show ?thesis using complete sound j(1,2) by (metis not_less)
qed

theorem reference_verify_correct_witness:
  "\<exists>r p. rmt_rep sample_hasher 3 r [[1], [2], [3]] \<and> rmt_get_proof_of_leaf sample_hasher r 1 True = Ok p \<and>
     rmt_verify sample_hasher r [2] p 1 = Ok True \<and> rmt_verify sample_hasher r [2] p 8 = Err (LeafDoesNotExist 8)"
proof -
  obtain r where r: "rmt_rep sample_hasher 3 r [[1], [2], [3]]" using sample_reference by blast
  obtain p where p: "rmt_get_proof_of_leaf sample_hasher r 1 True = Ok p" "bv_inv p"
    "BoundedVec_as_slice p = merkle_proof sample_hasher 3 [[1], [2], [3]] 1"
    using get_proof_spec [OF sample_zero_chain r refl, of 1 True] by auto
  have "BoundedVec_len p = 3" using arg_cong [OF p(3), of length] p(2) by simp
  then show ?thesis
    using reference_verify_correct [OF r p(2), of 1 "[2]"] reference_verify_correct [OF r p(2), of 8 "[2]"] r p
    by auto
qed

end
