(* ===== verification/Indexed_Reference.thy ===== *)
theory Indexed_Reference
  imports Indexed_Concurrency Reference_Merkle_Tree
begin

text \<open>
  \<open>merkle-tree/indexed/src/reference.rs\<close>: the reference indexed Merkle tree, a reference tree whose
  leaves are the hashes of an indexed array that the client keeps beside it.
\<close>

section \<open>Model\<close>

datatype IndexedReferenceMerkleTreeError =
    IrtIndexed IndexedMerkleTreeError
  | IrtReference ReferenceMerkleTreeError
  | IrtHasher HasherError

record ReferenceIndexedTree =
  irt_merkle_tree :: MerkleTree

definition irt_new :: "Hasher \<Rightarrow> nat \<Rightarrow> nat \<Rightarrow> (IndexedReferenceMerkleTreeError, ReferenceIndexedTree) result" where
  "irt_new H height canopy_depth =
     and_then (rmt_new H height canopy_depth) (\<lambda>mt.
     and_then (map_err IrtHasher (rmt_append H mt (zero_indexed_leaf H))) (\<lambda>mt.
     Ok \<lparr>irt_merkle_tree = mt\<rparr>))"

definition irt_get_path_of_leaf ::
  "Hasher \<Rightarrow> ReferenceIndexedTree \<Rightarrow> nat \<Rightarrow> bool \<Rightarrow> (BoundedVecError, bytes BoundedVec) result" where
  "irt_get_path_of_leaf H t i full = rmt_get_path_of_leaf H (irt_merkle_tree t) i full"

definition irt_get_proof_of_leaf ::
  "Hasher \<Rightarrow> ReferenceIndexedTree \<Rightarrow> nat \<Rightarrow> bool \<Rightarrow> (BoundedVecError, bytes BoundedVec) result" where
  "irt_get_proof_of_leaf H t i full = rmt_get_proof_of_leaf H (irt_merkle_tree t) i full"

definition irt_root :: "ReferenceIndexedTree \<Rightarrow> ('e, bytes) result" where
  "irt_root t = rmt_root (irt_merkle_tree t)"

definition irt_update ::
  "Hasher \<Rightarrow> ReferenceIndexedTree \<Rightarrow> IndexedElement \<Rightarrow> IndexedElement \<Rightarrow> nat \<Rightarrow>
     (IndexedReferenceMerkleTreeError, ReferenceIndexedTree) result" where
  "irt_update H t new_low_element new_element new_element_next_value =
     and_then (map_err IrtIndexed (IndexedElement_hash H new_low_element (ie_value new_element))) (\<lambda>new_low_leaf.
     and_then (map_err IrtReference (rmt_update H (irt_merkle_tree t) new_low_leaf (ie_index new_low_element))) (\<lambda>mt.
     and_then (map_err IrtIndexed (IndexedElement_hash H new_element new_element_next_value)) (\<lambda>new_leaf.
     and_then (map_err IrtHasher (rmt_append H mt new_leaf)) (\<lambda>mt.
     Ok (t\<lparr>irt_merkle_tree := mt\<rparr>)))))"

definition irt_init :: "Hasher \<Rightarrow> ReferenceIndexedTree \<Rightarrow> (IndexedReferenceMerkleTreeError, ReferenceIndexedTree) result" where
  "irt_init H t =
     and_then (map_err IrtIndexed (ia_append IndexedArray_default HIGHEST_ADDRESS_PLUS_ONE)) (\<lambda>(_, bundle).
     and_then (map_err IrtIndexed (IndexedElement_hash H (ieb_new_low_element bundle)
         (ie_value (ieb_new_element bundle)))) (\<lambda>new_low_leaf.
     and_then (map_err IrtReference (rmt_update H (irt_merkle_tree t) new_low_leaf 0)) (\<lambda>mt.
     and_then (map_err IrtIndexed (IndexedElement_hash H (ieb_new_element bundle)
         (ieb_new_element_next_value bundle))) (\<lambda>new_leaf.
     and_then (map_err IrtHasher (rmt_append H mt new_leaf)) (\<lambda>mt.
     Ok (t\<lparr>irt_merkle_tree := mt\<rparr>))))))"

definition irt_append ::
  "Hasher \<Rightarrow> ReferenceIndexedTree \<Rightarrow> nat \<Rightarrow> IndexedArray \<Rightarrow>
     (IndexedReferenceMerkleTreeError, ReferenceIndexedTree \<times> IndexedArray) result" where
  "irt_append H t value indexed_array =
     and_then (unwrap (ia_append indexed_array value)) (\<lambda>(indexed_array, bundle).
     and_then (irt_update H t (ieb_new_low_element bundle) (ieb_new_element bundle)
         (ieb_new_element_next_value bundle)) (\<lambda>t.
     Ok (t, indexed_array)))"

record NonInclusionProof =
  nip_root :: bytes
  nip_value :: bytes
  nip_leaf_lower_range_value :: bytes
  nip_leaf_higher_range_value :: bytes
  nip_leaf_index :: nat
  nip_next_index :: nat
  nip_merkle_proof :: "bytes BoundedVec"

definition irt_get_non_inclusion_proof ::
  "Hasher \<Rightarrow> ReferenceIndexedTree \<Rightarrow> nat \<Rightarrow> IndexedArray \<Rightarrow> (IndexedReferenceMerkleTreeError, NonInclusionProof) result" where
  "irt_get_non_inclusion_proof H t value indexed_array =
     and_then (map_err IrtIndexed (ia_find_low_element_for_nonexistent indexed_array value)) (\<lambda>(low_element, _).
     and_then (unwrap (irt_get_proof_of_leaf H t (ie_index low_element) True)) (\<lambda>merkle_proof.
     and_then (unwrap_or_panic (ia_get indexed_array (ie_next_index low_element))) (\<lambda>nxt.
     and_then (irt_root t) (\<lambda>root.
     and_then (unwrap (bigint_to_be_bytes_array 32 value)) (\<lambda>v.
     and_then (unwrap (bigint_to_be_bytes_array 32 (ie_value low_element))) (\<lambda>lower.
     and_then (unwrap (bigint_to_be_bytes_array 32 (ie_value nxt))) (\<lambda>higher.
     Ok \<lparr>nip_root = root, nip_value = v, nip_leaf_lower_range_value = lower,
         nip_leaf_higher_range_value = higher, nip_leaf_index = ie_index low_element,
         nip_next_index = ie_next_index low_element, nip_merkle_proof = merkle_proof\<rparr>)))))))"

text \<open>The boolean that \<open>verify\<close> returns is dropped.\<close>

definition irt_verify_non_inclusion_proof ::
  "Hasher \<Rightarrow> ReferenceIndexedTree \<Rightarrow> NonInclusionProof \<Rightarrow> (IndexedReferenceMerkleTreeError, unit) result" where
  "irt_verify_non_inclusion_proof H t pr =
     (let array_element = \<lparr>ie_index = nip_leaf_index pr, ie_value = from_bytes_be (nip_value pr),
                           ie_next_index = nip_next_index pr\<rparr> in
     and_then (map_err IrtIndexed (IndexedElement_hash H array_element
         (from_bytes_be (nip_leaf_higher_range_value pr)))) (\<lambda>leaf_hash.
     and_then (unwrap (rmt_verify H (irt_merkle_tree t) leaf_hash (nip_merkle_proof pr) (nip_leaf_index pr))) (\<lambda>_.
     Ok ())))"


section \<open>Properties\<close>

lemma in_range_unique:
  assumes "chain xs" "i < length xs" "j < length xs" "in_range xs i v" "in_range xs j v"
  shows "i = j"
proof -
  have "fst (xs ! j) \<le> fst (xs ! i)" "fst (xs ! i) \<le> fst (xs ! j)"
    using in_range_fresh(1) [OF assms(1,2,4,3)] in_range_fresh(1) [OF assms(1,3,5,2)] assms(4,5)
    by (auto simp: in_range_def)
  then show ?thesis using chain_value_inj [OF assms(1-3)] by simp
qed

text \<open>A client's tree and array that hold the same elements as the tree of the program.\<close>

definition irt_rep :: "Hasher \<Rightarrow> nat \<Rightarrow> ReferenceIndexedTree \<Rightarrow> IndexedArray \<Rightarrow> bytes list \<Rightarrow> bool" where
  "irt_rep H h r a ls \<longleftrightarrow> rmt_rep H h (irt_merkle_tree r) ls \<and> ia_inv a"

lemma irt_append_spec:
  assumes H: "zero_chain H" and r: "irt_rep H h r a ls" "length ls = length (ia_elements a)"
    and j: "j < length (ia_elements a)" "in_range (ia_pairs a) j v"
    and low: "elem_hash H (fst (ia_pairs a ! j), length ls, v) = Ok ll"
    and new: "elem_hash H (v, snd (ia_pairs a ! j), fst (ia_pairs a ! snd (ia_pairs a ! j))) = Ok nl"
    and hs: "hashable H h (ls[j := ll])" "hashable H h (ls[j := ll] @ [nl])"
    and room: "length ls < 2 ^ h" "rmt_sequence_number (irt_merkle_tree r) + 2 < u64_bound"
  shows "\<exists>r' a'. irt_append H r v a = Ok (r', a') \<and> irt_rep H h r' a' (ls[j := ll] @ [nl]) \<and>
    ia_pairs a' = chain_insert (ia_pairs a) j v"
proof -
  have mt: "rmt_rep H h (irt_merkle_tree r) ls" and inv: "ia_inv a" using r by (auto simp: irt_rep_def)
  have c: "chain (ia_pairs a)" using inv by (simp add: ia_inv_def)
  have "(2::nat) ^ h < 2 ^ 64" using rmt_rep_height [OF mt] by (intro power_strict_increasing) auto
  then have ub: "Suc (length (ia_elements a)) < u64_bound" using room(1) r(2) by simp
  have "v \<notin> ia_values a" using in_range_absent [OF c] j by auto
  then obtain k a' b where a': "ia_append a v = Ok (a', b)" "k < length (ia_elements a)" "in_range (ia_pairs a) k v"
    "ia_inv a'" "ia_pairs a' = chain_insert (ia_pairs a) k v"
    "ieb_new_low_element b = (ia_elements a ! k)\<lparr>ie_next_index := length (ia_elements a)\<rparr>"
    "ieb_new_element b = \<lparr>ie_index = length (ia_elements a), ie_value = v, ie_next_index = ie_next_index (ia_elements a ! k)\<rparr>"
    "ieb_new_element_next_value b = ie_value (ia_elements a ! ie_next_index (ia_elements a ! k))"
    using append_spec [OF inv ub, of v] by auto
  have k: "k = j" using in_range_unique [OF c, of k j v] a'(2,3) j by simp
  have nb: "ie_next_index (ia_elements a ! j) < length (ia_elements a)" using ia_next_in_bounds [OF c j(1)] .
  have ix: "ie_index (ia_elements a ! j) = j" using ia_index_nth [OF inv j(1)] .
  obtain m1 where m1: "rmt_update H (irt_merkle_tree r) ll j = Ok m1" "rmt_rep H h m1 (ls[j := ll])"
    "rmt_sequence_number m1 = rmt_sequence_number (irt_merkle_tree r) + 1"
    using rmt_update_spec [OF H mt, of j ll] j(1) r(2) hs(1) room(2) by auto
  obtain m2 where m2: "rmt_append H m1 nl = Ok m2" "rmt_rep H h m2 (ls[j := ll] @ [nl])"
    using rmt_append_spec [OF H m1(2), of nl] hs(2) room m1(3) by auto
  have "irt_append H r v a = Ok (r\<lparr>irt_merkle_tree := m2\<rparr>, a')"
    using a'(1,6-8) low new m1(1) m2(1) j(1) nb ix r(2)
    by (simp add: irt_append_def irt_update_def IndexedElement_hash_elem k)
  then show ?thesis using m2(2) a'(4,5) k by (auto simp: irt_rep_def)
qed

lemma append_inserted:
  assumes "zero_chain H" "imt_rep H h t xs ls" "irt_rep H h r a ls" "ia_pairs a = xs"
    and "inserted H h NET xs ls j v t ls' t' mt1" "rmt_sequence_number (irt_merkle_tree r) + 2 < u64_bound"
  shows "\<exists>r' a' root. irt_append H r v a = Ok (r', a') \<and> irt_rep H h r' a' ls' \<and> ia_pairs a' = chain_insert xs j v \<and>
    cmt_root (imt_merkle_tree t') = (Ok root :: (ConcurrentMerkleTreeError, _) result) \<and>
    irt_root r' = (Ok root :: (HasherError, _) result)"
proof -
  obtain ll nl where i: "j < length xs" "in_range xs j v" "ls' = ls[j := ll] @ [nl]"
    "imt_rep H h t' (chain_insert xs j v) ls'" "updated H h (ls[j := ll]) j (imt_merkle_tree t) mt1"
    using assms(5) by (auto simp: inserted_def)
  have c: "chain xs" "length ls = length xs" using assms(2) by (auto simp: imt_rep_def)
  have len: "length (ia_elements a) = length xs" using assms(4) by (metis length_ia_pairs)
  have ys: "length (chain_insert xs j v) = Suc (length xs)" using chain_insert_nth(1) [OF i(1)] .
  have "\<forall>k < Suc (length xs). elem_hash H (chain_elem (chain_insert xs j v) k) = Ok (ls' ! k)"
    using i(4) ys by (simp add: imt_rep_def)
  then have h1: "elem_hash H (chain_elem (chain_insert xs j v) j) = Ok (ls' ! j)"
    and h2: "elem_hash H (chain_elem (chain_insert xs j v) (length xs)) = Ok (ls' ! length xs)"
    using i(1) by simp_all
  have leaves: "ls' ! j = ll" "ls' ! length xs = nl" using i(1,3) c(2) by (auto simp: nth_append)
  have rep': "cmt_rep H h (imt_merkle_tree t') ls'" "cmt_rep H h mt1 (ls[j := ll])"
    using i(4,5) by (auto simp: imt_rep_def updated_def)
  have hs: "hashable H h (ls[j := ll])" "hashable H h (ls[j := ll] @ [nl])" "length ls < 2 ^ h"
    using rep' i(3) by (auto simp: cmt_rep_def)
  obtain r' a' where r': "irt_append H r v a = Ok (r', a')" "irt_rep H h r' a' (ls[j := ll] @ [nl])"
    "ia_pairs a' = chain_insert xs j v"
    using irt_append_spec [OF assms(1,3), of j v ll nl] assms(4,6) i(1,2) c len hs
      h1 [unfolded chain_elem_insert(1) [OF c(1) i(1)] leaves] h2 [unfolded chain_elem_insert(2) [OF c(1) i(1)] leaves] by auto
  then have "rmt_root (irt_merkle_tree r') = (Ok (merkle_root H h ls') :: (HasherError, _) result)"
    using i(3) rmt_rep_root by (auto simp: irt_rep_def)
  then show ?thesis using r' i(3) cmt_rep_root [OF rep'(1)] by (auto simp: irt_root_def)
qed

text \<open>
  C25. The program's indexed tree and the client's reference tree agree: when both hold the same elements, and
  \<open>update\<close> of the program succeeds in inserting a value, with whatever low element and proof it was called, then
  the client's \<open>append\<close> of that value succeeds, both hold the same elements again and have the same root.
  Otherwise the call of \<open>update\<close> exhibits a collision, of the leaf hash on the low element it used or of the node
  hash on its path.
\<close>

theorem indexed_reference_agrees:
  assumes "zero_chain H" "imt_rep H h t (ia_pairs a) ls" "irt_rep H h r a ls" "NET \<le> h" "bv_inv p" "h \<le> BoundedVec_capacity p"
    and "imt_update depth h NET H t ci ici v low low_next p = Ok (t', p', u)"
    and "rmt_sequence_number (irt_merkle_tree r) + 2 < u64_bound"
  shows "(\<exists>r' a' ls' root. irt_append H r v a = Ok (r', a') \<and> imt_rep H h t' (ia_pairs a') ls' \<and> irt_rep H h r' a' ls' \<and>
      map fst (ia_pairs a') = map fst (ia_pairs a) @ [v] \<and>
      cmt_root (imt_merkle_tree t') = (Ok root :: (ConcurrentMerkleTreeError, _) result) \<and>
      irt_root r' = (Ok root :: (HasherError, _) result)) \<or>
    (\<exists>s old. imt_patch_elements_and_proof depth t ici
        \<lparr>pt_changelog_index = ci, pt_new_element = \<lparr>ie_index = length (ia_pairs a), ie_value = v, ie_next_index = ie_next_index low\<rparr>,
         pt_low_element = low, pt_low_element_next_value = low_next, pt_low_leaf_proof = p\<rparr> = Some (Ok s) \<and>
      IndexedElement_hash H (pt_low_element s) (pt_low_element_next_value s) = Ok old \<and>
      (elem_collision H (ie_value (pt_low_element s), ie_next_index (pt_low_element s), pt_low_element_next_value s)
         (chain_elem (ia_pairs a) (ie_index (pt_low_element s))) \<or>
       path_collision H h ls (ie_index (pt_low_element s)) old (BoundedVec_as_slice p')))"
proof (rule update_inserted [OF assms(1,2,4-7)])
  fix s :: Patch and old
  let ?xs = "ia_pairs a" and ?j = "ie_index (pt_low_element s)"
  assume s: "imt_patch_elements_and_proof depth t ici
        \<lparr>pt_changelog_index = ci, pt_new_element = \<lparr>ie_index = length ?xs, ie_value = v, ie_next_index = ie_next_index low\<rparr>,
         pt_low_element = low, pt_low_element_next_value = low_next, pt_low_leaf_proof = p\<rparr> = Some (Ok s)"
    "IndexedElement_hash H (pt_low_element s) (pt_low_element_next_value s) = Ok old"
    and dis: "let j = ?j in (\<exists>ls' mt1. inserted H h NET ?xs ls j v t ls' t' mt1) \<or>
      elem_collision H (ie_value (pt_low_element s), ie_next_index (pt_low_element s), pt_low_element_next_value s) (chain_elem ?xs j) \<or>
      path_collision H h ls j old (BoundedVec_as_slice p')"
  show ?thesis
  proof (cases "\<exists>ls' mt1. inserted H h NET ?xs ls ?j v t ls' t' mt1")
    case True
    then obtain ls' mt1 where i: "inserted H h NET ?xs ls ?j v t ls' t' mt1" by blast
    then have "imt_rep H h t' (chain_insert ?xs ?j v) ls'" "?j < length ?xs" by (auto simp: inserted_def)
    then show ?thesis using append_inserted [OF assms(1-3) refl i assms(8)] chain_insert_nth(5) [of ?j ?xs v]
      by (intro disjI1) auto
  next
    case False
    then show ?thesis using s dis by (auto simp: Let_def)
  qed
qed

lemma sample_reference_tree:
  "\<exists>r. irt_new sample_indexed 3 1 = Ok r \<and>
     irt_rep sample_indexed 3 r IndexedArray_default [zero_indexed_leaf sample_indexed] \<and>
     rmt_sequence_number (irt_merkle_tree r) = 1"
proof -
  let ?H = sample_indexed and ?z = "zero_indexed_leaf sample_indexed"
  obtain m0 where m0: "rmt_new ?H 3 1 = (Ok m0 :: (IndexedReferenceMerkleTreeError, _) result)" "rmt_rep ?H 3 m0 []" "rmt_sequence_number m0 = 0"
    using rmt_new_rep [OF sample_indexed_laws(1), of 3 1] by (auto simp: MAX_HEIGHT_def)
  obtain m1 where m1: "rmt_append ?H m0 ?z = Ok m1" "rmt_rep ?H 3 m1 [?z]" "rmt_sequence_number m1 = 1"
    using rmt_append_spec [OF sample_indexed_laws(1) m0(2), of ?z] sample_indexed_laws(3) m0(3) by auto
  then show ?thesis using m0(1) ia_default_inv(1) by (auto simp: irt_new_def irt_rep_def)
qed

theorem indexed_reference_agrees_witness:
  "\<exists>r t p t' p' u r' a' root. irt_new sample_indexed 3 1 = Ok r \<and>
     imt_update 1 3 2 sample_indexed t (cmt_changelog_index (imt_merkle_tree t)) (imt_indexed_changelog_index t) 30
       \<lparr>ie_index = 0, ie_value = 0, ie_next_index = 0\<rparr> 0 p = Ok (t', p', u) \<and>
     irt_append sample_indexed r 30 IndexedArray_default = Ok (r', a') \<and> map fst (ia_pairs a') = [0, 30] \<and>
     cmt_root (imt_merkle_tree t') = (Ok root :: (ConcurrentMerkleTreeError, _) result) \<and>
     irt_root r' = (Ok root :: (HasherError, _) result)"
proof -
  let ?H = sample_indexed and ?z = "zero_indexed_leaf sample_indexed"
  obtain t ls where t: "imt_rep ?H 3 t [(0, 0)] ls" "cmt_sequence_number (imt_merkle_tree t) = 1"
     "cmt_canopy_depth (imt_merkle_tree t) = 1" using sample_indexed_tree by blast
  have "elem_hash ?H (0, 0, 0) = Ok (ls ! 0)" "length ls = 1" using t(1) by (auto simp: imt_rep_def chain_elem_def)
  then have ls: "ls = [?z]" using elem_hash_zero [OF sample_indexed_laws(2)] by (cases ls) auto
  obtain p where p: "bv_inv p" "BoundedVec_capacity p = 3" "BoundedVec_as_slice p = take 2 (merkle_proof ?H 3 ls 0)"
    using bounded_vec_exists [of "take 2 (merkle_proof ?H 3 ls 0)" 3] by auto
  let ?low = "\<lparr>ie_index = 0, ie_value = 0, ie_next_index = 0\<rparr>"
  obtain t' p' u where u: "imt_update 1 3 2 ?H t (cmt_changelog_index (imt_merkle_tree t)) (imt_indexed_changelog_index t) 30 ?low 0 p =
      Ok (t', p', u)" "BoundedVec_as_slice p' = merkle_proof ?H 3 ls 0" using sample_update [OF t p] by blast
  obtain r where r: "irt_new ?H 3 1 = Ok r" "irt_rep ?H 3 r IndexedArray_default ls" "rmt_sequence_number (irt_merkle_tree r) = 1"
    using sample_reference_tree ls by blast
  have pairs: "ia_pairs IndexedArray_default = [(0, 0)]" by (simp add: ia_pairs_def IndexedArray_default_def)
  have patch: "imt_patch_elements_and_proof (Suc 0) t (imt_indexed_changelog_index t) s0 = Some (Ok s0)" for s0
    using patch_current [of t 0 s0] t(1) unfolding patch_on_stack_Ok by (simp add: imt_rep_def del: imt_patch_elements_and_proof.simps)
  have "\<not> elem_collision ?H (0, 0, 0) (chain_elem [(0, 0)] 0)" by (simp add: elem_collision_def chain_elem_def)
  moreover have "\<not> path_collision ?H 3 ls 0 old (BoundedVec_as_slice p')" if "IndexedElement_hash ?H ?low 0 = Ok old" for old
    using that own_proof_no_collision [OF sample_indexed_laws(3) _ refl, of 0 ls 3] elem_hash_zero [OF sample_indexed_laws(2)]
    by (simp add: IndexedElement_hash_elem ls u(2))
  ultimately obtain r' a' root where "irt_append ?H r 30 IndexedArray_default = Ok (r', a')" "map fst (ia_pairs a') = [0, 30]"
    "cmt_root (imt_merkle_tree t') = (Ok root :: (ConcurrentMerkleTreeError, _) result)" "irt_root r' = (Ok root :: (HasherError, _) result)"
    using indexed_reference_agrees [OF sample_indexed_laws(1) _ r(2) _ p(1) _ u(1)] t(1) p(2) r(3) unfolding pairs
    by (auto simp: patch simp del: imt_patch_elements_and_proof.simps)
  with r(1) u(1) show ?thesis by (intro exI conjI)
qed

text \<open>
  C30. \<open>verify_non_inclusion_proof\<close> verifies nothing about the tree: it accepts a proof exactly when the index is
  within the capacity, the proof has the length of the height and the hasher accepts the inputs along the path,
  whatever root the path leads to, because the boolean that \<open>verify\<close> returns is dropped.  Hence the result is the
  same for every tree of the same height, and it depends neither on the root nor on the lower end of the range
  that the proof names.
\<close>

theorem verify_non_inclusion_ignores_tree:
  assumes "rmt_rep H h (irt_merkle_tree r) ls" "bv_inv (nip_merkle_proof pr)"
  shows "(irt_verify_non_inclusion_proof H r pr = Ok () \<longleftrightarrow>
      nip_leaf_index pr < 2 ^ h \<and> BoundedVec_len (nip_merkle_proof pr) = h \<and>
      (\<exists>leaf root. IndexedElement_hash H \<lparr>ie_index = nip_leaf_index pr, ie_value = from_bytes_be (nip_value pr),
           ie_next_index = nip_next_index pr\<rparr> (from_bytes_be (nip_leaf_higher_range_value pr)) = Ok leaf \<and>
         climb H (nip_leaf_index pr) leaf (BoundedVec_as_slice (nip_merkle_proof pr)) h = Ok root)) \<and>
    (\<forall>r' ls'. rmt_rep H h (irt_merkle_tree r') ls' \<longrightarrow>
       (irt_verify_non_inclusion_proof H r' pr = Ok () \<longleftrightarrow> irt_verify_non_inclusion_proof H r pr = Ok ())) \<and>
    irt_verify_non_inclusion_proof H r (pr\<lparr>nip_root := x, nip_leaf_lower_range_value := y\<rparr>) = irt_verify_non_inclusion_proof H r pr"
proof -
  have iff: "irt_verify_non_inclusion_proof H r pr = Ok () \<longleftrightarrow>
      nip_leaf_index pr < 2 ^ h \<and> BoundedVec_len (nip_merkle_proof pr) = h \<and>
      (\<exists>leaf root. IndexedElement_hash H \<lparr>ie_index = nip_leaf_index pr, ie_value = from_bytes_be (nip_value pr),
           ie_next_index = nip_next_index pr\<rparr> (from_bytes_be (nip_leaf_higher_range_value pr)) = Ok leaf \<and>
         climb H (nip_leaf_index pr) leaf (BoundedVec_as_slice (nip_merkle_proof pr)) h = Ok root)"
    if rep: "rmt_rep H h (irt_merkle_tree r) ls" for r ls
  proof (cases "nip_leaf_index pr < 2 ^ h \<and> BoundedVec_len (nip_merkle_proof pr) = h")
    case True
    then show ?thesis using verify_unfold [OF rep _ assms(2)]
      by (auto simp: irt_verify_non_inclusion_proof_def is_ok_iff and_then_eq_Ok Let_def)
  next
    case False
    then have "\<not> is_ok (rmt_verify H (irt_merkle_tree r) leaf (nip_merkle_proof pr) (nip_leaf_index pr))" for leaf
      using rep by (auto simp: rmt_verify_def rmt_rep_def)
    then show ?thesis using False by (auto simp: irt_verify_non_inclusion_proof_def is_ok_iff and_then_eq_Ok Let_def)
  qed
  show ?thesis using iff [OF assms(1)] iff by (simp add: irt_verify_non_inclusion_proof_def)
qed

text \<open>The witness is a proof that 0, the value of the first element, is not in the tree.\<close>

theorem verify_non_inclusion_ignores_tree_witness:
  "\<exists>r pr. irt_new sample_indexed 3 1 = Ok r \<and> 0 \<in> ia_values IndexedArray_default \<and>
     from_bytes_be (nip_value pr) = 0 \<and> irt_verify_non_inclusion_proof sample_indexed r pr = Ok ()"
proof -
  let ?H = sample_indexed
  obtain r where r: "irt_new ?H 3 1 = Ok r" "rmt_rep ?H 3 (irt_merkle_tree r) [zero_indexed_leaf ?H]"
    using sample_reference_tree by (auto simp: irt_rep_def)
  obtain p :: "bytes BoundedVec" where p: "bv_inv p" "BoundedVec_as_slice p = [[], [], []]"
    using bounded_vec_exists [of "[[], [], []]" 3] by auto
  let ?pr = "\<lparr>nip_root = [], nip_value = replicate 32 0, nip_leaf_lower_range_value = [],
    nip_leaf_higher_range_value = replicate 32 0, nip_leaf_index = 5, nip_next_index = 0, nip_merkle_proof = p\<rparr>"
  have len: "BoundedVec_len p = 3" using p by (auto simp: bv_defs dest: arg_cong [where f = length])
  have zero: "from_bytes_be (replicate 32 0) = 0" by (simp add: from_bytes_be_def numeral_eq_Suc)
  obtain l where l: "IndexedElement_hash ?H \<lparr>ie_index = 5, ie_value = 0, ie_next_index = 0\<rparr> 0 = Ok l"
    using sample_elem_hash [of 0 0 0] by (auto simp: IndexedElement_hash_elem)
  have "\<exists>x. climb ?H j leaf xs n = Ok x" for j leaf xs n
    by (induction n) (auto simp: sample_indexed_def sample_hasher_def)
  then have "irt_verify_non_inclusion_proof ?H r ?pr = Ok ()"
    using verify_non_inclusion_ignores_tree [OF r(2), of ?pr] p(1) len l zero by simp
  moreover have "0 \<in> ia_values IndexedArray_default" by (simp add: ia_values_def IndexedArray_default_def)
  ultimately show ?thesis using r(1) zero by (intro exI [of _ r] exI [of _ ?pr]) simp
qed

end
