(* ===== verification/Hash_Set.thy ===== *)
theory Hash_Set
  imports Byte_Encoding "HOL-Library.List_Lexorder" "HOL-Library.Option_ord"
begin

text \<open>
  \<open>merkle-tree/hash-set/src/lib.rs\<close>: the queue of nullifiers and addresses, an open-addressing hash
  set with at most 20 quadratic probes whose elements expire.  A cell without a sequence number is
  pending; marking it starts its expiry, and the cell can be overwritten once the sequence number of
  the Merkle tree has reached the mark plus the threshold of the set.

  The buckets are a list of \<open>capacity\<close> optional cells.  \<open>hs_live s c\<close> is the abstract set: the values
  whose cells are valid at sequence number \<open>c\<close>.
\<close>


section \<open>Model\<close>

definition ITERATIONS :: nat where
  "ITERATIONS = 20"

datatype HashSetError =
    HsFull
  | HsElementAlreadyExists
  | HsElementDoesNotExist
  | HsUsizeConv
  | HsIntegerOverflow
  | HsBufferSize nat nat
  | HsUtils UtilsError

fun HashSetError_code :: "HashSetError \<Rightarrow> nat" where
  "HashSetError_code HsFull = 9001"
| "HashSetError_code HsElementAlreadyExists = 9002"
| "HashSetError_code HsElementDoesNotExist = 9003"
| "HashSetError_code HsUsizeConv = 9004"
| "HashSetError_code HsIntegerOverflow = 9005"
| "HashSetError_code (HsBufferSize _ _) = 9006"
| "HashSetError_code (HsUtils e) = UtilsError_code e"

datatype HashSetCell = HashSetCell (cell_value: bytes) (cell_sequence_number: "nat option")

text \<open>The derived \<open>Ord\<close>: fields are compared in order, \<open>None\<close> is least.\<close>

instantiation HashSetCell :: linorder
begin

definition less_eq_HashSetCell :: "HashSetCell \<Rightarrow> HashSetCell \<Rightarrow> bool" where
  "x \<le> y \<longleftrightarrow> cell_value x < cell_value y \<or>
     cell_value x = cell_value y \<and> cell_sequence_number x \<le> cell_sequence_number y"

definition less_HashSetCell :: "HashSetCell \<Rightarrow> HashSetCell \<Rightarrow> bool" where
  "x < y \<longleftrightarrow> cell_value x < cell_value y \<or>
     cell_value x = cell_value y \<and> cell_sequence_number x < cell_sequence_number y"

instance
  by standard (auto simp: less_eq_HashSetCell_def less_HashSetCell_def intro: HashSetCell.expand)

end

definition cell_value_biguint :: "HashSetCell \<Rightarrow> nat" where
  "cell_value_biguint c = from_bytes_be (cell_value c)"

definition is_marked :: "HashSetCell \<Rightarrow> bool" where
  "is_marked c \<longleftrightarrow> cell_sequence_number c \<noteq> None"

definition is_valid :: "HashSetCell \<Rightarrow> nat \<Rightarrow> bool" where
  "is_valid c current_sequence_number =
     (case cell_sequence_number c of
        Some sequence_number \<Rightarrow> \<not> sequence_number \<le> current_sequence_number
      | None \<Rightarrow> True)"

record HashSet =
  hs_capacity :: nat
  hs_sequence_threshold :: nat
  hs_buckets :: "HashSetCell option list"

definition hs_new :: "nat \<Rightarrow> nat \<Rightarrow> (HashSetError, HashSet) result" where
  "hs_new capacity_values sequence_threshold =
     Ok \<lparr>hs_capacity = capacity_values, hs_sequence_threshold = sequence_threshold,
         hs_buckets = replicate capacity_values None\<rparr>"

text \<open>The remainder by a zero capacity panics.\<close>

definition hs_probe_index :: "HashSet \<Rightarrow> nat \<Rightarrow> nat \<Rightarrow> ('e, nat) result" where
  "hs_probe_index s value iteration =
     and_then (add_u64 iteration (hs_capacity s div 10)) (\<lambda>iteration.
     if hs_capacity s = 0 then Panic else Ok ((value + iteration * iteration) mod hs_capacity s))"

definition hs_get_bucket :: "HashSet \<Rightarrow> nat \<Rightarrow> HashSetCell option option" where
  "hs_get_bucket s i = (if i \<ge> hs_capacity s then None else Some (hs_buckets s ! i))"

definition hs_set_bucket :: "HashSet \<Rightarrow> nat \<Rightarrow> HashSetCell option \<Rightarrow> HashSet" where
  "hs_set_bucket s i b = s\<lparr>hs_buckets := (hs_buckets s)[i := b]\<rparr>"

definition hs_get_unmarked_bucket :: "HashSet \<Rightarrow> nat \<Rightarrow> HashSetCell option option" where
  "hs_get_unmarked_bucket s i =
     (case hs_get_bucket s i of
        Some (Some bucket) \<Rightarrow> if \<not> is_marked bucket then Some (Some bucket) else None
      | _ \<Rightarrow> None)"

definition hs_insert_into_occupied_cell ::
  "HashSet \<Rightarrow> nat \<Rightarrow> nat \<Rightarrow> nat \<Rightarrow> (HashSetError, HashSet \<times> bool) result" where
  "hs_insert_into_occupied_cell s value_index value current_sequence_number =
     and_then (unwrap_or_panic (hs_get_bucket s value_index)) (\<lambda>bucket.
     case bucket of
       Some cell \<Rightarrow>
         (if (case cell_sequence_number cell of
                Some element_sequence_number \<Rightarrow> current_sequence_number \<ge> element_sequence_number
              | None \<Rightarrow> False)
          then and_then (map_err HsUtils (bigint_to_be_bytes_array 32 value)) (\<lambda>bs.
            Ok (hs_set_bucket s value_index (Some (HashSetCell bs None)), True))
          else if cell_value_biguint cell = value then Err HsElementAlreadyExists
          else Ok (s, False))
     | None \<Rightarrow> Panic)"

text \<open>\<open>find_element_iter\<close>: the last two arguments are the iterations left and the first free cell.\<close>

fun hs_find_element_loop ::
  "HashSet \<Rightarrow> nat \<Rightarrow> nat \<Rightarrow> nat list \<Rightarrow> (nat \<times> bool) option \<Rightarrow> (HashSetError, (nat \<times> bool) option) result" where
  "hs_find_element_loop s value c [] first_free_element = Ok first_free_element"
| "hs_find_element_loop s value c (i # is) first_free_element =
     and_then (hs_probe_index s value i) (\<lambda>probe_index.
     and_then (unwrap_or_panic (hs_get_bucket s probe_index)) (\<lambda>bucket.
     case bucket of
       Some bucket \<Rightarrow>
         (let first_free_element =
            (if first_free_element = None \<and> \<not> is_valid bucket c then Some (probe_index, False)
             else first_free_element) in
          if is_valid bucket c \<and> cell_value_biguint bucket = value then Err HsElementAlreadyExists
          else hs_find_element_loop s value c is first_free_element)
     | None \<Rightarrow>
         (if first_free_element = None then Ok (Some (probe_index, True))
          else hs_find_element_loop s value c is first_free_element)))"

definition hs_find_element_iter ::
  "HashSet \<Rightarrow> nat \<Rightarrow> nat \<Rightarrow> nat \<Rightarrow> nat \<Rightarrow> (HashSetError, (nat \<times> bool) option) result" where
  "hs_find_element_iter s value current_sequence_number start_iter num_iterations =
     and_then (add_u64 start_iter num_iterations) (\<lambda>end_iter.
     hs_find_element_loop s value current_sequence_number [start_iter..<end_iter] None)"

definition hs_insert :: "HashSet \<Rightarrow> nat \<Rightarrow> nat \<Rightarrow> (HashSetError, HashSet \<times> nat) result" where
  "hs_insert s value current_sequence_number =
     and_then (hs_find_element_iter s value current_sequence_number 0 ITERATIONS) (\<lambda>index_bucket.
     case index_bucket of
       None \<Rightarrow> Err HsFull
     | Some (i, is_new) \<Rightarrow>
         (if \<not> is_new then
            and_then (hs_insert_into_occupied_cell s i value current_sequence_number) (\<lambda>(s, inserted).
            if inserted then Ok (s, i) else Err HsFull)
          else
            and_then (unwrap_or_panic (hs_get_bucket s i)) (\<lambda>_.
            and_then (map_err HsUtils (bigint_to_be_bytes_array 32 value)) (\<lambda>bs.
            Ok (hs_set_bucket s i (Some (HashSetCell bs None)), i)))))"

fun hs_find_index_loop ::
  "HashSet \<Rightarrow> nat \<Rightarrow> nat option \<Rightarrow> nat list \<Rightarrow> (HashSetError, nat option) result" where
  "hs_find_index_loop s value current_sequence_number [] = Ok None"
| "hs_find_index_loop s value current_sequence_number (i # is) =
     and_then (hs_probe_index s value i) (\<lambda>probe_index.
     and_then (unwrap_or_panic (hs_get_bucket s probe_index)) (\<lambda>bucket.
     case bucket of
       Some bucket \<Rightarrow>
         (if cell_value_biguint bucket = value then
            (case current_sequence_number of
               Some c \<Rightarrow> if is_valid bucket c then Ok (Some probe_index)
                         else hs_find_index_loop s value current_sequence_number is
             | None \<Rightarrow> Ok (Some probe_index))
          else hs_find_index_loop s value current_sequence_number is)
     | None \<Rightarrow> Ok None))"

definition hs_find_element_index ::
  "HashSet \<Rightarrow> nat \<Rightarrow> nat option \<Rightarrow> (HashSetError, nat option) result" where
  "hs_find_element_index s value current_sequence_number =
     hs_find_index_loop s value current_sequence_number [0..<ITERATIONS]"

definition hs_find_element ::
  "HashSet \<Rightarrow> nat \<Rightarrow> nat option \<Rightarrow> (HashSetError, (HashSetCell \<times> nat) option) result" where
  "hs_find_element s value current_sequence_number =
     and_then (hs_find_element_index s value current_sequence_number) (\<lambda>found.
     case found of
       Some i \<Rightarrow> and_then (unwrap_or_panic (hs_get_bucket s i)) (\<lambda>bucket.
         case bucket of Some bucket \<Rightarrow> Ok (Some (bucket, i)) | None \<Rightarrow> Ok None)
     | None \<Rightarrow> Ok None)"

text \<open>The mutable reference that \<open>find_element_mut\<close> returns is the index of the cell, to be written with \<open>hs_set_bucket\<close>.\<close>

definition hs_find_element_mut ::
  "HashSet \<Rightarrow> nat \<Rightarrow> nat option \<Rightarrow> (HashSetError, (HashSetCell \<times> nat) option) result" where
  "hs_find_element_mut s value current_sequence_number =
     and_then (hs_find_element_index s value current_sequence_number) (\<lambda>found.
     case found of
       Some i \<Rightarrow> and_then (unwrap_or_panic (hs_get_bucket s i)) (\<lambda>bucket.
         case bucket of Some bucket \<Rightarrow> Ok (Some (bucket, i)) | None \<Rightarrow> Ok None)
     | None \<Rightarrow> Ok None)"

fun hs_first_loop :: "HashSet \<Rightarrow> (HashSetCell \<Rightarrow> bool) \<Rightarrow> nat list \<Rightarrow> (HashSetError, (HashSetCell \<times> nat) option) result" where
  "hs_first_loop s P [] = Ok None"
| "hs_first_loop s P (i # is) =
     and_then (unwrap_or_panic (hs_get_bucket s i)) (\<lambda>bucket.
     case bucket of
       Some bucket \<Rightarrow> if P bucket then Ok (Some (bucket, i)) else hs_first_loop s P is
     | None \<Rightarrow> hs_first_loop s P is)"

definition hs_first :: "HashSet \<Rightarrow> nat \<Rightarrow> (HashSetError, HashSetCell option) result" where
  "hs_first s current_sequence_number =
     and_then (hs_first_loop s (\<lambda>b. is_valid b current_sequence_number) [0..<hs_capacity s])
       (\<lambda>r. Ok (map_option fst r))"

text \<open>\<open>i as u16\<close> keeps the low 16 bits of the index.\<close>

definition hs_first_no_seq :: "HashSet \<Rightarrow> (HashSetError, (HashSetCell \<times> nat) option) result" where
  "hs_first_no_seq s =
     and_then (hs_first_loop s (\<lambda>b. cell_sequence_number b = None) [0..<hs_capacity s])
       (\<lambda>r. Ok (map_option (\<lambda>(b, i). (b, i mod 65536)) r))"

definition hs_contains :: "HashSet \<Rightarrow> nat \<Rightarrow> nat option \<Rightarrow> (HashSetError, bool) result" where
  "hs_contains s value sequence_number =
     and_then (hs_find_element s value sequence_number) (\<lambda>element. Ok (element \<noteq> None))"

definition hs_mark_with_sequence_number :: "HashSet \<Rightarrow> nat \<Rightarrow> nat \<Rightarrow> (HashSetError, HashSet) result" where
  "hs_mark_with_sequence_number s i sequence_number =
     and_then (ok_or (hs_get_bucket s i) HsElementDoesNotExist) (\<lambda>element.
     case element of
       Some element \<Rightarrow>
         and_then (add_u64 sequence_number (hs_sequence_threshold s)) (\<lambda>n.
         Ok (hs_set_bucket s i (Some (HashSetCell (cell_value element) (Some n)))))
     | None \<Rightarrow> Err HsElementDoesNotExist)"

text \<open>The iterator skips the empty buckets; its measure is the number of buckets left.\<close>

record HashSetIterator =
  hsi_hash_set :: HashSet
  hsi_current :: nat

definition hs_iter :: "HashSet \<Rightarrow> HashSetIterator" where
  "hs_iter s = \<lparr>hsi_hash_set = s, hsi_current = 0\<rparr>"

function hsi_next :: "HashSetIterator \<Rightarrow> HashSetIterator \<times> (nat \<times> HashSetCell) option" where
  "hsi_next it =
     (if hsi_current it < hs_capacity (hsi_hash_set it) then
        let element_index = hsi_current it; it' = it\<lparr>hsi_current := element_index + 1\<rparr> in
        case hs_get_bucket (hsi_hash_set it) element_index of
          Some (Some cur_element) \<Rightarrow> (it', Some (element_index, cur_element))
        | _ \<Rightarrow> hsi_next it'
      else (it, None))"
  by auto
termination
  by (relation "measure (\<lambda>it. hs_capacity (hsi_hash_set it) - hsi_current it)") auto

declare hsi_next.simps [simp del]

lemma hsi_next_unfold:
  assumes "hsi_current it < hs_capacity (hsi_hash_set it)"
  shows "hsi_next it = (case hs_buckets (hsi_hash_set it) ! hsi_current it of
     Some cell \<Rightarrow> (it\<lparr>hsi_current := hsi_current it + 1\<rparr>, Some (hsi_current it, cell))
   | None \<Rightarrow> hsi_next (it\<lparr>hsi_current := hsi_current it + 1\<rparr>))"
  using assms by (simp add: hsi_next.simps [of it] hs_get_bucket_def Let_def split: option.splits)

lemma hsi_next_end: "hs_capacity (hsi_hash_set it) \<le> hsi_current it \<Longrightarrow> hsi_next it = (it, None)"
  by (simp add: hsi_next.simps [of it])

lemma hsi_next_Some:
  "snd (hsi_next it) = Some x \<Longrightarrow>
     hsi_hash_set (fst (hsi_next it)) = hsi_hash_set it \<and> hsi_current it < hsi_current (fst (hsi_next it)) \<and>
     hsi_current (fst (hsi_next it)) \<le> hs_capacity (hsi_hash_set it)"
proof (induction "hs_capacity (hsi_hash_set it) - hsi_current it" arbitrary: it)
  case 0
  then show ?case using hsi_next_end [of it] by simp
next
  case (Suc n)
  let ?it = "it\<lparr>hsi_current := hsi_current it + 1\<rparr>"
  have lt: "hsi_current it < hs_capacity (hsi_hash_set it)" using Suc(2) by simp
  show ?case
  proof (cases "hs_buckets (hsi_hash_set it) ! hsi_current it")
    case None
    have eq: "hsi_next it = hsi_next ?it" using hsi_next_unfold [OF lt] None by simp
    show ?thesis using Suc(1) [of ?it] Suc(2,3) eq by (simp, linarith)
  qed (use hsi_next_unfold [OF lt] lt in simp)
qed

text \<open>The sequence of elements that repeated calls of \<open>next\<close> yield.\<close>

function hsi_elements :: "HashSetIterator \<Rightarrow> (nat \<times> HashSetCell) list" where
  "hsi_elements it =
     (case snd (hsi_next it) of None \<Rightarrow> [] | Some x \<Rightarrow> x # hsi_elements (fst (hsi_next it)))"
  by auto
termination
proof (relation "measure (\<lambda>it. hs_capacity (hsi_hash_set it) - hsi_current it)")
  fix it x
  assume "snd (hsi_next it) = Some x"
  from hsi_next_Some [OF this]
  show "(fst (hsi_next it), it) \<in> measure (\<lambda>it. hs_capacity (hsi_hash_set it) - hsi_current it)" by simp linarith
qed simp

declare hsi_elements.simps [simp del]

definition hs_eq :: "HashSet \<Rightarrow> HashSet \<Rightarrow> bool" where
  "hs_eq s t \<longleftrightarrow> hs_capacity s = hs_capacity t \<and> hs_sequence_threshold s = hs_sequence_threshold t \<and>
     hsi_elements (hs_iter s) = hsi_elements (hs_iter t)"


section \<open>Invariant and abstraction\<close>

definition probe :: "nat \<Rightarrow> nat \<Rightarrow> nat \<Rightarrow> nat" where
  "probe cap v i = (v + (i + cap div 10) * (i + cap div 10)) mod cap"

definition hs_live :: "HashSet \<Rightarrow> nat \<Rightarrow> nat set" where
  "hs_live s c = {cell_value_biguint x |x. Some x \<in> set (hs_buckets s) \<and> is_valid x c}"

text \<open>
  Every cell is at a probe position of its value that no empty position precedes, and no two cells that
  are valid at \<open>c\<close> have the same value.
\<close>

definition hs_placed :: "nat \<Rightarrow> HashSetCell option list \<Rightarrow> nat \<Rightarrow> HashSetCell \<Rightarrow> bool" where
  "hs_placed cap bs k x \<longleftrightarrow> length (cell_value x) = 32 \<and>
     (\<exists>i < ITERATIONS. k = probe cap (cell_value_biguint x) i \<and>
        (\<forall>j < i. bs ! probe cap (cell_value_biguint x) j \<noteq> None))"

definition hs_inv :: "HashSet \<Rightarrow> nat \<Rightarrow> bool" where
  [inv_defs]: "hs_inv s c \<longleftrightarrow>
     length (hs_buckets s) = hs_capacity s \<and> 0 < hs_capacity s \<and> hs_capacity s < u64_bound \<and>
     (\<forall>k < hs_capacity s. \<forall>x. hs_buckets s ! k = Some x \<longrightarrow> hs_placed (hs_capacity s) (hs_buckets s) k x) \<and>
     (\<forall>k < hs_capacity s. \<forall>l < hs_capacity s. \<forall>x y. hs_buckets s ! k = Some x \<longrightarrow> hs_buckets s ! l = Some y \<longrightarrow>
        is_valid x c \<longrightarrow> is_valid y c \<longrightarrow> cell_value_biguint x = cell_value_biguint y \<longrightarrow> k = l)"

lemma is_valid_mono: "is_valid x d \<Longrightarrow> c \<le> d \<Longrightarrow> is_valid x c"
  by (auto simp: is_valid_def split: option.splits)

lemma hs_inv_mono: "hs_inv s c \<Longrightarrow> c \<le> d \<Longrightarrow> hs_inv s d"
  unfolding hs_inv_def by (meson is_valid_mono)

lemma hs_live_antimono: "c \<le> d \<Longrightarrow> hs_live s d \<subseteq> hs_live s c"
  unfolding hs_live_def using is_valid_mono by blast

lemma hs_live_iff:
  assumes "length (hs_buckets s) = hs_capacity s"
  shows "v \<in> hs_live s c \<longleftrightarrow>
    (\<exists>k x. k < hs_capacity s \<and> hs_buckets s ! k = Some x \<and> is_valid x c \<and> cell_value_biguint x = v)"
  using assms unfolding hs_live_def by (fastforce simp: in_set_conv_nth)

lemma probe_bound [simp]: "0 < cap \<Longrightarrow> probe cap v i < cap"
  by (simp add: probe_def)

lemma hs_probe_index_eval:
  assumes "hs_inv s c" "i < ITERATIONS"
  shows "hs_probe_index s v i = Ok (probe (hs_capacity s) v i)"
  using assms by (auto simp: hs_probe_index_def probe_def hs_inv_def ITERATIONS_def u64_eval)

lemma hs_get_bucket_eval: "i < hs_capacity s \<Longrightarrow> hs_get_bucket s i = Some (hs_buckets s ! i)"
  by (simp add: hs_get_bucket_def)

lemma hs_new_inv:
  assumes "0 < cap" "cap < u64_bound"
  shows "\<exists>s. hs_new cap thr = Ok s \<and> hs_inv s c \<and> hs_live s c = {} \<and> hs_sequence_threshold s = thr"
  using assms by (auto simp: hs_new_def hs_inv_def hs_live_def)

lemma hs_invD:
  assumes "hs_inv s c"
  shows "length (hs_buckets s) = hs_capacity s" "0 < hs_capacity s" "hs_capacity s < u64_bound"
    "k < hs_capacity s \<Longrightarrow> hs_buckets s ! k = Some x \<Longrightarrow> hs_placed (hs_capacity s) (hs_buckets s) k x"
    "k < hs_capacity s \<Longrightarrow> l < hs_capacity s \<Longrightarrow> hs_buckets s ! k = Some x \<Longrightarrow> hs_buckets s ! l = Some y \<Longrightarrow>
      is_valid x c \<Longrightarrow> is_valid y c \<Longrightarrow> cell_value_biguint x = cell_value_biguint y \<Longrightarrow> k = l"
  using assms unfolding hs_inv_def by blast+

text \<open>What the probes of a value see.\<close>

abbreviation at_probe :: "HashSet \<Rightarrow> nat \<Rightarrow> nat \<Rightarrow> HashSetCell option" where
  "at_probe s v i \<equiv> hs_buckets s ! probe (hs_capacity s) v i"

definition live_at :: "HashSet \<Rightarrow> nat \<Rightarrow> nat \<Rightarrow> nat \<Rightarrow> bool" where
  "live_at s c v i \<longleftrightarrow> (\<exists>x. at_probe s v i = Some x \<and> is_valid x c \<and> cell_value_biguint x = v)"

definition taken_at :: "HashSet \<Rightarrow> nat \<Rightarrow> nat \<Rightarrow> nat \<Rightarrow> bool" where
  "taken_at s c v i \<longleftrightarrow> (\<exists>x. at_probe s v i = Some x \<and> is_valid x c)"

lemma find_element_loop_Cons:
  assumes "hs_inv s c0" "i < ITERATIONS"
  shows "hs_find_element_loop s v c (i # is) ff =
    (case at_probe s v i of
       Some x \<Rightarrow>
         if is_valid x c \<and> cell_value_biguint x = v then Err HsElementAlreadyExists
         else hs_find_element_loop s v c is
           (if ff = None \<and> \<not> is_valid x c then Some (probe (hs_capacity s) v i, False) else ff)
     | None \<Rightarrow> if ff = None then Ok (Some (probe (hs_capacity s) v i, True))
               else hs_find_element_loop s v c is ff)"
  by (simp add: hs_probe_index_eval [OF assms] hs_get_bucket_eval hs_invD(2) [OF assms(1)] Let_def split: option.splits)

lemma find_element_loop_found:
  assumes "hs_inv s c0"
  shows "set is \<subseteq> {..<ITERATIONS} \<Longrightarrow>
    hs_find_element_loop s v c is (Some f) =
      (if \<exists>i \<in> set is. live_at s c v i then Err HsElementAlreadyExists else Ok (Some f))"
proof (induction "is")
  case (Cons i "is")
  then show ?case
    by (auto simp: find_element_loop_Cons [OF assms] live_at_def simp del: hs_find_element_loop.simps(2) split: option.splits)
qed simp

text \<open>
  Scanning consecutive iterations from \<open>k\<close>: the first iteration whose cell is not taken decides.
\<close>

lemma find_element_loop_spec:
  assumes "hs_inv s c0" and "k \<le> n" "n \<le> ITERATIONS"
  shows "hs_find_element_loop s v c [k..<n] None =
    (case find (\<lambda>i. live_at s c v i \<or> \<not> taken_at s c v i) [k..<n] of
       None \<Rightarrow> Ok None
     | Some i \<Rightarrow>
         if live_at s c v i \<or> at_probe s v i \<noteq> None \<and> (\<exists>j \<in> {i<..<n}. live_at s c v j)
         then Err HsElementAlreadyExists
         else Ok (Some (probe (hs_capacity s) v i, at_probe s v i = None)))"
  using assms(2,3)
proof (induction "n - k" arbitrary: k)
  case (Suc m)
  then have k: "k < n" "k < ITERATIONS" "[k..<n] = k # [Suc k..<n]" by (auto simp: upt_conv_Cons)
  have sub: "set [Suc k..<n] \<subseteq> {..<ITERATIONS}" using Suc(4) by auto
  note IH = Suc(1) [of "Suc k"]
  have rng: "{k<..<n} = set [Suc k..<n]" by auto
  show ?case
    unfolding k(3) find_element_loop_Cons [OF assms(1) k(2)] rng
    using IH Suc(2,4) k(1) find_element_loop_found [OF assms(1) sub, of v c]
    by (auto simp: live_at_def taken_at_def split: option.splits if_splits)
qed simp


section \<open>Lookup and insertion\<close>

lemma find_upt:
  "find P [0..<n] = (if \<exists>i < n. P i then Some (LEAST i. P i) else None)"
proof (cases "find P [0..<n]")
  case None
  then show ?thesis by (auto simp: find_None_iff)
next
  case (Some i)
  then have i: "i < n" "P i" "\<forall>j < i. \<not> P j" by (auto simp: find_Some_iff)
  then have "(LEAST i. P i) = i" by (metis LeastI not_less_Least linorder_neqE_nat)
  then show ?thesis using Some i by auto
qed

lemma least_free:
  assumes "\<not> (\<forall>i < (n :: nat). P i)"
  shows "\<not> P (LEAST i. \<not> P i)" "(LEAST i. \<not> P i) < n" "\<forall>j < (LEAST i. \<not> P i). P j"
proof -
  obtain i where "i < n" "\<not> P i" using assms by blast
  then show "\<not> P (LEAST i. \<not> P i)" "(LEAST i. \<not> P i) < n"
    using LeastI [of "\<lambda>i. \<not> P i" i] Least_le [of "\<lambda>i. \<not> P i" i] by auto
  show "\<forall>j < (LEAST i. \<not> P i). P j" using not_less_Least [of _ "\<lambda>i. \<not> P i"] by blast
qed

lemma live_probeE:
  assumes "hs_inv s c0" "v \<in> hs_live s c"
  obtains i where "i < ITERATIONS" "live_at s c v i" "\<forall>j < i. at_probe s v j \<noteq> None"
proof -
  obtain k x where "k < hs_capacity s" "hs_buckets s ! k = Some x" "is_valid x c" "cell_value_biguint x = v"
    using assms hs_live_iff [OF hs_invD(1)] by blast
  then show ?thesis using hs_invD(4) [OF assms(1)] that unfolding hs_placed_def live_at_def by metis
qed

lemma live_at_live: "hs_inv s c0 \<Longrightarrow> live_at s c v i \<Longrightarrow> v \<in> hs_live s c"
  using hs_live_iff [OF hs_invD(1)] hs_invD(2) probe_bound unfolding live_at_def by blast

lemma find_element_iter_all:
  "hs_find_element_iter s v c 0 ITERATIONS = hs_find_element_loop s v c [0..<ITERATIONS] None"
  by (simp add: hs_find_element_iter_def add_u64_eval ITERATIONS_def del: upt_Suc)

lemma insert_present:
  assumes "hs_inv s c" "v \<in> hs_live s c"
  shows "hs_insert s v c = Err HsElementAlreadyExists"
proof -
  let ?P = "\<lambda>i. live_at s c v i \<or> \<not> taken_at s c v i"
  obtain i where i: "i < ITERATIONS" "live_at s c v i" "\<forall>j < i. at_probe s v j \<noteq> None"
    using live_probeE [OF assms] .
  let ?l = "LEAST i. ?P i"
  have l: "?P ?l" "?l \<le> i" using i LeastI [of ?P i] Least_le [of ?P i] by auto
  have f: "find ?P [0..<ITERATIONS] = Some ?l" using i by (auto simp: find_upt)
  have "live_at s c v ?l \<or> at_probe s v ?l \<noteq> None \<and> (\<exists>j \<in> {?l<..<ITERATIONS}. live_at s c v j)"
    using l i by (metis greaterThanLessThan_iff le_neq_implies_less)
  then show ?thesis
    by (simp add: hs_insert_def find_element_iter_all find_element_loop_spec [OF assms(1)] f)
qed

lemma find_free:
  assumes "hs_inv s c" "v \<notin> hs_live s c"
  shows "hs_find_element_iter s v c 0 ITERATIONS =
    (if \<forall>i < ITERATIONS. taken_at s c v i then Ok None
     else let i = (LEAST i. \<not> taken_at s c v i)
          in Ok (Some (probe (hs_capacity s) v i, at_probe s v i = None)))"
proof -
  have no: "\<not> live_at s c v i" for i using live_at_live [OF assms(1)] assms(2) by blast
  then show ?thesis
    by (auto simp: find_element_iter_all find_element_loop_spec [OF assms(1)] find_upt Let_def)
qed

lemma insert_absent:
  assumes "hs_inv s c" "v \<notin> hs_live s c"
  shows "hs_insert s v c =
    (if \<forall>i < ITERATIONS. taken_at s c v i then Err HsFull
     else map_err HsUtils (and_then (bigint_to_be_bytes_array 32 v) (\<lambda>bs.
       let p = probe (hs_capacity s) v (LEAST i. \<not> taken_at s c v i)
       in Ok (hs_set_bucket s p (Some (HashSetCell bs None)), p))))"
proof (cases "\<forall>i < ITERATIONS. taken_at s c v i")
  case False
  define i where "i = (LEAST i. \<not> taken_at s c v i)"
  let ?p = "probe (hs_capacity s) v i"
  have "\<not> taken_at s c v i" unfolding i_def by (rule least_free(1) [OF False])
  then have i: "at_probe s v i = None \<or> (\<exists>x n. at_probe s v i = Some x \<and> cell_sequence_number x = Some n \<and> n \<le> c)"
    by (cases "at_probe s v i") (auto simp: taken_at_def is_valid_def split: option.splits)
  have p: "hs_get_bucket s ?p = Some (at_probe s v i)"
    using hs_invD(2) [OF assms(1)] by (simp add: hs_get_bucket_eval)
  show ?thesis
    unfolding hs_insert_def find_free [OF assms] i_def [symmetric] using False i p
    by (cases "bigint_to_be_bytes_array 32 v") (auto simp: hs_insert_into_occupied_cell_def Let_def)
qed (simp add: hs_insert_def find_free [OF assms])

lemma live_set_bucket:
  assumes "length (hs_buckets s) = hs_capacity s" "p < hs_capacity s"
  shows "v \<in> hs_live (hs_set_bucket s p (Some y)) d \<longleftrightarrow>
    is_valid y d \<and> cell_value_biguint y = v \<or>
    (\<exists>k x. k < hs_capacity s \<and> k \<noteq> p \<and> hs_buckets s ! k = Some x \<and> is_valid x d \<and> cell_value_biguint x = v)"
  using assms by (auto simp: hs_live_iff hs_set_bucket_def nth_list_update)

lemma placed_update:
  assumes "hs_placed cap bs k x"
  shows "hs_placed cap (bs[p := Some y]) k x"
proof -
  have "bs ! l \<noteq> None \<Longrightarrow> bs[p := Some y] ! l \<noteq> None" for l
    by (cases "p < length bs"; cases "l = p") (auto simp: list_update_beyond)
  then show ?thesis using assms unfolding hs_placed_def by blast
qed

lemma set_bucket_inv:
  assumes "hs_inv s c" and p: "p < hs_capacity s" "hs_placed (hs_capacity s) (hs_buckets s) p y"
    and uniq: "\<And>k x. is_valid y c \<Longrightarrow> k < hs_capacity s \<Longrightarrow> k \<noteq> p \<Longrightarrow> hs_buckets s ! k = Some x \<Longrightarrow> is_valid x c \<Longrightarrow>
      cell_value_biguint x \<noteq> cell_value_biguint y"
  shows "hs_inv (hs_set_bucket s p (Some y)) c"
proof -
  let ?bs = "(hs_buckets s)[p := Some y]"
  have bs: "?bs ! k = (if k = p then Some y else hs_buckets s ! k)" for k
    using p(1) hs_invD(1) [OF assms(1)] by (auto simp: nth_list_update)
  have 1: "hs_placed (hs_capacity s) ?bs k x" if "k < hs_capacity s" "?bs ! k = Some x" for k x
    using placed_update [OF p(2)] placed_update [OF hs_invD(4) [OF assms(1)]] that by (auto simp: bs split: if_splits)
  have 2: "k = l" if "k < hs_capacity s" "l < hs_capacity s" "?bs ! k = Some x" "?bs ! l = Some z"
    "is_valid x c" "is_valid z c" "cell_value_biguint x = cell_value_biguint z" for k l x z
    using that uniq hs_invD(5) [OF assms(1)] unfolding bs by (metis option.inject)
  show ?thesis
    using hs_invD(1-3) [OF assms(1)] 1 2 by (simp add: hs_inv_def hs_set_bucket_def)
qed

lemma insert_OkD:
  assumes "hs_inv s c" "hs_insert s v c = Ok (s', p)"
  shows "v \<notin> hs_live s c" "hs_inv s' c" "\<And>d. c \<le> d \<Longrightarrow> hs_live s' d = insert v (hs_live s d)"
    "hs_sequence_threshold s' = hs_sequence_threshold s" "hs_capacity s' = hs_capacity s" "p < hs_capacity s"
    "\<exists>bs. length bs = 32 \<and> from_bytes_be bs = v \<and> s' = hs_set_bucket s p (Some (HashSetCell bs None))"
    "\<And>x. hs_buckets s ! p = Some x \<Longrightarrow> \<not> is_valid x c"
proof -
  show abs: "v \<notin> hs_live s c" using assms insert_present by fastforce
  define i where "i = (LEAST i. \<not> taken_at s c v i)"
  obtain bs where bs: "length bs = 32" "from_bytes_be bs = v" and free: "\<not> (\<forall>i < ITERATIONS. taken_at s c v i)"
    and p: "p = probe (hs_capacity s) v i" and s': "s' = hs_set_bucket s p (Some (HashSetCell bs None))"
    using assms(2) unfolding insert_absent [OF assms(1) abs] i_def
    by (auto simp: and_then_eq_Ok bigint_to_be_bytes_array_Ok_iff Let_def split: if_splits)
  have i: "\<not> taken_at s c v i" "i < ITERATIONS" "\<forall>j < i. taken_at s c v j"
    unfolding i_def by (rule least_free [OF free])+
  note cap = hs_invD(1-3) [OF assms(1)]
  show pc: "p < hs_capacity s" using p cap by simp
  show "\<exists>bs. length bs = 32 \<and> from_bytes_be bs = v \<and> s' = hs_set_bucket s p (Some (HashSetCell bs None))" using bs s' by blast
  show ex: "\<And>x. hs_buckets s ! p = Some x \<Longrightarrow> \<not> is_valid x c" using i(1) p by (auto simp: taken_at_def)
  have new: "is_valid (HashSetCell bs None) d" for d by (simp add: is_valid_def)
  have y: "cell_value_biguint (HashSetCell bs None) = v" using bs by (simp add: cell_value_biguint_def)
  have pl: "hs_placed (hs_capacity s) (hs_buckets s) p (HashSetCell bs None)"
    using i p bs(1) y unfolding hs_placed_def taken_at_def by (metis HashSetCell.sel(1) option.distinct(1))
  show "hs_inv s' c" unfolding s'
    by (rule set_bucket_inv [OF assms(1) pc pl]) (metis y abs hs_live_iff [OF cap(1)])
  show "hs_live s' d = insert v (hs_live s d)" if "c \<le> d" for d
    using ex is_valid_mono [OF _ that] y unfolding s'
    by (intro set_eqI) (auto simp: live_set_bucket [OF cap(1) pc] hs_live_iff [OF cap(1)] new)
  show "hs_sequence_threshold s' = hs_sequence_threshold s" "hs_capacity s' = hs_capacity s"
    by (simp_all add: s' hs_set_bucket_def)
qed

text \<open>Lookup: the scan ends at the first empty cell or at the first hit.\<close>

definition hs_values :: "HashSet \<Rightarrow> nat set" where
  "hs_values s = {cell_value_biguint x |x. Some x \<in> set (hs_buckets s)}"

definition hit :: "nat \<Rightarrow> nat option \<Rightarrow> HashSetCell \<Rightarrow> bool" where
  "hit v cur x \<longleftrightarrow> cell_value_biguint x = v \<and> (case cur of Some c \<Rightarrow> is_valid x c | None \<Rightarrow> True)"

lemma find_index_loop_Cons:
  assumes "hs_inv s c0" "i < ITERATIONS"
  shows "hs_find_index_loop s v cur (i # is) =
    (case at_probe s v i of
       Some x \<Rightarrow> if hit v cur x then Ok (Some (probe (hs_capacity s) v i)) else hs_find_index_loop s v cur is
     | None \<Rightarrow> Ok None)"
  by (auto simp: hs_probe_index_eval [OF assms] hs_get_bucket_eval hs_invD(2) [OF assms(1)] hit_def
      split: option.splits)

lemma find_index_loop_spec:
  assumes "hs_inv s c0"
  shows "set is \<subseteq> {..<ITERATIONS} \<Longrightarrow> hs_find_index_loop s v cur is =
    (case find (\<lambda>i. \<forall>x. at_probe s v i = Some x \<longrightarrow> hit v cur x) is of
       None \<Rightarrow> Ok None
     | Some i \<Rightarrow> Ok (if at_probe s v i = None then None else Some (probe (hs_capacity s) v i)))"
proof (induction "is")
  case (Cons i "is")
  then show ?case
    by (auto simp: find_index_loop_Cons [OF assms] simp del: hs_find_index_loop.simps(2) split: option.splits)
qed simp

lemma find_element_spec:
  assumes "hs_inv s c0"
  shows "(\<exists>k x. hs_find_element s v cur = Ok (Some (x, k)) \<and> k < hs_capacity s \<and> hs_buckets s ! k = Some x \<and> hit v cur x) \<or>
    hs_find_element s v cur = Ok None \<and> (\<forall>k x. k < hs_capacity s \<longrightarrow> hs_buckets s ! k = Some x \<longrightarrow> \<not> hit v cur x)"
proof -
  let ?P = "\<lambda>i. \<forall>x. at_probe s v i = Some x \<longrightarrow> hit v cur x"
  have loop: "hs_find_element_index s v cur = (case find ?P [0..<ITERATIONS] of
       None \<Rightarrow> Ok None
     | Some i \<Rightarrow> Ok (if at_probe s v i = None then None else Some (probe (hs_capacity s) v i)))"
    unfolding hs_find_element_index_def by (rule find_index_loop_spec [OF assms]) auto
  have at: "\<exists>i < ITERATIONS. at_probe s v i = Some x \<and> (\<forall>j < i. at_probe s v j \<noteq> None)"
    if "k < hs_capacity s" "hs_buckets s ! k = Some x" "hit v cur x" for k x
    using hs_invD(4) [OF assms that(1,2)] that(2,3) unfolding hs_placed_def hit_def by metis
  show ?thesis
  proof (cases "find ?P [0..<ITERATIONS]")
    case None
    then have "\<forall>i < ITERATIONS. \<exists>x. at_probe s v i = Some x \<and> \<not> hit v cur x" by (auto simp: find_None_iff)
    then show ?thesis using at loop None by (fastforce simp: hs_find_element_def)
  next
    case (Some i)
    then have i: "i < ITERATIONS" "?P i" "\<forall>j < i. \<exists>x. at_probe s v j = Some x \<and> \<not> hit v cur x"
      by (auto simp: find_Some_iff)
    show ?thesis
    proof (cases "at_probe s v i")
      case None
      have "\<not> hit v cur x" if "k < hs_capacity s" "hs_buckets s ! k = Some x" for k x
        using at [OF that] i(3) None by (metis linorder_neqE_nat option.distinct(1) option.inject)
      then show ?thesis using loop Some None by (auto simp: hs_find_element_def)
    qed (use loop Some i(2) hs_invD(2) [OF assms] in \<open>auto simp: hs_find_element_def hs_get_bucket_eval\<close>)
  qed
qed

lemma contains_spec:
  assumes "hs_inv s c0"
  shows "hs_contains s v (Some c) = Ok (v \<in> hs_live s c)" "hs_contains s v None = Ok (v \<in> hs_values s)"
proof -
  have "v \<in> hs_values s \<longleftrightarrow> (\<exists>k x. k < hs_capacity s \<and> hs_buckets s ! k = Some x \<and> cell_value_biguint x = v)"
    using hs_invD(1) [OF assms] unfolding hs_values_def by (fastforce simp: in_set_conv_nth)
  then show "hs_contains s v None = Ok (v \<in> hs_values s)"
    using find_element_spec [OF assms, of v None] unfolding hs_contains_def hit_def by (elim disjE exE conjE) auto
  show "hs_contains s v (Some c) = Ok (v \<in> hs_live s c)"
    using find_element_spec [OF assms, of v "Some c"] unfolding hs_contains_def hit_def hs_live_iff [OF hs_invD(1) [OF assms]]
    by (elim disjE exE conjE) auto
qed


section \<open>Marking\<close>

definition hs_pending :: "HashSet \<Rightarrow> nat \<Rightarrow> nat option" where
  "hs_pending s i =
     (case hs_get_unmarked_bucket s i of Some (Some x) \<Rightarrow> Some (cell_value_biguint x) | _ \<Rightarrow> None)"

lemma pendingE:
  assumes "hs_pending s i = Some v"
  obtains x where "i < hs_capacity s" "hs_buckets s ! i = Some x" "cell_sequence_number x = None" "cell_value_biguint x = v"
  using assms by (auto simp: hs_pending_def hs_get_unmarked_bucket_def hs_get_bucket_def is_marked_def
      split: option.splits if_splits)

lemma mark_pending:
  assumes "hs_inv s c" "hs_pending s i = Some v" "hs_mark_with_sequence_number s i n = Ok s'"
  shows "hs_inv s' c" "hs_sequence_threshold s' = hs_sequence_threshold s" "hs_capacity s' = hs_capacity s"
    "\<And>d. c \<le> d \<Longrightarrow> hs_live s' d =
      (if d < n + hs_sequence_threshold s then hs_live s d else hs_live s d - {v})"
proof -
  obtain x where x: "i < hs_capacity s" "hs_buckets s ! i = Some x" "cell_sequence_number x = None" "cell_value_biguint x = v"
    using pendingE [OF assms(2)] .
  define y where "y = HashSetCell (cell_value x) (Some (n + hs_sequence_threshold s))"
  have s': "s' = hs_set_bucket s i (Some y)"
    using assms(3) x by (auto simp: hs_mark_with_sequence_number_def hs_get_bucket_eval and_then_eq_Ok y_def)
  have v: "is_valid x d" for d using x(3) by (simp add: is_valid_def)
  have y: "cell_value_biguint y = v" "is_valid y d \<longleftrightarrow> d < n + hs_sequence_threshold s" "cell_value y = cell_value x" for d
    using x(4) by (auto simp: y_def cell_value_biguint_def is_valid_def)
  have pl: "hs_placed (hs_capacity s) (hs_buckets s) i y"
    using hs_invD(4) [OF assms(1) x(1,2)] y(1,3) x(4) by (simp add: hs_placed_def)
  have other: "cell_value_biguint z \<noteq> v" if "k < hs_capacity s" "k \<noteq> i" "hs_buckets s ! k = Some z" "is_valid z d" "c \<le> d" for k z d
    using hs_invD(5) [OF hs_inv_mono [OF assms(1) that(5)] that(1) x(1) that(3) x(2) that(4) v] that(2) x(4) by auto
  show "hs_inv s' c" unfolding s' by (rule set_bucket_inv [OF assms(1) x(1) pl]) (use other y(1) in auto)
  show "hs_sequence_threshold s' = hs_sequence_threshold s" "hs_capacity s' = hs_capacity s"
    by (simp_all add: s' hs_set_bucket_def)
  show "hs_live s' d = (if d < n + hs_sequence_threshold s then hs_live s d else hs_live s d - {v})" if "c \<le> d" for d
  proof (rule set_eqI)
    fix w
    have "w \<in> hs_live s' d \<longleftrightarrow> d < n + hs_sequence_threshold s \<and> v = w \<or>
      (\<exists>k z. k < hs_capacity s \<and> k \<noteq> i \<and> hs_buckets s ! k = Some z \<and> is_valid z d \<and> cell_value_biguint z = w)"
      unfolding s' using live_set_bucket [OF hs_invD(1) [OF assms(1)] x(1)] y by simp
    moreover have "w \<in> hs_live s d \<longleftrightarrow> v = w \<or>
      (\<exists>k z. k < hs_capacity s \<and> k \<noteq> i \<and> hs_buckets s ! k = Some z \<and> is_valid z d \<and> cell_value_biguint z = w)"
      unfolding hs_live_iff [OF hs_invD(1) [OF assms(1)]] using x v by (metis option.inject)
    ultimately show "w \<in> hs_live s' d \<longleftrightarrow>
      w \<in> (if d < n + hs_sequence_threshold s then hs_live s d else hs_live s d - {v})"
      using other [OF _ _ _ _ that] by auto
  qed
qed

lemma mark_total:
  "hs_mark_with_sequence_number s i n =
     (case hs_get_bucket s i of
        Some (Some x) \<Rightarrow>
          if n + hs_sequence_threshold s < u64_bound
          then Ok (hs_set_bucket s i (Some (HashSetCell (cell_value x) (Some (n + hs_sequence_threshold s)))))
          else Panic
      | _ \<Rightarrow> Err HsElementDoesNotExist)"
  by (auto simp: hs_mark_with_sequence_number_def add_u64_def checked_add_def split: option.splits)

lemma first_loop_spec:
  assumes "length (hs_buckets s) = hs_capacity s"
  shows "set is \<subseteq> {..<hs_capacity s} \<Longrightarrow> hs_first_loop s P is =
    Ok (map_option (\<lambda>i. (the (hs_buckets s ! i), i))
      (find (\<lambda>i. \<exists>x. hs_buckets s ! i = Some x \<and> P x) is))"
  by (induction "is") (auto simp: hs_get_bucket_eval split: option.splits)

lemma hsi_elements_cong: "hsi_next a = hsi_next b \<Longrightarrow> hsi_elements a = hsi_elements b"
  by (subst (1 2) hsi_elements.simps) (simp split: option.splits)

lemma hsi_elements_spec:
  "hsi_elements it = [(i, the (hs_buckets (hsi_hash_set it) ! i)).
     i \<leftarrow> [hsi_current it..<hs_capacity (hsi_hash_set it)], hs_buckets (hsi_hash_set it) ! i \<noteq> None]"
proof (induction "hs_capacity (hsi_hash_set it) - hsi_current it" arbitrary: it)
  case 0
  then show ?case using hsi_next_end [of it] by (simp add: hsi_elements.simps [of it])
next
  case (Suc n)
  let ?it = "it\<lparr>hsi_current := hsi_current it + 1\<rparr>"
  have lt: "hsi_current it < hs_capacity (hsi_hash_set it)" using Suc(2) by simp
  have IH: "hsi_elements ?it = [(i, the (hs_buckets (hsi_hash_set it) ! i)).
     i \<leftarrow> [Suc (hsi_current it)..<hs_capacity (hsi_hash_set it)], hs_buckets (hsi_hash_set it) ! i \<noteq> None]"
    using Suc(1) [of ?it] Suc(2) by (simp cong: if_cong)
  have "hsi_elements it = (case hs_buckets (hsi_hash_set it) ! hsi_current it of
      Some x \<Rightarrow> (hsi_current it, x) # hsi_elements ?it | None \<Rightarrow> hsi_elements ?it)"
    using hsi_next_unfold [OF lt] hsi_elements_cong [of it ?it]
    by (cases "hs_buckets (hsi_hash_set it) ! hsi_current it") (simp_all add: hsi_elements.simps [of it])
  then show ?case using IH lt by (simp add: upt_conv_Cons split: option.splits)
qed

lemma hs_eq_iff:
  assumes "length (hs_buckets s) = hs_capacity s" "length (hs_buckets t) = hs_capacity t"
  shows "hs_eq s t \<longleftrightarrow> s = t"
proof
  assume e: "hs_eq s t"
  have mem: "(i, x) \<in> set (hsi_elements (hs_iter u)) \<longleftrightarrow> i < hs_capacity u \<and> hs_buckets u ! i = Some x" for u i x
    by (auto simp: hsi_elements_spec hs_iter_def)
  have cap: "hs_capacity s = hs_capacity t" "hsi_elements (hs_iter s) = hsi_elements (hs_iter t)"
    using e by (auto simp: hs_eq_def)
  have "hs_buckets s ! i = Some x \<longleftrightarrow> hs_buckets t ! i = Some x" if "i < hs_capacity s" for i x
    using mem [of i x s] mem [of i x t] cap that by simp
  then have "hs_buckets s = hs_buckets t"
    using assms cap(1) by (intro nth_equalityI) (auto, metis option.exhaust)
  then show "s = t" using e by (simp add: hs_eq_def)
qed (simp add: hs_eq_def)


section \<open>The contract of the queue\<close>

text \<open>Histories of a queue: time is the sequence number of the tree, which never decreases.\<close>

datatype queue_event = Inserted nat | Marked nat nat

inductive queue_run ::
  "('s \<Rightarrow> nat \<Rightarrow> nat \<Rightarrow> ('e, 's \<times> nat) result) \<Rightarrow> ('s \<Rightarrow> nat \<Rightarrow> nat option) \<Rightarrow>
   ('s \<Rightarrow> nat \<Rightarrow> nat \<Rightarrow> ('e, 's) result) \<Rightarrow> 's \<Rightarrow> nat \<Rightarrow> queue_event list \<Rightarrow> 's \<Rightarrow> nat \<Rightarrow> bool"
  for ins pending mark where
  run_wait: "c \<le> d \<Longrightarrow> queue_run ins pending mark s c [] s d"
| run_insert: "c \<le> d \<Longrightarrow> ins s v d = Ok (s', i) \<Longrightarrow> queue_run ins pending mark s' d evs t e \<Longrightarrow>
     queue_run ins pending mark s c (Inserted v # evs) t e"
| run_mark: "c \<le> d \<Longrightarrow> pending s i = Some v \<Longrightarrow> mark s i n = Ok s' \<Longrightarrow>
     queue_run ins pending mark s' d evs t e \<Longrightarrow> queue_run ins pending mark s c (Marked v n # evs) t e"

text \<open>The set that a history leaves at time \<open>e\<close>.\<close>

fun live_after :: "nat \<Rightarrow> nat \<Rightarrow> nat set \<Rightarrow> queue_event list \<Rightarrow> nat set" where
  "live_after thr e A [] = A"
| "live_after thr e A (Inserted v # evs) = live_after thr e (insert v A) evs"
| "live_after thr e A (Marked v n # evs) = live_after thr e (if e < n + thr then A else A - {v}) evs"

lemma live_after_keeps:
  "v \<in> A \<Longrightarrow> \<forall>n. Marked v n \<in> set evs \<longrightarrow> e < n + thr \<Longrightarrow> v \<in> live_after thr e A evs"
proof (induction thr e A evs rule: live_after.induct)
  case (3 thr e A w n evs)
  then have "v \<in> (if e < n + thr then A else A - {w})" by auto
  then show ?case using 3 by simp
qed simp_all

locale expiring_set =
  fixes inv :: "'s \<Rightarrow> nat \<Rightarrow> bool" and live :: "'s \<Rightarrow> nat \<Rightarrow> nat set" and threshold :: "'s \<Rightarrow> nat"
    and ins :: "'s \<Rightarrow> nat \<Rightarrow> nat \<Rightarrow> ('e, 's \<times> nat) result" and present :: 'e
    and pending :: "'s \<Rightarrow> nat \<Rightarrow> nat option" and mark :: "'s \<Rightarrow> nat \<Rightarrow> nat \<Rightarrow> ('e, 's) result"
  assumes inv_later: "inv s c \<Longrightarrow> c \<le> d \<Longrightarrow> inv s d"
    and ins_present: "inv s c \<Longrightarrow> v \<in> live s c \<Longrightarrow> ins s v c = Err present"
    and ins_inv: "inv s c \<Longrightarrow> ins s v c = Ok (s', i) \<Longrightarrow> inv s' c \<and> threshold s' = threshold s"
    and ins_live: "inv s c \<Longrightarrow> ins s v c = Ok (s', i) \<Longrightarrow> c \<le> d \<Longrightarrow> live s' d = insert v (live s d)"
    and mark_inv: "inv s c \<Longrightarrow> pending s i = Some v \<Longrightarrow> mark s i n = Ok s' \<Longrightarrow> inv s' c \<and> threshold s' = threshold s"
    and mark_live: "inv s c \<Longrightarrow> pending s i = Some v \<Longrightarrow> mark s i n = Ok s' \<Longrightarrow> c \<le> d \<Longrightarrow>
      live s' d = (if d < n + threshold s then live s d else live s d - {v})"
begin

lemma run_time: "queue_run ins pending mark s c evs t e \<Longrightarrow> c \<le> e"
  by (induction rule: queue_run.induct) auto

lemma run_inv: "queue_run ins pending mark s c evs t e \<Longrightarrow> inv s c \<Longrightarrow> inv t e \<and> threshold t = threshold s"
  by (induction rule: queue_run.induct) (metis inv_later, metis inv_later ins_inv, metis inv_later mark_inv)

lemma run_live:
  "queue_run ins pending mark s c evs t e \<Longrightarrow> inv s c \<Longrightarrow> live t e = live_after (threshold s) e (live s e) evs"
proof (induction rule: queue_run.induct)
  case (run_insert c d s w s' i evs t e)
  note d = inv_later [OF run_insert.prems run_insert.hyps(1)]
  show ?case using run_insert.IH ins_inv [OF d run_insert.hyps(2)]
      ins_live [OF d run_insert.hyps(2) run_time [OF run_insert.hyps(3)]] by simp
next
  case (run_mark c d s i w n s' evs t e)
  note d = inv_later [OF run_mark.prems run_mark.hyps(1)]
  show ?case using run_mark.IH mark_inv [OF d run_mark.hyps(2,3)]
      mark_live [OF d run_mark.hyps(2,3) run_time [OF run_mark.hyps(4)]] by simp
qed simp

lemma run_rejects:
  assumes "inv s c" "ins s v c = Ok (s1, i)" "queue_run ins pending mark s1 c evs t e"
    "\<And>n. Marked v n \<in> set evs \<Longrightarrow> e < n + threshold s"
  shows "ins t v e = Err present"
proof -
  have "inv s1 c" "threshold s1 = threshold s" "v \<in> live s1 e"
    using ins_inv ins_live run_time assms(1-3) by blast+
  then show ?thesis using run_live [OF assms(3)] run_inv [OF assms(3)] ins_present assms(4) live_after_keeps by metis
qed

end

interpretation nullifier_queue: expiring_set hs_inv hs_live hs_sequence_threshold hs_insert HsElementAlreadyExists
  hs_pending hs_mark_with_sequence_number
  by unfold_locales (auto intro: hs_inv_mono insert_present insert_OkD mark_pending simp: insert_OkD(3) mark_pending(4))


section \<open>Properties\<close>

lemma bigint_be_total: "v < 256 ^ 32 \<Longrightarrow> \<exists>bs. bigint_to_be_bytes_array 32 v = Ok bs"
  using bigint_to_be_bytes_array_Ok_iff [of 32 v "rev (le_bytes 32 v)"] by (auto simp: from_bytes_be_def)

text \<open>
  C27. Insertion refines insertion into the set of live values, on every branch.  A value that is live
  is rejected as already present, although cells of other values and expired cells lie between its
  probes.  Otherwise the set is full exactly when all 20 probes hit live cells; a value of more than 32
  bytes is rejected; and in every other case the value becomes live, nothing else changes at this or
  any later sequence number, and the invariant is kept.
\<close>

theorem hash_set_insert_correct:
  assumes "hs_inv s c"
  shows "if v \<in> hs_live s c then hs_insert s v c = Err HsElementAlreadyExists
    else if \<forall>i < ITERATIONS. taken_at s c v i then hs_insert s v c = Err HsFull
    else if 256 ^ 32 \<le> v then hs_insert s v c = Err (HsUtils (InputTooLarge 32))
    else \<exists>s' p. hs_insert s v c = Ok (s', p) \<and> hs_inv s' c \<and> hs_pending s' p = Some v \<and>
      (\<forall>d \<ge> c. hs_live s' d = insert v (hs_live s d)) \<and> hs_contains s' v (Some c) = Ok True"
proof (cases "v \<in> hs_live s c \<or> (\<forall>i < ITERATIONS. taken_at s c v i)")
  case False
  then have a: "v \<notin> hs_live s c" "\<not> (\<forall>i < ITERATIONS. taken_at s c v i)" by auto
  note ins = insert_absent [OF assms a(1)]
  show ?thesis
  proof (cases "256 ^ 32 \<le> v")
    case True
    then have "bigint_to_be_bytes_array 32 v = Err (InputTooLarge 32)"
      using bigint_to_be_bytes_array_cases [of 32 v] bigint_to_be_bytes_array_Ok_iff [of 32 v] by auto
    then show ?thesis using a ins True by simp
  next
    case False
    then obtain bs where "bigint_to_be_bytes_array 32 v = Ok bs"
      using bigint_be_total [of v] by auto
    then obtain s' p where ok: "hs_insert s v c = Ok (s', p)" using a ins by (auto simp: Let_def)
    note D = insert_OkD [OF assms ok]
    have "hs_pending s' p = Some v"
      using D(7) D(6) hs_invD(1) [OF assms]
      by (auto simp: hs_pending_def hs_get_unmarked_bucket_def hs_get_bucket_def hs_set_bucket_def
          is_marked_def cell_value_biguint_def)
    then show ?thesis
      using a False ok D(2,3) contains_spec(1) [OF D(2), of v c]
      by (intro if_not_P [THEN iffD2]) auto
  qed
qed (use assms insert_present insert_absent in auto)

lemma insert_into_new:
  assumes "0 < cap" "cap < u64_bound" "v < 256 ^ 32"
  shows "\<exists>s0 s p. hs_new cap thr = Ok s0 \<and> hs_inv s0 c \<and> hs_insert s0 v c = Ok (s, p)"
proof -
  obtain s0 where s0: "hs_new cap thr = Ok s0" "hs_inv s0 c" "hs_live s0 c = {}"
    using hs_new_inv [OF assms(1,2)] by blast
  have "\<not> taken_at s0 c v 0" using s0(1) assms(1) by (auto simp: hs_new_def taken_at_def)
  then have free: "\<not> (\<forall>i < ITERATIONS. taken_at s0 c v i)" unfolding ITERATIONS_def by (metis zero_less_numeral)
  have "v \<notin> hs_live s0 c" using s0(3) by simp
  then show ?thesis using insert_absent [OF s0(2), of v] free s0 bigint_be_total [OF assms(3)] by (auto simp: Let_def)
qed

theorem hash_set_insert_correct_witness:
  "\<exists>s0 s p. hs_new 7 3 = Ok s0 \<and> hs_insert s0 5 0 = Ok (s, p) \<and>
     hs_insert s 5 0 = Err HsElementAlreadyExists"
proof -
  obtain s0 s p where s: "hs_new 7 3 = Ok s0" "hs_inv s0 0" "hs_insert s0 5 0 = Ok (s, p)"
    using insert_into_new [of 7 5 3 0] by auto
  have "hs_inv s 0" "5 \<in> hs_live s 0" using insert_OkD(2,3) [OF s(2,3)] by auto
  then have "hs_insert s 5 0 = Err HsElementAlreadyExists"
    using hash_set_insert_correct [of s 0 5] by simp
  then show ?thesis using s by blast
qed

text \<open>
  C26. No double insertion: once a value has been inserted, every later attempt to insert it again is
  rejected, whatever was inserted and marked in between, as long as no mark of the value has reached
  its expiry, the mark plus the threshold of the set.
\<close>

theorem no_double_insertion:
  assumes "hs_inv s c" "hs_insert s v c = Ok (s1, i)"
    and "queue_run hs_insert hs_pending hs_mark_with_sequence_number s1 c evs t e"
    and "\<forall>n. Marked v n \<in> set evs \<longrightarrow> e < n + hs_sequence_threshold s"
  shows "hs_insert t v e = Err HsElementAlreadyExists"
  using nullifier_queue.run_rejects [OF assms(1-3)] assms(4) by blast

theorem no_double_insertion_witness:
  "\<exists>s0 s1 i t. hs_new 7 3 = Ok s0 \<and> hs_insert s0 5 0 = Ok (s1, i) \<and>
     hs_mark_with_sequence_number s1 i 2 = Ok t \<and> hs_insert t 5 4 = Err HsElementAlreadyExists"
proof -
  obtain s0 s1 i where s: "hs_new 7 3 = Ok s0" "hs_inv s0 0" "hs_insert s0 5 0 = Ok (s1, i)"
    using insert_into_new [of 7 5 3 0] by auto
  have thr: "hs_sequence_threshold s0 = 3" using s(1) by (auto simp: hs_new_def)
  note D = insert_OkD [OF s(2,3)]
  obtain bs where bs: "from_bytes_be bs = 5" "s1 = hs_set_bucket s0 i (Some (HashSetCell bs None))" using D(7) by blast
  have b: "hs_get_bucket s1 i = Some (Some (HashSetCell bs None))"
    using bs D(6) hs_invD(1) [OF s(2)] by (simp add: hs_get_bucket_def hs_set_bucket_def)
  obtain t where t: "hs_mark_with_sequence_number s1 i 2 = Ok t"
    using b D(4) thr by (simp add: mark_total)
  have p: "hs_pending s1 i = Some 5" using b bs(1)
    by (simp add: hs_pending_def hs_get_unmarked_bucket_def is_marked_def cell_value_biguint_def)
  have run: "queue_run hs_insert hs_pending hs_mark_with_sequence_number s1 0 [Marked 5 2] t 4"
    by (rule run_mark [where d = 4]) (use p t in \<open>auto intro: run_wait\<close>)
  have "hs_insert t 5 4 = Err HsElementAlreadyExists"
    by (rule no_double_insertion [OF s(2,3) run]) (simp add: thr)
  then show ?thesis using s t by blast
qed

text \<open>
  C31. Lookup: \<open>contains\<close> with a sequence number decides membership among the live values, without one
  among all stored values, so that no probe sequence is cut short by an empty cell; and
  \<open>first_no_seq\<close> returns the pending cell of least index, whose index it truncates to 16 bits.
\<close>

theorem hash_set_lookup_correct:
  assumes "hs_inv s c0"
  shows "hs_contains s v (Some c) = Ok (v \<in> hs_live s c) \<and> hs_contains s v None = Ok (v \<in> hs_values s) \<and>
    hs_first_no_seq s =
      Ok (if \<exists>i < hs_capacity s. hs_pending s i \<noteq> None
          then let i = (LEAST i. hs_pending s i \<noteq> None) in Some (the (hs_buckets s ! i), i mod 65536)
          else None)"
proof -
  have p: "(\<exists>x. hs_buckets s ! i = Some x \<and> cell_sequence_number x = None) \<longleftrightarrow> hs_pending s i \<noteq> None" if "i < hs_capacity s" for i
    using that by (auto simp: hs_pending_def hs_get_unmarked_bucket_def hs_get_bucket_def is_marked_def split: option.splits)
  have "find (\<lambda>i. \<exists>x. hs_buckets s ! i = Some x \<and> cell_sequence_number x = None) [0..<hs_capacity s] =
    find (\<lambda>i. hs_pending s i \<noteq> None) [0..<hs_capacity s]" using p by (intro find_cong) auto
  then have "hs_first_no_seq s = Ok (map_option (\<lambda>(b, i). (b, i mod 65536)) (map_option (\<lambda>i. (the (hs_buckets s ! i), i))
      (find (\<lambda>i. hs_pending s i \<noteq> None) [0..<hs_capacity s])))"
    unfolding hs_first_no_seq_def by (subst first_loop_spec [OF hs_invD(1) [OF assms]]) auto
  then show ?thesis using contains_spec [OF assms] by (simp add: find_upt Let_def)
qed

theorem hash_set_lookup_correct_witness:
  "\<exists>s0 s i. hs_new 7 3 = Ok s0 \<and> hs_insert s0 5 0 = Ok (s, i) \<and>
     hs_contains s 5 (Some 0) = Ok True \<and> hs_contains s 6 (Some 0) = Ok False"
proof -
  obtain s0 s i where s: "hs_new 7 3 = Ok s0" "hs_inv s0 0" "hs_insert s0 5 0 = Ok (s, i)"
    using insert_into_new [of 7 5 3 0] by auto
  have l: "hs_live s 0 = {5}" using insert_OkD(3) [OF s(2,3), of 0] s(1) by (auto simp: hs_new_def hs_live_def)
  show ?thesis
    using s hash_set_lookup_correct [OF insert_OkD(2) [OF s(2,3)], of 5 0]
      hash_set_lookup_correct [OF insert_OkD(2) [OF s(2,3)], of 6 0] l by auto
qed

end
