(* ===== verification/Byte_Buffer.thy ===== *)
theory Byte_Buffer
  imports Bounded_Vec
begin

text \<open>
  \<open>utils/src/offset/{copy,zero_copy}.rs\<close>: reading and writing typed values at an offset of an account
  buffer.  The memory representation of a Rust type is a parameter, a \<open>Layout\<close>: its size, and the
  bytes of a value.  \<open>layout_ok\<close> is what the code relies on: values are represented by \<open>size_of\<close>
  bytes, and reading these bytes gives the value back.
\<close>


section \<open>Slices of a buffer\<close>

text \<open>\<open>bytes[a..b]\<close>, and \<open>bytes[a..b].copy_from_slice(data)\<close>.\<close>

definition slice :: "bytes \<Rightarrow> nat \<Rightarrow> nat \<Rightarrow> ('e, bytes) result" where
  "slice bs a b = (if a \<le> b \<and> b \<le> length bs then Ok (take (b - a) (drop a bs)) else Panic)"

definition copy_from_slice :: "bytes \<Rightarrow> nat \<Rightarrow> nat \<Rightarrow> bytes \<Rightarrow> ('e, bytes) result" where
  "copy_from_slice bs a b data =
     (if a \<le> b \<and> b \<le> length bs \<and> length data = b - a then Ok (take a bs @ data @ drop b bs) else Panic)"

record 'a Layout =
  size_of :: nat
  encode :: "'a \<Rightarrow> bytes"
  decode :: "bytes \<Rightarrow> 'a"

definition layout_ok :: "('a \<Rightarrow> bool) \<Rightarrow> 'a Layout \<Rightarrow> bool" where
  "layout_ok P L \<longleftrightarrow> 0 < size_of L \<and> (\<forall>x. P x \<longrightarrow> length (encode L x) = size_of L \<and> decode L (encode L x) = x)"

text \<open>Dereferencing a pointer into the buffer: an access outside the buffer is a panic.\<close>

definition load :: "'a Layout \<Rightarrow> bytes \<Rightarrow> nat \<Rightarrow> ('e, 'a) result" where
  "load L bs p = (if p + size_of L \<le> length bs then Ok (decode L (take (size_of L) (drop p bs))) else Panic)"

definition store :: "'a Layout \<Rightarrow> bytes \<Rightarrow> nat \<Rightarrow> 'a \<Rightarrow> ('e, bytes) result" where
  "store L bs p x =
     (if p + size_of L \<le> length bs then Ok (take p bs @ encode L x @ drop (p + size_of L) bs) else Panic)"

definition usize_layout :: "nat Layout" where
  "usize_layout = \<lparr>size_of = 8, encode = le_bytes 8, decode = from_bytes_le\<rparr>"

definition bytes32_layout :: "bytes Layout" where
  "bytes32_layout = \<lparr>size_of = 32, encode = id, decode = id\<rparr>"

definition metadata_layout :: "BoundedVecMetadata Layout" where
  "metadata_layout = \<lparr>size_of = 16, encode = BoundedVecMetadata_to_ne_bytes, decode = BoundedVecMetadata_from_ne_bytes\<rparr>"

definition cyclic_metadata_layout :: "CyclicBoundedVecMetadata Layout" where
  "cyclic_metadata_layout =
     \<lparr>size_of = 32, encode = CyclicBoundedVecMetadata_to_ne_bytes, decode = CyclicBoundedVecMetadata_from_ne_bytes\<rparr>"


section \<open>Typed access at an offset\<close>

definition read_value_at :: "'a Layout \<Rightarrow> bytes \<Rightarrow> nat \<Rightarrow> ('e, 'a \<times> nat) result" where
  "read_value_at L bs offset =
     and_then (add_u64 offset (size_of L)) (\<lambda>end.
     and_then (slice bs offset end) (\<lambda>s. Ok (decode L s, end)))"

text \<open>Copying the first \<open>length\<close> elements that the pointer points to into fresh vector memory.\<close>

definition copy_elements :: "'a Layout \<Rightarrow> bytes \<Rightarrow> nat \<Rightarrow> nat \<Rightarrow> nat \<Rightarrow> ('e, 'a list) result" where
  "copy_elements L bs ptr len capacity =
     try_fold (\<lambda>dst i. and_then (load L bs (ptr + i * size_of L)) (\<lambda>val. write_at dst i val))
       (replicate capacity undefined) [0..<len]"

definition read_bounded_vec_at ::
  "'a Layout \<Rightarrow> bytes \<Rightarrow> nat \<Rightarrow> BoundedVecMetadata \<Rightarrow> ('e, 'a BoundedVec \<times> nat) result" where
  "read_bounded_vec_at L bs offset metadata =
     and_then (mul_u64 (size_of L) (bvm_capacity metadata)) (\<lambda>size.
     and_then (add_u64 offset size) (\<lambda>end.
     and_then (slice bs offset end) (\<lambda>_.
     and_then (copy_elements L bs offset (bvm_length metadata) (bvm_capacity metadata)) (\<lambda>dst.
     Ok (BoundedVec_from_raw_parts metadata dst, end)))))"

definition read_cyclic_bounded_vec_at ::
  "'a Layout \<Rightarrow> bytes \<Rightarrow> nat \<Rightarrow> CyclicBoundedVecMetadata \<Rightarrow> ('e, 'a CyclicBoundedVec \<times> nat) result" where
  "read_cyclic_bounded_vec_at L bs offset metadata =
     and_then (mul_u64 (size_of L) (cbvm_capacity metadata)) (\<lambda>size.
     and_then (add_u64 offset size) (\<lambda>end.
     and_then (slice bs offset end) (\<lambda>_.
     and_then (copy_elements L bs offset (cbvm_length metadata) (cbvm_capacity metadata)) (\<lambda>dst.
     Ok (CyclicBoundedVec_from_raw_parts metadata dst, end)))))"

text \<open>A pointer into the buffer is its offset.\<close>

definition read_ptr_at :: "'a Layout \<Rightarrow> bytes \<Rightarrow> nat \<Rightarrow> ('e, nat \<times> nat) result" where
  "read_ptr_at L bs offset =
     and_then (add_u64 offset (size_of L)) (\<lambda>end.
     and_then (slice bs offset end) (\<lambda>_. Ok (offset, end)))"

definition read_array_like_ptr_at :: "'a Layout \<Rightarrow> bytes \<Rightarrow> nat \<Rightarrow> nat \<Rightarrow> ('e, nat \<times> nat) result" where
  "read_array_like_ptr_at L bs offset len =
     and_then (mul_u64 (size_of L) len) (\<lambda>size.
     and_then (add_u64 offset size) (\<lambda>end.
     and_then (slice bs offset end) (\<lambda>_. Ok (offset, end))))"

definition buffer_write_at :: "'a Layout \<Rightarrow> bytes \<Rightarrow> bytes \<Rightarrow> nat \<Rightarrow> ('e, bytes \<times> nat) result" where
  "buffer_write_at L bs data offset =
     and_then (add_u64 offset (size_of L)) (\<lambda>end.
     and_then (copy_from_slice bs offset end data) (\<lambda>bs. Ok (bs, end)))"


section \<open>Lemmas\<close>

lemma slice_Ok [simp]:
  "slice bs a b = Ok s \<longleftrightarrow> a \<le> b \<and> b \<le> length bs \<and> s = take (b - a) (drop a bs)"
  by (auto simp: slice_def)

lemma slice_append:
  "length pre = a \<Longrightarrow> length mid = b - a \<Longrightarrow> a \<le> b \<Longrightarrow> slice (pre @ mid @ post) a b = Ok mid"
  by (simp add: slice_def)

lemma copy_from_slice_append:
  "length pre = a \<Longrightarrow> length mid = b - a \<Longrightarrow> length data = b - a \<Longrightarrow> a \<le> b \<Longrightarrow>
    copy_from_slice (pre @ mid @ post) a b data = Ok (pre @ data @ post)"
  by (simp add: copy_from_slice_def)

lemma load_append:
  "layout_ok P L \<Longrightarrow> P x \<Longrightarrow> length pre = p \<Longrightarrow> load L (pre @ encode L x @ post) p = Ok x"
  by (simp add: load_def layout_ok_def)

lemma store_append:
  "length pre = p \<Longrightarrow> length mid = size_of L \<Longrightarrow> store L (pre @ mid @ post) p x = Ok (pre @ encode L x @ post)"
  by (simp add: store_def)

lemma read_value_at_append:
  assumes "layout_ok P L" "P x" "length pre = off" "off + size_of L < u64_bound"
  shows "read_value_at L (pre @ encode L x @ post) off = Ok (x, off + size_of L)"
  using assms by (simp add: read_value_at_def u64_eval slice_append layout_ok_def)

text \<open>The bytes of an array.\<close>

definition encode_list :: "'a Layout \<Rightarrow> 'a list \<Rightarrow> bytes" where
  "encode_list L xs = concat (map (encode L) xs)"

lemma encode_list_simps [simp]:
  "encode_list L [] = []" "encode_list L (x # xs) = encode L x @ encode_list L xs"
  "encode_list L (xs @ ys) = encode_list L xs @ encode_list L ys"
  by (simp_all add: encode_list_def)

lemma length_encode_list:
  assumes "layout_ok P L" "\<forall>x \<in> set xs. P x"
  shows "length (encode_list L xs) = length xs * size_of L"
  using assms(2) by (induction xs) (use assms(1) in \<open>auto simp: layout_ok_def\<close>)

lemma encode_list_split:
  assumes "layout_ok P L" "\<forall>x \<in> set xs. P x" "i < length xs"
  obtains pre post where "encode_list L xs = pre @ encode L (xs ! i) @ post" "length pre = i * size_of L"
    "pre = encode_list L (take i xs)" "post = encode_list L (drop (Suc i) xs)"
proof -
  have "xs = take i xs @ xs ! i # drop (Suc i) xs" using assms(3) by (simp add: id_take_nth_drop)
  then have "encode_list L xs = encode_list L (take i xs) @ encode L (xs ! i) @ encode_list L (drop (Suc i) xs)"
    by (metis encode_list_simps(2,3))
  moreover have "length (encode_list L (take i xs)) = i * size_of L"
    using length_encode_list [OF assms(1), of "take i xs"] assms(2,3) by (auto dest: in_set_takeD)
  ultimately show ?thesis using that by blast
qed

lemma load_element:
  assumes "layout_ok P L" "\<forall>x \<in> set xs. P x" "i < length xs" "length pre = p"
  shows "load L (pre @ encode_list L xs @ post) (p + i * size_of L) = Ok (xs ! i)"
proof -
  obtain a b where ab: "encode_list L xs = a @ encode L (xs ! i) @ b" "length a = i * size_of L"
    using encode_list_split [OF assms(1-3)] by metis
  show ?thesis
    using load_append [OF assms(1), of "xs ! i" "pre @ a" "p + i * size_of L" "b @ post"] ab assms by simp
qed

lemma store_element:
  assumes "layout_ok P L" "\<forall>x \<in> set xs. P x" "i < length xs" "length pre = p"
  shows "store L (pre @ encode_list L xs @ post) (p + i * size_of L) y = Ok (pre @ encode_list L (xs[i := y]) @ post)"
proof -
  obtain a b where ab: "encode_list L xs = a @ encode L (xs ! i) @ b" "length a = i * size_of L"
    "a = encode_list L (take i xs)" "b = encode_list L (drop (Suc i) xs)"
    using encode_list_split [OF assms(1-3)] by metis
  have len: "length (encode L (xs ! i)) = size_of L" using assms(1-3) by (simp add: layout_ok_def)
  have "encode_list L (xs[i := y]) = a @ encode L y @ b"
    using assms(3) ab(3,4) by (simp add: upd_conv_take_nth_drop)
  then show ?thesis
    using store_append [of "pre @ a" "p + i * size_of L" "encode L (xs ! i)" L "b @ post" y] ab(1,2) assms(4) len by simp
qed

lemma copy_elements_append:
  assumes "layout_ok P L" "\<forall>x \<in> set xs. P x" "length pre = p" "n \<le> length xs"
  shows "(copy_elements L (pre @ encode_list L xs @ post) p n (length xs) :: ('e, _) result) =
    Ok (take n xs @ replicate (length xs - n) undefined)"
  using assms(4)
proof (induction n)
  case (Suc n)
  let ?bs = "pre @ encode_list L xs @ post"
  have "(copy_elements L ?bs p (Suc n) (length xs) :: ('e, _) result) =
    and_then (copy_elements L ?bs p n (length xs)) (\<lambda>dst. and_then (load L ?bs (p + n * size_of L)) (write_at dst n))"
    by (simp add: copy_elements_def try_fold_append)
  also have "\<dots> = write_at (take n xs @ replicate (length xs - n) undefined) n (xs ! n)"
    using Suc by (simp add: load_element [OF assms(1,2) _ assms(3)])
  also have "\<dots> = Ok (take (Suc n) xs @ replicate (length xs - Suc n) undefined)"
    using Suc(2) by (simp add: write_at_def list_update_append take_Suc_conv_app_nth Suc_diff_Suc [symmetric] del: replicate_Suc)
      (simp add: Suc_diff_Suc [symmetric])
  finally show ?case .
qed (simp add: copy_elements_def)

lemma copy_all_elements:
  assumes "layout_ok P L" "\<forall>x \<in> set xs. P x" "length pre = p" "length xs = n"
  shows "copy_elements L (pre @ encode_list L xs @ post) p n n = Ok xs"
    "copy_elements L (pre @ encode_list L xs) p n n = Ok xs"
  using copy_elements_append [OF assms(1-3), of n post] copy_elements_append [OF assms(1-3), of n "[]"] assms(4) by auto

lemma copy_elements_short:
  assumes "0 < n" "n \<le> cap"
  shows "(copy_elements L bs p n cap :: ('e, _) result) = Panic \<longleftrightarrow> length bs < p + n * size_of L"
proof -
  have "(copy_elements L bs p n cap :: ('e, _) result) =
    (if \<forall>i < n. p + Suc i * size_of L \<le> length bs
     then Ok (map (\<lambda>i. decode L (take (size_of L) (drop (p + i * size_of L) bs))) [0..<n] @ replicate (cap - n) undefined)
     else Panic)" if "n \<le> cap" for n
    using that
  proof (induction n)
    case (Suc n)
    then have len: "n < cap" by simp
    show ?case
      using Suc len by (auto simp: copy_elements_def try_fold_append load_def write_at_def list_update_append
          Suc_diff_Suc [symmetric] less_Suc_eq algebra_simps)
  qed (simp add: copy_elements_def)
  moreover have "(\<forall>i < n. p + Suc i * size_of L \<le> length bs) \<longleftrightarrow> p + n * size_of L \<le> length bs"
    using assms(1) by (metis Suc_leI Suc_pred' add_le_mono1 diff_less less_eq_Suc_le mult_le_mono1 nat_add_left_cancel_le order.trans zero_less_one)
  ultimately show ?thesis using assms by (auto simp: not_le)
qed

lemma usize_layout_ok: "layout_ok (\<lambda>n. n < u64_bound) usize_layout"
  by (simp add: layout_ok_def usize_layout_def)

lemma bytes32_layout_ok: "layout_ok (\<lambda>b. length b = 32) bytes32_layout"
  by (simp add: layout_ok_def bytes32_layout_def)

end
