(* ===== verification/Hash_Set_Account.thy ===== *)
theory Hash_Set_Account
  imports Hash_Set Byte_Buffer
begin

text \<open>
  The hash set in an account: \<open>size_in_account\<close> and \<open>from_bytes_copy\<close> of \<open>merkle-tree/hash-set/src/lib.rs\<close>
  and the zero-copy views of \<open>merkle-tree/hash-set/src/zero_copy.rs\<close>.  The account holds the capacity,
  the threshold, one unused word, and the buckets, each in the memory representation of
  \<open>Option<HashSetCell>\<close>, which is a parameter.
\<close>


section \<open>Model\<close>

type_synonym cell_layout = "HashSetCell option Layout"

definition hs_non_dyn_fields_size :: nat where
  "hs_non_dyn_fields_size = 8 + 8"

definition hs_size_in_account :: "cell_layout \<Rightarrow> nat \<Rightarrow> ('e, nat) result" where
  "hs_size_in_account L capacity_values =
     and_then (mul_u64 (size_of L) capacity_values) (\<lambda>buckets_size_unaligned.
     and_then (add_u64 buckets_size_unaligned 8) (\<lambda>x.
     and_then (sub_u64 x (buckets_size_unaligned mod 8)) (\<lambda>buckets_size.
     add_u64 hs_non_dyn_fields_size buckets_size)))"

text \<open>\<open>Layout::array\<close> fails for more than \<open>isize::MAX\<close> bytes.\<close>

definition hs_from_bytes_copy :: "cell_layout \<Rightarrow> bytes \<Rightarrow> (HashSetError, HashSet) result" where
  "hs_from_bytes_copy L bs =
     (if length bs < hs_non_dyn_fields_size then Err (HsBufferSize hs_non_dyn_fields_size (length bs))
      else
        and_then (slice bs 0 8) (\<lambda>c.
        and_then (slice bs 8 16) (\<lambda>t.
        let capacity = from_bytes_le c; sequence_threshold = from_bytes_le t in
        and_then (hs_size_in_account L capacity) (\<lambda>expected_size.
        if length bs \<noteq> expected_size then Err (HsBufferSize expected_size (length bs))
        else if 2 ^ 63 \<le> size_of L * capacity then Panic
        else
          let offset = hs_non_dyn_fields_size + 8 in
          and_then (copy_elements L bs offset capacity capacity) (\<lambda>buckets.
          Ok \<lparr>hs_capacity = capacity, hs_sequence_threshold = sequence_threshold, hs_buckets = buckets\<rparr>)))))"

text \<open>A zero-copy view: the two header fields by value, the buckets by a pointer into the account.\<close>

record HashSetZeroCopy =
  hz_capacity :: nat
  hz_sequence_threshold :: nat
  hz_buckets :: nat

definition hz_from_bytes_zero_copy_mut :: "cell_layout \<Rightarrow> bytes \<Rightarrow> (HashSetError, HashSetZeroCopy) result" where
  "hz_from_bytes_zero_copy_mut L bs =
     (if length bs < hs_non_dyn_fields_size then Err (HsBufferSize hs_non_dyn_fields_size (length bs))
      else
        and_then (slice bs 0 8) (\<lambda>c.
        and_then (slice bs 8 16) (\<lambda>t.
        let capacity_values = from_bytes_le c; sequence_threshold = from_bytes_le t;
            offset = hs_non_dyn_fields_size + 8 in
        and_then (mul_u64 (size_of L) capacity_values) (\<lambda>values_size.
        and_then (add_u64 hs_non_dyn_fields_size values_size) (\<lambda>expected_size.
        if length bs < expected_size then Err (HsBufferSize expected_size (length bs))
        else Ok \<lparr>hz_capacity = capacity_values, hz_sequence_threshold = sequence_threshold,
                 hz_buckets = offset\<rparr>)))))"

definition hz_from_bytes_zero_copy_init ::
  "cell_layout \<Rightarrow> bytes \<Rightarrow> nat \<Rightarrow> nat \<Rightarrow> (HashSetError, bytes \<times> HashSetZeroCopy) result" where
  "hz_from_bytes_zero_copy_init L bs capacity_values sequence_threshold =
     (if length bs < hs_non_dyn_fields_size then Err (HsBufferSize hs_non_dyn_fields_size (length bs))
      else
        and_then (copy_from_slice bs 0 8 (le_bytes 8 capacity_values)) (\<lambda>bs.
        and_then (copy_from_slice bs 8 16 (le_bytes 8 sequence_threshold)) (\<lambda>bs.
        and_then (copy_from_slice bs 16 24 (le_bytes 8 0)) (\<lambda>bs.
        and_then (hz_from_bytes_zero_copy_mut L bs) (\<lambda>hash_set.
        and_then (try_fold (\<lambda>bs i. store L bs (hz_buckets hash_set + i * size_of L) None) bs [0..<capacity_values]) (\<lambda>bs.
        Ok (bs, hash_set)))))))"

text \<open>What the operations of the set see and write through the pointer of a view.\<close>

definition hz_view :: "cell_layout \<Rightarrow> bytes \<Rightarrow> HashSetZeroCopy \<Rightarrow> (HashSetError, HashSet) result" where
  "hz_view L bs z =
     and_then (copy_elements L bs (hz_buckets z) (hz_capacity z) (hz_capacity z)) (\<lambda>buckets.
     Ok \<lparr>hs_capacity = hz_capacity z, hs_sequence_threshold = hz_sequence_threshold z, hs_buckets = buckets\<rparr>)"

definition hz_set_bucket :: "cell_layout \<Rightarrow> bytes \<Rightarrow> HashSetZeroCopy \<Rightarrow> nat \<Rightarrow> HashSetCell option \<Rightarrow> ('e, bytes) result" where
  "hz_set_bucket L bs z i b = store L bs (hz_buckets z + i * size_of L) b"


section \<open>Round trips and bounds\<close>

text \<open>The cells that occur: values of 32 bytes and sequence numbers of type \<open>usize\<close>.\<close>

fun cell_ok :: "HashSetCell option \<Rightarrow> bool" where
  "cell_ok None = True"
| "cell_ok (Some (HashSetCell v n)) \<longleftrightarrow> length v = 32 \<and> (case n of Some m \<Rightarrow> m < u64_bound | None \<Rightarrow> True)"

definition header :: "nat \<Rightarrow> nat \<Rightarrow> bytes" where
  "header cap thr = le_bytes 8 cap @ le_bytes 8 thr @ le_bytes 8 0"

definition hs_account :: "cell_layout \<Rightarrow> HashSet \<Rightarrow> bytes \<Rightarrow> bytes" where
  "hs_account L s pad = header (hs_capacity s) (hs_sequence_threshold s) @ encode_list L (hs_buckets s) @ pad"

definition hs_storable :: "cell_layout \<Rightarrow> HashSet \<Rightarrow> bool" where
  "hs_storable L s \<longleftrightarrow> length (hs_buckets s) = hs_capacity s \<and> (\<forall>b \<in> set (hs_buckets s). cell_ok b) \<and>
     hs_sequence_threshold s < u64_bound \<and> hs_capacity s < u64_bound \<and> size_of L * hs_capacity s < 2 ^ 63"

lemma length_header [simp]: "length (header cap thr) = 24"
  by (simp add: header_def)

lemma header_slices:
  "slice (header cap thr @ rest) 0 8 = Ok (le_bytes 8 cap)" "slice (header cap thr @ rest) 8 16 = Ok (le_bytes 8 thr)"
  using slice_append [of "[]" 0 "le_bytes 8 cap" 8] slice_append [of "le_bytes 8 cap" 8 "le_bytes 8 thr" 16]
  by (simp_all add: header_def)

lemma view_of_header:
  assumes "cap < u64_bound" "thr < u64_bound" "size_of L * cap < 2 ^ 63"
  shows "hz_from_bytes_zero_copy_mut L (header cap thr @ rest) =
    (if length rest + 8 < size_of L * cap then Err (HsBufferSize (16 + size_of L * cap) (24 + length rest))
     else Ok \<lparr>hz_capacity = cap, hz_sequence_threshold = thr, hz_buckets = 24\<rparr>)"
  using assms by (auto simp: hz_from_bytes_zero_copy_mut_def hs_non_dyn_fields_size_def header_slices u64_eval Let_def)

lemma view_account:
  assumes L: "layout_ok cell_ok L" and s: "hs_storable L s"
    and z: "z = \<lparr>hz_capacity = hs_capacity s, hz_sequence_threshold = hs_sequence_threshold s, hz_buckets = 24\<rparr>"
  shows "hz_from_bytes_zero_copy_mut L (hs_account L s pad) = Ok z"
    "hz_view L (hs_account L s pad) z = Ok s"
    "i < hs_capacity s \<Longrightarrow> hz_set_bucket L (hs_account L s pad) z i b = (Ok (hs_account L (hs_set_bucket s i b) pad) :: ('e, bytes) result)"
proof -
  have bs: "\<forall>b \<in> set (hs_buckets s). cell_ok b" "length (hs_buckets s) = hs_capacity s"
    using s by (auto simp: hs_storable_def)
  show "hz_from_bytes_zero_copy_mut L (hs_account L s pad) = Ok z"
    using s length_encode_list [OF L bs(1)] bs(2)
    by (simp add: hs_account_def z view_of_header hs_storable_def)
  have copy: "copy_elements L (header (hs_capacity s) (hs_sequence_threshold s) @ encode_list L (hs_buckets s) @ pad)
      24 (hs_capacity s) (hs_capacity s) = (Ok (hs_buckets s) :: (HashSetError, _) result)"
    by (rule copy_all_elements(1) [OF L bs(1)]) (simp_all add: bs(2))
  show "hz_view L (hs_account L s pad) z = Ok s"
    using copy bs(2) by (simp add: hz_view_def z hs_account_def)
  show "i < hs_capacity s \<Longrightarrow> hz_set_bucket L (hs_account L s pad) z i b = (Ok (hs_account L (hs_set_bucket s i b) pad) :: ('e, bytes) result)"
    using store_element [OF L bs(1), of i "header (hs_capacity s) (hs_sequence_threshold s)" 24] bs(2)
    by (simp add: hz_set_bucket_def z hs_account_def hs_set_bucket_def)
qed

lemma size_in_account_aligned:
  assumes "size_of L mod 8 = 0" "size_of L * cap < 2 ^ 63"
  shows "hs_size_in_account L cap = Ok (24 + size_of L * cap)"
proof -
  have "size_of L * cap mod 8 = 0" using assms(1) by (metis mod_mult_left_eq mult_0 mod_0)
  then show ?thesis using assms(2) by (simp add: hs_size_in_account_def hs_non_dyn_fields_size_def u64_eval)
qed

lemma copy_account:
  assumes L: "layout_ok cell_ok L" "size_of L mod 8 = 0" and s: "hs_storable L s"
  shows "hs_from_bytes_copy L (hs_account L s []) = Ok s"
proof -
  have bs: "\<forall>b \<in> set (hs_buckets s). cell_ok b" "length (hs_buckets s) = hs_capacity s" "size_of L * hs_capacity s < 2 ^ 63"
    using s by (auto simp: hs_storable_def)
  have copy: "copy_elements L (header (hs_capacity s) (hs_sequence_threshold s) @ encode_list L (hs_buckets s))
      24 (hs_capacity s) (hs_capacity s) = (Ok (hs_buckets s) :: (HashSetError, _) result)"
    by (rule copy_all_elements(2) [OF L(1) bs(1)]) (simp_all add: bs(2))
  have len: "length (header (hs_capacity s) (hs_sequence_threshold s) @ encode_list L (hs_buckets s)) = 24 + size_of L * hs_capacity s"
    using bs(2) length_encode_list [OF L(1) bs(1)] by simp
  show ?thesis
    unfolding hs_from_bytes_copy_def hs_account_def append_Nil2 len header_slices hs_non_dyn_fields_size_def
    using s copy bs(3) by (simp add: hs_storable_def Let_def size_in_account_aligned [OF L(2) bs(3)])
qed

text \<open>Initialising an account of the right size.\<close>

lemma init_header:
  assumes "24 \<le> length bs"
  shows "hz_from_bytes_zero_copy_init L bs cap thr =
    and_then (hz_from_bytes_zero_copy_mut L (header cap thr @ drop 24 bs)) (\<lambda>z.
    and_then (try_fold (\<lambda>bs i. store L bs (hz_buckets z + i * size_of L) None) (header cap thr @ drop 24 bs) [0..<cap])
      (\<lambda>bs. Ok (bs, z)))"
proof -
  define a b c d where "a = take 8 bs" and "b = take 8 (drop 8 bs)" and "c = take 8 (drop 16 bs)" and "d = drop 24 bs"
  have bs: "bs = a @ b @ c @ d"
    using append_take_drop_id [of 8 "drop 16 bs"] append_take_drop_id [of 8 "drop 8 bs"] append_take_drop_id [of 8 bs]
    by (simp add: a_def b_def c_def d_def)
  have len: "length a = 8" "length b = 8" "length c = 8" using assms by (auto simp: a_def b_def c_def)
  have 1: "copy_from_slice bs 0 8 (le_bytes 8 cap) = (Ok (le_bytes 8 cap @ b @ c @ d) :: (HashSetError, _) result)"
    by (subst bs) (simp add: copy_from_slice_def len header_def)
  have 2: "copy_from_slice (le_bytes 8 cap @ b @ c @ d) 8 16 (le_bytes 8 thr) =
      (Ok (le_bytes 8 cap @ le_bytes 8 thr @ c @ d) :: (HashSetError, _) result)"
    by (simp add: copy_from_slice_def len header_def)
  have 3: "copy_from_slice (le_bytes 8 cap @ le_bytes 8 thr @ c @ d) 16 24 (le_bytes 8 0) =
      (Ok (header cap thr @ d) :: (HashSetError, _) result)"
    by (simp add: copy_from_slice_def len header_def)
  have "\<not> length bs < hs_non_dyn_fields_size" using assms by (simp add: hs_non_dyn_fields_size_def)
  then show ?thesis
    unfolding hz_from_bytes_zero_copy_init_def by (simp add: 1 2 3 d_def [symmetric])
qed

lemma length_encode_replicate:
  "length (encode L x) = size_of L \<Longrightarrow> length (encode_list L (replicate n x)) = n * size_of L"
  by (induction n) auto

lemma init_buckets:
  assumes "length (encode L None) = size_of L" "n * size_of L \<le> length rest"
  shows "(try_fold (\<lambda>bs i. store L bs (24 + i * size_of L) None) (header cap thr @ rest) [0..<n] :: ('e, _) result) =
    Ok (header cap thr @ encode_list L (replicate n None) @ drop (n * size_of L) rest)"
  using assms(2)
proof (induction n)
  case (Suc n)
  let ?done = "encode_list L (replicate n None)" and ?mid = "take (size_of L) (drop (n * size_of L) rest)"
  let ?post = "drop (Suc n * size_of L) rest"
  have rest: "drop (n * size_of L) rest = ?mid @ ?post"
    using append_take_drop_id [of "size_of L" "drop (n * size_of L) rest"] by (simp add: add.commute)
  have len: "length ?mid = size_of L" "length (header cap thr @ ?done) = 24 + n * size_of L"
    using Suc(2) length_encode_replicate [OF assms(1)] by simp_all
  have step: "(store L ((header cap thr @ ?done) @ ?mid @ ?post) (24 + n * size_of L) None :: ('e, _) result) =
      Ok ((header cap thr @ ?done) @ encode L None @ ?post)"
    by (rule store_append [OF len(2,1)])
  have snoc: "encode_list L (replicate (Suc n) None) = ?done @ encode L None"
    unfolding replicate_Suc replicate_append_same [symmetric] by simp
  have IH: "(try_fold (\<lambda>bs i. store L bs (24 + i * size_of L) None) (header cap thr @ rest) [0..<n] :: ('e, _) result) =
    Ok ((header cap thr @ ?done) @ ?mid @ ?post)" using Suc rest by simp
  show ?case using step by (simp add: try_fold_append IH snoc del: replicate.simps)
qed simp

lemma storable_new:
  assumes "cap < u64_bound" "thr < u64_bound" "size_of L * cap < 2 ^ 63"
  shows "\<exists>s. hs_new cap thr = Ok s \<and> hs_storable L s \<and> hs_capacity s = cap \<and> hs_sequence_threshold s = thr \<and>
    hs_buckets s = replicate cap None"
  using assms by (auto simp: hs_new_def hs_storable_def)

lemma storable_set_bucket: "hs_storable L s \<Longrightarrow> cell_ok b \<Longrightarrow> hs_storable L (hs_set_bucket s i b)"
  by (auto simp: hs_storable_def hs_set_bucket_def dest: subsetD [OF set_update_subset_insert])

lemma init_account:
  assumes L: "layout_ok cell_ok L" and cap: "cap < u64_bound" "thr < u64_bound" "size_of L * cap < 2 ^ 63"
    and len: "length bs = 24 + size_of L * cap"
  shows "\<exists>s. hs_new cap thr = Ok s \<and> hs_storable L s \<and> hz_from_bytes_zero_copy_init L bs cap thr =
    Ok (hs_account L s [], \<lparr>hz_capacity = hs_capacity s, hz_sequence_threshold = hs_sequence_threshold s, hz_buckets = 24\<rparr>)"
proof -
  obtain s where s: "hs_new cap thr = Ok s" "hs_storable L s" "hs_capacity s = cap" "hs_sequence_threshold s = thr"
    "hs_buckets s = replicate cap None" using storable_new [OF cap] by blast
  have none: "length (encode L None) = size_of L" using L by (simp add: layout_ok_def)
  have "length (drop 24 bs) = cap * size_of L" using len by simp
  then show ?thesis
    using s init_buckets [OF none, of cap "drop 24 bs" cap thr] len
    by (simp add: init_header view_of_header [OF cap] hs_account_def init_buckets [OF none])
qed

lemma set_buckets_account:
  assumes L: "layout_ok cell_ok L"
    and z: "z = \<lparr>hz_capacity = hs_capacity s, hz_sequence_threshold = hs_sequence_threshold s, hz_buckets = 24\<rparr>"
  shows "hs_storable L s \<Longrightarrow> \<forall>(i, b) \<in> set ws. i < hs_capacity s \<and> cell_ok b \<Longrightarrow>
    \<exists>s'. s' = foldl (\<lambda>s (i, b). hs_set_bucket s i b) s ws \<and> hs_storable L s' \<and>
      hs_capacity s' = hs_capacity s \<and> hs_sequence_threshold s' = hs_sequence_threshold s \<and>
      (try_fold (\<lambda>bs (i, b). hz_set_bucket L bs z i b) (hs_account L s pad) ws :: ('e, _) result) = Ok (hs_account L s' pad)"
  using z
proof (induction ws arbitrary: s)
  case (Cons w ws)
  obtain i b where w: "w = (i, b)" by force
  have s1: "hs_storable L (hs_set_bucket s i b)" "hs_capacity (hs_set_bucket s i b) = hs_capacity s"
    "hs_sequence_threshold (hs_set_bucket s i b) = hs_sequence_threshold s" "i < hs_capacity s"
    using Cons.prems w storable_set_bucket by (auto simp: hs_set_bucket_def)
  have "(hz_set_bucket L (hs_account L s pad) z i b :: ('e, _) result) = Ok (hs_account L (hs_set_bucket s i b) pad)"
    by (rule view_account(3) [OF L Cons.prems(1,3) s1(4)])
  then show ?case using Cons.IH [OF s1(1)] Cons.prems s1 w by auto
qed simp


section \<open>Properties\<close>

text \<open>
  C32. An account of the documented size round-trips.  Initialising it gives the view of a new, empty
  set; and after any sequence of bucket writes through the view, both the zero-copy view and the copy
  that clients take of the account hold exactly the set to which the same writes were made.
\<close>

theorem hash_set_account_roundtrip:
  assumes "layout_ok cell_ok L" "size_of L mod 8 = 0" "size_of L * cap < 2 ^ 63" "cap < u64_bound" "thr < u64_bound"
    and "hs_size_in_account L cap = (Ok (length bs) :: (HashSetError, _) result)"
    and "\<forall>(i, b) \<in> set ws. i < cap \<and> cell_ok b"
  shows "\<exists>bs1 bs2 z s0 s. hz_from_bytes_zero_copy_init L bs cap thr = Ok (bs1, z) \<and> hs_new cap thr = Ok s0 \<and>
    s = foldl (\<lambda>s (i, b). hs_set_bucket s i b) s0 ws \<and>
    (try_fold (\<lambda>bs (i, b). hz_set_bucket L bs z i b) bs1 ws :: (HashSetError, _) result) = Ok bs2 \<and>
    hz_from_bytes_zero_copy_mut L bs2 = Ok z \<and> hz_view L bs2 z = Ok s \<and> hs_from_bytes_copy L bs2 = Ok s"
proof -
  have len: "length bs = 24 + size_of L * cap"
    using assms(6) by (simp add: size_in_account_aligned [OF assms(2,3)])
  obtain s0 where s0: "hs_new cap thr = Ok s0" "hs_storable L s0" "hz_from_bytes_zero_copy_init L bs cap thr =
    Ok (hs_account L s0 [], \<lparr>hz_capacity = hs_capacity s0, hz_sequence_threshold = hs_sequence_threshold s0, hz_buckets = 24\<rparr>)"
    using init_account [OF assms(1,4,5,3) len] by blast
  have cap: "hs_capacity s0 = cap" using s0(1) by (auto simp: hs_new_def)
  let ?z = "\<lparr>hz_capacity = hs_capacity s0, hz_sequence_threshold = hs_sequence_threshold s0, hz_buckets = 24\<rparr>"
  obtain s where s: "s = foldl (\<lambda>s (i, b). hs_set_bucket s i b) s0 ws" "hs_storable L s" "hs_capacity s = hs_capacity s0"
    "hs_sequence_threshold s = hs_sequence_threshold s0"
    "(try_fold (\<lambda>bs (i, b). hz_set_bucket L bs ?z i b) (hs_account L s0 []) ws :: (HashSetError, _) result) = Ok (hs_account L s [])"
    using set_buckets_account [OF assms(1) refl s0(2)] assms(7) cap by blast
  have "?z = \<lparr>hz_capacity = hs_capacity s, hz_sequence_threshold = hs_sequence_threshold s, hz_buckets = 24\<rparr>"
    using s(3,4) by simp
  then show ?thesis
    using s0 s view_account(1,2) [OF assms(1) s(2)] copy_account [OF assms(1,2) s(2)]
    by (intro exI [of _ "hs_account L s0 []"] exI [of _ "hs_account L s []"] exI [of _ ?z] exI [of _ s0] exI [of _ s]) auto
qed

text \<open>A concrete representation of 48 bytes, with the tag between the value and the sequence number.\<close>

fun sample_encode :: "HashSetCell option \<Rightarrow> bytes" where
  "sample_encode None = replicate 32 0 @ le_bytes 8 2 @ le_bytes 8 0"
| "sample_encode (Some (HashSetCell v None)) = v @ le_bytes 8 0 @ le_bytes 8 0"
| "sample_encode (Some (HashSetCell v (Some n))) = v @ le_bytes 8 1 @ le_bytes 8 n"

definition sample_layout :: cell_layout where
  "sample_layout = \<lparr>size_of = 48, encode = sample_encode, decode = (\<lambda>bs.
     let tag = from_bytes_le (take 8 (drop 32 bs)) in
     if tag = 2 then None
     else Some (HashSetCell (take 32 bs) (if tag = 1 then Some (from_bytes_le (drop 40 bs)) else None)))\<rparr>"

lemma sample_layout_ok: "layout_ok cell_ok sample_layout" "size_of sample_layout = 48"
proof -
  have "length (sample_encode b) = 48 \<and> decode sample_layout (sample_encode b) = b" if "cell_ok b" for b
    using that by (cases b rule: sample_encode.cases) (auto simp: sample_layout_def)
  then show "layout_ok cell_ok sample_layout" by (auto simp: layout_ok_def sample_layout_def)
qed (simp add: sample_layout_def)

theorem hash_set_account_roundtrip_witness:
  "\<exists>bs1 bs2 z s. hz_from_bytes_zero_copy_init sample_layout (replicate 360 0) 7 3 = Ok (bs1, z) \<and>
     (hz_set_bucket sample_layout bs1 z 4 (Some (HashSetCell (replicate 32 1) (Some 9))) :: (HashSetError, _) result) = Ok bs2 \<and>
     hs_from_bytes_copy sample_layout bs2 = Ok s \<and> hs_buckets s ! 4 = Some (HashSetCell (replicate 32 1) (Some 9))"
proof -
  let ?ws = "[(4, Some (HashSetCell (replicate 32 1) (Some 9)))] :: (nat \<times> HashSetCell option) list"
  have size: "hs_size_in_account sample_layout 7 = (Ok (length (replicate 360 (0 :: byte))) :: (HashSetError, _) result)"
    by (simp add: size_in_account_aligned sample_layout_ok(2))
  obtain bs1 bs2 z s0 s where a: "hz_from_bytes_zero_copy_init sample_layout (replicate 360 0) 7 3 = Ok (bs1, z)" "hs_new 7 3 = Ok s0"
    "s = foldl (\<lambda>s (i, b). hs_set_bucket s i b) s0 ?ws"
    "(try_fold (\<lambda>bs (i, b). hz_set_bucket sample_layout bs z i b) bs1 ?ws :: (HashSetError, _) result) = Ok bs2"
    "hs_from_bytes_copy sample_layout bs2 = Ok s"
    using hash_set_account_roundtrip [OF sample_layout_ok(1) _ _ _ _ size, of 3 ?ws] sample_layout_ok(2) by auto
  have "hs_buckets s0 = replicate 7 None" using a(2) by (auto simp: hs_new_def)
  then show ?thesis using a
    by (intro exI [of _ bs1] exI [of _ bs2] exI [of _ z] exI [of _ s]) (auto simp: hs_set_bucket_def)
qed

text \<open>
  C33. Bounds of the zero-copy view: \<open>from_bytes_zero_copy_mut\<close> accepts an account as soon as it has
  room for the header of 16 bytes and the buckets, but the buckets start at byte 24.  Reading the
  buckets therefore leaves the account exactly when it is up to 8 bytes too short, and such an account
  is accepted.
\<close>

theorem zero_copy_view_bounds:
  assumes "0 < cap" "cap < u64_bound" "thr < u64_bound" "size_of L * cap < 2 ^ 63"
  shows "(hz_from_bytes_zero_copy_mut L (header cap thr @ rest) =
      Ok \<lparr>hz_capacity = cap, hz_sequence_threshold = thr, hz_buckets = 24\<rparr> \<longleftrightarrow> size_of L * cap \<le> length rest + 8) \<and>
    (hz_view L (header cap thr @ rest) \<lparr>hz_capacity = cap, hz_sequence_threshold = thr, hz_buckets = 24\<rparr> = Panic \<longleftrightarrow>
      length rest < size_of L * cap)"
  using copy_elements_short [OF assms(1) order_refl, of L "header cap thr @ rest" 24]
  by (auto simp: view_of_header [OF assms(2-4)] hz_view_def and_then_eq_Panic mult.commute)

theorem zero_copy_view_bounds_witness:
  "\<exists>z. hz_from_bytes_zero_copy_mut sample_layout (header 1 3 @ replicate 40 0) = Ok z \<and>
     hz_view sample_layout (header 1 3 @ replicate 40 0) z = Panic"
  using zero_copy_view_bounds [of 1 3 sample_layout "replicate 40 0"] sample_layout_ok(2) by auto

end
