(* ===== verification/Utils.thy ===== *)
theory Utils
  imports Byte_Encoding
begin

text \<open>
  \<open>utils/src/{prime,fee,lib}.rs\<close>: trial division on \<open>u32\<close>, the rollover fee, and hashing into the
  BN254 scalar field.  Arithmetic on \<open>u32\<close> panics on overflow.  Keccak and the field modulus belong to
  other crates and are parameters.
\<close>


section \<open>Prime numbers\<close>

definition add_u32 :: "nat \<Rightarrow> nat \<Rightarrow> ('e, nat) result" where
  "add_u32 a b = (if a + b < 2 ^ 32 then Ok (a + b) else Panic)"

text \<open>The loop of \<open>is_prime\<close>; the product overflows before \<open>i\<close> leaves the range.\<close>

function is_prime_loop :: "nat \<Rightarrow> nat \<Rightarrow> ('e, bool) result" where
  "is_prime_loop n i =
     (if i * i < 2 ^ 32 then
        if i * i \<le> n then
          if n mod i = 0 \<or> n mod (i + 2) = 0 then Ok False
          else is_prime_loop n (i + 6)
        else Ok True
      else Panic)"
  by auto
termination
proof (relation "measure (\<lambda>(n, i). 2 ^ 32 - i)")
  fix n i :: nat
  assume "i * i < 2 ^ 32"
  then have "i < 2 ^ 32" by (metis le_less_trans le_square)
  then show "((n, i + 6), (n, i)) \<in> measure (\<lambda>(n, i). 2 ^ 32 - i)" by simp
qed simp

declare is_prime_loop.simps [simp del]

definition is_prime :: "nat \<Rightarrow> ('e, bool) result" where
  "is_prime n =
     (if n \<le> 1 then Ok False
      else if n \<le> 3 then Ok True
      else if n mod 2 = 0 \<or> n mod 3 = 0 then Ok False
      else is_prime_loop n 5)"

text \<open>The final loop of \<open>find_next_prime\<close>: it ends because \<open>n\<close> overflows at last.\<close>

function find_next_prime_loop :: "nat \<Rightarrow> ('e, nat) result" where
  "find_next_prime_loop n =
     and_then (add_u32 n 1) (\<lambda>candidate.
     and_then (is_prime candidate) (\<lambda>p.
     if p then Ok candidate
     else
       and_then (add_u32 n 5) (\<lambda>candidate.
       and_then (is_prime candidate) (\<lambda>p.
       if p then Ok candidate
       else if n + 6 < 2 ^ 32 then find_next_prime_loop (n + 6) else Panic))))"
  by auto
termination
  by (relation "measure (\<lambda>n. 2 ^ 32 - n)") auto

declare find_next_prime_loop.simps [simp del]

definition find_next_prime :: "nat \<Rightarrow> ('e, nat) result" where
  "find_next_prime n =
     (if n \<le> 2 then Ok 2
      else if n \<le> 3 then Ok 3
      else
        let remainder = n mod 6 in
        if remainder \<noteq> 0 then
          and_then (if remainder = 5 then is_prime n else Ok False) (\<lambda>p.
          if p then Ok n
          else
            and_then (if remainder = 1 then is_prime n else Ok False) (\<lambda>p.
            if p then Ok n
            else
              and_then (add_u32 n 6) (\<lambda>m.
              let n = m - remainder; candidate = n - 1 in
              and_then (is_prime candidate) (\<lambda>p.
              if p then Ok candidate else find_next_prime_loop n))))
        else find_next_prime_loop n)"

definition prime_nat :: "nat \<Rightarrow> bool" where
  "prime_nat p \<longleftrightarrow> 1 < p \<and> (\<forall>d. d dvd p \<longrightarrow> d = 1 \<or> d = p)"

text \<open>No proper divisor below \<open>i\<close>.\<close>

definition no_divisor :: "nat \<Rightarrow> nat \<Rightarrow> bool" where
  "no_divisor n i \<longleftrightarrow> (\<forall>d. 2 \<le> d \<longrightarrow> d < i \<longrightarrow> \<not> d dvd n)"

lemma no_divisor_step:
  assumes "no_divisor n i" "i mod 6 = 5" "\<not> 2 dvd n" "\<not> 3 dvd n" "\<not> i dvd n" "\<not> (i + 2) dvd n"
  shows "no_divisor n (i + 6)"
proof -
  have "\<not> d dvd n" if d: "i \<le> d" "d < i + 6" for d
  proof -
    obtain k where k: "i = 6 * k + 5" using assms(2) by (metis div_mult_mod_eq mult.commute)
    have cases: "d = i \<or> d = i + 2 \<or> 2 dvd d \<or> 3 dvd d"
    proof -
      have "d = i \<or> d = 2 * (3 * k + 3) \<or> d = i + 2 \<or> d = 2 * (3 * k + 4) \<or> d = 3 * (2 * k + 3) \<or> d = 2 * (3 * k + 5)"
        using d k by presburger
      then show ?thesis by (metis dvd_triv_left)
    qed
    then show ?thesis using assms(3-6) by (metis dvd_trans)
  qed
  then show ?thesis using assms(1) unfolding no_divisor_def by (metis not_le)
qed

lemma prime_by_square:
  assumes "1 < n" "no_divisor n i" "n < i * i"
  shows "prime_nat n"
proof -
  have "d = 1 \<or> d = n" if dvd: "d dvd n" for d
  proof (rule ccontr)
    assume c: "\<not> (d = 1 \<or> d = n)"
    obtain e where e: "n = d * e" using dvd by (rule dvdE)
    have "d \<noteq> 0" "e \<noteq> 0" "e \<noteq> 1" using e assms(1) c by (auto intro: Nat.gr0I)
    then have "2 \<le> d" "2 \<le> e" using c by auto
    then have "i \<le> d" "i \<le> e" using assms(2) e unfolding no_divisor_def by (metis dvd_triv_left dvd_triv_right not_le)+
    then have "i * i \<le> d * e" by (rule mult_le_mono)
    then show False using e assms(3) by simp
  qed
  then show ?thesis using assms(1) by (auto simp: prime_nat_def)
qed

lemma not_prime_divisor: "d dvd n \<Longrightarrow> 1 < d \<Longrightarrow> d < n \<Longrightarrow> \<not> prime_nat n"
  by (auto simp: prime_nat_def)

text \<open>The largest \<open>i\<close> the loop can square is 65531.\<close>

abbreviation prime_limit :: nat where "prime_limit \<equiv> 4294311961"

lemma five_mod_6:
  assumes "i mod 6 = 5"
  shows "5 \<le> i" "i < 6 * Suc k + 5 \<Longrightarrow> i \<le> 6 * k + 5"
proof -
  obtain j where j: "i = 6 * j + 5" using assms by (metis div_mult_mod_eq mult.commute)
  then show "5 \<le> i" by simp
  show "i \<le> 6 * k + 5" if "i < 6 * Suc k + 5" using j that by simp
qed

lemma loop_square_bound:
  assumes "i mod 6 = 5" "i * i \<le> n" "n < prime_limit"
  shows "(i + 6) * (i + 6) < 2 ^ 32"
proof -
  have "i < 65531"
  proof (rule ccontr)
    assume "\<not> i < 65531"
    then have "65531 * 65531 \<le> i * i" by (intro mult_le_mono) auto
    then show False using assms by simp
  qed
  then have "i \<le> 65525" using five_mod_6(2) [OF assms(1), of 10920] by simp
  then have "(i + 6) * (i + 6) \<le> 65531 * 65531" by (intro mult_le_mono) auto
  then show ?thesis by simp
qed

lemma is_prime_loop_correct:
  assumes "i mod 6 = 5" "no_divisor n i" "\<not> 2 dvd n" "\<not> 3 dvd n" "4 \<le> n" "n < prime_limit" "i * i < 2 ^ 32"
  shows "(is_prime_loop n i :: ('e, bool) result) = Ok (prime_nat n)"
  using assms
proof (induction n i rule: is_prime_loop.induct)
  case (1 n i)
  have i5: "5 \<le> i" using 1(2) by presburger
  consider (stop) "n < i * i" | (found) "i * i \<le> n" "i dvd n \<or> (i + 2) dvd n"
    | (more) "i * i \<le> n" "\<not> i dvd n" "\<not> (i + 2) dvd n" by fastforce
  then show ?case
  proof cases
    case stop
    then show ?thesis using 1 prime_by_square [of n i] by (simp add: is_prime_loop.simps [of n i])
  next
    case found
    have "5 * i \<le> i * i" using i5 by (rule mult_le_mono1)
    then have "i + 2 < i * i" using i5 by linarith
    then have "\<not> prime_nat n" using found i5 not_prime_divisor [of i n] not_prime_divisor [of "i + 2" n] by fastforce
    then show ?thesis using 1(8) found by (simp add: is_prime_loop.simps [of n i] mod_eq_0_iff_dvd)
  next
    case more
    have "(is_prime_loop n (i + 6) :: ('e, bool) result) = Ok (prime_nat n)"
      using 1(1) [OF 1(8) more(1)] more no_divisor_step [OF 1(3,2,4,5) more(2,3)] 1(2-8) loop_square_bound [OF 1(2) more(1) 1(7)]
      by (simp add: mod_eq_0_iff_dvd)
    then show ?thesis using 1(8) more by (simp add: is_prime_loop.simps [of n i] mod_eq_0_iff_dvd)
  qed
qed

lemma no_divisor_5: "\<not> 2 dvd n \<Longrightarrow> \<not> 3 dvd n \<Longrightarrow> no_divisor n 5"
proof (unfold no_divisor_def, intro allI impI)
  fix d :: nat
  assume a: "\<not> 2 dvd n" "\<not> 3 dvd n" "2 \<le> d" "d < 5"
  then have "d = 2 \<or> d = 3 \<or> d = 4" by presburger
  moreover have "\<not> 4 dvd n" using a(1) by (metis dvd_trans dvd_triv_left mult_2 numeral_Bit0)
  ultimately show "\<not> d dvd n" using a by auto
qed

lemma prime_nat_2_3: "prime_nat 2" "prime_nat 3"
proof -
  show "prime_nat 2" by (rule prime_by_square [of _ 2]) (auto simp: no_divisor_def)
  have "\<not> d dvd 3" if "2 \<le> d" "d < 3" for d :: nat
  proof -
    have "d = 2" using that by simp
    then show ?thesis by simp
  qed
  then show "prime_nat 3" by (intro prime_by_square [of _ 3]) (auto simp: no_divisor_def)
qed

lemma prime_not_div: "prime_nat n \<Longrightarrow> 3 < n \<Longrightarrow> \<not> 2 dvd n \<and> \<not> 3 dvd n"
  by (auto simp: prime_nat_def)

lemma is_prime_correct: "n < prime_limit \<Longrightarrow> (is_prime n :: ('e, bool) result) = Ok (prime_nat n)"
proof -
  assume n: "n < prime_limit"
  consider "n \<le> 1" | "n = 2 \<or> n = 3" | "3 < n" "2 dvd n \<or> 3 dvd n" | "3 < n" "\<not> 2 dvd n" "\<not> 3 dvd n"
    by fastforce
  then show ?thesis
  proof cases
    case 1
    then show ?thesis by (simp add: is_prime_def prime_nat_def)
  next
    case 2
    then show ?thesis using prime_nat_2_3 by (auto simp: is_prime_def)
  next
    case 3
    then have "\<not> prime_nat n" using prime_not_div by blast
    then show ?thesis using 3 by (simp add: is_prime_def mod_eq_0_iff_dvd)
  next
    case 4
    then have "(is_prime_loop n 5 :: ('e, bool) result) = Ok (prime_nat n)"
      using n no_divisor_5 by (intro is_prime_loop_correct) auto
    then show ?thesis using 4 by (simp add: is_prime_def mod_eq_0_iff_dvd)
  qed
qed

text \<open>A prime whose trial division would need \<open>65537 * 65537\<close> makes the product overflow.\<close>

lemma is_prime_loop_panics:
  assumes "prime_nat n" "prime_limit \<le> n" "i mod 6 = 5"
  shows "(is_prime_loop n i :: ('e, bool) result) = Panic"
  using assms
proof (induction n i rule: is_prime_loop.induct)
  case (1 n i)
  show ?case
  proof (cases "i * i < 2 ^ 32")
    case True
    have "i < 65536"
    proof (rule ccontr)
      assume "\<not> i < 65536"
      then have "65536 * 65536 \<le> i * i" by (intro mult_le_mono) auto
      then show False using True by simp
    qed
    then have i: "5 \<le> i" "i \<le> 65531" using five_mod_6(1) [OF 1(4)] five_mod_6(2) [OF 1(4), of 10921] by simp_all
    then have "i * i \<le> 65531 * 65531" by (intro mult_le_mono) auto
    then have le: "i * i \<le> n" using 1(3) by simp
    have nd: "\<not> i dvd n" "\<not> (i + 2) dvd n" 
      using not_prime_divisor [of i n] not_prime_divisor [of "i + 2" n] 1(2,3) i by linarith+
    have "(is_prime_loop n (i + 6) :: ('e, bool) result) = Panic"
      by (rule 1(1) [OF True le _ 1(2,3)]) (use nd 1(4) in \<open>simp_all add: mod_eq_0_iff_dvd\<close>)
    then show ?thesis using True le nd by (simp add: is_prime_loop.simps [of n i] mod_eq_0_iff_dvd)
  qed (simp add: is_prime_loop.simps [of n i])
qed

lemma is_prime_panics:
  assumes "prime_nat n" "prime_limit \<le> n"
  shows "(is_prime n :: ('e, bool) result) = Panic"
  using assms prime_not_div [of n] by (simp add: is_prime_def is_prime_loop_panics mod_eq_0_iff_dvd)

definition next_prime :: "nat \<Rightarrow> nat \<Rightarrow> bool" where
  "next_prime n p \<longleftrightarrow> prime_nat p \<and> n \<le> p \<and> (\<forall>r. n \<le> r \<longrightarrow> r < p \<longrightarrow> \<not> prime_nat r)"

lemma prime_mod_6: "prime_nat p \<Longrightarrow> 3 < p \<Longrightarrow> p mod 6 = 1 \<or> p mod 6 = 5"
  using prime_not_div [of p] by presburger

lemma add_u32_below [simp]: "a + b < prime_limit \<Longrightarrow> add_u32 a b = Ok (a + b)"
  by (simp add: add_u32_def)

lemma find_next_prime_loop_correct:
  assumes "n mod 6 = 0" "0 < n" "prime_nat q" "n < q" "q < prime_limit"
  shows "\<exists>p. (find_next_prime_loop n :: ('e, nat) result) = Ok p \<and> next_prime n p"
  using assms
proof (induction "q - n" arbitrary: n rule: less_induct)
  case (less n)
  note 1 = less
  have six: "6 \<le> n" using 1(2,3) by presburger
  have q: "q = n + 1 \<or> n + 5 \<le> q" using prime_mod_6 [OF 1(4)] 1(2,5) six by presburger
  have none: "\<not> prime_nat r" if "n \<le> r" "r < n + 5" "r \<noteq> n + 1" for r
  proof
    assume "prime_nat r"
    then have "r mod 6 = 1 \<or> r mod 6 = 5" using prime_mod_6 that(1) six by simp
    then show False using that 1(2) by presburger
  qed
  consider (one) "prime_nat (n + 1)" | (five) "\<not> prime_nat (n + 1)" "prime_nat (n + 5)"
    | (later) "\<not> prime_nat (n + 1)" "\<not> prime_nat (n + 5)" by blast
  then show ?case
  proof cases
    case one
    then have "(find_next_prime_loop n :: ('e, nat) result) = Ok (n + 1)"
      using 1(5,6) by (simp add: find_next_prime_loop.simps [of n] is_prime_correct)
    moreover have "next_prime n (n + 1)" using one none by (auto simp: next_prime_def)
    ultimately show ?thesis by blast
  next
    case five
    then have "(find_next_prime_loop n :: ('e, nat) result) = Ok (n + 5)"
      using 1(5,6) q 1(4) by (auto simp: find_next_prime_loop.simps [of n] is_prime_correct)
    moreover have "next_prime n (n + 5)" using five none by (auto simp: next_prime_def)
    ultimately show ?thesis by blast
  next
    case later
    then have "q \<noteq> n + 1" "q \<noteq> n + 5" using 1(4) by auto
    then have q': "n + 6 < q" using q prime_mod_6 [OF 1(4)] 1(2,5) six by presburger
    have "(is_prime (n + 1) :: ('e, bool) result) = Ok False" "(is_prime (n + 5) :: ('e, bool) result) = Ok False"
      using later q' 1(6) by (simp_all add: is_prime_correct)
    note step = this
    have "q - (n + 6) < q - n" using q' by linarith
    then obtain p where p: "(find_next_prime_loop (n + 6) :: ('e, nat) result) = Ok p" "next_prime (n + 6) p"
      using 1(1) [of "n + 6"] q' 1(2-6) by auto
    have "(find_next_prime_loop n :: ('e, nat) result) = Ok p"
      using p step q' 1(6) by (simp add: find_next_prime_loop.simps [of n])
    moreover have "next_prime n p"
      unfolding next_prime_def
    proof (intro conjI allI impI)
      fix r assume r: "n \<le> r" "r < p"
      consider "n + 6 \<le> r" | "r = n + 1 \<or> r = n + 5" | "r < n + 5" "r \<noteq> n + 1" using r by linarith
      then show "\<not> prime_nat r" using p(2) none later r by cases (auto simp: next_prime_def)
    qed (use p in \<open>auto simp: next_prime_def\<close>)
    ultimately show ?thesis by blast
  qed
qed

lemma next_prime_skip:
  "next_prime m p \<Longrightarrow> n \<le> m \<Longrightarrow> (\<And>r. n \<le> r \<Longrightarrow> r < m \<Longrightarrow> \<not> prime_nat r) \<Longrightarrow> next_prime n p"
  by (auto simp: next_prime_def) (metis leI)

lemma next_prime_here: "prime_nat n \<Longrightarrow> next_prime n n"
  by (simp add: next_prime_def)

lemma residue_gap:
  assumes "x mod 6 = 1 \<or> x mod 6 = (5::nat)" "n \<le> x" "n = 6 * k + r" "0 < r" "r < 6" "x \<noteq> n"
  shows "6 * k + 5 \<le> x"
proof -
  obtain j s where x: "x = 6 * j + s" "s = 1 \<or> s = 5" using assms(1) by (metis div_mult_mod_eq mult.commute)
  consider "j < k" | "j = k" | "k < j" by linarith
  then show ?thesis using assms(2-6) x by cases auto
qed

text \<open>Above 3, with \<open>n = 6 k + r\<close> and \<open>0 < r\<close>: the candidates are \<open>n\<close> itself, \<open>6 (k + 1) - 1\<close> and the loop.\<close>

lemma find_next_prime_above_3:
  assumes "3 < n" "n mod 6 \<noteq> 0" "prime_nat q" "n \<le> q" "q < prime_limit"
  shows "\<exists>p. (find_next_prime n :: ('e, nat) result) = Ok p \<and> next_prime n p"
proof -
  define r where "r = n mod 6"
  obtain k where k: "n = 6 * k + r" using r_def by (metis div_mult_mod_eq mult.commute)
  have r: "0 < r" "r < 6" using assms(2) by (auto simp: r_def)
  have nlim: "n < prime_limit" using assms by simp
  show ?thesis
  proof (cases "prime_nat n")
    case True
    then have "(find_next_prime n :: ('e, nat) result) = Ok n"
      using assms(1) prime_mod_6 [OF True] nlim by (auto simp: find_next_prime_def is_prime_correct Let_def)
    then show ?thesis using next_prime_here [OF True] by blast
  next
    case False
    have "q \<noteq> n" using False assms(3) by blast
    then have q: "6 * k + 5 \<le> q"
      using residue_gap [OF prime_mod_6 [OF assms(3)]] assms(1,4) k r by simp
    have none: "\<not> prime_nat x" if "n \<le> x" "x < 6 * k + 5" for x
    proof
      assume "prime_nat x"
      then have "x mod 6 = 1 \<or> x mod 6 = 5" "x \<noteq> n" using prime_mod_6 that assms(1) False by auto
      then show False using residue_gap [of x n k r] that k r by simp
    qed
    have "n + 6 < 2 ^ 32" using nlim by simp
    then have step: "(find_next_prime n :: ('e, nat) result) =
      (if prime_nat (6 * k + 5) then Ok (6 * k + 5) else find_next_prime_loop (6 * k + 6))"
    proof -
      have e: "n + 6 - r = 6 * k + 6" using k by simp
      have "(is_prime n :: ('e, bool) result) = Ok False" using False nlim by (auto simp: is_prime_correct)
      then have no: "(if b then is_prime n else Ok False :: ('e, bool) result) = Ok False" for b by simp
      have "6 * k + 5 < prime_limit" using q assms(5) by simp
      then show ?thesis using assms(1) \<open>n + 6 < 2 ^ 32\<close> r
        unfolding find_next_prime_def Let_def r_def [symmetric] no
        by (simp add: is_prime_correct add_u32_def e add.commute [of 5] del: diff_diff_left)
    qed
    show ?thesis
    proof (cases "prime_nat (6 * k + 5)")
      case True
      then have "next_prime n (6 * k + 5)" using none k r by (auto simp: next_prime_def)
      then show ?thesis using step True by simp
    next
      case no: False
      then have "q \<noteq> 6 * k + 5" "q \<noteq> 6 * k + 6" using assms(1,3,4) prime_mod_6 [OF assms(3)] by auto
      then have "6 * k + 6 < q" using q by simp
      then obtain p where "(find_next_prime_loop (6 * k + 6) :: ('e, nat) result) = Ok p" "next_prime (6 * k + 6) p"
        using find_next_prime_loop_correct [of "6 * k + 6" q] assms(3,5) by auto
      moreover have "\<not> prime_nat x" if "n \<le> x" "x < 6 * k + 6" for x
        using none [of x] no that by (cases "x = 6 * k + 5") auto
      ultimately show ?thesis using step no next_prime_skip [of "6 * k + 6" p n] k r by auto
    qed
  qed
qed

text \<open>
  C36.  Trial division decides primality for every \<open>u32\<close> below 65531 squared, and panics on every larger prime
  because \<open>i * i\<close> overflows.  As long as some prime at or above \<open>n\<close> lies below that limit,
  \<open>find_next_prime n\<close> terminates with the least prime at or above \<open>n\<close>, which is \<open>n\<close> itself when \<open>n\<close> is prime.
\<close>

theorem find_next_prime_correct:
  "(n < prime_limit \<longrightarrow> (is_prime n :: ('e, bool) result) = Ok (prime_nat n)) \<and>
   (prime_nat n \<and> prime_limit \<le> n \<longrightarrow> (is_prime n :: ('e, bool) result) = Panic) \<and>
   (prime_nat q \<and> n \<le> q \<and> q < prime_limit \<longrightarrow>
     (\<exists>p. (find_next_prime n :: ('e, nat) result) = Ok p \<and> prime_nat p \<and> n \<le> p \<and>
          (\<forall>r. n \<le> r \<longrightarrow> r < p \<longrightarrow> \<not> prime_nat r)))"
proof (intro conjI impI)
  assume q: "prime_nat q \<and> n \<le> q \<and> q < prime_limit"
  consider "n \<le> 2" | "n = 3" | "3 < n" "n mod 6 = 0" | "3 < n" "n mod 6 \<noteq> 0" by linarith
  then have "\<exists>p. (find_next_prime n :: ('e, nat) result) = Ok p \<and> next_prime n p"
  proof cases
    case 1
    then show ?thesis using prime_nat_2_3(1) by (auto simp: find_next_prime_def next_prime_def prime_nat_def)
  next
    case 2
    then show ?thesis using prime_nat_2_3(2) by (auto simp: find_next_prime_def intro: next_prime_here)
  next
    case 3
    then have "n \<noteq> q" using q prime_mod_6 [of q] by auto
    then show ?thesis using 3 q find_next_prime_loop_correct [of n q] by (auto simp: find_next_prime_def Let_def)
  next
    case 4
    then show ?thesis using q find_next_prime_above_3 by blast
  qed
  then show "\<exists>p. (find_next_prime n :: ('e, nat) result) = Ok p \<and> prime_nat p \<and> n \<le> p \<and>
    (\<forall>r. n \<le> r \<longrightarrow> r < p \<longrightarrow> \<not> prime_nat r)" by (simp add: next_prime_def)
qed (simp_all add: is_prime_correct is_prime_panics)

lemma find_next_prime_correct_witness:
  "(find_next_prime 8 :: (unit, nat) result) = Ok 11 \<and> (is_prime 11 :: (unit, bool) result) = Ok True \<and> prime_nat 11"
proof -
  have "(is_prime 11 :: (unit, bool) result) = Ok True" by (simp add: is_prime_def is_prime_loop.simps)
  moreover from this have "prime_nat 11" using find_next_prime_correct [of 11 0, where 'e = unit] by simp
  ultimately show ?thesis
    using find_next_prime_correct [of 8 11, where 'e = unit]
    by (simp add: find_next_prime_def is_prime_def is_prime_loop.simps add_u32_def)
qed


section \<open>Rollover fee\<close>

definition div_ceil :: "nat \<Rightarrow> nat \<Rightarrow> ('e, nat) result" where
  "div_ceil a b = (if b = 0 then Panic else Ok (a div b + (if a mod b > 0 then 1 else 0)))"

definition compute_rollover_fee :: "nat \<Rightarrow> nat \<Rightarrow> nat \<Rightarrow> (UtilsError, nat) result" where
  "compute_rollover_fee rollover_threshold tree_height rent =
     and_then (shl1_u64 tree_height) (\<lambda>number_of_transactions.
     if rollover_threshold > 100 then Err InvalidRolloverThreshold
     else if rollover_threshold = 0 then Ok rent
     else
       and_then (mul_u64 rent 100) (\<lambda>a.
       and_then (mul_u64 number_of_transactions rollover_threshold) (\<lambda>b. div_ceil a b)))"

lemma div_ceil_bounds:
  assumes "0 < b"
  shows "\<exists>c. (div_ceil a b :: ('e, nat) result) = Ok c \<and> a \<le> c * b \<and> (\<forall>d. a \<le> d * b \<longrightarrow> c \<le> d)"
proof -
  define c where "c = a div b + (if a mod b > 0 then 1 else 0)"
  have a: "a = a div b * b + a mod b" by simp
  have "a \<le> a div b * b + b" using a mod_less_divisor [OF assms, of a] by linarith
  then have le: "a \<le> c * b" using a by (auto simp: c_def add_mult_distrib)
  have "c \<le> d" if d: "a \<le> d * b" for d
  proof -
    have "a div b \<le> d" using d assms by (metis div_le_mono nonzero_mult_div_cancel_right less_not_refl)
    moreover have "a div b \<noteq> d" if "a mod b > 0"
    proof
      assume eq: "a div b = d"
      have "a div b * b < a" using a that by linarith
      then show False using eq d by simp
    qed
    ultimately show ?thesis by (auto simp: c_def)
  qed
  then show ?thesis using le assms by (auto simp: div_ceil_def c_def)
qed

lemma rollover_fee_spec:
  assumes "compute_rollover_fee rollover_threshold tree_height rent = Ok fee" "0 < rollover_threshold"
  shows "rent * 100 \<le> fee * (2 ^ tree_height * rollover_threshold) \<and>
         (\<forall>f. rent * 100 \<le> f * (2 ^ tree_height * rollover_threshold) \<longrightarrow> fee \<le> f) \<and> rollover_threshold \<le> 100"
proof -
  have "(div_ceil (rent * 100) (2 ^ tree_height * rollover_threshold) :: (UtilsError, nat) result) = Ok fee" "rollover_threshold \<le> 100"
    using assms by (auto simp: compute_rollover_fee_def mult.commute split: if_splits elim!: and_then_OkE)
  then show ?thesis using div_ceil_bounds [of "2 ^ tree_height * rollover_threshold" "rent * 100", where 'e = UtilsError] assms(2) by auto
qed


section \<open>Hashing into the scalar field\<close>

text \<open>\<open>hashv\<close> is Keccak256 and \<open>modulus\<close> is \<open>ark_bn254::Fr::MODULUS\<close>.\<close>

definition is_smaller_than_bn254_field_size_be :: "nat \<Rightarrow> bytes \<Rightarrow> bool" where
  "is_smaller_than_bn254_field_size_be modulus bs \<longleftrightarrow> from_bytes_be bs < modulus"

fun hash_to_bn254_loop :: "(bytes list \<Rightarrow> bytes) \<Rightarrow> nat \<Rightarrow> bytes \<Rightarrow> nat \<Rightarrow> 8 word \<Rightarrow> (bytes \<times> 8 word) option" where
  "hash_to_bn254_loop hashv modulus bs 0 bump_seed = None"
| "hash_to_bn254_loop hashv modulus bs (Suc k) bump_seed =
     (let hashed_value = (hashv [bs, [bump_seed]])[0 := 0] in
      if is_smaller_than_bn254_field_size_be modulus hashed_value then Some (hashed_value, bump_seed)
      else hash_to_bn254_loop hashv modulus bs k (bump_seed - 1))"

definition hash_to_bn254_field_size_be :: "(bytes list \<Rightarrow> bytes) \<Rightarrow> nat \<Rightarrow> bytes \<Rightarrow> (bytes \<times> 8 word) option" where
  "hash_to_bn254_field_size_be hashv modulus bs = hash_to_bn254_loop hashv modulus bs 255 255"

definition hashv_to_bn254_field_size_be :: "(bytes list \<Rightarrow> bytes) \<Rightarrow> bytes list \<Rightarrow> bytes" where
  "hashv_to_bn254_field_size_be hashv bs = (hashv bs)[0 := 0]"

lemma from_bytes_be_truncated:
  assumes "length bs = 32"
  shows "from_bytes_be (bs[0 := 0]) < 2 ^ 248"
proof -
  obtain b r where bs: "bs = b # r" "length r = 31" using assms by (cases bs) auto
  have "from_bytes_be (0 # r) = from_bytes_be r"
    by (simp add: from_bytes_be_def from_bytes_le_append)
  moreover have "from_bytes_be r < 256 ^ 31" using from_bytes_be_bound [of r] bs by simp
  ultimately show ?thesis using bs by simp
qed

text \<open>
  C37.  With a 32-byte hash and a modulus of at least 248 bits, hashing into the field never fails: the first
  bump seed 255 always succeeds, the result has 32 bytes with a leading zero, and both variants stay below the
  modulus.
\<close>

theorem hash_to_bn254_type:
  assumes "\<And>x. length (hashv x) = 32" "2 ^ 248 \<le> modulus"
  shows "hash_to_bn254_field_size_be hashv modulus bs = Some ((hashv [bs, [255]])[0 := 0], 255) \<and>
         (\<forall>v \<in> {(hashv [bs, [255]])[0 := 0], hashv_to_bn254_field_size_be hashv bss}.
            length v = 32 \<and> v ! 0 = 0 \<and> is_smaller_than_bn254_field_size_be modulus v)"
proof -
  have lt: "is_smaller_than_bn254_field_size_be modulus ((hashv x)[0 := 0])" for x
    using from_bytes_be_truncated [OF assms(1)] assms(2)
    by (auto simp: is_smaller_than_bn254_field_size_be_def intro: less_le_trans)
  have "hash_to_bn254_loop hashv modulus bs (Suc k) 255 = Some ((hashv [bs, [255]])[0 := 0], 255)" for k
    using lt by (simp add: Let_def)
  from this [of 254] show ?thesis
    using lt assms(1) by (simp add: hash_to_bn254_field_size_be_def hashv_to_bn254_field_size_be_def)
qed

lemma hash_to_bn254_type_witness:
  "hash_to_bn254_field_size_be (\<lambda>x. replicate 32 7) (2 ^ 253) [1, 2] = Some (0 # replicate 31 7, 255)"
proof -
  have "(replicate 32 7)[0 := 0] = 0 # replicate 31 (7 :: 8 word)" by (simp add: numeral_eq_Suc)
  then show ?thesis
    using hash_to_bn254_type [of "\<lambda>x. replicate 32 7" "2 ^ 253" "[1, 2]" "[]"] by simp
qed

end
