(* ===== verification/Ledger.thy ===== *)
theory Ledger
  imports Indexed_Concurrency Hash_Set_Account Utils
begin

text \<open>
  The accounts of the account compression program (\<open>programs/account-compression/src/state\<close>) and the
  ledger that holds them.  An account is its balance, the length of its data and its data, typed by
  the discriminator.  What the program calls of the Solana runtime is collected in the record \<open>Env\<close>.
\<close>


section \<open>Errors\<close>

datatype AccountCompressionErrorCode =
    AcIntegerOverflow
  | AcInvalidAuthority
  | AcNumberOfLeavesMismatch
  | AcInvalidNoopPubkey
  | AcNumberOfChangeLogIndicesMismatch
  | AcNumberOfIndicesMismatch
  | AcNumberOfProofsMismatch
  | AcInvalidMerkleProof
  | AcLeafNotFound
  | AcMerkleTreeAndQueueNotAssociated
  | AcMerkleTreeAlreadyRolledOver
  | AcNotReadyForRollover
  | AcRolloverNotConfigured
  | AcNotAllLeavesProcessed
  | AcInvalidQueueType
  | AcInputElementsEmpty
  | AcNoLeavesForMerkleTree
  | AcInvalidAccountSize
  | AcInsufficientRolloverFee
  | AcUnsupportedHeight
  | AcUnsupportedCanopyDepth
  | AcInvalidSequenceThreshold
  | AcUnsupportedCloseThreshold
  | AcInvalidAccountBalance
  | AcUnsupportedAdditionalBytes
  | AcInvalidGroup

text \<open>The errors of an instruction: its own, those of the libraries, of account validation and of the runtime.\<close>

datatype program_error =
    AcError AccountCompressionErrorCode
  | TreeError ConcurrentMerkleTreeError
  | IndexedTreeError IndexedMerkleTreeError
  | QueueError HashSetError
  | UtilsErr UtilsError
  | VecError BoundedVecError
  | AnchorError
  | RuntimeError nat


section \<open>Metadata\<close>

type_synonym pubkey = bytes

definition default_pubkey :: pubkey where
  "default_pubkey = replicate 32 0"

abbreviation u64_max :: nat where "u64_max \<equiv> u64_bound - 1"

record AccessMetadata =
  am_owner :: pubkey
  am_program_owner :: pubkey
  am_forester :: pubkey

definition unwrap_or :: "'a option \<Rightarrow> 'a \<Rightarrow> 'a" where
  "unwrap_or x d = (case x of Some y \<Rightarrow> y | None \<Rightarrow> d)"

lemma unwrap_or_simps [simp]: "unwrap_or (Some x) d = x" "unwrap_or None d = d"
  by (simp_all add: unwrap_or_def)

definition AccessMetadata_new :: "pubkey \<Rightarrow> pubkey option \<Rightarrow> pubkey option \<Rightarrow> AccessMetadata" where
  "AccessMetadata_new owner program_owner forester =
     \<lparr>am_owner = owner, am_program_owner = unwrap_or program_owner default_pubkey,
      am_forester = unwrap_or forester default_pubkey\<rparr>"

record RolloverMetadata =
  rm_index :: nat
  rm_rollover_fee :: nat
  rm_rollover_threshold :: nat
  rm_network_fee :: nat
  rm_rolledover_slot :: nat
  rm_close_threshold :: nat
  rm_additional_bytes :: nat

definition RolloverMetadata_new ::
  "nat \<Rightarrow> nat \<Rightarrow> nat option \<Rightarrow> nat \<Rightarrow> nat option \<Rightarrow> nat option \<Rightarrow> RolloverMetadata" where
  "RolloverMetadata_new i rollover_fee rollover_threshold network_fee close_threshold additional_bytes =
     \<lparr>rm_index = i, rm_rollover_fee = rollover_fee, rm_rollover_threshold = unwrap_or rollover_threshold u64_max,
      rm_network_fee = network_fee, rm_rolledover_slot = u64_max,
      rm_close_threshold = unwrap_or close_threshold u64_max,
      rm_additional_bytes = unwrap_or additional_bytes 0\<rparr>"

definition RolloverMetadata_rollover :: "nat \<Rightarrow> RolloverMetadata \<Rightarrow> (program_error, RolloverMetadata) result" where
  "RolloverMetadata_rollover slot m =
     (if rm_rollover_threshold m = u64_max then Err (AcError AcRolloverNotConfigured)
      else if rm_rolledover_slot m \<noteq> u64_max then Err (AcError AcMerkleTreeAlreadyRolledOver)
      else Ok (m\<lparr>rm_rolledover_slot := slot\<rparr>))"

record MerkleTreeMetadata =
  mtm_access_metadata :: AccessMetadata
  mtm_rollover_metadata :: RolloverMetadata
  mtm_associated_queue :: pubkey
  mtm_next_merkle_tree :: pubkey

definition MerkleTreeMetadata_init ::
  "MerkleTreeMetadata \<Rightarrow> AccessMetadata \<Rightarrow> RolloverMetadata \<Rightarrow> pubkey \<Rightarrow> MerkleTreeMetadata" where
  "MerkleTreeMetadata_init m access_metadata rollover_metadata associated_queue =
     m\<lparr>mtm_access_metadata := access_metadata, mtm_rollover_metadata := rollover_metadata,
       mtm_associated_queue := associated_queue\<rparr>"

definition MerkleTreeMetadata_rollover ::
  "nat \<Rightarrow> MerkleTreeMetadata \<Rightarrow> pubkey \<Rightarrow> pubkey \<Rightarrow> (program_error, MerkleTreeMetadata) result" where
  "MerkleTreeMetadata_rollover slot m old_associated_queue next_merkle_tree =
     (if mtm_associated_queue m \<noteq> old_associated_queue then Err (AcError AcMerkleTreeAndQueueNotAssociated)
      else
        and_then (RolloverMetadata_rollover slot (mtm_rollover_metadata m)) (\<lambda>r.
        Ok (m\<lparr>mtm_rollover_metadata := r, mtm_next_merkle_tree := next_merkle_tree\<rparr>)))"

record QueueMetadata =
  qm_access_metadata :: AccessMetadata
  qm_rollover_metadata :: RolloverMetadata
  qm_associated_merkle_tree :: pubkey
  qm_next_queue :: pubkey
  qm_queue_type :: nat

datatype QueueType = NullifierQueue | AddressQueue

fun QueueType_u64 :: "QueueType \<Rightarrow> nat" where
  "QueueType_u64 NullifierQueue = 1"
| "QueueType_u64 AddressQueue = 2"

definition check_queue_type :: "nat \<Rightarrow> QueueType \<Rightarrow> (program_error, unit) result" where
  "check_queue_type queue_type expected_queue_type =
     (if queue_type \<noteq> QueueType_u64 expected_queue_type then Err (AcError AcInvalidQueueType) else Ok ())"

definition QueueMetadata_init ::
  "QueueMetadata \<Rightarrow> AccessMetadata \<Rightarrow> RolloverMetadata \<Rightarrow> pubkey \<Rightarrow> QueueType \<Rightarrow> QueueMetadata" where
  "QueueMetadata_init m access_metadata rollover_metadata associated_merkle_tree queue_type =
     m\<lparr>qm_access_metadata := access_metadata, qm_rollover_metadata := rollover_metadata,
       qm_associated_merkle_tree := associated_merkle_tree, qm_queue_type := QueueType_u64 queue_type\<rparr>"

definition QueueMetadata_rollover ::
  "nat \<Rightarrow> QueueMetadata \<Rightarrow> pubkey \<Rightarrow> pubkey \<Rightarrow> (program_error, QueueMetadata) result" where
  "QueueMetadata_rollover slot m old_associated_merkle_tree next_queue =
     (if qm_associated_merkle_tree m \<noteq> old_associated_merkle_tree
      then Err (AcError AcMerkleTreeAndQueueNotAssociated)
      else
        and_then (RolloverMetadata_rollover slot (qm_rollover_metadata m)) (\<lambda>r.
        Ok (m\<lparr>qm_rollover_metadata := r, qm_next_queue := next_queue\<rparr>)))"

text \<open>The metadata in a zeroed account.\<close>

definition zero_access :: AccessMetadata where
  "zero_access = \<lparr>am_owner = default_pubkey, am_program_owner = default_pubkey, am_forester = default_pubkey\<rparr>"

definition zero_rollover :: RolloverMetadata where
  "zero_rollover = \<lparr>rm_index = 0, rm_rollover_fee = 0, rm_rollover_threshold = 0, rm_network_fee = 0,
     rm_rolledover_slot = 0, rm_close_threshold = 0, rm_additional_bytes = 0\<rparr>"

definition zero_tree_metadata :: MerkleTreeMetadata where
  "zero_tree_metadata = \<lparr>mtm_access_metadata = zero_access, mtm_rollover_metadata = zero_rollover,
     mtm_associated_queue = default_pubkey, mtm_next_merkle_tree = default_pubkey\<rparr>"

definition zero_queue_metadata :: QueueMetadata where
  "zero_queue_metadata = \<lparr>qm_access_metadata = zero_access, qm_rollover_metadata = zero_rollover,
     qm_associated_merkle_tree = default_pubkey, qm_next_queue = default_pubkey, qm_queue_type = 0\<rparr>"

record RegisteredProgram =
  rp_registered_program_id :: pubkey
  rp_group_authority_pda :: pubkey

record GroupAuthority =
  ga_authority :: pubkey
  ga_seed :: pubkey


section \<open>Accounts and the ledger\<close>

text \<open>
  \<open>Zeroed\<close> is an account of the program whose discriminator is still zero, \<open>Foreign\<close> everything
  the program does not own.
\<close>

datatype AccountData =
    StateMerkleTreeAccount MerkleTreeMetadata ConcurrentMerkleTree
  | AddressMerkleTreeAccount MerkleTreeMetadata IndexedMerkleTree
  | QueueAccount QueueMetadata HashSet
  | RegisteredProgramAccount RegisteredProgram
  | GroupAuthorityAccount GroupAuthority
  | Zeroed
  | Foreign

record Account =
  acc_lamports :: nat
  acc_data_len :: nat
  acc_data :: AccountData

type_synonym ledger = "pubkey \<Rightarrow> Account"

definition set_data :: "ledger \<Rightarrow> pubkey \<Rightarrow> AccountData \<Rightarrow> ledger" where
  "set_data l k d = l(k := (l k)\<lparr>acc_data := d\<rparr>)"

definition set_lamports :: "ledger \<Rightarrow> pubkey \<Rightarrow> nat \<Rightarrow> ledger" where
  "set_lamports l k n = l(k := (l k)\<lparr>acc_lamports := n\<rparr>)"

lemma set_data_simps [simp]:
  "acc_data (set_data l k d x) = (if x = k then d else acc_data (l x))"
  "acc_lamports (set_data l k d x) = acc_lamports (l x)"
  "acc_data_len (set_data l k d x) = acc_data_len (l x)"
  by (auto simp: set_data_def)

lemma set_lamports_simps [simp]:
  "acc_data (set_lamports l k n x) = acc_data (l x)"
  "acc_lamports (set_lamports l k n x) = (if x = k then n else acc_lamports (l x))"
  "acc_data_len (set_lamports l k n x) = acc_data_len (l x)"
  by (auto simp: set_lamports_def)

text \<open>\<open>AccountLoader::try_from\<close> with \<open>load\<close>, and \<open>Account<T>\<close>: owner and discriminator are checked.\<close>

definition load_state_tree :: "ledger \<Rightarrow> pubkey \<Rightarrow> (program_error, MerkleTreeMetadata \<times> ConcurrentMerkleTree) result" where
  "load_state_tree l k = (case acc_data (l k) of StateMerkleTreeAccount m t \<Rightarrow> Ok (m, t) | _ \<Rightarrow> Err AnchorError)"

definition load_address_tree :: "ledger \<Rightarrow> pubkey \<Rightarrow> (program_error, MerkleTreeMetadata \<times> IndexedMerkleTree) result" where
  "load_address_tree l k = (case acc_data (l k) of AddressMerkleTreeAccount m t \<Rightarrow> Ok (m, t) | _ \<Rightarrow> Err AnchorError)"

definition load_queue :: "ledger \<Rightarrow> pubkey \<Rightarrow> (program_error, QueueMetadata \<times> HashSet) result" where
  "load_queue l k = (case acc_data (l k) of QueueAccount m s \<Rightarrow> Ok (m, s) | _ \<Rightarrow> Err AnchorError)"

definition load_group_authority :: "ledger \<Rightarrow> pubkey \<Rightarrow> (program_error, GroupAuthority) result" where
  "load_group_authority l k = (case acc_data (l k) of GroupAuthorityAccount g \<Rightarrow> Ok g | _ \<Rightarrow> Err AnchorError)"

definition load_registered_program :: "ledger \<Rightarrow> pubkey \<Rightarrow> (program_error, RegisteredProgram) result" where
  "load_registered_program l k = (case acc_data (l k) of RegisteredProgramAccount r \<Rightarrow> Ok r | _ \<Rightarrow> Err AnchorError)"

definition load_registered_option ::
  "ledger \<Rightarrow> pubkey option \<Rightarrow> (program_error, RegisteredProgram option) result" where
  "load_registered_option l k =
     (case k of None \<Rightarrow> Ok None | Some k \<Rightarrow> and_then (load_registered_program l k) (\<lambda>r. Ok (Some r)))"

definition load_zero :: "ledger \<Rightarrow> pubkey \<Rightarrow> (program_error, unit) result" where
  "load_zero l k = (if acc_data (l k) = Zeroed then Ok () else Err AnchorError)"

lemma load_simps [simp]:
  "load_state_tree l k = Ok (m, t) \<longleftrightarrow> acc_data (l k) = StateMerkleTreeAccount m t"
  "load_address_tree l k = Ok (m, u) \<longleftrightarrow> acc_data (l k) = AddressMerkleTreeAccount m u"
  "load_queue l k = Ok (q, s) \<longleftrightarrow> acc_data (l k) = QueueAccount q s"
  "load_registered_program l k = Ok r \<longleftrightarrow> acc_data (l k) = RegisteredProgramAccount r"
  "load_group_authority l k = Ok g \<longleftrightarrow> acc_data (l k) = GroupAuthorityAccount g"
  "load_zero l k = Ok () \<longleftrightarrow> acc_data (l k) = Zeroed"
  by (auto simp: load_state_tree_def load_address_tree_def load_queue_def load_registered_program_def
      load_group_authority_def load_zero_def split: AccountData.splits)


section \<open>The runtime\<close>

text \<open>
  The hash functions, the derivation of program addresses, rent, the clock, the transfer instruction of
  the system program, the memory layout of a bucket, the iteration order of \<open>HashMap\<close> (as a
  reordering of its keys) and the depth of the call stack.
\<close>

record Env =
  poseidon :: Hasher
  keccak :: "bytes list \<Rightarrow> bytes"
  fr_modulus :: nat
  find_program_address :: "bytes list \<Rightarrow> pubkey \<Rightarrow> pubkey"
  create_program_address :: "bytes list \<Rightarrow> pubkey \<Rightarrow> pubkey option"
  minimum_balance :: "nat \<Rightarrow> nat"
  clock_slot :: nat
  is_executable :: "pubkey \<Rightarrow> bool"
  system_transfer :: "ledger \<Rightarrow> pubkey \<Rightarrow> pubkey \<Rightarrow> nat \<Rightarrow> (nat, ledger) result"
  bucket_layout :: cell_layout
  hash_map_order :: "pubkey list \<Rightarrow> pubkey list"
  stack_depth :: nat

text \<open>A transfer of the system program moves lamports the sender has and changes nothing else.\<close>

definition moved :: "ledger \<Rightarrow> pubkey \<Rightarrow> pubkey \<Rightarrow> nat \<Rightarrow> ledger" where
  "moved l from to n =
     (let l1 = set_lamports l from (acc_lamports (l from) - n) in set_lamports l1 to (acc_lamports (l1 to) + n))"

definition transfer_law :: "Env \<Rightarrow> bool" where
  "transfer_law E \<longleftrightarrow> (\<forall>l from to n l'. system_transfer E l from to n = Ok l' \<longrightarrow>
     n \<le> acc_lamports (l from) \<and> l' = moved l from to n)"

definition order_law :: "Env \<Rightarrow> bool" where
  "order_law E \<longleftrightarrow> (\<forall>ks. distinct ks \<longrightarrow> distinct (hash_map_order E ks) \<and> set (hash_map_order E ks) = set ks)"

lemma moved_data [simp]: "acc_data (moved l from to n x) = acc_data (l x)"
  by (simp add: moved_def Let_def)

text \<open>The lamports of a finite set of accounts are conserved when both parties are in it.\<close>

definition total :: "ledger \<Rightarrow> pubkey set \<Rightarrow> nat" where
  "total l A = (\<Sum>k\<in>A. acc_lamports (l k))"

lemma total_set_lamports:
  assumes "finite A" "k \<in> A"
  shows "total (set_lamports l k n) A + acc_lamports (l k) = total l A + n"
proof -
  have "total (set_lamports l k n) A = n + total l (A - {k})" "total l A = acc_lamports (l k) + total l (A - {k})"
    unfolding total_def using assms by (simp_all add: sum.remove)
  then show ?thesis by simp
qed

lemma total_moved:
  assumes "finite A" "from \<in> A" "to \<in> A" "n \<le> acc_lamports (l from)"
  shows "total (moved l from to n) A = total l A"
proof -
  let ?l1 = "set_lamports l from (acc_lamports (l from) - n)"
  have "total ?l1 A + acc_lamports (l from) = total l A + (acc_lamports (l from) - n)"
    using total_set_lamports [OF assms(1,2)] .
  moreover have "total (moved l from to n) A + acc_lamports (?l1 to) = total ?l1 A + (acc_lamports (?l1 to) + n)"
    using total_set_lamports [OF assms(1,3)] by (simp only: moved_def Let_def)
  ultimately show ?thesis using assms(4) by linarith
qed

lemma total_set_data [simp]: "total (set_data l k d) A = total l A"
  by (simp add: total_def)

text \<open>A runtime that satisfies the laws.\<close>

definition sample_transfer :: "ledger \<Rightarrow> pubkey \<Rightarrow> pubkey \<Rightarrow> nat \<Rightarrow> (nat, ledger) result" where
  "sample_transfer l from to n = (if n \<le> acc_lamports (l from) then Ok (moved l from to n) else Err 1)"

definition sample_env :: Env where
  "sample_env =
     \<lparr>poseidon = sample_hasher, keccak = (\<lambda>bs. replicate 32 (of_nat (sum_list (map length bs)))), fr_modulus = 2 ^ 253,
      find_program_address = (\<lambda>seeds program. program), create_program_address = (\<lambda>seeds program. Some program),
      minimum_balance = (\<lambda>n. n), clock_slot = 7, is_executable = (\<lambda>k. True), system_transfer = sample_transfer,
      bucket_layout = sample_layout, hash_map_order = (\<lambda>ks. ks), stack_depth = 1\<rparr>"

lemma sample_env_laws [simp]: "transfer_law sample_env" "order_law sample_env"
  by (auto simp: transfer_law_def order_law_def sample_env_def sample_transfer_def split: if_splits)

end
