(* ===== verification/Account_Compression.thy ===== *)
theory Account_Compression
  imports Ledger
begin

text \<open>
  The instructions of the account compression program (\<open>programs/account-compression/src\<close>).  An
  instruction takes the ledger and its context, the keys of the accounts it was called with, and
  returns the new ledger; an error or a panic aborts the transaction, so it returns no ledger.  The
  keys in a context that the source types as \<open>Signer\<close> are those that signed.
\<close>


section \<open>Checks and transfers\<close>

definition CPI_AUTHORITY_PDA_SEED :: bytes where
  "CPI_AUTHORITY_PDA_SEED = [99, 112, 105, 95, 97, 117, 116, 104, 111, 114, 105, 116, 121]"

definition GROUP_AUTHORITY_SEED :: bytes where
  "GROUP_AUTHORITY_SEED = [103, 114, 111, 117, 112, 95, 97, 117, 116, 104, 111, 114, 105, 116, 121]"

definition STATE_MERKLE_TREE_HEIGHT :: nat where "STATE_MERKLE_TREE_HEIGHT = 26"
definition STATE_MERKLE_TREE_CANOPY_DEPTH :: nat where "STATE_MERKLE_TREE_CANOPY_DEPTH = 10"
definition ADDRESS_MERKLE_TREE_HEIGHT :: nat where "ADDRESS_MERKLE_TREE_HEIGHT = 26"
definition ADDRESS_MERKLE_TREE_CANOPY_DEPTH :: nat where "ADDRESS_MERKLE_TREE_CANOPY_DEPTH = 10"
definition SAFETY_MARGIN :: nat where "SAFETY_MARGIN = 10"

definition NOOP_PUBKEY :: pubkey where
  "NOOP_PUBKEY = [11, 188, 15, 192, 187, 71, 202, 47, 116, 196, 17, 46, 148, 171, 19, 207, 163, 198, 52, 229,
     220, 23, 234, 203, 3, 205, 26, 35, 205, 126, 120, 124]"

definition check_account_balance_is_rent_exempt :: "Env \<Rightarrow> ledger \<Rightarrow> pubkey \<Rightarrow> nat \<Rightarrow> (program_error, nat) result" where
  "check_account_balance_is_rent_exempt E l k expected_size =
     (if acc_data_len (l k) \<noteq> expected_size then Err (AcError AcInvalidAccountSize)
      else if acc_lamports (l k) \<noteq> minimum_balance E expected_size then Err (AcError AcInvalidAccountBalance)
      else Ok (acc_lamports (l k)))"

text \<open>\<open>registered\<close> is the registered program of the context and \<open>owner\<close> the owner of the checked account.\<close>

definition check_signer_is_registered_or_authority ::
  "Env \<Rightarrow> pubkey \<Rightarrow> RegisteredProgram option \<Rightarrow> pubkey \<Rightarrow> (program_error, unit) result" where
  "check_signer_is_registered_or_authority E authority registered owner =
     (case registered of
        Some registered_program_pda \<Rightarrow>
          let derived_address = find_program_address E [CPI_AUTHORITY_PDA_SEED]
                (rp_registered_program_id registered_program_pda) in
          if authority = derived_address \<and> owner = rp_group_authority_pda registered_program_pda then Ok ()
          else Err (AcError AcInvalidAuthority)
      | None \<Rightarrow> if authority = owner then Ok () else Err (AcError AcInvalidAuthority))"

definition transfer_lamports :: "ledger \<Rightarrow> pubkey \<Rightarrow> pubkey \<Rightarrow> nat \<Rightarrow> (program_error, ledger) result" where
  "transfer_lamports l from to lamports =
     and_then (ok_or (checked_sub (acc_lamports (l from)) lamports) (AcError AcIntegerOverflow)) (\<lambda>rest.
     let l = set_lamports l from rest in
     and_then (ok_or (checked_add (acc_lamports (l to)) lamports) (AcError AcIntegerOverflow)) (\<lambda>sum.
     Ok (set_lamports l to sum)))"

definition transfer_lamports_cpi :: "Env \<Rightarrow> ledger \<Rightarrow> pubkey \<Rightarrow> pubkey \<Rightarrow> nat \<Rightarrow> (program_error, ledger) result" where
  "transfer_lamports_cpi E l from to lamports = map_err RuntimeError (system_transfer E l from to lamports)"

text \<open>The event is returned to the caller of the instruction; the no-op program only logs it.\<close>

definition emit_indexer_event :: "Env \<Rightarrow> pubkey \<Rightarrow> (program_error, unit) result" where
  "emit_indexer_event E noop_program =
     (if noop_program \<noteq> NOOP_PUBKEY \<or> \<not> is_executable E noop_program then Err (AcError AcInvalidNoopPubkey)
      else Ok ())"


section \<open>Views of the accounts\<close>

text \<open>The sizes of the metadata structs: 32 bytes per key and 8 per number.\<close>

definition tree_metadata_size :: nat where "tree_metadata_size = 3 * 32 + 7 * 8 + 2 * 32"
definition queue_metadata_size :: nat where "queue_metadata_size = 3 * 32 + 7 * 8 + 2 * 32 + 8"

definition StateMerkleTreeAccount_size :: "nat \<Rightarrow> nat \<Rightarrow> nat \<Rightarrow> nat \<Rightarrow> ('e, nat) result" where
  "StateMerkleTreeAccount_size height changelog_size roots_size canopy_depth =
     and_then (cmt_size_in_account 26 height changelog_size roots_size canopy_depth) (\<lambda>s.
     add_u64 (8 + tree_metadata_size) s)"

definition AddressMerkleTreeAccount_size :: "nat \<Rightarrow> nat \<Rightarrow> nat \<Rightarrow> nat \<Rightarrow> nat \<Rightarrow> ('e, nat) result" where
  "AddressMerkleTreeAccount_size height changelog_size roots_size canopy_depth indexed_changelog_size =
     and_then (imt_size_in_account 26 16 height changelog_size roots_size canopy_depth indexed_changelog_size) (\<lambda>s.
     add_u64 (8 + tree_metadata_size) s)"

definition QueueAccount_size :: "Env \<Rightarrow> nat \<Rightarrow> ('e, nat) result" where
  "QueueAccount_size E capacity =
     and_then (hs_size_in_account (bucket_layout E) capacity) (\<lambda>s. add_u64 (8 + queue_metadata_size) s)"

definition state_merkle_tree_from_bytes_zero_copy ::
  "ConcurrentMerkleTree \<Rightarrow> (program_error, ConcurrentMerkleTree) result" where
  "state_merkle_tree_from_bytes_zero_copy t =
     and_then (map_err TreeError (cmt_check_size_constraints 26 t)) (\<lambda>_. Ok t)"

definition address_merkle_tree_from_bytes_zero_copy ::
  "IndexedMerkleTree \<Rightarrow> (program_error, IndexedMerkleTree) result" where
  "address_merkle_tree_from_bytes_zero_copy t =
     and_then (map_err (IndexedTreeError \<circ> ImtConcurrentMerkleTree)
       (cmt_check_size_constraints 26 (imt_merkle_tree t))) (\<lambda>_. Ok t)"

text \<open>
  The tree that \<open>from_bytes_zero_copy_init\<close> lays over a buffer: a new tree whose rightmost leaf is the
  zero leaf of the hasher.  The buffer follows the discriminator and the metadata.
\<close>

definition data_after :: "nat \<Rightarrow> nat \<Rightarrow> ('e, nat) result" where
  "data_after metadata_size len = (if 8 + metadata_size \<le> len then Ok (len - (8 + metadata_size)) else Panic)"

definition state_merkle_tree_from_bytes_zero_copy_init ::
  "Env \<Rightarrow> nat \<Rightarrow> nat \<Rightarrow> nat \<Rightarrow> nat \<Rightarrow> nat \<Rightarrow> (program_error, ConcurrentMerkleTree) result" where
  "state_merkle_tree_from_bytes_zero_copy_init E data_len height canopy_depth changelog_capacity roots_capacity =
     and_then (data_after tree_metadata_size data_len) (\<lambda>len.
     and_then (cmt_size_in_account 26 height changelog_capacity roots_capacity canopy_depth) (\<lambda>expected_size.
     if len < expected_size then Err (TreeError (BufferSize expected_size len))
     else
       and_then (map_err TreeError (cmt_new 26 height changelog_capacity roots_capacity canopy_depth)) (\<lambda>t.
       and_then (index (zero_bytes (poseidon E)) 0) (\<lambda>z. Ok (t\<lparr>cmt_rightmost_leaf := z\<rparr>)))))"

definition address_merkle_tree_from_bytes_zero_copy_init ::
  "Env \<Rightarrow> nat \<Rightarrow> nat \<Rightarrow> nat \<Rightarrow> nat \<Rightarrow> nat \<Rightarrow> nat \<Rightarrow> (program_error, IndexedMerkleTree) result" where
  "address_merkle_tree_from_bytes_zero_copy_init E data_len height canopy_depth changelog_capacity roots_capacity
     indexed_changelog_capacity =
     and_then (data_after tree_metadata_size data_len) (\<lambda>len.
     and_then (cmt_size_in_account 26 height changelog_capacity roots_capacity canopy_depth) (\<lambda>tree_size.
     if len < tree_size then Err (IndexedTreeError (ImtConcurrentMerkleTree (BufferSize tree_size len)))
     else
     and_then (imt_size_in_account 26 16 height changelog_capacity roots_capacity canopy_depth
         indexed_changelog_capacity) (\<lambda>expected_size.
     if len < expected_size then Err (IndexedTreeError (ImtConcurrentMerkleTree (BufferSize expected_size len)))
     else
       and_then (map_err (IndexedTreeError \<circ> ImtConcurrentMerkleTree) (imt_new 26 height changelog_capacity roots_capacity canopy_depth
           indexed_changelog_capacity)) (\<lambda>t.
       and_then (index (zero_bytes (poseidon E)) 0) (\<lambda>z.
       Ok (t\<lparr>imt_merkle_tree := (imt_merkle_tree t)\<lparr>cmt_rightmost_leaf := z\<rparr>\<rparr>))))))"

text \<open>The set that \<open>HashSetZeroCopy::from_bytes_zero_copy_init\<close> lays over a buffer: every bucket is empty.\<close>

definition queue_from_bytes_zero_copy_init :: "Env \<Rightarrow> nat \<Rightarrow> nat \<Rightarrow> nat \<Rightarrow> (program_error, HashSet) result" where
  "queue_from_bytes_zero_copy_init E data_len capacity sequence_threshold =
     and_then (data_after queue_metadata_size data_len) (\<lambda>len.
     and_then (mul_u64 (size_of (bucket_layout E)) capacity) (\<lambda>values_size.
     and_then (add_u64 hs_non_dyn_fields_size values_size) (\<lambda>expected_size.
     if len < expected_size then Err (QueueError (HsBufferSize expected_size len))
     else map_err QueueError (hs_new capacity sequence_threshold))))"


section \<open>Appending leaves\<close>

text \<open>\<open>Iterator::position\<close>.\<close>

fun position :: "('a \<Rightarrow> bool) \<Rightarrow> 'a list \<Rightarrow> nat option" where
  "position P [] = None"
| "position P (x # xs) = (if P x then Some 0 else map_option Suc (position P xs))"

record AppendLeaves =
  al_fee_payer :: pubkey
  al_authority :: pubkey
  al_registered_program_pda :: "pubkey option"
  al_remaining_accounts :: "pubkey list"

text \<open>The leaves of the \<open>i\<close>-th tree: the first run of leaves that carry the index \<open>i\<close>.\<close>

definition batch_range :: "(byte \<times> bytes) list \<Rightarrow> nat \<Rightarrow> (program_error, nat \<times> nat) result" where
  "batch_range leaves i =
     and_then (ok_or (position (\<lambda>x. unat (fst x) = i) leaves) (AcError AcNoLeavesForMerkleTree)) (\<lambda>start.
     Ok (start, case position (\<lambda>x. unat (fst x) \<noteq> i) (drop start leaves) of
                  Some pos \<Rightarrow> pos + start
                | None \<Rightarrow> length leaves))"

text \<open>One iteration of \<open>batch_append_leaves\<close>.\<close>

definition append_to_tree ::
  "Env \<Rightarrow> AppendLeaves \<Rightarrow> RegisteredProgram option \<Rightarrow> (byte \<times> bytes) list \<Rightarrow> ledger \<times> nat \<Rightarrow> nat \<Rightarrow>
     (program_error, ledger \<times> nat) result" where
  "append_to_tree E ctx registered leaves = (\<lambda>(l, leaves_processed) i.
     and_then (index (al_remaining_accounts ctx) i) (\<lambda>merkle_tree_acc_info.
     and_then (batch_range leaves i) (\<lambda>(start, end).
     let batch_size = end - start in
     and_then (add_u64 leaves_processed batch_size) (\<lambda>leaves_processed.
     and_then (load_state_tree l merkle_tree_acc_info) (\<lambda>(metadata, merkle_tree).
     and_then (mul_u64 (rm_rollover_fee (mtm_rollover_metadata metadata)) batch_size) (\<lambda>rollover_fee.
     and_then (check_signer_is_registered_or_authority E (al_authority ctx) registered
         (am_owner (mtm_access_metadata metadata))) (\<lambda>_.
     and_then (state_merkle_tree_from_bytes_zero_copy merkle_tree) (\<lambda>merkle_tree.
     and_then (map_err TreeError (cmt_append_batch 26 (poseidon E) merkle_tree
         (map snd (take batch_size (drop start leaves))))) (\<lambda>(merkle_tree, _, _).
     and_then (transfer_lamports_cpi E
         (set_data l merkle_tree_acc_info (StateMerkleTreeAccount metadata merkle_tree))
         (al_fee_payer ctx) merkle_tree_acc_info rollover_fee) (\<lambda>l.
     Ok (l, leaves_processed)))))))))))"

definition batch_append_leaves ::
  "Env \<Rightarrow> ledger \<Rightarrow> AppendLeaves \<Rightarrow> RegisteredProgram option \<Rightarrow> (byte \<times> bytes) list \<Rightarrow>
     (program_error, ledger \<times> nat) result" where
  "batch_append_leaves E l ctx registered leaves =
     try_fold (append_to_tree E ctx registered leaves) (l, 0) [0..<length (al_remaining_accounts ctx)]"

definition process_append_leaves_to_merkle_trees ::
  "Env \<Rightarrow> ledger \<Rightarrow> AppendLeaves \<Rightarrow> (byte \<times> bytes) list \<Rightarrow> (program_error, ledger) result" where
  "process_append_leaves_to_merkle_trees E l ctx leaves =
     and_then (load_registered_option l (al_registered_program_pda ctx)) (\<lambda>registered.
     and_then (batch_append_leaves E l ctx registered leaves) (\<lambda>(l, leaves_processed).
     if leaves_processed \<noteq> length leaves then Err (AcError AcNotAllLeavesProcessed) else Ok l))"


section \<open>Inserting into queues\<close>

record InsertIntoQueues =
  iq_fee_payer :: pubkey
  iq_authority :: pubkey
  iq_registered_program_pda :: "pubkey option"
  iq_remaining_accounts :: "pubkey list"

record QueueBundle =
  qb_queue :: pubkey
  qb_merkle_tree :: pubkey
  qb_elements :: "bytes list"

definition QueueBundle_new :: "pubkey \<Rightarrow> pubkey \<Rightarrow> QueueBundle" where
  "QueueBundle_new queue merkle_tree = \<lparr>qb_queue = queue, qb_merkle_tree = merkle_tree, qb_elements = []\<rparr>"

text \<open>\<open>QueueMap\<close>: the bundles by the key of their queue.\<close>

type_synonym QueueMap = "(pubkey \<times> QueueBundle) list"

text \<open>\<open>entry(k).or_insert_with(..).elements.push(x)\<close>.\<close>

fun queue_map_push :: "QueueMap \<Rightarrow> pubkey \<Rightarrow> pubkey \<Rightarrow> bytes \<Rightarrow> QueueMap" where
  "queue_map_push [] k merkle_tree x = [(k, (QueueBundle_new k merkle_tree)\<lparr>qb_elements := [x]\<rparr>)]"
| "queue_map_push ((k', b) # qm) k merkle_tree x =
     (if k' = k then (k', b\<lparr>qb_elements := qb_elements b @ [x]\<rparr>) # qm
      else (k', b) # queue_map_push qm k merkle_tree x)"

text \<open>One iteration of the loop over the pairs of remaining accounts.\<close>

definition collect_pair ::
  "ledger \<Rightarrow> QueueType \<Rightarrow> QueueMap \<Rightarrow> (pubkey \<times> pubkey) \<times> bytes \<Rightarrow> (program_error, QueueMap) result" where
  "collect_pair l queue_type queue_map = (\<lambda>((queue, merkle_tree), element).
     and_then (load_queue l queue) (\<lambda>(metadata, _).
     and_then (check_queue_type (qm_queue_type metadata) queue_type) (\<lambda>_.
     if merkle_tree \<noteq> qm_associated_merkle_tree metadata then Err (AcError AcMerkleTreeAndQueueNotAssociated)
     else Ok (queue_map_push queue_map queue merkle_tree element))))"

fun pairs :: "'a list \<Rightarrow> ('a \<times> 'a) list" where
  "pairs (x # y # zs) = (x, y) # pairs zs"
| "pairs _ = []"

text \<open>
  The sequence number behind a tree account.  The state tree is read whatever the type of the account;
  an address tree starts with the fields of a state tree.  The bytes of an account without a tree, which the
  source would read as one, are not modelled: queues name tree accounts only, and \<open>collect_pair\<close> compares the names.
\<close>

definition tree_sequence_number :: "ledger \<Rightarrow> pubkey \<Rightarrow> (program_error, nat) result" where
  "tree_sequence_number l k =
     (case acc_data (l k) of
        StateMerkleTreeAccount _ t \<Rightarrow>
          and_then (state_merkle_tree_from_bytes_zero_copy t) (\<lambda>t. Ok (cmt_sequence_number t))
      | AddressMerkleTreeAccount _ t \<Rightarrow>
          and_then (state_merkle_tree_from_bytes_zero_copy (imt_merkle_tree t)) (\<lambda>t. Ok (cmt_sequence_number t))
      | _ \<Rightarrow> Panic)"

definition insert_elements :: "HashSet \<Rightarrow> nat \<Rightarrow> bytes list \<Rightarrow> (HashSetError, HashSet) result" where
  "insert_elements queue sequence_number elements =
     try_fold (\<lambda>queue element. and_then (hs_insert queue (from_bytes_be element) sequence_number) (\<lambda>(queue, _). Ok queue))
       queue elements"

text \<open>One iteration of the loop over the bundles.\<close>

definition insert_bundle ::
  "Env \<Rightarrow> InsertIntoQueues \<Rightarrow> RegisteredProgram option \<Rightarrow> ledger \<Rightarrow> QueueBundle \<Rightarrow> (program_error, ledger) result" where
  "insert_bundle E ctx registered l bundle =
     and_then (load_queue l (qb_queue bundle)) (\<lambda>(metadata, queue).
     and_then (check_signer_is_registered_or_authority E (iq_authority ctx) registered
         (am_owner (qm_access_metadata metadata))) (\<lambda>_.
     and_then (mul_u64 (rm_rollover_fee (qm_rollover_metadata metadata)) (length (qb_elements bundle))) (\<lambda>rollover_fee.
     and_then (tree_sequence_number l (qb_merkle_tree bundle)) (\<lambda>sequence_number.
     and_then (map_err QueueError (insert_elements queue sequence_number (qb_elements bundle))) (\<lambda>queue.
     let l = set_data l (qb_queue bundle) (QueueAccount metadata queue) in
     if rollover_fee > 0 then transfer_lamports_cpi E l (iq_fee_payer ctx) (qb_queue bundle) rollover_fee
     else Ok l)))))"

definition process_insert_into_queues ::
  "Env \<Rightarrow> ledger \<Rightarrow> InsertIntoQueues \<Rightarrow> bytes list \<Rightarrow> QueueType \<Rightarrow> (program_error, ledger) result" where
  "process_insert_into_queues E l ctx elements queue_type =
     and_then (load_registered_option l (iq_registered_program_pda ctx)) (\<lambda>registered.
     if elements = [] then Err (AcError AcInputElementsEmpty)
     else
       and_then (mul_u64 (length elements) 2) (\<lambda>expected_remaining_accounts.
       if expected_remaining_accounts \<noteq> length (iq_remaining_accounts ctx)
       then Err (AcError AcNumberOfLeavesMismatch)
       else
         and_then (try_fold (collect_pair l queue_type) [] (zip (pairs (iq_remaining_accounts ctx)) elements)) (\<lambda>queue_map.
         try_fold (insert_bundle E ctx registered) l
           (map (\<lambda>k. the (map_of queue_map k)) (hash_map_order E (map fst queue_map))))))"

definition insert_addresses :: "Env \<Rightarrow> ledger \<Rightarrow> InsertIntoQueues \<Rightarrow> bytes list \<Rightarrow> (program_error, ledger) result" where
  "insert_addresses E l ctx addresses = process_insert_into_queues E l ctx addresses AddressQueue"

definition insert_into_nullifier_queues ::
  "Env \<Rightarrow> ledger \<Rightarrow> InsertIntoQueues \<Rightarrow> bytes list \<Rightarrow> (program_error, ledger) result" where
  "insert_into_nullifier_queues E l ctx nullifiers = process_insert_into_queues E l ctx nullifiers NullifierQueue"


section \<open>Nullifying leaves and updating the address tree\<close>

record NullifierEvent =
  ne_id :: bytes
  ne_nullified_leaves_indices :: "nat list"
  ne_seq :: nat

record IndexedMerkleTreeEvent =
  ime_id :: bytes
  ime_updates :: "IndexedMerkleTreeUpdate list"
  ime_seq :: nat

datatype MerkleTreeEvent = EventV2 NullifierEvent | EventV3 IndexedMerkleTreeEvent

record NullifyLeaves =
  nl_authority :: pubkey
  nl_registered_program_pda :: "pubkey option"
  nl_log_wrapper :: pubkey
  nl_merkle_tree :: pubkey
  nl_nullifier_queue :: pubkey

text \<open>The proof has to have exactly 16 elements, otherwise the conversion to an array panics.\<close>

definition from_vec :: "bytes list \<Rightarrow> nat \<Rightarrow> (program_error, bytes BoundedVec) result" where
  "from_vec vec height =
     (if length vec \<noteq> 16 then Panic
      else case BoundedVec_extend (BoundedVec_with_capacity height) vec of
        (bounded_vec, r) \<Rightarrow> and_then (map_err VecError r) (\<lambda>_. Ok bounded_vec))"

text \<open>One iteration of the loop of \<open>insert_nullifier\<close>.\<close>

definition nullify_leaf ::
  "Env \<Rightarrow> ConcurrentMerkleTree \<times> HashSet \<Rightarrow> (nat \<times> nat \<times> nat) \<times> bytes list \<Rightarrow>
     (program_error, ConcurrentMerkleTree \<times> HashSet) result" where
  "nullify_leaf E = (\<lambda>(merkle_tree, nullifier_queue) ((change_log_index, leaf_queue_index, leaf_index), proof).
     and_then (ok_or (hs_get_unmarked_bucket nullifier_queue leaf_queue_index) (AcError AcLeafNotFound)) (\<lambda>cell.
     and_then (ok_or cell (AcError AcLeafNotFound)) (\<lambda>leaf_cell.
     and_then (from_vec proof (cmt_height merkle_tree)) (\<lambda>proof.
     and_then (index (zero_bytes (poseidon E)) 0) (\<lambda>zero_leaf.
     and_then (map_err TreeError (cmt_update 26 (poseidon E) merkle_tree change_log_index (cell_value leaf_cell)
         zero_leaf leaf_index proof)) (\<lambda>(merkle_tree, _, _, _).
     and_then (map_err QueueError (hs_mark_with_sequence_number nullifier_queue leaf_queue_index
         (cmt_sequence_number merkle_tree))) (\<lambda>nullifier_queue.
     Ok (merkle_tree, nullifier_queue))))))))"

definition insert_nullifier ::
  "Env \<Rightarrow> ledger \<Rightarrow> NullifyLeaves \<Rightarrow> RegisteredProgram option \<Rightarrow> bytes list list \<Rightarrow> nat list \<Rightarrow> nat list \<Rightarrow> nat list \<Rightarrow>
     (program_error, ledger \<times> MerkleTreeEvent) result" where
  "insert_nullifier E l ctx registered proofs change_log_indices leaves_queue_indices leaf_indices =
     and_then (load_state_tree l (nl_merkle_tree ctx)) (\<lambda>(metadata, merkle_tree).
     and_then (load_queue l (nl_nullifier_queue ctx)) (\<lambda>(queue_metadata, nullifier_queue).
     if mtm_associated_queue metadata \<noteq> nl_nullifier_queue ctx
     then Err (AcError AcMerkleTreeAndQueueNotAssociated)
     else
       and_then (check_signer_is_registered_or_authority E (nl_authority ctx) registered
           (am_owner (mtm_access_metadata metadata))) (\<lambda>_.
       and_then (state_merkle_tree_from_bytes_zero_copy merkle_tree) (\<lambda>merkle_tree.
       and_then (sub_u64 (cmt_height merkle_tree) (cmt_canopy_depth merkle_tree)) (\<lambda>allowed_proof_size.
       and_then (index proofs 0) (\<lambda>proof.
       if length proof \<noteq> allowed_proof_size then Err (AcError AcInvalidMerkleProof)
       else
         and_then (add_u64 (cmt_sequence_number merkle_tree) 1) (\<lambda>seq.
         and_then (try_fold (nullify_leaf E) (merkle_tree, nullifier_queue)
             (zip (zip change_log_indices (zip leaves_queue_indices leaf_indices)) proofs)) (\<lambda>(merkle_tree, nullifier_queue).
         and_then (emit_indexer_event E (nl_log_wrapper ctx)) (\<lambda>_.
         Ok (set_data (set_data l (nl_merkle_tree ctx) (StateMerkleTreeAccount metadata merkle_tree))
               (nl_nullifier_queue ctx) (QueueAccount queue_metadata nullifier_queue),
             EventV2 \<lparr>ne_id = nl_merkle_tree ctx, ne_nullified_leaves_indices = leaf_indices, ne_seq = seq\<rparr>))))))))))"

definition process_nullify_leaves ::
  "Env \<Rightarrow> ledger \<Rightarrow> NullifyLeaves \<Rightarrow> nat list \<Rightarrow> nat list \<Rightarrow> nat list \<Rightarrow> bytes list list \<Rightarrow>
     (program_error, ledger \<times> MerkleTreeEvent) result" where
  "process_nullify_leaves E l ctx change_log_indices leaves_queue_indices leaf_indices proofs =
     and_then (load_registered_option l (nl_registered_program_pda ctx)) (\<lambda>registered.
     and_then (load_state_tree l (nl_merkle_tree ctx)) (\<lambda>_.
     and_then (load_queue l (nl_nullifier_queue ctx)) (\<lambda>_.
     if length change_log_indices \<noteq> 1 then Err (AcError AcNumberOfChangeLogIndicesMismatch)
     else if length leaves_queue_indices \<noteq> length change_log_indices then Err (AcError AcNumberOfLeavesMismatch)
     else if length leaf_indices \<noteq> length change_log_indices then Err (AcError AcNumberOfIndicesMismatch)
     else if length proofs \<noteq> length change_log_indices then Err (AcError AcNumberOfProofsMismatch)
     else insert_nullifier E l ctx registered proofs change_log_indices leaves_queue_indices leaf_indices)))"

record UpdateAddressMerkleTree =
  ua_authority :: pubkey
  ua_registered_program_pda :: "pubkey option"
  ua_queue :: pubkey
  ua_merkle_tree :: pubkey
  ua_log_wrapper :: pubkey

definition process_update_address_merkle_tree ::
  "Env \<Rightarrow> ledger \<Rightarrow> UpdateAddressMerkleTree \<Rightarrow> nat \<Rightarrow> nat \<Rightarrow> nat \<Rightarrow> bytes \<Rightarrow> nat \<Rightarrow> bytes \<Rightarrow> nat \<Rightarrow> bytes list \<Rightarrow>
     (program_error, ledger \<times> MerkleTreeEvent) result" where
  "process_update_address_merkle_tree E l ctx changelog_index indexed_changelog_index value_index low_address_value
     low_address_next_index low_address_next_value low_address_index low_address_proof =
     and_then (load_registered_option l (ua_registered_program_pda ctx)) (\<lambda>registered.
     and_then (load_queue l (ua_queue ctx)) (\<lambda>(queue_metadata, address_queue).
     and_then (load_address_tree l (ua_merkle_tree ctx)) (\<lambda>(metadata, merkle_tree).
     if mtm_associated_queue metadata \<noteq> ua_queue ctx then Err (AcError AcMerkleTreeAndQueueNotAssociated)
     else
       and_then (check_signer_is_registered_or_authority E (ua_authority ctx) registered
           (am_owner (mtm_access_metadata metadata))) (\<lambda>_.
       and_then (address_merkle_tree_from_bytes_zero_copy merkle_tree) (\<lambda>merkle_tree.
       and_then (ok_or (hs_get_unmarked_bucket address_queue value_index) (AcError AcLeafNotFound)) (\<lambda>cell.
       and_then (ok_or cell (AcError AcLeafNotFound)) (\<lambda>cell.
       let low_address = \<lparr>ie_index = low_address_index, ie_value = from_bytes_be low_address_value,
             ie_next_index = low_address_next_index\<rparr> in
       and_then (from_vec low_address_proof (cmt_height (imt_merkle_tree merkle_tree))) (\<lambda>proof.
       and_then (map_err IndexedTreeError (imt_update (stack_depth E) 26 16 (poseidon E) merkle_tree changelog_index
           indexed_changelog_index (cell_value_biguint cell) low_address (from_bytes_be low_address_next_value)
           proof)) (\<lambda>(merkle_tree, _, indexed_merkle_tree_update).
       let sequence_number = cmt_sequence_number (imt_merkle_tree merkle_tree) in
       and_then (map_err QueueError (hs_mark_with_sequence_number address_queue value_index sequence_number)) (\<lambda>address_queue.
       and_then (sub_u64 sequence_number 1) (\<lambda>seq.
       and_then (emit_indexer_event E (ua_log_wrapper ctx)) (\<lambda>_.
       Ok (set_data (set_data l (ua_merkle_tree ctx) (AddressMerkleTreeAccount metadata merkle_tree))
             (ua_queue ctx) (QueueAccount queue_metadata address_queue),
           EventV3 \<lparr>ime_id = ua_merkle_tree ctx, ime_updates = [indexed_merkle_tree_update], ime_seq = seq\<rparr>)))))))))))))"


section \<open>Initialisation\<close>

definition pow2_u64 :: "nat \<Rightarrow> ('e, nat) result" where
  "pow2_u64 n = (if 2 ^ n < u64_bound then Ok (2 ^ n) else Panic)"

definition check_rollover_fee_sufficient :: "nat \<Rightarrow> nat \<Rightarrow> nat \<Rightarrow> nat \<Rightarrow> nat \<Rightarrow> (program_error, unit) result" where
  "check_rollover_fee_sufficient rollover_fee queue_rent merkle_tree_rent rollover_threshold height =
     and_then (add_u64 queue_rent merkle_tree_rent) (\<lambda>rent.
     if rollover_fee = rent then Ok ()
     else
       and_then (mul_u64 rollover_fee rollover_threshold) (\<lambda>a.
       and_then (pow2_u64 height) (\<lambda>b.
       and_then (mul_u64 a b) (\<lambda>c.
       if c div 100 < rent then Err (AcError AcInsufficientRolloverFee) else Ok ()))))"

text \<open>The rollover fee of a tree and its queue, the same expression in both initialisers.\<close>

definition rollover_fee_for :: "nat option \<Rightarrow> nat \<Rightarrow> nat \<Rightarrow> nat \<Rightarrow> (program_error, nat) result" where
  "rollover_fee_for rollover_threshold height merkle_tree_rent queue_rent =
     (case rollover_threshold of
        Some rollover_threshold \<Rightarrow>
          and_then (map_err UtilsErr (compute_rollover_fee rollover_threshold height merkle_tree_rent)) (\<lambda>a.
          and_then (map_err UtilsErr (compute_rollover_fee rollover_threshold height queue_rent)) (\<lambda>b.
          and_then (add_u64 a b) (\<lambda>rollover_fee.
          and_then (check_rollover_fee_sufficient rollover_fee queue_rent merkle_tree_rent rollover_threshold height) (\<lambda>_.
          Ok rollover_fee))))
      | None \<Rightarrow> Ok 0)"

definition process_initialize_state_merkle_tree ::
  "Env \<Rightarrow> ledger \<Rightarrow> pubkey \<Rightarrow> nat \<Rightarrow> pubkey \<Rightarrow> pubkey option \<Rightarrow> pubkey option \<Rightarrow> nat \<Rightarrow> nat \<Rightarrow> nat \<Rightarrow> nat \<Rightarrow> pubkey \<Rightarrow>
     nat \<Rightarrow> nat option \<Rightarrow> nat option \<Rightarrow> nat \<Rightarrow> nat \<Rightarrow> (program_error, ledger) result" where
  "process_initialize_state_merkle_tree E l k i owner program_owner forester height changelog_size roots_size
     canopy_depth associated_queue network_fee rollover_threshold close_threshold merkle_tree_rent queue_rent =
     and_then (rollover_fee_for rollover_threshold height merkle_tree_rent queue_rent) (\<lambda>rollover_fee.
     let metadata = MerkleTreeMetadata_init zero_tree_metadata (AccessMetadata_new owner program_owner forester)
           (RolloverMetadata_new i rollover_fee rollover_threshold network_fee close_threshold None) associated_queue in
     and_then (state_merkle_tree_from_bytes_zero_copy_init E (acc_data_len (l k)) height canopy_depth changelog_size
         roots_size) (\<lambda>merkle_tree.
     and_then (map_err TreeError (cmt_init 26 (poseidon E) merkle_tree)) (\<lambda>merkle_tree.
     Ok (set_data l k (StateMerkleTreeAccount metadata merkle_tree)))))"

definition process_initialize_nullifier_queue ::
  "Env \<Rightarrow> ledger \<Rightarrow> pubkey \<Rightarrow> nat \<Rightarrow> pubkey \<Rightarrow> pubkey option \<Rightarrow> pubkey option \<Rightarrow> pubkey \<Rightarrow> nat \<Rightarrow> nat \<Rightarrow>
     nat option \<Rightarrow> nat option \<Rightarrow> nat \<Rightarrow> (program_error, ledger) result" where
  "process_initialize_nullifier_queue E l k i owner program_owner forester associated_merkle_tree capacity
     sequence_threshold rollover_threshold close_threshold network_fee =
     (let rollover_meta_data = \<lparr>rm_index = i, rm_rollover_fee = 0,
            rm_rollover_threshold = unwrap_or rollover_threshold 0, rm_network_fee = network_fee,
            rm_rolledover_slot = u64_max, rm_close_threshold = unwrap_or close_threshold u64_max,
            rm_additional_bytes = 0\<rparr>;
          metadata = QueueMetadata_init zero_queue_metadata
            \<lparr>am_owner = owner, am_program_owner = unwrap_or program_owner default_pubkey,
             am_forester = unwrap_or forester default_pubkey\<rparr> rollover_meta_data associated_merkle_tree NullifierQueue in
     and_then (queue_from_bytes_zero_copy_init E (acc_data_len (l k)) capacity sequence_threshold) (\<lambda>queue.
     Ok (set_data l k (QueueAccount metadata queue))))"

definition process_initialize_address_queue ::
  "Env \<Rightarrow> ledger \<Rightarrow> pubkey \<Rightarrow> nat \<Rightarrow> pubkey \<Rightarrow> pubkey option \<Rightarrow> pubkey option \<Rightarrow> pubkey \<Rightarrow> nat \<Rightarrow> nat \<Rightarrow> nat \<Rightarrow>
     nat option \<Rightarrow> nat option \<Rightarrow> nat \<Rightarrow> nat \<Rightarrow> (program_error, ledger) result" where
  "process_initialize_address_queue E l k i owner program_owner forester associated_merkle_tree capacity
     sequence_threshold network_fee rollover_threshold close_threshold height merkle_tree_rent =
     and_then (rollover_fee_for rollover_threshold height merkle_tree_rent (acc_lamports (l k))) (\<lambda>rollover_fee.
     let metadata = QueueMetadata_init zero_queue_metadata (AccessMetadata_new owner program_owner forester)
           (RolloverMetadata_new i rollover_fee rollover_threshold network_fee close_threshold None)
           associated_merkle_tree AddressQueue in
     and_then (queue_from_bytes_zero_copy_init E (acc_data_len (l k)) capacity sequence_threshold) (\<lambda>queue.
     Ok (set_data l k (QueueAccount metadata queue))))"

definition process_initialize_address_merkle_tree ::
  "Env \<Rightarrow> ledger \<Rightarrow> pubkey \<Rightarrow> nat \<Rightarrow> pubkey \<Rightarrow> pubkey option \<Rightarrow> pubkey option \<Rightarrow> nat \<Rightarrow> nat \<Rightarrow> nat \<Rightarrow> nat \<Rightarrow> nat \<Rightarrow>
     pubkey \<Rightarrow> nat \<Rightarrow> nat option \<Rightarrow> nat option \<Rightarrow> (program_error, ledger) result" where
  "process_initialize_address_merkle_tree E l k i owner program_owner forester height changelog_size roots_size
     canopy_depth address_changelog_size associated_queue network_fee rollover_threshold close_threshold =
     (let metadata = MerkleTreeMetadata_init zero_tree_metadata (AccessMetadata_new owner program_owner forester)
           (RolloverMetadata_new i 0 rollover_threshold network_fee close_threshold None) associated_queue in
     and_then (address_merkle_tree_from_bytes_zero_copy_init E (acc_data_len (l k)) height canopy_depth changelog_size
         roots_size address_changelog_size) (\<lambda>merkle_tree.
     and_then (map_err IndexedTreeError (imt_init 26 16 (poseidon E) merkle_tree)) (\<lambda>merkle_tree.
     and_then (map_err IndexedTreeError (imt_add_highest_element 26 16 (poseidon E) merkle_tree)) (\<lambda>merkle_tree.
     Ok (set_data l k (AddressMerkleTreeAccount metadata merkle_tree))))))"

record InitializeAccounts =
  ini_authority :: pubkey
  ini_merkle_tree :: pubkey
  ini_queue :: pubkey
  ini_registered_program_pda :: "pubkey option"

record StateMerkleTreeConfig =
  smc_height :: nat
  smc_changelog_size :: nat
  smc_roots_size :: nat
  smc_canopy_depth :: nat
  smc_network_fee :: "nat option"
  smc_rollover_threshold :: "nat option"
  smc_close_threshold :: "nat option"

record NullifierQueueConfig =
  nqc_capacity :: nat
  nqc_sequence_threshold :: nat
  nqc_network_fee :: "nat option"

record AddressMerkleTreeConfig =
  amc_height :: nat
  amc_changelog_size :: nat
  amc_roots_size :: nat
  amc_canopy_depth :: nat
  amc_address_changelog_size :: nat
  amc_network_fee :: "nat option"
  amc_rollover_threshold :: "nat option"
  amc_close_threshold :: "nat option"

definition StateMerkleTreeConfig_default :: StateMerkleTreeConfig where
  "StateMerkleTreeConfig_default = \<lparr>smc_height = STATE_MERKLE_TREE_HEIGHT, smc_changelog_size = 1400,
     smc_roots_size = 2400, smc_canopy_depth = STATE_MERKLE_TREE_CANOPY_DEPTH, smc_network_fee = Some 5000,
     smc_rollover_threshold = Some 95, smc_close_threshold = None\<rparr>"

definition NullifierQueueConfig_default :: NullifierQueueConfig where
  "NullifierQueueConfig_default = \<lparr>nqc_capacity = 28807, nqc_sequence_threshold = 2400 + SAFETY_MARGIN,
     nqc_network_fee = None\<rparr>"

definition AddressMerkleTreeConfig_default :: AddressMerkleTreeConfig where
  "AddressMerkleTreeConfig_default = \<lparr>amc_height = ADDRESS_MERKLE_TREE_HEIGHT, amc_changelog_size = 1400,
     amc_roots_size = 2400, amc_canopy_depth = ADDRESS_MERKLE_TREE_CANOPY_DEPTH, amc_address_changelog_size = 1400,
     amc_network_fee = Some 5000, amc_rollover_threshold = Some 95, amc_close_threshold = None\<rparr>"

text \<open>The owner of the new accounts: the group of the registered program that signs, or the signer.\<close>

definition group_owner :: "Env \<Rightarrow> pubkey \<Rightarrow> RegisteredProgram option \<Rightarrow> (program_error, pubkey) result" where
  "group_owner E authority registered =
     (case registered of
        Some r \<Rightarrow>
          and_then (check_signer_is_registered_or_authority E authority (Some r) (rp_group_authority_pda r)) (\<lambda>_.
          Ok (rp_group_authority_pda r))
      | None \<Rightarrow> Ok authority)"

definition process_initialize_state_merkle_tree_and_nullifier_queue ::
  "Env \<Rightarrow> ledger \<Rightarrow> InitializeAccounts \<Rightarrow> nat \<Rightarrow> pubkey option \<Rightarrow> pubkey option \<Rightarrow> StateMerkleTreeConfig \<Rightarrow>
     NullifierQueueConfig \<Rightarrow> (program_error, ledger) result" where
  "process_initialize_state_merkle_tree_and_nullifier_queue E l ctx i program_owner forester c q =
     (if smc_height c \<noteq> STATE_MERKLE_TREE_HEIGHT then Err (AcError AcUnsupportedHeight)
      else if smc_canopy_depth c \<noteq> STATE_MERKLE_TREE_CANOPY_DEPTH then Err (AcError AcUnsupportedCanopyDepth)
      else if smc_close_threshold c \<noteq> None then Err (AcError AcUnsupportedCloseThreshold)
      else
        and_then (add_u64 (smc_roots_size c) SAFETY_MARGIN) (\<lambda>minimum_sequence_threshold.
        if nqc_sequence_threshold q < minimum_sequence_threshold then Err (AcError AcInvalidSequenceThreshold)
        else
          and_then (StateMerkleTreeAccount_size (smc_height c) (smc_changelog_size c) (smc_roots_size c)
              (smc_canopy_depth c)) (\<lambda>merkle_tree_expected_size.
          and_then (QueueAccount_size E (nqc_capacity q)) (\<lambda>queue_expected_size.
          and_then (check_account_balance_is_rent_exempt E l (ini_merkle_tree ctx) merkle_tree_expected_size) (\<lambda>merkle_tree_rent.
          and_then (check_account_balance_is_rent_exempt E l (ini_queue ctx) queue_expected_size) (\<lambda>queue_rent.
          and_then (load_registered_option l (ini_registered_program_pda ctx)) (\<lambda>registered.
          and_then (group_owner E (ini_authority ctx) registered) (\<lambda>owner.
          and_then (process_initialize_state_merkle_tree E l (ini_merkle_tree ctx) i owner program_owner forester
              (smc_height c) (smc_changelog_size c) (smc_roots_size c) (smc_canopy_depth c) (ini_queue ctx)
              (unwrap_or (smc_network_fee c) 0) (smc_rollover_threshold c) (smc_close_threshold c)
              merkle_tree_rent queue_rent) (\<lambda>l.
          process_initialize_nullifier_queue E l (ini_queue ctx) i owner program_owner forester (ini_merkle_tree ctx)
            (nqc_capacity q) (nqc_sequence_threshold q) (smc_rollover_threshold c) (smc_close_threshold c)
            (unwrap_or (nqc_network_fee q) 0))))))))))"

definition initialize_state_merkle_tree_and_nullifier_queue ::
  "Env \<Rightarrow> ledger \<Rightarrow> InitializeAccounts \<Rightarrow> nat \<Rightarrow> pubkey option \<Rightarrow> pubkey option \<Rightarrow> StateMerkleTreeConfig \<Rightarrow>
     NullifierQueueConfig \<Rightarrow> nat \<Rightarrow> (program_error, ledger) result" where
  "initialize_state_merkle_tree_and_nullifier_queue E l ctx i program_owner forester c q additional_bytes =
     and_then (load_zero l (ini_merkle_tree ctx)) (\<lambda>_.
     and_then (load_zero l (ini_queue ctx)) (\<lambda>_.
     and_then (load_registered_option l (ini_registered_program_pda ctx)) (\<lambda>_.
     if additional_bytes \<noteq> 0 then Err (AcError AcUnsupportedAdditionalBytes)
     else process_initialize_state_merkle_tree_and_nullifier_queue E l ctx i program_owner forester c q)))"

definition process_initialize_address_merkle_tree_and_queue ::
  "Env \<Rightarrow> ledger \<Rightarrow> InitializeAccounts \<Rightarrow> nat \<Rightarrow> pubkey option \<Rightarrow> pubkey option \<Rightarrow> AddressMerkleTreeConfig \<Rightarrow>
     NullifierQueueConfig \<Rightarrow> (program_error, ledger) result" where
  "process_initialize_address_merkle_tree_and_queue E l ctx i program_owner forester c q =
     (if amc_height c \<noteq> ADDRESS_MERKLE_TREE_HEIGHT then Err (AcError AcUnsupportedHeight)
      else if amc_canopy_depth c \<noteq> ADDRESS_MERKLE_TREE_CANOPY_DEPTH then Err (AcError AcUnsupportedCanopyDepth)
      else if amc_close_threshold c \<noteq> None then Err (AcError AcUnsupportedCloseThreshold)
      else
        and_then (add_u64 (amc_roots_size c) SAFETY_MARGIN) (\<lambda>minimum_sequence_threshold.
        if nqc_sequence_threshold q < minimum_sequence_threshold then Err (AcError AcInvalidSequenceThreshold)
        else
          and_then (load_registered_option l (ini_registered_program_pda ctx)) (\<lambda>registered.
          and_then (group_owner E (ini_authority ctx) registered) (\<lambda>owner.
          and_then (AddressMerkleTreeAccount_size (amc_height c) (amc_changelog_size c) (amc_roots_size c)
              (amc_canopy_depth c) (amc_address_changelog_size c)) (\<lambda>merkle_tree_expected_size.
          and_then (QueueAccount_size E (nqc_capacity q)) (\<lambda>queue_expected_size.
          and_then (check_account_balance_is_rent_exempt E l (ini_merkle_tree ctx) merkle_tree_expected_size) (\<lambda>merkle_tree_rent.
          and_then (check_account_balance_is_rent_exempt E l (ini_queue ctx) queue_expected_size) (\<lambda>_.
          and_then (process_initialize_address_queue E l (ini_queue ctx) i owner program_owner forester
              (ini_merkle_tree ctx) (nqc_capacity q) (nqc_sequence_threshold q) (unwrap_or (nqc_network_fee q) 0)
              (amc_rollover_threshold c) (amc_close_threshold c) (amc_height c) merkle_tree_rent) (\<lambda>l.
          process_initialize_address_merkle_tree E l (ini_merkle_tree ctx) i owner program_owner forester
            (amc_height c) (amc_changelog_size c) (amc_roots_size c) (amc_canopy_depth c)
            (amc_address_changelog_size c) (ini_queue ctx) (unwrap_or (amc_network_fee c) 0)
            (amc_rollover_threshold c) (amc_close_threshold c))))))))))"

definition initialize_address_merkle_tree_and_queue ::
  "Env \<Rightarrow> ledger \<Rightarrow> InitializeAccounts \<Rightarrow> nat \<Rightarrow> pubkey option \<Rightarrow> pubkey option \<Rightarrow> AddressMerkleTreeConfig \<Rightarrow>
     NullifierQueueConfig \<Rightarrow> (program_error, ledger) result" where
  "initialize_address_merkle_tree_and_queue E l ctx i program_owner forester c q =
     and_then (load_zero l (ini_merkle_tree ctx)) (\<lambda>_.
     and_then (load_zero l (ini_queue ctx)) (\<lambda>_.
     and_then (load_registered_option l (ini_registered_program_pda ctx)) (\<lambda>_.
     process_initialize_address_merkle_tree_and_queue E l ctx i program_owner forester c q)))"


section \<open>Rollover\<close>

record RolloverAccounts =
  ro_fee_payer :: pubkey
  ro_authority :: pubkey
  ro_registered_program_pda :: "pubkey option"
  ro_new_merkle_tree :: pubkey
  ro_new_queue :: pubkey
  ro_old_merkle_tree :: pubkey
  ro_old_queue :: pubkey

definition u16_of :: "nat \<Rightarrow> nat" where "u16_of n = n mod 2 ^ 16"
definition u32_of :: "nat \<Rightarrow> nat" where "u32_of n = n mod 2 ^ 32"

text \<open>\<open>next_index < (1 << height) * rollover_threshold / 100\<close>.\<close>

definition check_ready_for_rollover :: "ConcurrentMerkleTree \<Rightarrow> MerkleTreeMetadata \<Rightarrow> (program_error, unit) result" where
  "check_ready_for_rollover merkle_tree metadata =
     and_then (shl1_u64 (cmt_height merkle_tree)) (\<lambda>leaves.
     and_then (mul_u64 leaves (rm_rollover_threshold (mtm_rollover_metadata metadata))) (\<lambda>p.
     if cmt_next_index merkle_tree < p div 100 then Err (AcError AcNotReadyForRollover) else Ok ()))"

definition process_rollover_state_merkle_tree_nullifier_queue_pair ::
  "Env \<Rightarrow> ledger \<Rightarrow> RolloverAccounts \<Rightarrow> (program_error, ledger) result" where
  "process_rollover_state_merkle_tree_nullifier_queue_pair E l ctx =
     and_then (load_registered_option l (ro_registered_program_pda ctx)) (\<lambda>registered.
     and_then (load_zero l (ro_new_merkle_tree ctx)) (\<lambda>_.
     and_then (load_zero l (ro_new_queue ctx)) (\<lambda>_.
     and_then (load_state_tree l (ro_old_merkle_tree ctx)) (\<lambda>(metadata, merkle_tree).
     and_then (load_queue l (ro_old_queue ctx)) (\<lambda>(queue_metadata, queue).
     and_then (check_account_balance_is_rent_exempt E l (ro_new_merkle_tree ctx)
         (acc_data_len (l (ro_old_merkle_tree ctx)))) (\<lambda>merkle_tree_rent.
     and_then (check_account_balance_is_rent_exempt E l (ro_new_queue ctx) (acc_data_len (l (ro_old_queue ctx)))) (\<lambda>queue_rent.
     and_then (check_signer_is_registered_or_authority E (ro_authority ctx) registered
         (am_owner (mtm_access_metadata metadata))) (\<lambda>_.
     and_then (MerkleTreeMetadata_rollover (clock_slot E) metadata (ro_old_queue ctx) (ro_new_merkle_tree ctx)) (\<lambda>metadata.
     and_then (QueueMetadata_rollover (clock_slot E) queue_metadata (ro_old_merkle_tree ctx) (ro_new_queue ctx)) (\<lambda>queue_metadata.
     let l = set_data (set_data l (ro_old_merkle_tree ctx) (StateMerkleTreeAccount metadata merkle_tree))
           (ro_old_queue ctx) (QueueAccount queue_metadata queue) in
     and_then (state_merkle_tree_from_bytes_zero_copy merkle_tree) (\<lambda>merkle_tree.
     and_then (check_ready_for_rollover merkle_tree metadata) (\<lambda>_.
     and_then (process_initialize_state_merkle_tree E l (ro_new_merkle_tree ctx)
         (rm_index (mtm_rollover_metadata metadata)) (am_owner (mtm_access_metadata metadata))
         (Some (am_program_owner (mtm_access_metadata metadata))) (Some (am_forester (mtm_access_metadata metadata)))
         (u32_of (cmt_height merkle_tree)) (CyclicBoundedVec_capacity (cmt_changelog merkle_tree))
         (CyclicBoundedVec_capacity (cmt_roots merkle_tree)) (cmt_canopy_depth merkle_tree) (ro_new_queue ctx)
         (rm_network_fee (mtm_rollover_metadata metadata)) (Some (rm_rollover_threshold (mtm_rollover_metadata metadata)))
         (Some (rm_close_threshold (mtm_rollover_metadata metadata))) merkle_tree_rent queue_rent) (\<lambda>l.
     and_then (process_initialize_nullifier_queue E l (ro_new_queue ctx)
         (rm_index (qm_rollover_metadata queue_metadata)) (am_owner (qm_access_metadata queue_metadata))
         (Some (am_program_owner (qm_access_metadata queue_metadata)))
         (Some (am_forester (qm_access_metadata queue_metadata))) (ro_new_merkle_tree ctx) (u16_of (hs_capacity queue))
         (hs_sequence_threshold queue) (Some (rm_rollover_threshold (qm_rollover_metadata queue_metadata)))
         (Some (rm_close_threshold (qm_rollover_metadata queue_metadata)))
         (rm_network_fee (qm_rollover_metadata queue_metadata))) (\<lambda>l.
     and_then (add_u64 merkle_tree_rent queue_rent) (\<lambda>lamports.
     transfer_lamports l (ro_old_merkle_tree ctx) (ro_fee_payer ctx) lamports)))))))))))))))"

definition process_rollover_address_merkle_tree_and_queue ::
  "Env \<Rightarrow> ledger \<Rightarrow> RolloverAccounts \<Rightarrow> (program_error, ledger) result" where
  "process_rollover_address_merkle_tree_and_queue E l ctx =
     and_then (load_registered_option l (ro_registered_program_pda ctx)) (\<lambda>registered.
     and_then (load_zero l (ro_new_merkle_tree ctx)) (\<lambda>_.
     and_then (load_zero l (ro_new_queue ctx)) (\<lambda>_.
     and_then (load_address_tree l (ro_old_merkle_tree ctx)) (\<lambda>(metadata, merkle_tree).
     and_then (load_queue l (ro_old_queue ctx)) (\<lambda>(queue_metadata, queue).
     and_then (check_account_balance_is_rent_exempt E l (ro_new_merkle_tree ctx)
         (acc_data_len (l (ro_old_merkle_tree ctx)))) (\<lambda>merkle_tree_rent.
     and_then (check_account_balance_is_rent_exempt E l (ro_new_queue ctx) (acc_data_len (l (ro_old_queue ctx)))) (\<lambda>queue_rent.
     and_then (check_signer_is_registered_or_authority E (ro_authority ctx) registered
         (am_owner (mtm_access_metadata metadata))) (\<lambda>_.
     and_then (MerkleTreeMetadata_rollover (clock_slot E) metadata (ro_old_queue ctx) (ro_new_merkle_tree ctx)) (\<lambda>metadata.
     and_then (QueueMetadata_rollover (clock_slot E) queue_metadata (ro_old_merkle_tree ctx) (ro_new_queue ctx)) (\<lambda>queue_metadata.
     let l = set_data (set_data l (ro_old_merkle_tree ctx) (AddressMerkleTreeAccount metadata merkle_tree))
           (ro_old_queue ctx) (QueueAccount queue_metadata queue) in
     and_then (address_merkle_tree_from_bytes_zero_copy merkle_tree) (\<lambda>merkle_tree.
     let mt = imt_merkle_tree merkle_tree in
     and_then (check_ready_for_rollover mt metadata) (\<lambda>_.
     and_then (process_initialize_address_merkle_tree E l (ro_new_merkle_tree ctx)
         (rm_index (mtm_rollover_metadata metadata)) (am_owner (mtm_access_metadata metadata))
         (Some (am_program_owner (mtm_access_metadata metadata))) (Some (am_forester (mtm_access_metadata metadata)))
         (u32_of (cmt_height mt)) (CyclicBoundedVec_capacity (cmt_changelog mt))
         (CyclicBoundedVec_capacity (cmt_roots mt)) (cmt_canopy_depth mt)
         (CyclicBoundedVec_capacity (imt_indexed_changelog merkle_tree)) (ro_new_queue ctx)
         (rm_network_fee (mtm_rollover_metadata metadata)) (Some (rm_rollover_threshold (mtm_rollover_metadata metadata)))
         (Some (rm_close_threshold (mtm_rollover_metadata metadata)))) (\<lambda>l.
     and_then (process_initialize_address_queue E l (ro_new_queue ctx)
         (rm_index (qm_rollover_metadata queue_metadata)) (am_owner (qm_access_metadata queue_metadata))
         (Some (am_program_owner (qm_access_metadata queue_metadata)))
         (Some (am_forester (qm_access_metadata queue_metadata))) (ro_new_merkle_tree ctx) (u16_of (hs_capacity queue))
         (hs_sequence_threshold queue) (rm_network_fee (qm_rollover_metadata queue_metadata))
         (Some (rm_rollover_threshold (qm_rollover_metadata queue_metadata)))
         (Some (rm_close_threshold (qm_rollover_metadata queue_metadata))) (u32_of (cmt_height mt)) merkle_tree_rent) (\<lambda>l.
     and_then (add_u64 merkle_tree_rent queue_rent) (\<lambda>lamports.
     transfer_lamports l (ro_old_queue ctx) (ro_fee_payer ctx) lamports)))))))))))))))"


section \<open>Groups of programs\<close>

text \<open>
  \<open>init\<close> with \<open>seeds\<close> creates the account at the derived address; it must not exist yet.
  The rent that the payer spends is part of the runtime.
\<close>

definition set_group_authority :: "GroupAuthority \<Rightarrow> pubkey \<Rightarrow> pubkey option \<Rightarrow> GroupAuthority" where
  "set_group_authority group_authority authority seed =
     (let g = group_authority\<lparr>ga_authority := authority\<rparr> in
      case seed of Some seed \<Rightarrow> g\<lparr>ga_seed := seed\<rparr> | None \<Rightarrow> g)"

definition create_pda :: "Env \<Rightarrow> ledger \<Rightarrow> pubkey \<Rightarrow> bytes list \<Rightarrow> pubkey \<Rightarrow> AccountData \<Rightarrow> (program_error, ledger) result" where
  "create_pda E l program_id seeds k d =
     (if k \<noteq> find_program_address E seeds program_id \<or> acc_data (l k) \<noteq> Foreign then Err AnchorError
      else Ok (set_data l k d))"

definition initialize_group_authority ::
  "Env \<Rightarrow> ledger \<Rightarrow> pubkey \<Rightarrow> pubkey \<Rightarrow> pubkey \<Rightarrow> pubkey \<Rightarrow> (program_error, ledger) result" where
  "initialize_group_authority E l program_id group_authority seed authority =
     create_pda E l program_id [GROUP_AUTHORITY_SEED, seed] group_authority
       (GroupAuthorityAccount (set_group_authority \<lparr>ga_authority = default_pubkey, ga_seed = default_pubkey\<rparr> authority (Some seed)))"

definition update_group_authority ::
  "ledger \<Rightarrow> pubkey \<Rightarrow> pubkey \<Rightarrow> pubkey \<Rightarrow> (program_error, ledger) result" where
  "update_group_authority l signer group_authority authority =
     and_then (load_group_authority l group_authority) (\<lambda>g.
     if ga_authority g \<noteq> signer then Err AnchorError
     else Ok (set_data l group_authority (GroupAuthorityAccount (set_group_authority g authority None))))"

definition process_register_program ::
  "Env \<Rightarrow> ledger \<Rightarrow> pubkey \<Rightarrow> pubkey \<Rightarrow> pubkey \<Rightarrow> pubkey \<Rightarrow> pubkey \<Rightarrow> (program_error, ledger) result" where
  "process_register_program E l program_id signer program_to_be_registered registered_program_pda group_authority_pda =
     and_then (load_group_authority l group_authority_pda) (\<lambda>g.
     if signer \<noteq> ga_authority g then Err (AcError AcInvalidAuthority)
     else create_pda E l program_id [program_to_be_registered] registered_program_pda
       (RegisteredProgramAccount \<lparr>rp_registered_program_id = program_to_be_registered,
          rp_group_authority_pda = group_authority_pda\<rparr>))"

text \<open>\<open>close = close_recipient\<close> moves the lamports and gives the account back to the system program.\<close>

definition deregister_program ::
  "ledger \<Rightarrow> pubkey \<Rightarrow> pubkey \<Rightarrow> pubkey \<Rightarrow> pubkey \<Rightarrow> (program_error, ledger) result" where
  "deregister_program l signer registered_program_pda group_authority_pda close_recipient =
     and_then (load_registered_program l registered_program_pda) (\<lambda>r.
     and_then (load_group_authority l group_authority_pda) (\<lambda>g.
     if signer \<noteq> ga_authority g then Err (AcError AcInvalidAuthority)
     else if group_authority_pda \<noteq> rp_group_authority_pda r then Err (AcError AcInvalidGroup)
     else
       and_then (add_u64 (acc_lamports (l close_recipient)) (acc_lamports (l registered_program_pda))) (\<lambda>sum.
       Ok (set_data (set_lamports (set_lamports l close_recipient sum) registered_program_pda 0)
             registered_program_pda Foreign))))"

end
