(* ===== verification/Compressed_Account.thy ===== *)
theory Compressed_Account
  imports Account_Compression
begin

text \<open>
  Compressed accounts and the instruction data of the system program (\<open>programs/system/src/sdk\<close> and
  \<open>programs/system/src/invoke/instruction.rs\<close>): the data, the hash that becomes the leaf of a state
  tree, the derivation of addresses, and the packing of keys into account indices by the clients.
\<close>


section \<open>Errors\<close>

datatype SystemProgramError =
    SumCheckFailed
  | SignerCheckFailed
  | CpiSignerCheckFailed
  | ComputeInputSumFailed
  | ComputeOutputSumFailed
  | ComputeRpcSumFailed
  | InvalidAddress
  | DeriveAddressError
  | CompressedSolPdaUndefinedForCompressSol
  | DeCompressLamportsUndefinedForCompressSol
  | CompressedSolPdaUndefinedForDecompressSol
  | DeCompressLamportsUndefinedForDecompressSol
  | DecompressRecipientUndefinedForDecompressSol
  | WriteAccessCheckFailed
  | InvokingProgramNotProvided
  | InvalidCapacity
  | InvalidMerkleTreeOwner
  | ProofIsNone
  | ProofIsSome
  | EmptyInputs
  | CpiContextAccountUndefined
  | CpiContextEmpty
  | CpiContextMissing
  | DecompressionRecipientDefined
  | SolPoolPdaDefined
  | AppendStateFailed
  | InstructionNotCallable
  | CpiContextFeePayerMismatch
  | CpiContextAssociatedMerkleTreeMismatch
  | NoInputs
  | InputMerkleTreeIndicesNotInOrder
  | OutputMerkleTreeIndicesNotInOrder
  | OutputMerkleTreeNotUnique
  | DataFieldUndefined

datatype VerifierError =
    PublicInputsTryIntoFailed
  | DecompressG1Failed
  | DecompressG2Failed
  | InvalidPublicInputsLength
  | CreateGroth16VerifierFailed
  | ProofVerificationFailed

fun VerifierError_code :: "VerifierError \<Rightarrow> nat" where
  "VerifierError_code PublicInputsTryIntoFailed = 13001"
| "VerifierError_code DecompressG1Failed = 13002"
| "VerifierError_code DecompressG2Failed = 13003"
| "VerifierError_code InvalidPublicInputsLength = 13004"
| "VerifierError_code CreateGroth16VerifierFailed = 13005"
| "VerifierError_code ProofVerificationFailed = 13006"

text \<open>
  The errors of an instruction of the system program: its own, those of the account compression program
  it calls, of the hasher, of the proof verifier, of account validation and of the runtime.
\<close>

datatype system_error =
    SysError SystemProgramError
  | CompressionError program_error
  | HashError HasherError
  | VerifyError VerifierError
  | AccountError
  | SysRuntimeError nat


section \<open>Data\<close>

record CompressedAccountData =
  cad_discriminator :: bytes
  cad_data :: bytes
  cad_data_hash :: bytes

record CompressedAccount =
  ca_owner :: pubkey
  ca_lamports :: nat
  ca_address :: "bytes option"
  ca_data :: "CompressedAccountData option"

record QueueIndex =
  qi_queue_id :: byte
  qi_index :: nat

record MerkleContext =
  mc_merkle_tree_pubkey :: pubkey
  mc_nullifier_queue_pubkey :: pubkey
  mc_leaf_index :: nat
  mc_queue_index :: "QueueIndex option"

record PackedMerkleContext =
  pmc_merkle_tree_pubkey_index :: byte
  pmc_nullifier_queue_pubkey_index :: byte
  pmc_leaf_index :: nat
  pmc_queue_index :: "QueueIndex option"

record CompressedAccountWithMerkleContext =
  cac_compressed_account :: CompressedAccount
  cac_merkle_context :: MerkleContext

record PackedCompressedAccountWithMerkleContext =
  pca_compressed_account :: CompressedAccount
  pca_merkle_context :: PackedMerkleContext
  pca_root_index :: nat
  pca_read_only :: bool

record OutputCompressedAccountWithPackedContext =
  oca_compressed_account :: CompressedAccount
  oca_merkle_tree_index :: byte

record NewAddressParamsPacked =
  nap_seed :: bytes
  nap_address_queue_account_index :: byte
  nap_address_merkle_tree_account_index :: byte
  nap_address_merkle_tree_root_index :: nat

record NewAddressParams =
  na_seed :: bytes
  na_address_queue_pubkey :: pubkey
  na_address_merkle_tree_pubkey :: pubkey
  na_address_merkle_tree_root_index :: nat

record CompressedProof =
  proof_a :: bytes
  proof_b :: bytes
  proof_c :: bytes

definition CompressedProof_default :: CompressedProof where
  "CompressedProof_default = \<lparr>proof_a = replicate 32 0, proof_b = replicate 64 0, proof_c = replicate 32 0\<rparr>"

record InstructionDataInvoke =
  idi_proof :: "CompressedProof option"
  idi_input_compressed_accounts_with_merkle_context :: "PackedCompressedAccountWithMerkleContext list"
  idi_output_compressed_accounts :: "OutputCompressedAccountWithPackedContext list"
  idi_relay_fee :: "nat option"
  idi_new_address_params :: "NewAddressParamsPacked list"
  idi_compress_or_decompress_lamports :: "nat option"
  idi_is_compress :: bool

text \<open>The widths of the fields.\<close>

definition CompressedAccountData_wf :: "CompressedAccountData \<Rightarrow> bool" where
  "CompressedAccountData_wf d \<longleftrightarrow> length (cad_discriminator d) = 8 \<and> length (cad_data_hash d) = 32"

definition CompressedAccount_wf :: "CompressedAccount \<Rightarrow> bool" where
  "CompressedAccount_wf a \<longleftrightarrow> ca_lamports a < u64_bound \<and> (\<forall>ad. ca_address a = Some ad \<longrightarrow> length ad = 32) \<and>
     (\<forall>d. ca_data a = Some d \<longrightarrow> CompressedAccountData_wf d)"


section \<open>Hashing\<close>

text \<open>The vector that is hashed: optional parts are left out, the lamports and the discriminator are tagged.\<close>

definition CompressedAccount_preimage :: "CompressedAccount \<Rightarrow> bytes \<Rightarrow> bytes \<Rightarrow> nat \<Rightarrow> bytes list" where
  "CompressedAccount_preimage a owner_hashed merkle_tree_hashed leaf_index =
     [owner_hashed, le_bytes 4 leaf_index, merkle_tree_hashed] @
     (if ca_lamports a \<noteq> 0 then [1 # le_bytes 8 (ca_lamports a)] else []) @
     (case ca_address a of Some address \<Rightarrow> [address] | None \<Rightarrow> []) @
     (case ca_data a of Some d \<Rightarrow> [2 # cad_discriminator d, cad_data_hash d] | None \<Rightarrow> [])"

definition CompressedAccount_hash_with_hashed_values ::
  "Hasher \<Rightarrow> CompressedAccount \<Rightarrow> bytes \<Rightarrow> bytes \<Rightarrow> nat \<Rightarrow> (system_error, bytes) result" where
  "CompressedAccount_hash_with_hashed_values H a owner_hashed merkle_tree_hashed leaf_index =
     map_err HashError (hashv H (CompressedAccount_preimage a owner_hashed merkle_tree_hashed leaf_index))"

text \<open>\<open>hash_to_bn254_field_size_be(..).unwrap().0\<close>.\<close>

definition hash_pubkey :: "Env \<Rightarrow> pubkey \<Rightarrow> (system_error, bytes) result" where
  "hash_pubkey E k =
     and_then (unwrap_or_panic (hash_to_bn254_field_size_be (keccak E) (fr_modulus E) k)) (\<lambda>h. Ok (fst h))"

definition CompressedAccount_hash ::
  "Env \<Rightarrow> CompressedAccount \<Rightarrow> pubkey \<Rightarrow> nat \<Rightarrow> (system_error, bytes) result" where
  "CompressedAccount_hash E a merkle_tree_pubkey leaf_index =
     and_then (hash_pubkey E (ca_owner a)) (\<lambda>owner_hashed.
     and_then (hash_pubkey E merkle_tree_pubkey) (\<lambda>merkle_tree_hashed.
     CompressedAccount_hash_with_hashed_values (poseidon E) a owner_hashed merkle_tree_hashed leaf_index))"

definition CompressedAccountWithMerkleContext_hash ::
  "Env \<Rightarrow> CompressedAccountWithMerkleContext \<Rightarrow> (system_error, bytes) result" where
  "CompressedAccountWithMerkleContext_hash E a =
     CompressedAccount_hash E (cac_compressed_account a) (mc_merkle_tree_pubkey (cac_merkle_context a))
       (mc_leaf_index (cac_merkle_context a))"

definition derive_address :: "Env \<Rightarrow> pubkey \<Rightarrow> bytes \<Rightarrow> (system_error, bytes) result" where
  "derive_address E merkle_tree_pubkey seed =
     (case hash_to_bn254_field_size_be (keccak E) (fr_modulus E) (merkle_tree_pubkey @ seed) of
        Some h \<Rightarrow> Ok (fst h)
      | None \<Rightarrow> Err (SysError DeriveAddressError))"


section \<open>Packing of keys\<close>

text \<open>
  \<open>HashMap<Pubkey, usize>\<close> from a key to its index; a key is inserted only when it is absent, and
  the iteration order is only used after sorting by index.
\<close>

type_synonym RemainingAccounts = "(pubkey \<times> nat) list"

definition get_or_insert :: "RemainingAccounts \<times> nat \<Rightarrow> pubkey \<Rightarrow> RemainingAccounts \<times> nat" where
  "get_or_insert = (\<lambda>(remaining_accounts, next_index) k.
     case map_of remaining_accounts k of
       Some _ \<Rightarrow> (remaining_accounts, next_index)
     | None \<Rightarrow> (remaining_accounts @ [(k, next_index)], Suc next_index))"

text \<open>The loop shared by the packing functions: the index of each key, truncated by \<open>as u8\<close>.\<close>

fun pack_keys :: "RemainingAccounts \<times> nat \<Rightarrow> pubkey list \<Rightarrow> (system_error, (RemainingAccounts \<times> nat) \<times> byte list) result" where
  "pack_keys s [] = Ok (s, [])"
| "pack_keys s (k # ks) =
     (let s = get_or_insert s k in
      and_then (unwrap_or_panic (map_of (fst s) k)) (\<lambda>i.
      and_then (pack_keys s ks) (\<lambda>(s, is). Ok (s, of_nat i # is))))"

definition add_and_get_remaining_account_indices ::
  "pubkey list \<Rightarrow> RemainingAccounts \<Rightarrow> (system_error, RemainingAccounts \<times> byte list) result" where
  "add_and_get_remaining_account_indices pubkeys remaining_accounts =
     and_then (pack_keys (remaining_accounts, length remaining_accounts) pubkeys) (\<lambda>((remaining_accounts, _), vec).
     Ok (remaining_accounts, vec))"

text \<open>The state trees are packed before the queues.\<close>

definition packed_address_params :: "NewAddressParams \<Rightarrow> byte \<Rightarrow> byte \<Rightarrow> NewAddressParamsPacked" where
  "packed_address_params p tree_index queue_index =
     \<lparr>nap_seed = na_seed p, nap_address_queue_account_index = queue_index,
      nap_address_merkle_tree_account_index = tree_index,
      nap_address_merkle_tree_root_index = na_address_merkle_tree_root_index p\<rparr>"

definition pack_new_address_params_from ::
  "NewAddressParams list \<Rightarrow> RemainingAccounts \<times> nat \<Rightarrow>
     (system_error, (RemainingAccounts \<times> nat) \<times> NewAddressParamsPacked list) result" where
  "pack_new_address_params_from new_address_params s =
     and_then (pack_keys s (map na_address_merkle_tree_pubkey new_address_params)) (\<lambda>(s, trees).
     and_then (pack_keys s (map na_address_queue_pubkey new_address_params)) (\<lambda>(s, queues).
     Ok (s, map (\<lambda>(p, t, q). packed_address_params p t q) (zip new_address_params (zip trees queues)))))"

definition pack_new_address_params ::
  "NewAddressParams list \<Rightarrow> RemainingAccounts \<Rightarrow> (system_error, RemainingAccounts \<times> NewAddressParamsPacked list) result" where
  "pack_new_address_params new_address_params remaining_accounts =
     and_then (pack_new_address_params_from new_address_params (remaining_accounts, length remaining_accounts))
       (\<lambda>((remaining_accounts, _), packed). Ok (remaining_accounts, packed))"

definition packed_merkle_context :: "MerkleContext \<Rightarrow> byte \<Rightarrow> byte \<Rightarrow> PackedMerkleContext" where
  "packed_merkle_context c tree_index queue_index =
     \<lparr>pmc_merkle_tree_pubkey_index = tree_index, pmc_nullifier_queue_pubkey_index = queue_index,
      pmc_leaf_index = mc_leaf_index c, pmc_queue_index = None\<rparr>"

definition pack_merkle_context_from ::
  "MerkleContext list \<Rightarrow> RemainingAccounts \<times> nat \<Rightarrow>
     (system_error, (RemainingAccounts \<times> nat) \<times> PackedMerkleContext list) result" where
  "pack_merkle_context_from merkle_context s =
     and_then (pack_keys s (map mc_merkle_tree_pubkey merkle_context)) (\<lambda>(s, trees).
     and_then (pack_keys s (map mc_nullifier_queue_pubkey merkle_context)) (\<lambda>(s, queues).
     Ok (s, map (\<lambda>(c, t, q). packed_merkle_context c t q) (zip merkle_context (zip trees queues)))))"

definition pack_merkle_context ::
  "MerkleContext list \<Rightarrow> RemainingAccounts \<Rightarrow> (system_error, RemainingAccounts \<times> PackedMerkleContext list) result" where
  "pack_merkle_context merkle_context remaining_accounts =
     and_then (pack_merkle_context_from merkle_context (remaining_accounts, length remaining_accounts))
       (\<lambda>((remaining_accounts, _), packed). Ok (remaining_accounts, packed))"

definition create_invoke_instruction_data_and_remaining_accounts ::
  "NewAddressParams list \<Rightarrow> MerkleContext list \<Rightarrow> CompressedAccount list \<Rightarrow> nat list \<Rightarrow> pubkey list \<Rightarrow>
     CompressedAccount list \<Rightarrow> CompressedProof option \<Rightarrow> nat option \<Rightarrow> bool \<Rightarrow>
     (system_error, pubkey list \<times> InstructionDataInvoke) result" where
  "create_invoke_instruction_data_and_remaining_accounts new_address_params merkle_context
     input_compressed_accounts input_root_indices output_compressed_account_merkle_tree_pubkeys
     output_compressed_accounts proof compress_or_decompress_lamports is_compress =
     (if length input_compressed_accounts < length merkle_context \<or> length input_root_indices < length merkle_context
      then Panic
      else
        and_then (pack_merkle_context_from merkle_context ([], 0)) (\<lambda>(s, contexts).
        if length output_compressed_accounts < length output_compressed_account_merkle_tree_pubkeys then Panic
        else
          and_then (pack_keys s output_compressed_account_merkle_tree_pubkeys) (\<lambda>(s, output_trees).
          and_then (pack_new_address_params_from new_address_params s) (\<lambda>((remaining_accounts, _), addresses).
          Ok (map fst (sort_key snd remaining_accounts),
              \<lparr>idi_proof = proof,
               idi_input_compressed_accounts_with_merkle_context =
                 map (\<lambda>(c, a, r). \<lparr>pca_compressed_account = a, pca_merkle_context = c, pca_root_index = r,
                        pca_read_only = False\<rparr>)
                   (zip contexts (zip input_compressed_accounts input_root_indices)),
               idi_output_compressed_accounts =
                 map (\<lambda>(a, t). \<lparr>oca_compressed_account = a, oca_merkle_tree_index = t\<rparr>)
                   (zip output_compressed_accounts output_trees),
               idi_relay_fee = None, idi_new_address_params = addresses,
               idi_compress_or_decompress_lamports = compress_or_decompress_lamports,
               idi_is_compress = is_compress\<rparr>)))))"


section \<open>The hash commits to the account\<close>

lemma le_bytes_inj: "le_bytes n x = le_bytes n y \<Longrightarrow> x < 256 ^ n \<Longrightarrow> y < 256 ^ n \<Longrightarrow> x = y"
  by (metis from_bytes_le_le_bytes mod_less)

text \<open>Equality up to the owner and up to the raw data, which enters only through its hash.\<close>

definition same_contents :: "CompressedAccount \<Rightarrow> CompressedAccount \<Rightarrow> bool" where
  "same_contents a b \<longleftrightarrow> ca_lamports a = ca_lamports b \<and> ca_address a = ca_address b \<and>
     map_option (\<lambda>d. (cad_discriminator d, cad_data_hash d)) (ca_data a) =
     map_option (\<lambda>d. (cad_discriminator d, cad_data_hash d)) (ca_data b)"

text \<open>The optional parts of the preimage can be told apart by their length and their tag.\<close>

lemma preimage_inj:
  assumes "CompressedAccount_preimage a o1 t1 i1 = CompressedAccount_preimage b o2 t2 i2"
    and "CompressedAccount_wf a" "CompressedAccount_wf b" "i1 < 2 ^ 32" "i2 < 2 ^ 32"
  shows "o1 = o2 \<and> t1 = t2 \<and> i1 = i2 \<and> same_contents a b"
proof -
  have i: "i1 = i2" using assms(1,4,5) le_bytes_inj [of 4 i1 i2] by (simp add: CompressedAccount_preimage_def)
  have l: "ca_lamports a = ca_lamports b" if "le_bytes 8 (ca_lamports a) = le_bytes 8 (ca_lamports b)"
    using that assms(2,3) le_bytes_inj [of 8] by (simp add: CompressedAccount_wf_def)
  show ?thesis using i assms(1-3) l
    by (cases "ca_address a"; cases "ca_address b"; cases "ca_data a"; cases "ca_data b")
      (auto simp: CompressedAccount_preimage_def same_contents_def CompressedAccount_wf_def CompressedAccountData_wf_def split: if_splits)
qed

lemma CompressedAccount_hash_OkD:
  assumes "CompressedAccount_hash E a tree i = Ok h"
  obtains o' t where "hash_pubkey E (ca_owner a) = Ok o'" "hash_pubkey E tree = Ok t"
    "hashv (poseidon E) (CompressedAccount_preimage a o' t i) = Ok h"
  using assms by (auto simp: CompressedAccount_hash_def CompressedAccount_hash_with_hashed_values_def elim!: and_then_OkE)

definition pubkey_collision :: "Env \<Rightarrow> pubkey \<Rightarrow> pubkey \<Rightarrow> bool" where
  "pubkey_collision E k k' \<longleftrightarrow> k \<noteq> k' \<and> (\<exists>h. hash_pubkey E k = Ok h \<and> hash_pubkey E k' = Ok h)"

definition hash_collision :: "Hasher \<Rightarrow> bytes list \<Rightarrow> bytes list \<Rightarrow> bool" where
  "hash_collision H x y \<longleftrightarrow> x \<noteq> y \<and> (\<exists>h. hashv H x = Ok h \<and> hashv H y = Ok h)"


lemma sample_hash_pubkey: "hash_pubkey sample_env k = Ok ((replicate 32 (of_nat (length k + 1)))[0 := 0])"
proof -
  have "is_smaller_than_bn254_field_size_be (2 ^ 253) ((replicate 32 w)[0 := 0])" for w
    using from_bytes_be_truncated [of "replicate 32 w"] by (simp add: is_smaller_than_bn254_field_size_be_def)
  then have "hash_to_bn254_loop (keccak sample_env) (fr_modulus sample_env) k (Suc n) 255 =
      Some ((replicate 32 (of_nat (length k + 1)))[0 := 0], 255)" for n
    by (simp add: sample_env_def Let_def)
  from this [of 254] show ?thesis by (simp add: hash_pubkey_def hash_to_bn254_field_size_be_def)
qed

lemma sample_poseidon: "hashv (poseidon sample_env) xs = Ok (sample_hash xs)"
  by (simp add: sample_env_def sample_hasher_def)



section \<open>Packing and unpacking agree\<close>

definition accounts_ok :: "RemainingAccounts \<times> nat \<Rightarrow> bool" where
  "accounts_ok s \<longleftrightarrow> map snd (fst s) = [0..<length (fst s)] \<and> snd s = length (fst s) \<and> distinct (map fst (fst s))"

definition keys_of :: "RemainingAccounts \<times> nat \<Rightarrow> pubkey list" where
  "keys_of s = map fst (fst s)"

lemma accounts_ok_map_of:
  assumes "accounts_ok s" "map_of (fst s) k = Some i"
  shows "i < length (keys_of s) \<and> keys_of s ! i = k"
proof -
  obtain j where j: "j < length (fst s)" "fst s ! j = (k, i)"
    using map_of_SomeD [OF assms(2)] by (auto simp: in_set_conv_nth)
  have "map snd (fst s) ! j = j" using assms(1) j(1) by (simp add: accounts_ok_def)
  then show ?thesis using j by (simp add: keys_of_def)
qed

lemma get_or_insert_ok:
  assumes "accounts_ok s"
  shows "accounts_ok (get_or_insert s k) \<and> (\<exists>xs. keys_of (get_or_insert s k) = keys_of s @ xs) \<and>
    set (keys_of (get_or_insert s k)) = insert k (set (keys_of s)) \<and> (\<exists>i. map_of (fst (get_or_insert s k)) k = Some i)"
proof (cases "map_of (fst s) k")
  case None
  then have "k \<notin> fst ` set (fst s)" by (simp add: map_of_eq_None_iff)
  then show ?thesis using assms None by (cases s) (auto simp: get_or_insert_def accounts_ok_def keys_of_def map_add_def)
next
  case (Some i)
  then have "k \<in> set (keys_of s)" using accounts_ok_map_of [OF assms Some] by (metis nth_mem)
  then show ?thesis using assms Some by (cases s) (auto simp: get_or_insert_def)
qed

text \<open>The indices are positions of the keys, as long as there are at most 256 of them.\<close>

lemma pack_keys_ok:
  assumes "accounts_ok s"
  shows "\<exists>s' is. pack_keys s ks = Ok (s', is) \<and> accounts_ok s' \<and> (\<exists>xs. keys_of s' = keys_of s @ xs) \<and>
    set (keys_of s') = set (keys_of s) \<union> set ks \<and>
    (length (keys_of s') \<le> 256 \<longrightarrow> map (\<lambda>i. keys_of s' ! unat i) is = ks \<and> (\<forall>i \<in> set is. unat i < length (keys_of s')))"
  using assms
proof (induction ks arbitrary: s)
  case (Cons k ks)
  let ?s = "get_or_insert s k"
  obtain i xs where g: "accounts_ok ?s" "keys_of ?s = keys_of s @ xs" "set (keys_of ?s) = insert k (set (keys_of s))"
    "map_of (fst ?s) k = Some i"
    using get_or_insert_ok [OF Cons.prems, of k] by auto
  note i = accounts_ok_map_of [OF g(1,4)]
  obtain s' js ys where r: "pack_keys ?s ks = Ok (s', js)" "accounts_ok s'" "keys_of s' = keys_of ?s @ ys"
    "set (keys_of s') = set (keys_of ?s) \<union> set ks"
    "length (keys_of s') \<le> 256 \<longrightarrow> map (\<lambda>i. keys_of s' ! unat i) js = ks \<and> (\<forall>i \<in> set js. unat i < length (keys_of s'))"
    using Cons.IH [OF g(1)] by blast
  have "unat (of_nat i :: byte) = i" "i < length (keys_of s')" "keys_of s' ! i = k" if "length (keys_of s') \<le> 256"
    using that i r(3) by (auto simp: unat_of_nat nth_append)
  then show ?case using r g by (auto simp: Let_def)
qed simp

lemma sort_key_accounts: "accounts_ok s \<Longrightarrow> map fst (sort_key snd (fst s)) = keys_of s"
  by (simp add: accounts_ok_def keys_of_def sort_key_id_if_sorted)

lemma accounts_ok_nil [simp]: "accounts_ok ([], 0)" "keys_of ([], 0) = []"
  by (simp_all add: accounts_ok_def keys_of_def)


definition unpack_input :: "pubkey list \<Rightarrow> PackedCompressedAccountWithMerkleContext \<Rightarrow> pubkey \<times> pubkey \<times> nat \<times> CompressedAccount \<times> nat" where
  "unpack_input keys a =
     (keys ! unat (pmc_merkle_tree_pubkey_index (pca_merkle_context a)),
      keys ! unat (pmc_nullifier_queue_pubkey_index (pca_merkle_context a)),
      pmc_leaf_index (pca_merkle_context a), pca_compressed_account a, pca_root_index a)"

definition unpack_output :: "pubkey list \<Rightarrow> OutputCompressedAccountWithPackedContext \<Rightarrow> CompressedAccount \<times> pubkey" where
  "unpack_output keys a = (oca_compressed_account a, keys ! unat (oca_merkle_tree_index a))"

definition unpack_address_params :: "pubkey list \<Rightarrow> NewAddressParamsPacked \<Rightarrow> NewAddressParams" where
  "unpack_address_params keys p =
     \<lparr>na_seed = nap_seed p, na_address_queue_pubkey = keys ! unat (nap_address_queue_account_index p),
      na_address_merkle_tree_pubkey = keys ! unat (nap_address_merkle_tree_account_index p),
      na_address_merkle_tree_root_index = nap_address_merkle_tree_root_index p\<rparr>"

text \<open>Packing with a longer list of keys in mind: every later list extends the present one.\<close>

definition unpacks_to :: "pubkey list \<Rightarrow> byte list \<Rightarrow> pubkey list \<Rightarrow> bool" where
  "unpacks_to keys is ks \<longleftrightarrow> (length keys \<le> 256 \<longrightarrow> map (\<lambda>i. keys ! unat i) is = ks \<and> (\<forall>i \<in> set is. unat i < length keys))"

lemma unpacks_to_extend: "unpacks_to keys is ks \<Longrightarrow> unpacks_to (keys @ rest) is ks"
  by (auto simp: unpacks_to_def nth_append)

lemma unpacks_to_nth:
  assumes "unpacks_to keys is ks" "length keys \<le> 256"
  shows "length is = length ks" "n < length ks \<Longrightarrow> keys ! unat (is ! n) = ks ! n"
proof -
  have eq: "ks = map (\<lambda>i. keys ! unat i) is" using assms by (simp add: unpacks_to_def)
  show "length is = length ks" unfolding eq by simp
  show "n < length ks \<Longrightarrow> keys ! unat (is ! n) = ks ! n" unfolding eq by simp
qed

lemma pack_keys_obtain:
  assumes "accounts_ok s"
  obtains s' js xs where "pack_keys s ks = Ok (s', js)" "accounts_ok s'" "keys_of s' = keys_of s @ xs"
    "set (keys_of s') = set (keys_of s) \<union> set ks" "unpacks_to (keys_of s') js ks"
  using pack_keys_ok [OF assms, of ks] unfolding unpacks_to_def by blast

text \<open>
  C38.  What a client packs is what the program unpacks: with at most 256 different keys (the indices are
  truncated to a byte), \<open>create_invoke_instruction_data_and_remaining_accounts\<close> succeeds, lists every key once,
  and looking the indices up in the list gives back the tree, queue and contents of every input, the tree of every
  output and the parameters of every new address, in order.
\<close>

theorem client_packing_roundtrip:
  assumes "length accounts = length contexts" "length roots = length contexts" "length outputs = length trees"
    and "card (set (map mc_merkle_tree_pubkey contexts @ map mc_nullifier_queue_pubkey contexts @ trees @
      map na_address_merkle_tree_pubkey params @ map na_address_queue_pubkey params)) \<le> 256"
  shows "\<exists>keys d. create_invoke_instruction_data_and_remaining_accounts params contexts accounts roots trees outputs
      proof lamports is_compress = Ok (keys, d) \<and> distinct keys \<and>
    map (unpack_input keys) (idi_input_compressed_accounts_with_merkle_context d) =
      map (\<lambda>(c, a, r). (mc_merkle_tree_pubkey c, mc_nullifier_queue_pubkey c, mc_leaf_index c, a, r))
        (zip contexts (zip accounts roots)) \<and>
    map (unpack_output keys) (idi_output_compressed_accounts d) = zip outputs trees \<and>
    map (unpack_address_params keys) (idi_new_address_params d) = params"
proof -
  obtain s1 i1 x1 where p1: "pack_keys ([], 0) (map mc_merkle_tree_pubkey contexts) = Ok (s1, i1)" "accounts_ok s1"
    "keys_of s1 = keys_of ([], 0) @ x1" "set (keys_of s1) = set (keys_of ([], 0)) \<union> set (map mc_merkle_tree_pubkey contexts)"
    "unpacks_to (keys_of s1) i1 (map mc_merkle_tree_pubkey contexts)"
    by (rule pack_keys_obtain [OF accounts_ok_nil(1)])
  obtain s2 i2 x2 where p2: "pack_keys s1 (map mc_nullifier_queue_pubkey contexts) = Ok (s2, i2)" "accounts_ok s2"
    "keys_of s2 = keys_of s1 @ x2" "set (keys_of s2) = set (keys_of s1) \<union> set (map mc_nullifier_queue_pubkey contexts)"
    "unpacks_to (keys_of s2) i2 (map mc_nullifier_queue_pubkey contexts)"
    by (rule pack_keys_obtain [OF p1(2)])
  obtain s3 i3 x3 where p3: "pack_keys s2 trees = Ok (s3, i3)" "accounts_ok s3" "keys_of s3 = keys_of s2 @ x3"
    "set (keys_of s3) = set (keys_of s2) \<union> set trees" "unpacks_to (keys_of s3) i3 trees"
    by (rule pack_keys_obtain [OF p2(2)])
  obtain s4 i4 x4 where p4: "pack_keys s3 (map na_address_merkle_tree_pubkey params) = Ok (s4, i4)" "accounts_ok s4"
    "keys_of s4 = keys_of s3 @ x4" "set (keys_of s4) = set (keys_of s3) \<union> set (map na_address_merkle_tree_pubkey params)"
    "unpacks_to (keys_of s4) i4 (map na_address_merkle_tree_pubkey params)"
    by (rule pack_keys_obtain [OF p3(2)])
  obtain s5 i5 x5 where p5: "pack_keys s4 (map na_address_queue_pubkey params) = Ok (s5, i5)" "accounts_ok s5"
    "keys_of s5 = keys_of s4 @ x5" "set (keys_of s5) = set (keys_of s4) \<union> set (map na_address_queue_pubkey params)"
    "unpacks_to (keys_of s5) i5 (map na_address_queue_pubkey params)"
    by (rule pack_keys_obtain [OF p4(2)])
  define keys where "keys = keys_of s5"
  have dist: "distinct keys" using p5(2) by (simp add: keys_def accounts_ok_def keys_of_def)
  have "set keys = set (map mc_merkle_tree_pubkey contexts @ map mc_nullifier_queue_pubkey contexts @ trees @
      map na_address_merkle_tree_pubkey params @ map na_address_queue_pubkey params)"
    unfolding keys_def p5(4) p4(4) p3(4) p2(4) p1(4) by auto
  then have len: "length keys \<le> 256" using distinct_card [OF dist] assms(4) by simp
  have u: "unpacks_to keys i1 (map mc_merkle_tree_pubkey contexts)" "unpacks_to keys i2 (map mc_nullifier_queue_pubkey contexts)"
    "unpacks_to keys i3 trees" "unpacks_to keys i4 (map na_address_merkle_tree_pubkey params)"
    "unpacks_to keys i5 (map na_address_queue_pubkey params)"
    unfolding keys_def using p1(5) p2(3,5) p3(3,5) p4(3,5) p5(3,5) by (metis unpacks_to_extend append_assoc)+
  note n = u [THEN unpacks_to_nth(1), OF len] u [THEN unpacks_to_nth(2), OF len]
  have sorted: "map fst (sort_key snd (fst s5)) = keys" by (simp add: keys_def sort_key_accounts [OF p5(2)])
  show ?thesis
    unfolding create_invoke_instruction_data_and_remaining_accounts_def pack_merkle_context_from_def
      pack_new_address_params_from_def p1(1) p2(1) p3(1) p4(1) p5(1) and_then.simps prod.case
    using assms(1-3) sorted n dist
    by (auto simp: unpack_input_def unpack_output_def unpack_address_params_def packed_merkle_context_def
        packed_address_params_def case_prod_unfold intro!: nth_equalityI)
qed

lemma client_packing_roundtrip_witness:
  "let c = \<lparr>mc_merkle_tree_pubkey = [1], mc_nullifier_queue_pubkey = [2], mc_leaf_index = 7, mc_queue_index = None\<rparr>;
       a = \<lparr>ca_owner = [3], ca_lamports = 5, ca_address = None, ca_data = None\<rparr> in
   \<exists>keys d. create_invoke_instruction_data_and_remaining_accounts [] [c] [a] [4] [[9]] [a] None None False = Ok (keys, d) \<and>
     map (unpack_input keys) (idi_input_compressed_accounts_with_merkle_context d) = [([1], [2], 7, a, 4)] \<and>
     map (unpack_output keys) (idi_output_compressed_accounts d) = [(a, [9])]"
  unfolding Let_def
  using client_packing_roundtrip [of
      "[\<lparr>ca_owner = [3], ca_lamports = 5, ca_address = None, ca_data = None\<rparr>]"
      "[\<lparr>mc_merkle_tree_pubkey = [1], mc_nullifier_queue_pubkey = [2], mc_leaf_index = 7, mc_queue_index = None\<rparr>]"
      "[4]" "[\<lparr>ca_owner = [3], ca_lamports = 5, ca_address = None, ca_data = None\<rparr>]" "[[9]]" "[]" None None False]
  by (force simp: card_insert_if)

end
