(* ===== verification/Verifier.thy ===== *)
theory Verifier
  imports Compressed_Account
begin

text \<open>
  The selection of the circuit for a validity proof (\<open>circuit-lib/verifier/src/lib.rs\<close> and
  \<open>verify_state_proof\<close> of the system program).  The Groth16 verifier and the decompression of curve
  points are functions of a library and appear as the record \<open>Groth16\<close>; a verifying key is named by the number
  of inclusion and of non-inclusion proofs of its circuit.
\<close>

datatype VerifyingKey = Inclusion_26 nat | NonInclusion_26 nat | Combined_26 nat nat

record Groth16 =
  decompress_g1 :: "bytes \<Rightarrow> bytes option"
  decompress_g2 :: "bytes \<Rightarrow> bytes option"
  Groth16Verifier_new :: "bytes \<Rightarrow> bytes \<Rightarrow> bytes \<Rightarrow> bytes list \<Rightarrow> VerifyingKey \<Rightarrow> bool"
  Groth16Verifier_verify :: "bytes \<Rightarrow> bytes \<Rightarrow> bytes \<Rightarrow> bytes list \<Rightarrow> VerifyingKey \<Rightarrow> bool"

definition verify :: "Groth16 \<Rightarrow> bytes list \<Rightarrow> CompressedProof \<Rightarrow> VerifyingKey \<Rightarrow> (VerifierError, unit) result" where
  "verify G public_inputs proof vk =
     and_then (ok_or (decompress_g1 G (proof_a proof)) DecompressG1Failed) (\<lambda>a.
     and_then (ok_or (decompress_g2 G (proof_b proof)) DecompressG2Failed) (\<lambda>b.
     and_then (ok_or (decompress_g1 G (proof_c proof)) DecompressG1Failed) (\<lambda>c.
     if \<not> Groth16Verifier_new G a b c public_inputs vk then Err CreateGroth16VerifierFailed
     else if Groth16Verifier_verify G a b c public_inputs vk then Ok ()
     else Err ProofVerificationFailed)))"

text \<open>\<open>verify::<N>\<close> after \<open>public_inputs.try_into()\<close>.\<close>

definition verify_n :: "Groth16 \<Rightarrow> nat \<Rightarrow> bytes list \<Rightarrow> CompressedProof \<Rightarrow> VerifyingKey \<Rightarrow> (VerifierError, unit) result" where
  "verify_n G n public_inputs proof vk =
     (if length public_inputs \<noteq> n then Err PublicInputsTryIntoFailed else verify G public_inputs proof vk)"

definition verify_create_addresses_zkp ::
  "Groth16 \<Rightarrow> bytes list \<Rightarrow> bytes list \<Rightarrow> CompressedProof \<Rightarrow> (VerifierError, unit) result" where
  "verify_create_addresses_zkp G address_roots addresses compressed_proof =
     (let public_inputs = address_roots @ addresses in
      if length addresses = 1 then verify_n G 2 public_inputs compressed_proof (NonInclusion_26 1)
      else if length addresses = 2 then verify_n G 4 public_inputs compressed_proof (NonInclusion_26 2)
      else Err InvalidPublicInputsLength)"

definition verify_create_addresses_and_merkle_proof_zkp ::
  "Groth16 \<Rightarrow> bytes list \<Rightarrow> bytes list \<Rightarrow> bytes list \<Rightarrow> bytes list \<Rightarrow> CompressedProof \<Rightarrow> (VerifierError, unit) result" where
  "verify_create_addresses_and_merkle_proof_zkp G roots leaves address_roots addresses compressed_proof =
     (let public_inputs = roots @ leaves @ address_roots @ addresses;
          n = length public_inputs in
      if n = 4 then verify_n G 4 public_inputs compressed_proof (Combined_26 1 1)
      else if n = 6 then
        verify_n G 6 public_inputs compressed_proof (if length address_roots = 1 then Combined_26 2 1 else Combined_26 1 2)
      else if n = 8 then
        verify_n G 8 public_inputs compressed_proof (if length address_roots = 1 then Combined_26 3 1 else Combined_26 2 2)
      else if n = 10 then
        verify_n G 10 public_inputs compressed_proof (if length address_roots = 1 then Combined_26 4 1 else Combined_26 3 2)
      else if n = 12 then verify_n G 12 public_inputs compressed_proof (Combined_26 4 2)
      else Err InvalidPublicInputsLength)"

definition verify_merkle_proof_zkp ::
  "Groth16 \<Rightarrow> bytes list \<Rightarrow> bytes list \<Rightarrow> CompressedProof \<Rightarrow> (VerifierError, unit) result" where
  "verify_merkle_proof_zkp G roots leaves compressed_proof =
     (let public_inputs = roots @ leaves; n = length public_inputs in
      if n = 2 then verify_n G 2 public_inputs compressed_proof (Inclusion_26 1)
      else if n = 4 then verify_n G 4 public_inputs compressed_proof (Inclusion_26 2)
      else if n = 6 then verify_n G 6 public_inputs compressed_proof (Inclusion_26 3)
      else if n = 8 then verify_n G 8 public_inputs compressed_proof (Inclusion_26 4)
      else if n = 16 then verify_n G 16 public_inputs compressed_proof (Inclusion_26 8)
      else Err InvalidPublicInputsLength)"

definition verify_state_proof ::
  "Groth16 \<Rightarrow> bytes list \<Rightarrow> bytes list \<Rightarrow> bytes list \<Rightarrow> bytes list \<Rightarrow> CompressedProof \<Rightarrow> (system_error, unit) result" where
  "verify_state_proof G roots leaves address_roots addresses compressed_proof =
     map_err VerifyError
       (if addresses \<noteq> [] \<and> leaves \<noteq> []
        then verify_create_addresses_and_merkle_proof_zkp G roots leaves address_roots addresses compressed_proof
        else if addresses \<noteq> [] then verify_create_addresses_zkp G address_roots addresses compressed_proof
        else verify_merkle_proof_zkp G roots leaves compressed_proof)"


section \<open>The circuit that is used\<close>

text \<open>The circuit chosen for \<open>m\<close> input accounts and \<open>n\<close> new addresses.\<close>

definition chosen_circuit :: "nat \<Rightarrow> nat \<Rightarrow> VerifyingKey option" where
  "chosen_circuit m n =
     (if m = 0 then (if n \<in> {1, 2} then Some (NonInclusion_26 n) else None)
      else if n = 0 then (if m \<in> {1, 2, 3, 4, 8} then Some (Inclusion_26 m) else None)
      else if m + n = 2 then Some (Combined_26 1 1)
      else if m + n \<in> {3, 4, 5} then Some (if n = 1 then Combined_26 (m + n - 1) 1 else Combined_26 (m + n - 2) 2)
      else if m + n = 6 then Some (Combined_26 4 2)
      else None)"

definition intended_circuit :: "nat \<Rightarrow> nat \<Rightarrow> VerifyingKey" where
  "intended_circuit m n = (if n = 0 then Inclusion_26 m else if m = 0 then NonInclusion_26 n else Combined_26 m n)"

lemma verify_state_proof_circuit:
  assumes "length roots = length leaves" "length address_roots = length addresses" "leaves \<noteq> [] \<or> addresses \<noteq> []"
  shows "verify_state_proof G roots leaves address_roots addresses p =
    (case chosen_circuit (length leaves) (length addresses) of
       Some vk \<Rightarrow> map_err VerifyError
         (verify G ((if leaves = [] then [] else roots @ leaves) @ (if addresses = [] then [] else address_roots @ addresses)) p vk)
     | None \<Rightarrow> Err (VerifyError InvalidPublicInputsLength))"
proof -
  have *: "length leaves + length leaves = 2 * m \<longleftrightarrow> length leaves = m"
    "length leaves + (length leaves + (length addresses + length addresses)) = 2 * m \<longleftrightarrow> length leaves + length addresses = m" for m
    by auto
  have pos: "length leaves = 0 \<longleftrightarrow> leaves = []" "length addresses = 0 \<longleftrightarrow> addresses = []" by auto
  show ?thesis
    using assms * [of 1] * [of 2] * [of 3] * [of 4] * [of 5] * [of 6] * [of 8] pos
    by (auto simp: verify_state_proof_def verify_create_addresses_and_merkle_proof_zkp_def verify_create_addresses_zkp_def
        verify_merkle_proof_zkp_def verify_n_def chosen_circuit_def Let_def)
qed


text \<open>
  C39.  A validity proof is checked with the roots, leaves, address roots and addresses of the transaction as public
  inputs, against the circuit made for these numbers of inputs and new addresses whenever there is one.  When a
  transaction has inputs and new addresses, at most six together, and no circuit was made for it, the proof is not
  refused but checked against a circuit for other numbers, which reads the public inputs differently.
\<close>

theorem verify_state_proof_key:
  assumes "length roots = length leaves" "length address_roots = length addresses" "leaves \<noteq> [] \<or> addresses \<noteq> []"
  defines "m \<equiv> length leaves" and "n \<equiv> length addresses"
  shows "verify_state_proof G roots leaves address_roots addresses p =
      (case chosen_circuit m n of
         Some vk \<Rightarrow> map_err VerifyError
           (verify G ((if m = 0 then [] else roots @ leaves) @ (if n = 0 then [] else address_roots @ addresses)) p vk)
       | None \<Rightarrow> Err (VerifyError InvalidPublicInputsLength)) \<and>
    (m \<le> 4 \<and> n \<le> 2 \<or> m = 8 \<and> n = 0 \<longrightarrow> chosen_circuit m n = Some (intended_circuit m n)) \<and>
    (0 < m \<and> 0 < n \<and> m + n \<le> 6 \<and> \<not> (m \<le> 4 \<and> n \<le> 2) \<longrightarrow>
      (\<exists>vk. chosen_circuit m n = Some vk \<and> vk \<noteq> intended_circuit m n))"
proof -
  have "0 < m + n" using assms(3) by (auto simp: m_def n_def)
  then have "m \<le> 4 \<and> n \<le> 2 \<or> m = 8 \<and> n = 0 \<Longrightarrow> chosen_circuit m n = Some (intended_circuit m n)"
    by (auto simp: chosen_circuit_def intended_circuit_def)
  moreover have "\<exists>vk. chosen_circuit m n = Some vk \<and> vk \<noteq> intended_circuit m n"
    if "0 < m" "0 < n" "m + n \<le> 6" "\<not> (m \<le> 4 \<and> n \<le> 2)"
    using that by (auto simp: chosen_circuit_def intended_circuit_def)
  moreover note verify_state_proof_circuit [OF assms(1-3), of G p]
  ultimately show ?thesis by (simp add: m_def n_def)
qed

definition sample_groth16 :: Groth16 where
  "sample_groth16 = \<lparr>decompress_g1 = Some, decompress_g2 = Some, Groth16Verifier_new = (\<lambda>a b c xs vk. True),
     Groth16Verifier_verify = (\<lambda>a b c xs vk. True)\<rparr>"

lemma verify_state_proof_key_witness:
  "verify_state_proof sample_groth16 [[1]] [[2]] [[3], [3], [3]] [[4], [5], [6]] CompressedProof_default =
     map_err VerifyError (verify sample_groth16 [[1], [2], [3], [3], [3], [4], [5], [6]] CompressedProof_default (Combined_26 2 2)) \<and>
   intended_circuit 1 3 = Combined_26 1 3"
  using verify_state_proof_key [of "[[1]]" "[[2]]" "[[3], [3], [3]]" "[[4], [5], [6]]" sample_groth16 CompressedProof_default]
  by (simp add: chosen_circuit_def intended_circuit_def numeral_2_eq_2)

end
