(* ===== verification/System_Program.thy ===== *)
theory System_Program
  imports Verifier
begin

text \<open>
  The system program (\<open>programs/system/src\<close>): the checks of a compressed transaction, the compression of
  lamports, the calls of the account compression program that insert addresses, nullifiers and output leaves, and the
  CPI context that joins the instructions of several programs.  The remaining accounts of an instruction are their
  keys; the accounts themselves are in the ledger.
\<close>


section \<open>The environment\<close>

text \<open>
  Besides the runtime: the ids of the two programs, the proof verifier, the Borsh decoder of the instruction
  \<open>append_leaves_to_merkle_trees\<close> and the encoder of an output account, whether a CPI context still fits into its
  account, and what the bytes of an account of some other program look like when they carry the discriminator of a
  tree account.
\<close>

record CompressedCpiContext =
  cc_set_context :: bool
  cc_first_set_context :: bool
  cc_cpi_context_account_index :: byte

record InstructionDataInvokeCpi =
  idc_proof :: "CompressedProof option"
  idc_new_address_params :: "NewAddressParamsPacked list"
  idc_input_compressed_accounts_with_merkle_context :: "PackedCompressedAccountWithMerkleContext list"
  idc_output_compressed_accounts :: "OutputCompressedAccountWithPackedContext list"
  idc_relay_fee :: "nat option"
  idc_compress_or_decompress_lamports :: "nat option"
  idc_is_compress :: bool
  idc_signer_seeds :: "bytes list"
  idc_cpi_context :: "CompressedCpiContext option"

record CpiContextAccount =
  cca_fee_payer :: pubkey
  cca_associated_merkle_tree :: pubkey
  cca_context :: "InstructionDataInvokeCpi list"

record SystemEnv =
  sys_env :: Env
  system_program_id :: pubkey
  account_compression_id :: pubkey
  groth16 :: Groth16
  decode_append_leaves :: "bytes \<Rightarrow> (byte \<times> bytes) list option"
  serialize_output_account :: "OutputCompressedAccountWithPackedContext \<Rightarrow> bytes"
  cpi_context_fits :: "CpiContextAccount \<Rightarrow> bool"
  forged_state_tree :: "pubkey \<Rightarrow> ConcurrentMerkleTree option"
  forged_address_tree :: "pubkey \<Rightarrow> IndexedMerkleTree option"

text \<open>Borsh: a vector is its length in four bytes followed by its elements, after the tag of the instruction.\<close>

definition append_leaves_data :: "(byte \<times> bytes) list \<Rightarrow> bytes" where
  "append_leaves_data leaves =
     [199, 144, 10, 82, 247, 142, 143, 7] @ le_bytes 4 (length leaves) @ concat (map (\<lambda>(i, h). i # h) leaves)"

definition decode_law :: "SystemEnv \<Rightarrow> bool" where
  "decode_law S \<longleftrightarrow> (\<forall>leaves. length leaves < 2 ^ 32 \<longrightarrow> (\<forall>x \<in> set leaves. length (snd x) = 32) \<longrightarrow>
     decode_append_leaves S (append_leaves_data leaves) = Some leaves)"

record InvokeInstruction =
  ii_fee_payer :: pubkey
  ii_authority :: pubkey
  ii_registered_program_pda :: pubkey
  ii_noop_program :: pubkey
  ii_account_compression_authority :: pubkey
  ii_sol_pool_pda :: "pubkey option"
  ii_decompression_recipient :: "pubkey option"
  ii_remaining_accounts :: "pubkey list"

record InvokeCpiInstruction =
  ic_invoke :: InvokeInstruction
  ic_invoking_program :: pubkey
  ic_cpi_context_account :: "pubkey option"

definition SOL_POOL_PDA_SEED :: bytes where
  "SOL_POOL_PDA_SEED = [115, 111, 108, 95, 112, 111, 111, 108, 95, 112, 100, 97]"

definition CPI_AUTHORITY_PDA_BUMP :: byte where "CPI_AUTHORITY_PDA_BUMP = 255"

definition get_registered_program_pda :: "SystemEnv \<Rightarrow> pubkey \<Rightarrow> pubkey" where
  "get_registered_program_pda S program_id = find_program_address (sys_env S) [program_id] (account_compression_id S)"

definition get_cpi_authority_pda :: "SystemEnv \<Rightarrow> pubkey \<Rightarrow> pubkey" where
  "get_cpi_authority_pda S program_id = find_program_address (sys_env S) [CPI_AUTHORITY_PDA_SEED] program_id"

definition get_sol_pool_pda :: "SystemEnv \<Rightarrow> pubkey" where
  "get_sol_pool_pda S = find_program_address (sys_env S) [SOL_POOL_PDA_SEED] (system_program_id S)"

text \<open>The constraints \<open>seeds\<close> of the accounts of an instruction.\<close>

definition check_invoke_accounts :: "SystemEnv \<Rightarrow> InvokeInstruction \<Rightarrow> (system_error, unit) result" where
  "check_invoke_accounts S ctx =
     (if ii_registered_program_pda ctx = get_registered_program_pda S (system_program_id S) \<and>
         ii_account_compression_authority ctx = get_cpi_authority_pda S (system_program_id S) \<and>
         (case ii_sol_pool_pda ctx of None \<Rightarrow> True | Some k \<Rightarrow> k = get_sol_pool_pda S)
      then Ok () else Err AccountError)"

text \<open>\<open>invoke_signed\<close>: the authority has to be the address that the runtime derives from the seeds.\<close>

definition cpi_signed :: "SystemEnv \<Rightarrow> pubkey \<Rightarrow> (system_error, unit) result" where
  "cpi_signed S authority =
     (if create_program_address (sys_env S) [CPI_AUTHORITY_PDA_SEED, [CPI_AUTHORITY_PDA_BUMP]] (system_program_id S) =
         Some authority
      then Ok () else Err (SysRuntimeError 0))"


section \<open>Sum check and compression of lamports\<close>

definition sum_check ::
  "PackedCompressedAccountWithMerkleContext list \<Rightarrow> OutputCompressedAccountWithPackedContext list \<Rightarrow> nat option \<Rightarrow>
     nat option \<Rightarrow> bool \<Rightarrow> (system_error, unit) result" where
  "sum_check inputs outputs relay_fee compress_or_decompress_lamports is_compress =
     and_then (try_fold (\<lambda>sum a.
         if pca_read_only a then Panic
         else ok_or (checked_add sum (ca_lamports (pca_compressed_account a))) (SysError ComputeInputSumFailed)) 0 inputs) (\<lambda>sum.
     and_then (case compress_or_decompress_lamports of
         Some lamports \<Rightarrow>
           if is_compress then ok_or (checked_add sum lamports) (SysError ComputeOutputSumFailed)
           else ok_or (checked_sub sum lamports) (SysError ComputeOutputSumFailed)
       | None \<Rightarrow> Ok sum) (\<lambda>sum.
     and_then (try_fold (\<lambda>sum a.
         ok_or (checked_sub sum (ca_lamports (oca_compressed_account a))) (SysError ComputeOutputSumFailed)) sum outputs) (\<lambda>sum.
     and_then (case relay_fee of
         Some relay_fee \<Rightarrow> ok_or (checked_sub sum relay_fee) (SysError ComputeRpcSumFailed)
       | None \<Rightarrow> Ok sum) (\<lambda>sum.
     if sum = 0 then Ok () else Err (SysError SumCheckFailed)))))"

text \<open>\<open>sol_compression::transfer_lamports\<close>, signed by the pool.\<close>

definition sol_pool_transfer :: "SystemEnv \<Rightarrow> ledger \<Rightarrow> pubkey \<Rightarrow> pubkey \<Rightarrow> nat \<Rightarrow> (system_error, ledger) result" where
  "sol_pool_transfer S l from to lamports = map_err SysRuntimeError (system_transfer (sys_env S) l from to lamports)"

definition decompress_lamports ::
  "SystemEnv \<Rightarrow> ledger \<Rightarrow> InstructionDataInvoke \<Rightarrow> InvokeInstruction \<Rightarrow> (system_error, ledger) result" where
  "decompress_lamports S l inputs ctx =
     and_then (ok_or (ii_decompression_recipient ctx) (SysError DecompressRecipientUndefinedForDecompressSol)) (\<lambda>recipient.
     and_then (ok_or (ii_sol_pool_pda ctx) (SysError CompressedSolPdaUndefinedForDecompressSol)) (\<lambda>sol_pool_pda.
     and_then (ok_or (idi_compress_or_decompress_lamports inputs) (SysError DeCompressLamportsUndefinedForDecompressSol)) (\<lambda>lamports.
     sol_pool_transfer S l sol_pool_pda recipient lamports)))"

definition compress_lamports ::
  "SystemEnv \<Rightarrow> ledger \<Rightarrow> InstructionDataInvoke \<Rightarrow> InvokeInstruction \<Rightarrow> (system_error, ledger) result" where
  "compress_lamports S l inputs ctx =
     and_then (ok_or (ii_sol_pool_pda ctx) (SysError CompressedSolPdaUndefinedForCompressSol)) (\<lambda>recipient.
     and_then (ok_or (idi_compress_or_decompress_lamports inputs) (SysError DeCompressLamportsUndefinedForCompressSol)) (\<lambda>lamports.
     map_err CompressionError (transfer_lamports_cpi (sys_env S) l (ii_fee_payer ctx) recipient lamports)))"

definition compress_or_decompress_lamports ::
  "SystemEnv \<Rightarrow> ledger \<Rightarrow> InstructionDataInvoke \<Rightarrow> InvokeInstruction \<Rightarrow> (system_error, ledger) result" where
  "compress_or_decompress_lamports S l inputs ctx =
     (if idi_is_compress inputs then compress_lamports S l inputs ctx else decompress_lamports S l inputs ctx)"

text \<open>The second step of \<open>process\<close>.\<close>

definition process_compression ::
  "SystemEnv \<Rightarrow> ledger \<Rightarrow> InstructionDataInvoke \<Rightarrow> InvokeInstruction \<Rightarrow> (system_error, ledger) result" where
  "process_compression S l inputs ctx =
     (if idi_compress_or_decompress_lamports inputs \<noteq> None then
        if idi_is_compress inputs \<and> ii_decompression_recipient ctx \<noteq> None
        then Err (SysError DecompressionRecipientDefined)
        else compress_or_decompress_lamports S l inputs ctx
      else if ii_decompression_recipient ctx \<noteq> None then Err (SysError DecompressionRecipientDefined)
      else if ii_sol_pool_pda ctx \<noteq> None then Err (SysError SolPoolPdaDefined)
      else Ok l)"


section \<open>Signer and ownership checks\<close>

text \<open>\<open>invoke/verify_signer.rs\<close> and \<open>invoke_cpi/verify_signer.rs\<close>.\<close>

definition input_compressed_accounts_signer_check ::
  "PackedCompressedAccountWithMerkleContext list \<Rightarrow> pubkey \<Rightarrow> (system_error, unit) result" where
  "input_compressed_accounts_signer_check inputs authority =
     try_fold (\<lambda>_ a.
       if ca_owner (pca_compressed_account a) = authority \<and> ca_data (pca_compressed_account a) = None then Ok ()
       else Err (SysError SignerCheckFailed)) () inputs"

definition cpi_signer_check :: "SystemEnv \<Rightarrow> bytes list \<Rightarrow> pubkey \<Rightarrow> pubkey \<Rightarrow> (system_error, unit) result" where
  "cpi_signer_check S signer_seeds invoking_program authority =
     (case create_program_address (sys_env S) signer_seeds invoking_program of
        None \<Rightarrow> Err (SysRuntimeError 1)
      | Some derived_signer \<Rightarrow> if derived_signer \<noteq> authority then Err (SysError CpiSignerCheckFailed) else Ok ())"

definition cpi_input_compressed_accounts_signer_check ::
  "PackedCompressedAccountWithMerkleContext list \<Rightarrow> pubkey \<Rightarrow> (system_error, unit) result" where
  "cpi_input_compressed_accounts_signer_check inputs invoking_program_id =
     try_fold (\<lambda>_ a.
       if invoking_program_id = ca_owner (pca_compressed_account a) then Ok () else Err (SysError SignerCheckFailed)) () inputs"

definition output_compressed_accounts_write_access_check ::
  "OutputCompressedAccountWithPackedContext list \<Rightarrow> pubkey \<Rightarrow> (system_error, unit) result" where
  "output_compressed_accounts_write_access_check outputs invoking_program_id =
     try_fold (\<lambda>_ a.
       if ca_data (oca_compressed_account a) \<noteq> None \<and> ca_owner (oca_compressed_account a) \<noteq> invoking_program_id
       then Err (SysError WriteAccessCheckFailed)
       else if ca_data (oca_compressed_account a) = None \<and> ca_owner (oca_compressed_account a) = invoking_program_id
       then Err (SysError DataFieldUndefined)
       else Ok ()) () outputs"

definition cpi_signer_checks ::
  "SystemEnv \<Rightarrow> pubkey \<Rightarrow> pubkey \<Rightarrow> bytes list \<Rightarrow> PackedCompressedAccountWithMerkleContext list \<Rightarrow>
     OutputCompressedAccountWithPackedContext list \<Rightarrow> (system_error, unit) result" where
  "cpi_signer_checks S invoking_programid authority signer_seeds inputs outputs =
     and_then (cpi_signer_check S signer_seeds invoking_programid authority) (\<lambda>_.
     and_then (cpi_input_compressed_accounts_signer_check inputs invoking_programid) (\<lambda>_.
     output_compressed_accounts_write_access_check outputs invoking_programid))"

text \<open>
  \<open>check_discriminator\<close> and the zero-copy view: the discriminator says nothing about the program that owns
  the account.
\<close>

definition view_state_tree :: "SystemEnv \<Rightarrow> ledger \<Rightarrow> pubkey \<Rightarrow> (system_error, ConcurrentMerkleTree) result" where
  "view_state_tree S l k =
     and_then (case acc_data (l k) of
         StateMerkleTreeAccount _ t \<Rightarrow> Ok t
       | Foreign \<Rightarrow> ok_or (forged_state_tree S k) AccountError
       | _ \<Rightarrow> Err AccountError) (\<lambda>t.
     map_err CompressionError (state_merkle_tree_from_bytes_zero_copy t))"

definition view_address_tree :: "SystemEnv \<Rightarrow> ledger \<Rightarrow> pubkey \<Rightarrow> (system_error, IndexedMerkleTree) result" where
  "view_address_tree S l k =
     and_then (case acc_data (l k) of
         AddressMerkleTreeAccount _ t \<Rightarrow> Ok t
       | Foreign \<Rightarrow> ok_or (forged_address_tree S k) AccountError
       | _ \<Rightarrow> Err AccountError) (\<lambda>t.
     map_err CompressionError (address_merkle_tree_from_bytes_zero_copy t))"

definition try_into_u32 :: "nat \<Rightarrow> nat option" where
  "try_into_u32 n = (if n < 2 ^ 32 then Some n else None)"

definition network_fee_of :: "MerkleTreeMetadata \<Rightarrow> nat option" where
  "network_fee_of m =
     (if rm_network_fee (mtm_rollover_metadata m) \<noteq> 0 then Some (rm_network_fee (mtm_rollover_metadata m)) else None)"

definition check_program_owner_state_merkle_tree ::
  "SystemEnv \<Rightarrow> ledger \<Rightarrow> pubkey \<Rightarrow> pubkey option \<Rightarrow> (system_error, nat \<times> nat option \<times> nat) result" where
  "check_program_owner_state_merkle_tree S l k invoking_program =
     and_then (view_state_tree S l k) (\<lambda>t.
     and_then (add_u64 (cmt_sequence_number t) 1) (\<lambda>seq.
     and_then (unwrap_or_panic (try_into_u32 (cmt_next_index t))) (\<lambda>next_index.
     case acc_data (l k) of
       StateMerkleTreeAccount m _ \<Rightarrow>
         let network_fee = network_fee_of m; program_owner = am_program_owner (mtm_access_metadata m) in
         if program_owner \<noteq> default_pubkey then
           if invoking_program = Some program_owner then Ok (next_index, network_fee, seq)
           else Err (SysError InvalidMerkleTreeOwner)
         else Ok (next_index, network_fee, seq)
     | _ \<Rightarrow> Panic)))"

definition check_program_owner_address_merkle_tree ::
  "SystemEnv \<Rightarrow> ledger \<Rightarrow> pubkey \<Rightarrow> pubkey option \<Rightarrow> (system_error, nat option) result" where
  "check_program_owner_address_merkle_tree S l k invoking_program =
     (case acc_data (l k) of
        AddressMerkleTreeAccount m _ \<Rightarrow>
          let network_fee = network_fee_of m; program_owner = am_program_owner (mtm_access_metadata m) in
          if program_owner \<noteq> default_pubkey then
            if invoking_program = Some program_owner then Ok network_fee else Err (SysError InvalidMerkleTreeOwner)
          else Ok network_fee
      | _ \<Rightarrow> Panic)"


section \<open>Input accounts\<close>

text \<open>A loop that fills a vector of the length of its input.\<close>

fun try_map :: "('a \<Rightarrow> ('e, 'b) result) \<Rightarrow> 'a list \<Rightarrow> ('e, 'b list) result" where
  "try_map f [] = Ok []"
| "try_map f (x # xs) = and_then (f x) (\<lambda>y. and_then (try_map f xs) (\<lambda>ys. Ok (y # ys)))"

definition fetch_input_compressed_account_roots ::
  "SystemEnv \<Rightarrow> ledger \<Rightarrow> PackedCompressedAccountWithMerkleContext list \<Rightarrow> pubkey list \<Rightarrow> (system_error, bytes list) result" where
  "fetch_input_compressed_account_roots S l inputs remaining_accounts =
     try_map (\<lambda>a.
       and_then (index remaining_accounts (unat (pmc_merkle_tree_pubkey_index (pca_merkle_context a)))) (\<lambda>k.
       and_then (view_state_tree S l k) (\<lambda>t.
       CyclicBoundedVec_index (cmt_roots t) (pca_root_index a)))) inputs"

definition fetch_roots_address_merkle_tree ::
  "SystemEnv \<Rightarrow> ledger \<Rightarrow> NewAddressParamsPacked list \<Rightarrow> pubkey list \<Rightarrow> (system_error, bytes list) result" where
  "fetch_roots_address_merkle_tree S l new_address_params remaining_accounts =
     try_map (\<lambda>p.
       and_then (index remaining_accounts (unat (nap_address_merkle_tree_account_index p))) (\<lambda>k.
       and_then (view_address_tree S l k) (\<lambda>t.
       CyclicBoundedVec_index (cmt_roots (imt_merkle_tree t)) (nap_address_merkle_tree_root_index p)))) new_address_params"

type_synonym hashed_pubkeys = "(pubkey \<times> bytes) list"

text \<open>The hash of a key, from the list of hashed keys when it is there, otherwise computed and added.\<close>

definition cached_hash :: "Env \<Rightarrow> hashed_pubkeys \<Rightarrow> pubkey \<Rightarrow> (system_error, bytes \<times> hashed_pubkeys) result" where
  "cached_hash E hashed_pubkeys k =
     (case map_of hashed_pubkeys k of
        Some h \<Rightarrow> Ok (h, hashed_pubkeys)
      | None \<Rightarrow> and_then (hash_pubkey E k) (\<lambda>h. Ok (h, hashed_pubkeys @ [(k, h)])))"

record InputState =
  in_leaves :: "bytes list"
  in_addresses :: "bytes option list"
  in_hashed_pubkeys :: hashed_pubkeys
  in_owner_pubkey :: pubkey
  in_hashed_owner :: bytes
  in_current_mt_index :: int
  in_current_hashed_mt :: bytes

text \<open>One iteration of \<open>hash_input_compressed_accounts\<close>.\<close>

definition hash_input ::
  "Env \<Rightarrow> pubkey list \<Rightarrow> InputState \<Rightarrow> nat \<times> PackedCompressedAccountWithMerkleContext \<Rightarrow> (system_error, InputState) result" where
  "hash_input E remaining_accounts st = (\<lambda>(j, input).
     let a = pca_compressed_account input; context = pca_merkle_context input;
         mt_index = pmc_merkle_tree_pubkey_index context in
     and_then (case ca_address a of
         Some address \<Rightarrow> write_at (in_addresses st) j (Some address)
       | None \<Rightarrow> Ok (in_addresses st)) (\<lambda>addresses.
     if pmc_queue_index context \<noteq> None then Panic
     else
     and_then (if in_current_mt_index st \<noteq> int (unat mt_index) then
         and_then (index remaining_accounts (unat mt_index)) (\<lambda>merkle_tree_pubkey.
         cached_hash E (in_hashed_pubkeys st) merkle_tree_pubkey)
       else Ok (in_current_hashed_mt st, in_hashed_pubkeys st)) (\<lambda>(current_hashed_mt, hashed_pubkeys).
     and_then (if in_owner_pubkey st \<noteq> ca_owner a then cached_hash E hashed_pubkeys (ca_owner a)
       else Ok (in_hashed_owner st, hashed_pubkeys)) (\<lambda>(hashed_owner, hashed_pubkeys).
     and_then (CompressedAccount_hash_with_hashed_values (poseidon E) a hashed_owner current_hashed_mt
         (pmc_leaf_index context)) (\<lambda>leaf.
     and_then (write_at (in_leaves st) j leaf) (\<lambda>leaves.
     Ok \<lparr>in_leaves = leaves, in_addresses = addresses, in_hashed_pubkeys = hashed_pubkeys,
         in_owner_pubkey = ca_owner a, in_hashed_owner = hashed_owner, in_current_mt_index = int (unat mt_index),
         in_current_hashed_mt = current_hashed_mt\<rparr>))))))"

definition hash_input_compressed_accounts ::
  "Env \<Rightarrow> pubkey list \<Rightarrow> PackedCompressedAccountWithMerkleContext list \<Rightarrow> bytes list \<Rightarrow> bytes option list \<Rightarrow>
     hashed_pubkeys \<Rightarrow> (system_error, bytes list \<times> bytes option list \<times> hashed_pubkeys) result" where
  "hash_input_compressed_accounts E remaining_accounts inputs leaves addresses hashed_pubkeys =
     and_then (index inputs 0) (\<lambda>first.
     let owner_pubkey = ca_owner (pca_compressed_account first) in
     and_then (hash_pubkey E owner_pubkey) (\<lambda>hashed_owner.
     and_then (try_fold (hash_input E remaining_accounts)
         \<lparr>in_leaves = leaves, in_addresses = addresses, in_hashed_pubkeys = hashed_pubkeys @ [(owner_pubkey, hashed_owner)],
          in_owner_pubkey = owner_pubkey, in_hashed_owner = hashed_owner, in_current_mt_index = - 1,
          in_current_hashed_mt = replicate 32 0\<rparr>
         (enumerate 0 inputs)) (\<lambda>st.
     Ok (in_leaves st, in_addresses st, in_hashed_pubkeys st))))"


section \<open>New addresses and nullifiers\<close>

definition derive_new_addresses ::
  "Env \<Rightarrow> NewAddressParamsPacked list \<Rightarrow> nat \<Rightarrow> pubkey list \<Rightarrow> bytes option list \<Rightarrow> bytes list \<Rightarrow>
     (system_error, bytes option list \<times> bytes list) result" where
  "derive_new_addresses E new_address_params num_input_compressed_accounts remaining_accounts compressed_account_addresses
     new_addresses =
     try_fold (\<lambda>(compressed_account_addresses, new_addresses) (i, p).
       and_then (index remaining_accounts (unat (nap_address_merkle_tree_account_index p))) (\<lambda>k.
       and_then (derive_address E k (nap_seed p)) (\<lambda>address.
       and_then (write_at compressed_account_addresses (i + num_input_compressed_accounts) (Some address)) (\<lambda>caa.
       and_then (write_at new_addresses i address) (\<lambda>na. Ok (caa, na))))))
       (compressed_account_addresses, new_addresses) (enumerate 0 new_address_params)"

text \<open>The first network fee found is paid, to the queue it was found with.\<close>

definition select_fee :: "(byte \<times> nat) option \<Rightarrow> byte \<Rightarrow> nat option \<Rightarrow> (byte \<times> nat) option" where
  "select_fee bundle queue_index network_fee =
     (case (bundle, network_fee) of (None, Some fee) \<Rightarrow> Some (queue_index, fee) | _ \<Rightarrow> bundle)"

definition queues_context :: "InvokeInstruction \<Rightarrow> pubkey list \<Rightarrow> InsertIntoQueues" where
  "queues_context ctx remaining_accounts =
     \<lparr>iq_fee_payer = ii_fee_payer ctx, iq_authority = ii_account_compression_authority ctx,
      iq_registered_program_pda = Some (ii_registered_program_pda ctx), iq_remaining_accounts = remaining_accounts\<rparr>"

definition insert_addresses_cpi ::
  "SystemEnv \<Rightarrow> ledger \<Rightarrow> InvokeInstruction \<Rightarrow> pubkey list \<Rightarrow> bytes list \<Rightarrow> (system_error, ledger) result" where
  "insert_addresses_cpi S l ctx remaining_accounts addresses =
     and_then (cpi_signed S (ii_account_compression_authority ctx)) (\<lambda>_.
     map_err CompressionError (insert_addresses (sys_env S) l (queues_context ctx remaining_accounts) addresses))"

definition insert_addresses_into_address_merkle_tree_queue ::
  "SystemEnv \<Rightarrow> ledger \<Rightarrow> InvokeInstruction \<Rightarrow> bytes list \<Rightarrow> NewAddressParamsPacked list \<Rightarrow> pubkey option \<Rightarrow>
     (system_error, ledger \<times> (byte \<times> nat) option) result" where
  "insert_addresses_into_address_merkle_tree_queue S l ctx addresses new_address_params invoking_program =
     and_then (try_fold (\<lambda>(remaining_accounts, network_fee_bundle) p.
         and_then (index (ii_remaining_accounts ctx) (unat (nap_address_queue_account_index p))) (\<lambda>queue.
         and_then (index (ii_remaining_accounts ctx) (unat (nap_address_merkle_tree_account_index p))) (\<lambda>merkle_tree.
         and_then (check_program_owner_address_merkle_tree S l merkle_tree invoking_program) (\<lambda>network_fee.
         Ok (remaining_accounts @ [queue, merkle_tree],
             select_fee network_fee_bundle (nap_address_queue_account_index p) network_fee)))))
         ([], None) new_address_params) (\<lambda>(remaining_accounts, network_fee_bundle).
     and_then (insert_addresses_cpi S l ctx remaining_accounts addresses) (\<lambda>l.
     Ok (l, network_fee_bundle)))"

definition insert_nullifiers ::
  "SystemEnv \<Rightarrow> ledger \<Rightarrow> InstructionDataInvoke \<Rightarrow> InvokeInstruction \<Rightarrow> bytes list \<Rightarrow> pubkey option \<Rightarrow>
     (system_error, ledger \<times> (byte \<times> nat) option) result" where
  "insert_nullifiers S l inputs ctx nullifiers invoking_program =
     and_then (try_fold (\<lambda>(accounts, network_fee_bundle) a.
         let context = pca_merkle_context a in
         and_then (index (ii_remaining_accounts ctx) (unat (pmc_nullifier_queue_pubkey_index context))) (\<lambda>queue.
         and_then (index (ii_remaining_accounts ctx) (unat (pmc_merkle_tree_pubkey_index context))) (\<lambda>merkle_tree.
         and_then (check_program_owner_state_merkle_tree S l merkle_tree invoking_program) (\<lambda>(_, network_fee, _).
         Ok (accounts @ [queue, merkle_tree],
             select_fee network_fee_bundle (pmc_nullifier_queue_pubkey_index context) network_fee)))))
         ([], None) (idi_input_compressed_accounts_with_merkle_context inputs)) (\<lambda>(accounts, network_fee_bundle).
     and_then (cpi_signed S (ii_account_compression_authority ctx)) (\<lambda>_.
     and_then (map_err CompressionError
         (insert_into_nullifier_queues (sys_env S) l (queues_context ctx accounts) nullifiers)) (\<lambda>l.
     Ok (l, network_fee_bundle))))"

text \<open>The network fee goes from the fee payer to the account with the selected index.\<close>

definition pay_network_fee ::
  "SystemEnv \<Rightarrow> ledger \<Rightarrow> InvokeInstruction \<Rightarrow> (byte \<times> nat) option \<Rightarrow> (system_error, ledger) result" where
  "pay_network_fee S l ctx network_fee_bundle =
     (case network_fee_bundle of
        None \<Rightarrow> Ok l
      | Some (remaining_account_index, network_fee) \<Rightarrow>
          and_then (index (ii_remaining_accounts ctx) (unat remaining_account_index)) (\<lambda>k.
          map_err CompressionError (transfer_lamports_cpi (sys_env S) l (ii_fee_payer ctx) k network_fee)))"


section \<open>Output accounts\<close>

record MerkleTreeSequenceNumber =
  ts_pubkey :: pubkey
  ts_seq :: nat

text \<open>\<open>Vec::remove\<close> panics when the index is out of range.\<close>

definition vec_remove :: "'a list \<Rightarrow> nat \<Rightarrow> ('e, 'a list) result" where
  "vec_remove xs i = (if i < length xs then Ok (take i xs @ drop (Suc i) xs) else Panic)"

definition add_u8 :: "nat \<Rightarrow> nat \<Rightarrow> ('e, nat) result" where
  "add_u8 a b = (if a + b < 256 then Ok (a + b) else Panic)"

text \<open>The variables of the loop of \<open>create_cpi_accounts_and_instruction_data\<close>.\<close>

record OutputState =
  out_current_index :: int
  out_num_leaves_in_tree :: nat
  out_mt_next_index :: nat
  out_hashed_merkle_tree :: bytes
  out_index_merkle_tree_account :: nat
  out_merkle_tree_pubkeys :: "pubkey list"
  out_instruction_data :: bytes
  out_indices :: "nat list"
  out_hashes :: "bytes list"
  out_addresses :: "bytes option list"
  out_hashed_pubkeys :: hashed_pubkeys
  out_sequence_numbers :: "MerkleTreeSequenceNumber list"
  out_accounts :: "pubkey list"

text \<open>Check 1 and 2: a new tree is added, the indices of the trees must not decrease.\<close>

definition select_output_tree ::
  "SystemEnv \<Rightarrow> ledger \<Rightarrow> pubkey list \<Rightarrow> pubkey option \<Rightarrow> OutputState \<Rightarrow> byte \<Rightarrow> (system_error, OutputState) result" where
  "select_output_tree S l remaining_accounts invoking_program st merkle_tree_index =
     (if int (unat merkle_tree_index) = out_current_index st then Ok st
      else if int (unat merkle_tree_index) > out_current_index st then
        and_then (index remaining_accounts (unat merkle_tree_index)) (\<lambda>k.
        and_then (check_program_owner_state_merkle_tree S l k invoking_program) (\<lambda>(mt_next_index, _, seq).
        and_then (case map_of (out_hashed_pubkeys st) k of
            Some h \<Rightarrow> Ok h
          | None \<Rightarrow> hash_pubkey (sys_env S) k) (\<lambda>hashed_merkle_tree.
        if k \<in> set (out_merkle_tree_pubkeys st) then Err (SysError OutputMerkleTreeNotUnique)
        else
          and_then (add_u8 (out_index_merkle_tree_account st) 1) (\<lambda>index_merkle_tree_account.
          Ok (st\<lparr>out_current_index := int (unat merkle_tree_index), out_num_leaves_in_tree := 0,
                 out_mt_next_index := mt_next_index, out_hashed_merkle_tree := hashed_merkle_tree,
                 out_index_merkle_tree_account := index_merkle_tree_account,
                 out_merkle_tree_pubkeys := out_merkle_tree_pubkeys st @ [k],
                 out_sequence_numbers := out_sequence_numbers st @ [\<lparr>ts_pubkey = k, ts_seq = seq\<rparr>],
                 out_accounts := out_accounts st @ [k]\<rparr>)))))
      else Err (SysError OutputMerkleTreeIndicesNotInOrder))"

text \<open>
  Check 3: the address of an output is a new address or the address of an input.  The position is counted among
  the accounts that have an address, and then used in the list of all accounts.
\<close>

definition use_address :: "bytes option list \<Rightarrow> bytes option \<Rightarrow> (system_error, bytes option list) result" where
  "use_address compressed_account_addresses address =
     (case address of
        None \<Rightarrow> Ok compressed_account_addresses
      | Some address \<Rightarrow>
          (case position (\<lambda>x. x = Some address) (filter (\<lambda>x. x \<noteq> None) compressed_account_addresses) of
             Some pos \<Rightarrow> vec_remove compressed_account_addresses pos
           | None \<Rightarrow> Err (SysError InvalidAddress)))"

definition append_output ::
  "SystemEnv \<Rightarrow> ledger \<Rightarrow> pubkey list \<Rightarrow> pubkey option \<Rightarrow> OutputState \<Rightarrow>
     nat \<times> OutputCompressedAccountWithPackedContext \<Rightarrow> (system_error, OutputState) result" where
  "append_output S l remaining_accounts invoking_program st = (\<lambda>(j, account).
     let a = oca_compressed_account account in
     and_then (select_output_tree S l remaining_accounts invoking_program st (oca_merkle_tree_index account)) (\<lambda>st.
     and_then (use_address (out_addresses st) (ca_address a)) (\<lambda>addresses.
     and_then (add_u32 (out_mt_next_index st) (out_num_leaves_in_tree st)) (\<lambda>leaf_index.
     and_then (write_at (out_indices st) j leaf_index) (\<lambda>indices.
     and_then (add_u32 (out_num_leaves_in_tree st) 1) (\<lambda>num_leaves_in_tree.
     if ca_data a \<noteq> None \<and> invoking_program = None then Err (SysError InvokingProgramNotProvided)
     else
       and_then (cached_hash (sys_env S) (out_hashed_pubkeys st) (ca_owner a)) (\<lambda>(hashed_owner, hashed_pubkeys).
       and_then (CompressedAccount_hash_with_hashed_values (poseidon (sys_env S)) a hashed_owner
           (out_hashed_merkle_tree st) leaf_index) (\<lambda>hash.
       and_then (write_at (out_hashes st) j hash) (\<lambda>hashes.
       and_then (sub_u64 (out_index_merkle_tree_account st) 1) (\<lambda>i.
       Ok (st\<lparr>out_num_leaves_in_tree := num_leaves_in_tree, out_indices := indices, out_hashes := hashes,
              out_addresses := addresses, out_hashed_pubkeys := hashed_pubkeys,
              out_instruction_data := out_instruction_data st @ [of_nat i] @ hash\<rparr>)))))))))))"

definition create_cpi_accounts_and_instruction_data ::
  "SystemEnv \<Rightarrow> ledger \<Rightarrow> OutputCompressedAccountWithPackedContext list \<Rightarrow> nat list \<Rightarrow> bytes list \<Rightarrow> bytes option list \<Rightarrow>
     pubkey option \<Rightarrow> hashed_pubkeys \<Rightarrow> pubkey list \<Rightarrow> (system_error, OutputState) result" where
  "create_cpi_accounts_and_instruction_data S l output_compressed_accounts output_compressed_account_indices
     output_compressed_account_hashes compressed_account_addresses invoking_program hashed_pubkeys remaining_accounts =
     (if output_compressed_accounts = [] then Panic
      else
        try_fold (append_output S l remaining_accounts invoking_program)
          \<lparr>out_current_index = - 1, out_num_leaves_in_tree = 0, out_mt_next_index = 0,
           out_hashed_merkle_tree = replicate 32 0, out_index_merkle_tree_account = 0, out_merkle_tree_pubkeys = [],
           out_instruction_data = [199, 144, 10, 82, 247, 142, 143, 7] @
             le_bytes 4 (length output_compressed_account_hashes),
           out_indices = output_compressed_account_indices, out_hashes = output_compressed_account_hashes,
           out_addresses = compressed_account_addresses, out_hashed_pubkeys = hashed_pubkeys,
           out_sequence_numbers = [], out_accounts = []\<rparr>
          (enumerate 0 output_compressed_accounts))"

definition insert_output_compressed_accounts_into_state_merkle_tree ::
  "SystemEnv \<Rightarrow> ledger \<Rightarrow> InvokeInstruction \<Rightarrow> OutputCompressedAccountWithPackedContext list \<Rightarrow> nat list \<Rightarrow> bytes list \<Rightarrow>
     bytes option list \<Rightarrow> pubkey option \<Rightarrow> hashed_pubkeys \<Rightarrow> (system_error, ledger \<times> OutputState) result" where
  "insert_output_compressed_accounts_into_state_merkle_tree S l ctx output_compressed_accounts
     output_compressed_account_indices output_compressed_account_hashes compressed_account_addresses invoking_program
     hashed_pubkeys =
     and_then (create_cpi_accounts_and_instruction_data S l output_compressed_accounts output_compressed_account_indices
         output_compressed_account_hashes compressed_account_addresses invoking_program hashed_pubkeys
         (ii_remaining_accounts ctx)) (\<lambda>st.
     and_then (cpi_signed S (ii_account_compression_authority ctx)) (\<lambda>_.
     and_then (ok_or (decode_append_leaves S (out_instruction_data st)) AccountError) (\<lambda>leaves.
     and_then (map_err CompressionError (process_append_leaves_to_merkle_trees (sys_env S) l
         \<lparr>al_fee_payer = ii_fee_payer ctx, al_authority = ii_account_compression_authority ctx,
          al_registered_program_pda = Some (ii_registered_program_pda ctx), al_remaining_accounts = out_accounts st\<rparr>
         leaves)) (\<lambda>l.
     Ok (l, st)))))"


section \<open>The event\<close>

record PublicTransactionEvent =
  ev_input_compressed_account_hashes :: "bytes list"
  ev_output_compressed_account_hashes :: "bytes list"
  ev_output_compressed_accounts :: "OutputCompressedAccountWithPackedContext list"
  ev_output_leaf_indices :: "nat list"
  ev_sequence_numbers :: "MerkleTreeSequenceNumber list"
  ev_relay_fee :: "nat option"
  ev_is_compress :: bool
  ev_compress_or_decompress_lamports :: "nat option"
  ev_pubkey_array :: "pubkey list"
  ev_message :: "bytes option"

definition write_vec :: "('a \<Rightarrow> bytes) \<Rightarrow> 'a list \<Rightarrow> bytes" where
  "write_vec f xs = le_bytes 4 (length xs) @ concat (map f xs)"

definition write_option :: "('a \<Rightarrow> bytes) \<Rightarrow> 'a option \<Rightarrow> bytes" where
  "write_option f x = (case x of Some y \<Rightarrow> 1 # f y | None \<Rightarrow> [0])"

definition man_serialize :: "(OutputCompressedAccountWithPackedContext \<Rightarrow> bytes) \<Rightarrow> PublicTransactionEvent \<Rightarrow> bytes" where
  "man_serialize serialize ev =
     write_vec (\<lambda>h. h) (ev_input_compressed_account_hashes ev) @
     write_vec (\<lambda>h. h) (ev_output_compressed_account_hashes ev) @
     write_vec serialize (ev_output_compressed_accounts ev) @
     write_vec (le_bytes 4) (ev_output_leaf_indices ev) @
     write_vec (\<lambda>s. ts_pubkey s @ le_bytes 8 (ts_seq s)) (ev_sequence_numbers ev) @
     write_option (le_bytes 8) (ev_relay_fee ev) @
     [if ev_is_compress ev then 1 else 0] @
     write_option (le_bytes 8) (ev_compress_or_decompress_lamports ev) @
     write_vec (\<lambda>k. k) (ev_pubkey_array ev) @
     write_option (\<lambda>m. le_bytes 4 (length m) @ m) (ev_message ev)"

text \<open>The vector of the serialised event grows beyond its capacity of 10240 exactly when the event is longer.\<close>

definition emit_state_transition_event ::
  "SystemEnv \<Rightarrow> InstructionDataInvoke \<Rightarrow> InvokeInstruction \<Rightarrow> bytes list \<Rightarrow> bytes list \<Rightarrow> nat list \<Rightarrow>
     MerkleTreeSequenceNumber list \<Rightarrow> (system_error, PublicTransactionEvent) result" where
  "emit_state_transition_event S inputs ctx input_compressed_account_hashes output_compressed_account_hashes
     output_leaf_indices sequence_numbers =
     (let event =
        \<lparr>ev_input_compressed_account_hashes = input_compressed_account_hashes,
         ev_output_compressed_account_hashes = output_compressed_account_hashes,
         ev_output_compressed_accounts = idi_output_compressed_accounts inputs,
         ev_output_leaf_indices = output_leaf_indices, ev_sequence_numbers = sequence_numbers,
         ev_relay_fee = idi_relay_fee inputs, ev_is_compress = idi_is_compress inputs,
         ev_compress_or_decompress_lamports = idi_compress_or_decompress_lamports inputs,
         ev_pubkey_array = ii_remaining_accounts ctx, ev_message = None\<rparr> in
      if length (man_serialize (serialize_output_account S) event) > 10240 then Err (SysError InvalidCapacity)
      else
        and_then (map_err CompressionError (emit_indexer_event (sys_env S) (ii_noop_program ctx))) (\<lambda>_.
        Ok event))"


section \<open>Processing a transaction\<close>

text \<open>
  The third and fourth step of \<open>process\<close>: the hashes of the inputs, the new addresses, the proof and the
  nullifiers.  \<open>hashed_pubkeys\<close> grows beyond its capacity exactly when it holds more keys.
\<close>

definition process_inputs ::
  "SystemEnv \<Rightarrow> ledger \<Rightarrow> InstructionDataInvoke \<Rightarrow> InvokeInstruction \<Rightarrow> nat \<Rightarrow>
     (system_error, bytes list \<times> bytes list \<times> bytes option list \<times> hashed_pubkeys) result" where
  "process_inputs S l inputs ctx hashed_pubkeys_capacity =
     (let ins = idi_input_compressed_accounts_with_merkle_context inputs; n = length ins;
          addresses = replicate (n + length (idi_new_address_params inputs)) None in
      if ins = [] then Ok ([], [], addresses, [])
      else
        and_then (hash_input_compressed_accounts (sys_env S) (ii_remaining_accounts ctx) ins
            (replicate n (replicate 32 0)) addresses []) (\<lambda>(hashes, addresses, hashed_pubkeys).
        if length hashed_pubkeys > hashed_pubkeys_capacity then Err (SysError InvalidCapacity)
        else
          and_then (fetch_input_compressed_account_roots S l ins (ii_remaining_accounts ctx)) (\<lambda>roots.
          Ok (hashes, roots, addresses, hashed_pubkeys))))"

definition process_new_addresses ::
  "SystemEnv \<Rightarrow> ledger \<Rightarrow> InstructionDataInvoke \<Rightarrow> InvokeInstruction \<Rightarrow> pubkey option \<Rightarrow> bytes option list \<Rightarrow>
     (system_error, ledger \<times> bytes list \<times> bytes list \<times> bytes option list) result" where
  "process_new_addresses S l inputs ctx invoking_program addresses =
     (let params = idi_new_address_params inputs in
      if params = [] then Ok (l, [], [], addresses)
      else
        and_then (derive_new_addresses (sys_env S) params (length (idi_input_compressed_accounts_with_merkle_context inputs))
            (ii_remaining_accounts ctx) addresses (replicate (length params) (replicate 32 0))) (\<lambda>(addresses, new_addresses).
        and_then (insert_addresses_into_address_merkle_tree_queue S l ctx new_addresses params invoking_program)
          (\<lambda>(l, network_fee_bundle).
        and_then (pay_network_fee S l ctx network_fee_bundle) (\<lambda>l.
        and_then (fetch_roots_address_merkle_tree S l params (ii_remaining_accounts ctx)) (\<lambda>new_address_roots.
        Ok (l, new_addresses, new_address_roots, addresses))))))"

definition process_nullifiers ::
  "SystemEnv \<Rightarrow> ledger \<Rightarrow> InstructionDataInvoke \<Rightarrow> InvokeInstruction \<Rightarrow> pubkey option \<Rightarrow> bytes list \<Rightarrow> (system_error, ledger) result" where
  "process_nullifiers S l inputs ctx invoking_program hashes =
     (if idi_input_compressed_accounts_with_merkle_context inputs = [] then Ok l
      else
        and_then (insert_nullifiers S l inputs ctx hashes invoking_program) (\<lambda>(l, network_fee_bundle).
        pay_network_fee S l ctx network_fee_bundle))"

definition process_proof ::
  "SystemEnv \<Rightarrow> ledger \<Rightarrow> InstructionDataInvoke \<Rightarrow> InvokeInstruction \<Rightarrow> pubkey option \<Rightarrow> nat \<Rightarrow>
     (system_error, ledger \<times> bytes list \<times> bytes option list \<times> hashed_pubkeys) result" where
  "process_proof S l inputs ctx invoking_program hashed_pubkeys_capacity =
     (let ins = idi_input_compressed_accounts_with_merkle_context inputs; params = idi_new_address_params inputs in
      if ins \<noteq> [] \<or> params \<noteq> [] then
        and_then (process_inputs S l inputs ctx hashed_pubkeys_capacity) (\<lambda>(hashes, roots, addresses, hashed_pubkeys).
        and_then (process_new_addresses S l inputs ctx invoking_program addresses)
          (\<lambda>(l, new_addresses, new_address_roots, addresses).
        and_then (ok_or (idi_proof inputs) (SysError ProofIsNone)) (\<lambda>proof.
        and_then (verify_state_proof (groth16 S) roots hashes new_address_roots new_addresses proof) (\<lambda>_.
        and_then (process_nullifiers S l inputs ctx invoking_program hashes) (\<lambda>l.
        Ok (l, hashes, addresses, hashed_pubkeys))))))
      else if idi_proof inputs \<noteq> None then Err (SysError ProofIsSome)
      else if idi_output_compressed_accounts inputs = [] then Err (SysError EmptyInputs)
      else Ok (l, [], [], []))"

text \<open>The fifth step: the output accounts.\<close>

definition process_outputs ::
  "SystemEnv \<Rightarrow> ledger \<Rightarrow> InstructionDataInvoke \<Rightarrow> InvokeInstruction \<Rightarrow> pubkey option \<Rightarrow> nat \<Rightarrow> bytes option list \<Rightarrow> hashed_pubkeys \<Rightarrow>
     (system_error, ledger \<times> nat list \<times> bytes list \<times> MerkleTreeSequenceNumber list) result" where
  "process_outputs S l inputs ctx invoking_program hashed_pubkeys_capacity addresses hashed_pubkeys =
     (let outs = idi_output_compressed_accounts inputs in
      if outs = [] then Ok (l, [], [], [])
      else
        and_then (insert_output_compressed_accounts_into_state_merkle_tree S l ctx outs (replicate (length outs) 0)
            (replicate (length outs) (replicate 32 0)) addresses invoking_program hashed_pubkeys) (\<lambda>(l, st).
        if length (out_hashed_pubkeys st) > hashed_pubkeys_capacity then Err (SysError InvalidCapacity)
        else Ok (l, out_indices st, out_hashes st, out_sequence_numbers st)))"

definition process ::
  "SystemEnv \<Rightarrow> ledger \<Rightarrow> InstructionDataInvoke \<Rightarrow> pubkey option \<Rightarrow> InvokeInstruction \<Rightarrow> nat \<Rightarrow>
     (system_error, ledger \<times> PublicTransactionEvent) result" where
  "process S l inputs invoking_program ctx cpi_context_inputs =
     (if idi_relay_fee inputs \<noteq> None then Panic
      else
        and_then (sum_check (idi_input_compressed_accounts_with_merkle_context inputs) (idi_output_compressed_accounts inputs)
            (idi_relay_fee inputs) (idi_compress_or_decompress_lamports inputs) (idi_is_compress inputs)) (\<lambda>_.
        and_then (process_compression S l inputs ctx) (\<lambda>l.
        let capacity = 1 + length (ii_remaining_accounts ctx) + length (idi_output_compressed_accounts inputs) +
              cpi_context_inputs in
        and_then (process_proof S l inputs ctx invoking_program capacity) (\<lambda>(l, hashes, addresses, hashed_pubkeys).
        and_then (process_outputs S l inputs ctx invoking_program capacity addresses hashed_pubkeys)
          (\<lambda>(l, indices, output_hashes, sequence_numbers).
        and_then (emit_state_transition_event S inputs ctx hashes output_hashes indices sequence_numbers) (\<lambda>event.
        Ok (l, event)))))))"

definition invoke ::
  "SystemEnv \<Rightarrow> ledger \<Rightarrow> InvokeInstruction \<Rightarrow> InstructionDataInvoke \<Rightarrow> (system_error, ledger \<times> PublicTransactionEvent) result" where
  "invoke S l ctx inputs =
     and_then (check_invoke_accounts S ctx) (\<lambda>_.
     and_then (input_compressed_accounts_signer_check (idi_input_compressed_accounts_with_merkle_context inputs)
         (ii_authority ctx)) (\<lambda>_.
     process S l inputs None ctx 0))"


section \<open>The CPI context\<close>

definition InstructionDataInvokeCpi_combine :: "InstructionDataInvokeCpi \<Rightarrow> InstructionDataInvokeCpi list \<Rightarrow> InstructionDataInvokeCpi" where
  "InstructionDataInvokeCpi_combine inputs others =
     fold (\<lambda>x d. d\<lparr>idc_new_address_params := idc_new_address_params d @ idc_new_address_params x,
         idc_input_compressed_accounts_with_merkle_context :=
           idc_input_compressed_accounts_with_merkle_context d @ idc_input_compressed_accounts_with_merkle_context x,
         idc_output_compressed_accounts := idc_output_compressed_accounts d @ idc_output_compressed_accounts x\<rparr>)
       others inputs"

definition clean_input_data :: "InstructionDataInvokeCpi \<Rightarrow> InstructionDataInvokeCpi" where
  "clean_input_data inputs =
     inputs\<lparr>idc_cpi_context := None, idc_compress_or_decompress_lamports := None, idc_relay_fee := None,
            idc_signer_seeds := [], idc_proof := None\<rparr>"

definition set_cpi_context ::
  "pubkey \<Rightarrow> CpiContextAccount \<Rightarrow> InstructionDataInvokeCpi \<Rightarrow> (system_error, CpiContextAccount) result" where
  "set_cpi_context fee_payer cpi_context_account inputs =
     and_then (unwrap_or_panic (idc_cpi_context inputs)) (\<lambda>cpi_context.
     if cc_first_set_context cpi_context then
       Ok (cpi_context_account\<lparr>cca_context := [clean_input_data inputs], cca_fee_payer := fee_payer\<rparr>)
     else if fee_payer = cca_fee_payer cpi_context_account \<and> cca_context cpi_context_account \<noteq> [] then
       Ok (cpi_context_account\<lparr>cca_context := cca_context cpi_context_account @ [clean_input_data inputs]\<rparr>)
     else Err (SysError CpiContextFeePayerMismatch))"

text \<open>Returns the account and the inputs to execute, or no inputs when they were only stored.\<close>

definition process_cpi_context ::
  "InstructionDataInvokeCpi \<Rightarrow> CpiContextAccount option \<Rightarrow> pubkey \<Rightarrow> pubkey list \<Rightarrow>
     (system_error, CpiContextAccount option \<times> InstructionDataInvokeCpi option) result" where
  "process_cpi_context inputs cpi_context_account fee_payer remaining_accounts =
     (case idc_cpi_context inputs of
        None \<Rightarrow>
          if cpi_context_account \<noteq> None then Err (SysError CpiContextMissing)
          else Ok (cpi_context_account, Some inputs)
      | Some cpi_context \<Rightarrow>
          and_then (ok_or cpi_context_account (SysError CpiContextAccountUndefined)) (\<lambda>account.
          and_then (case (idc_input_compressed_accounts_with_merkle_context inputs, idc_output_compressed_accounts inputs) of
              (a # _, _) \<Rightarrow> Ok (pmc_merkle_tree_pubkey_index (pca_merkle_context a))
            | ([], a # _) \<Rightarrow> Ok (oca_merkle_tree_index a)
            | ([], []) \<Rightarrow> Err (SysError NoInputs)) (\<lambda>i.
          and_then (index remaining_accounts (unat i)) (\<lambda>first_merkle_tree_pubkey.
          if first_merkle_tree_pubkey \<noteq> cca_associated_merkle_tree account
          then Err (SysError CpiContextAssociatedMerkleTreeMismatch)
          else if cc_set_context cpi_context then
            and_then (set_cpi_context fee_payer account inputs) (\<lambda>account. Ok (Some account, None))
          else if cca_context account = [] then Err (SysError CpiContextEmpty)
          else if cca_fee_payer account \<noteq> fee_payer \<or> cc_first_set_context cpi_context
          then Err (SysError CpiContextFeePayerMismatch)
          else Ok (Some (account\<lparr>cca_context := [], cca_fee_payer := default_pubkey\<rparr>),
                   Some (InstructionDataInvokeCpi_combine inputs (cca_context account)))))))"

text \<open>The accounts of the system program itself.\<close>

datatype CpiAccountData = CpiAbsent | CpiZeroed | CpiContext CpiContextAccount

record SystemState =
  ss_ledger :: ledger
  ss_cpi :: "pubkey \<Rightarrow> CpiAccountData"

definition CpiContextAccount_init :: "CpiContextAccount \<Rightarrow> pubkey \<Rightarrow> CpiContextAccount" where
  "CpiContextAccount_init a associated_merkle_tree =
     a\<lparr>cca_associated_merkle_tree := associated_merkle_tree, cca_context := []\<rparr>"

definition init_cpi_context_account :: "SystemState \<Rightarrow> pubkey \<Rightarrow> pubkey \<Rightarrow> (system_error, SystemState) result" where
  "init_cpi_context_account s cpi_context_account associated_merkle_tree =
     (if ss_cpi s cpi_context_account \<noteq> CpiZeroed then Err AccountError
      else
        and_then (map_err CompressionError (load_state_tree (ss_ledger s) associated_merkle_tree)) (\<lambda>_.
        Ok (s\<lparr>ss_cpi := (ss_cpi s)(cpi_context_account := CpiContext (CpiContextAccount_init
               \<lparr>cca_fee_payer = default_pubkey, cca_associated_merkle_tree = default_pubkey, cca_context = []\<rparr>
               associated_merkle_tree))\<rparr>)))"

definition load_cpi_context :: "SystemState \<Rightarrow> pubkey option \<Rightarrow> (system_error, CpiContextAccount option) result" where
  "load_cpi_context s k =
     (case k of
        None \<Rightarrow> Ok None
      | Some k \<Rightarrow> (case ss_cpi s k of CpiContext a \<Rightarrow> Ok (Some a) | _ \<Rightarrow> Err AccountError))"

text \<open>Anchor writes a changed account back when the instruction exits.\<close>

definition store_cpi_context ::
  "SystemEnv \<Rightarrow> SystemState \<Rightarrow> pubkey option \<Rightarrow> CpiContextAccount option \<Rightarrow> (system_error, SystemState) result" where
  "store_cpi_context S s k account =
     (case (k, account) of
        (Some k, Some a) \<Rightarrow>
          if cpi_context_fits S a then Ok (s\<lparr>ss_cpi := (ss_cpi s)(k := CpiContext a)\<rparr>) else Err AccountError
      | _ \<Rightarrow> Ok s)"

definition process_invoke_cpi ::
  "SystemEnv \<Rightarrow> SystemState \<Rightarrow> InvokeCpiInstruction \<Rightarrow> InstructionDataInvokeCpi \<Rightarrow>
     (system_error, SystemState \<times> PublicTransactionEvent option) result" where
  "process_invoke_cpi S s ctx inputs =
     (let accounts = ic_invoke ctx in
      and_then (cpi_signer_checks S (ic_invoking_program ctx) (ii_authority accounts) (idc_signer_seeds inputs)
          (idc_input_compressed_accounts_with_merkle_context inputs) (idc_output_compressed_accounts inputs)) (\<lambda>_.
      and_then (load_cpi_context s (ic_cpi_context_account ctx)) (\<lambda>cpi_context_account.
      let cpi_context_inputs_len = (case cpi_context_account of Some a \<Rightarrow> length (cca_context a) | None \<Rightarrow> 0) in
      and_then (process_cpi_context inputs cpi_context_account (ii_fee_payer accounts) (ii_remaining_accounts accounts))
        (\<lambda>(cpi_context_account, result).
      case result of
        None \<Rightarrow>
          and_then (store_cpi_context S s (ic_cpi_context_account ctx) cpi_context_account) (\<lambda>s. Ok (s, None))
      | Some inputs \<Rightarrow>
          and_then (process S (ss_ledger s)
              \<lparr>idi_proof = idc_proof inputs,
               idi_input_compressed_accounts_with_merkle_context = idc_input_compressed_accounts_with_merkle_context inputs,
               idi_output_compressed_accounts = idc_output_compressed_accounts inputs,
               idi_relay_fee = idc_relay_fee inputs, idi_new_address_params = idc_new_address_params inputs,
               idi_compress_or_decompress_lamports = idc_compress_or_decompress_lamports inputs,
               idi_is_compress = idc_is_compress inputs\<rparr>
              (Some (ic_invoking_program ctx)) accounts cpi_context_inputs_len) (\<lambda>(l, event).
          and_then (store_cpi_context S (s\<lparr>ss_ledger := l\<rparr>) (ic_cpi_context_account ctx) cpi_context_account) (\<lambda>s.
          Ok (s, Some event)))))))"

definition invoke_cpi ::
  "SystemEnv \<Rightarrow> SystemState \<Rightarrow> InvokeCpiInstruction \<Rightarrow> InstructionDataInvokeCpi \<Rightarrow>
     (system_error, SystemState \<times> PublicTransactionEvent option) result" where
  "invoke_cpi S s ctx inputs =
     and_then (check_invoke_accounts S (ic_invoke ctx)) (\<lambda>_. process_invoke_cpi S s ctx inputs)"

end
