(* ===== verification/Nullifier_Lifecycle.thy ===== *)
theory Nullifier_Lifecycle
  imports Account_Compression
begin

text \<open>
  A state tree and its nullifier queue, as the instructions of the account compression program change
  them: batches are appended, nullifiers are queued at the sequence number of the tree, and queued
  nullifiers replace their leaf by the zero leaf.
\<close>


section \<open>One nullification\<close>

abbreviation zero_leaf :: "Env \<Rightarrow> bytes" where
  "zero_leaf E \<equiv> zero_bytes (poseidon E) ! 0"

lemma from_vec_OkD:
  assumes "from_vec vec h = Ok p"
  shows "bv_inv p" "BoundedVec_capacity p = h" "BoundedVec_as_slice p = vec"
proof -
  have "bv_inv (BoundedVec_with_capacity h :: bytes BoundedVec)" by simp
  note ext = bounded_vec_extend [OF this, of vec]
  obtain v r where vr: "BoundedVec_extend (BoundedVec_with_capacity h) vec = (v, r)" by force
  then have "v = p" "r = Ok ()"
    using assms by (auto simp: from_vec_def split: if_splits elim!: and_then_OkE)
  then show "bv_inv p" "BoundedVec_capacity p = h" "BoundedVec_as_slice p = vec"
    using ext vr by (auto split: if_splits)
qed

text \<open>A successful nullification that rests on a hash collision: the proof is accepted for another leaf.\<close>

definition nullify_collision ::
  "Env \<Rightarrow> ConcurrentMerkleTree \<times> HashSet \<Rightarrow> (nat \<times> nat \<times> nat) \<times> bytes list \<Rightarrow> bytes list \<Rightarrow> bool" where
  "nullify_collision E = (\<lambda>(t, s) ((ci, qi, j), proof) ls.
     \<exists>cell p t' p' ci' sn'. hs_get_unmarked_bucket s qi = Some (Some cell) \<and> from_vec proof (cmt_height t) = Ok p \<and>
       cmt_update 26 (poseidon E) t ci (cell_value cell) (zero_leaf E) j p = Ok (t', p', ci', sn') \<and>
       path_collision (poseidon E) 26 ls j (cell_value cell) (BoundedVec_as_slice p'))"

lemma nullify_leaf_OkD:
  assumes "nullify_leaf E (t, s) ((ci, qi, j), proof) = Ok (t', s')"
    and "cmt_rep (poseidon E) 26 t ls" "\<not> nullify_collision E (t, s) ((ci, qi, j), proof) ls"
  shows "j < length ls" "updated (poseidon E) 26 (ls[j := zero_leaf E]) j t t'"
    "hs_pending s qi = Some (from_bytes_be (ls ! j))"
    "hs_mark_with_sequence_number s qi (cmt_sequence_number t') = Ok s'"
proof -
  obtain cell p p' ci' sn' where
    d: "hs_get_unmarked_bucket s qi = Some (Some cell)" "from_vec proof (cmt_height t) = Ok p"
      "cmt_update 26 (poseidon E) t ci (cell_value cell) (zero_leaf E) j p = Ok (t', p', ci', sn')"
      "hs_mark_with_sequence_number s qi (cmt_sequence_number t') = Ok s'"
    using assms(1)
    by (auto simp: nullify_leaf_def elim!: and_then_OkE)
  have h: "cmt_height t = 26" using assms(2) by (simp add: cmt_rep_def cmt_base_def)
  have nc: "\<not> path_collision (poseidon E) 26 ls j (cell_value cell) (BoundedVec_as_slice p')"
    using assms(3) d unfolding nullify_collision_def by auto
  note fv = from_vec_OkD [OF d(2)]
  have cap: "26 \<le> BoundedVec_capacity p" using fv(2) h by simp
  note snd = update_sound [OF assms(2) fv(1) cap d(3) nc]
  show "j < length ls" "updated (poseidon E) 26 (ls[j := zero_leaf E]) j t t'"
    "hs_mark_with_sequence_number s qi (cmt_sequence_number t') = Ok s'" using snd d(4) by auto
  show "hs_pending s qi = Some (from_bytes_be (ls ! j))"
    using d(1) snd(2) by (simp add: hs_pending_def cell_value_biguint_def)
qed


section \<open>Runs\<close>

text \<open>
  The list of leaves is a ghost.  Nullifications that exhibit a hash collision are excluded; every step
  is an operation of the instructions.
\<close>

inductive pair_run ::
  "Env \<Rightarrow> ConcurrentMerkleTree \<times> HashSet \<Rightarrow> bytes list \<Rightarrow> ConcurrentMerkleTree \<times> HashSet \<Rightarrow> bytes list \<Rightarrow> bool"
  for E x ls where
  pair_refl: "pair_run E x ls x ls"
| pair_append: "pair_run E x ls (t, s) ls1 \<Longrightarrow> cmt_append_batch 26 (poseidon E) t leaves = Ok (t', ci, sn) \<Longrightarrow>
    pair_run E x ls (t', s) (ls1 @ leaves)"
| pair_insert: "pair_run E x ls (t, s) ls1 \<Longrightarrow> hs_insert s v (cmt_sequence_number t) = Ok (s', i) \<Longrightarrow>
    pair_run E x ls (t, s') ls1"
| pair_nullify: "pair_run E x ls (t, s) ls1 \<Longrightarrow> nullify_leaf E (t, s) ((ci, qi, j), proof) = Ok (t', s') \<Longrightarrow>
    \<not> nullify_collision E (t, s) ((ci, qi, j), proof) ls1 \<Longrightarrow>
    pair_run E x ls (t', s') (ls1[j := zero_leaf E])"

lemma pair_run_trans: "pair_run E y ls1 z ls2 \<Longrightarrow> pair_run E x ls y ls1 \<Longrightarrow> pair_run E x ls z ls2"
  by (induction rule: pair_run.induct) (auto intro: pair_run.intros)

text \<open>A root under which leaf \<open>j\<close> is nullified; intermediate leaves of a batch leave a zero root.\<close>

definition nullified_root :: "Env \<Rightarrow> nat \<Rightarrow> bytes \<Rightarrow> bool" where
  "nullified_root E j r \<longleftrightarrow> r = replicate 32 0 \<or>
     (\<exists>ls. r = merkle_root (poseidon E) 26 ls \<and> j < length ls \<and> ls ! j = zero_leaf E)"

definition pair_inv :: "Env \<Rightarrow> ConcurrentMerkleTree \<times> HashSet \<Rightarrow> bytes list \<Rightarrow> bool" where
  [inv_defs]: "pair_inv E = (\<lambda>(t, s) ls. cmt_rep (poseidon E) 26 t ls \<and> hs_inv s (cmt_sequence_number t))"

text \<open>What one step does to the pair: \<open>rs\<close> are the roots it pushes.\<close>

definition pair_effect ::
  "Env \<Rightarrow> ConcurrentMerkleTree \<times> HashSet \<Rightarrow> bytes list \<Rightarrow> bytes list \<Rightarrow> ConcurrentMerkleTree \<times> HashSet \<Rightarrow> bytes list \<Rightarrow> bool" where
  "pair_effect E = (\<lambda>(t, s) ls rs (t', s') ls'.
     pair_inv E (t', s') ls' \<and> cmt_sequence_number t' = cmt_sequence_number t + length rs \<and>
     cbv_pushed (cmt_roots t) rs (cmt_roots t') \<and> hs_sequence_threshold s' = hs_sequence_threshold s \<and>
     length ls \<le> length ls' \<and>
     (\<forall>j < length ls. ls ! j = zero_leaf E \<longrightarrow> ls' ! j = zero_leaf E \<and> (\<forall>r \<in> set rs. nullified_root E j r)) \<and>
     (\<forall>d \<ge> cmt_sequence_number t'. d < cmt_sequence_number t + hs_sequence_threshold s \<longrightarrow> hs_live s d \<subseteq> hs_live s' d))"

lemma pair_effect_refl: "pair_inv E (t, s) ls \<Longrightarrow> pair_effect E (t, s) ls [] (t, s) ls"
  by (auto simp: pair_effect_def pair_inv_def cmt_rep_def cmt_base_def intro: cbv_pushed_refl)

lemma pair_effect_trans:
  assumes "pair_effect E (t, s) ls rs (t1, s1) ls1" "pair_effect E (t1, s1) ls1 rs1 (t2, s2) ls2"
  shows "pair_effect E (t, s) ls (rs @ rs1) (t2, s2) ls2"
proof -
  note a = assms(1) [unfolded pair_effect_def, simplified] and b = assms(2) [unfolded pair_effect_def, simplified]
  have "cbv_pushed (cmt_roots t) (rs @ rs1) (cmt_roots t2)" using a b cbv_pushed_trans by blast
  moreover have "ls2 ! j = zero_leaf E \<and> (\<forall>r \<in> set (rs @ rs1). nullified_root E j r)"
    if "j < length ls" "ls ! j = zero_leaf E" for j
  proof -
    have "j < length ls1" "ls1 ! j = zero_leaf E" "\<forall>r \<in> set rs. nullified_root E j r" using a that by auto
    then show ?thesis using b by auto
  qed
  moreover have "hs_live s d \<subseteq> hs_live s2 d"
    if "cmt_sequence_number t2 \<le> d" "d < cmt_sequence_number t + hs_sequence_threshold s" for d
  proof -
    have "hs_live s d \<subseteq> hs_live s1 d" "hs_live s1 d \<subseteq> hs_live s2 d" using a b that by auto
    then show ?thesis by blast
  qed
  ultimately show ?thesis using a b by (simp add: pair_effect_def)
qed

lemma append_effect:
  assumes "zero_chain (poseidon E)" "pair_inv E (t, s) ls" "cmt_append_batch 26 (poseidon E) t leaves = Ok (t', ci, sn)"
  shows "\<exists>rs. pair_effect E (t, s) ls rs (t', s) (ls @ leaves)"
proof -
  let ?H = "poseidon E"
  have rep: "cmt_rep ?H 26 t ls" and inv: "hs_inv s (cmt_sequence_number t)" using assms(2) by (simp_all add: pair_inv_def)
  note ok = append_batch_Ok [OF assms(3) rep]
  have t': "cmt_rep ?H 26 t' (ls @ leaves)" "cmt_sequence_number t' = cmt_sequence_number t + length leaves"
    "cbv_pushed (cmt_roots t) (batch_roots ?H 26 ls leaves) (cmt_roots t')"
    using append_batch_spec [OF assms(1) rep ok] assms(3) by (auto split: if_splits)
  have "nullified_root E j r" if "j < length ls" "ls ! j = zero_leaf E" "r \<in> set (batch_roots ?H 26 ls leaves)" for j r
  proof -
    have "r = replicate 32 0 \<or> r = merkle_root ?H 26 (ls @ leaves)"
      using that(3) by (auto simp: batch_roots_def split: if_splits)
    moreover have "(ls @ leaves) ! j = zero_leaf E" using that by (simp add: nth_append)
    ultimately show ?thesis using that(1) unfolding nullified_root_def by (metis length_append trans_less_add1)
  qed
  moreover have "hs_inv s (cmt_sequence_number t')" using inv t'(2) hs_inv_mono by (metis le_add1)
  moreover have "length (batch_roots ?H 26 ls leaves) = length leaves" using ok(1) by (simp add: batch_roots_def)
  ultimately have "pair_effect E (t, s) ls (batch_roots ?H 26 ls leaves) (t', s) (ls @ leaves)"
    using t' by (auto simp: pair_effect_def pair_inv_def nth_append)
  then show ?thesis ..
qed

lemma insert_effect:
  assumes "pair_inv E (t, s) ls" "hs_insert s v (cmt_sequence_number t) = Ok (s', i)"
  shows "pair_effect E (t, s) ls [] (t, s') ls"
  using assms insert_OkD [of s "cmt_sequence_number t" v s' i] pair_effect_refl [OF assms(1)]
  by (auto simp: pair_effect_def pair_inv_def)

lemma nullify_effect:
  assumes "pair_inv E (t, s) ls" "nullify_leaf E (t, s) ((ci, qi, j), proof) = Ok (t', s')"
    and "\<not> nullify_collision E (t, s) ((ci, qi, j), proof) ls"
  shows "\<exists>rs. pair_effect E (t, s) ls rs (t', s') (ls[j := zero_leaf E])"
proof -
  let ?H = "poseidon E" and ?ls = "ls[j := zero_leaf E]"
  have rep: "cmt_rep ?H 26 t ls" and inv: "hs_inv s (cmt_sequence_number t)" using assms(1) by (simp_all add: pair_inv_def)
  note D = nullify_leaf_OkD [OF assms(2) rep assms(3)]
  note u = D(2) [unfolded updated_def]
  note m = mark_pending [OF inv D(3,4)]
  have "nullified_root E k (merkle_root ?H 26 ?ls)" if "k < length ls" "ls ! k = zero_leaf E" for k
    using that unfolding nullified_root_def by (metis length_list_update nth_list_update_eq nth_list_update_neq)
  moreover have "?ls ! k = zero_leaf E" if "k < length ls" "ls ! k = zero_leaf E" for k
    using that by (cases "k = j") auto
  moreover have "hs_inv s' (cmt_sequence_number t')" using m(1) u hs_inv_mono by (metis le_add1)
  ultimately have "pair_effect E (t, s) ls [merkle_root ?H 26 ?ls] (t', s') ?ls"
    using u m(2,4) by (simp add: pair_effect_def pair_inv_def)
  then show ?thesis ..
qed

lemma pair_run_effect:
  assumes "pair_run E (t, s) ls y ls'" "zero_chain (poseidon E)" "pair_inv E (t, s) ls"
  shows "\<exists>rs. pair_effect E (t, s) ls rs y ls'"
  using assms(1)
proof (induction rule: pair_run.induct)
  case pair_refl
  then show ?case using pair_effect_refl assms(3) by blast
next
  case (pair_append t1 s1 ls1 leaves t' ci sn)
  then obtain rs where rs: "pair_effect E (t, s) ls rs (t1, s1) ls1" by blast
  then have "pair_inv E (t1, s1) ls1" by (simp add: pair_effect_def)
  then show ?case using append_effect [OF assms(2) _ pair_append.hyps(2)] pair_effect_trans [OF rs] by blast
next
  case (pair_insert t1 s1 ls1 v s' i)
  then obtain rs where rs: "pair_effect E (t, s) ls rs (t1, s1) ls1" by blast
  then have "pair_inv E (t1, s1) ls1" by (simp add: pair_effect_def)
  then show ?case using insert_effect [OF _ pair_insert.hyps(2)] pair_effect_trans [OF rs] by blast
next
  case (pair_nullify t1 s1 ls1 ci qi j pf t' s')
  then obtain rs where rs: "pair_effect E (t, s) ls rs (t1, s1) ls1" by blast
  then have "pair_inv E (t1, s1) ls1" by (simp add: pair_effect_def)
  then show ?case using nullify_effect [OF _ pair_nullify.hyps(2,3)] pair_effect_trans [OF rs] by blast
qed

text \<open>
  Once a leaf has been nullified, its nullifier can enter the queue again only when every root that the
  tree still holds was made after the nullification, provided the queue keeps nullifiers for at least as
  many sequence numbers as the tree keeps roots.
\<close>

lemma nullifier_outlives_roots:
  assumes "zero_chain (poseidon E)" "pair_inv E (t, s) ls"
    and "nullify_leaf E (t, s) ((ci, qi, j), proof) = Ok (t1, s1)"
    and "\<not> nullify_collision E (t, s) ((ci, qi, j), proof) ls"
    and "pair_run E (t1, s1) (ls[j := zero_leaf E]) (t2, s2) ls2"
    and "CyclicBoundedVec_capacity (cmt_roots t) \<le> hs_sequence_threshold s"
    and "from_bytes_be (ls ! j) \<notin> hs_live s2 (cmt_sequence_number t2)"
  shows "\<forall>r \<in> set (cbv_list (cmt_roots t2)). nullified_root E j r"
proof -
  let ?v = "from_bytes_be (ls ! j)"
  have rep: "cmt_rep (poseidon E) 26 t ls" and inv: "hs_inv s (cmt_sequence_number t)" using assms(2) by (simp_all add: pair_inv_def)
  note D = nullify_leaf_OkD [OF assms(3) rep assms(4)]
  have u: "cmt_sequence_number t1 = cmt_sequence_number t + 1" "cbv_pushed (cmt_roots t) [merkle_root (poseidon E) 26 (ls[j := zero_leaf E])] (cmt_roots t1)"
    using D(2) by (simp_all add: updated_def)
  obtain rs0 where "pair_effect E (t, s) ls rs0 (t1, s1) (ls[j := zero_leaf E])" using nullify_effect [OF assms(2-4)] ..
  then have inv1: "pair_inv E (t1, s1) (ls[j := zero_leaf E])" and thr: "hs_sequence_threshold s1 = hs_sequence_threshold s"
    by (simp_all add: pair_effect_def)
  obtain rs where "pair_effect E (t1, s1) (ls[j := zero_leaf E]) rs (t2, s2) ls2"
    using pair_run_effect [OF assms(5,1) inv1] ..
  note e = this [unfolded pair_effect_def, simplified]
  have pend: "?v \<in> hs_live s d" for d
  proof -
    obtain x where x: "qi < hs_capacity s" "hs_buckets s ! qi = Some x" "cell_sequence_number x = None"
      "cell_value_biguint x = ?v" using pendingE [OF D(3)] .
    have "qi < length (hs_buckets s)" using hs_invD(1) [OF inv] x(1) by simp
    from nth_mem [OF this] have "Some x \<in> set (hs_buckets s)" using x(2) by simp
    moreover have "is_valid x d" using x(3) by (simp add: is_valid_def)
    ultimately show ?thesis unfolding hs_live_def x(4) [symmetric] by blast
  qed
  have "cmt_sequence_number t1 + hs_sequence_threshold s \<le> cmt_sequence_number t2"
  proof (rule ccontr)
    assume lt: "\<not> ?thesis"
    have "?v \<in> hs_live s1 (cmt_sequence_number t2)"
      using mark_pending(4) [OF inv D(3,4), of "cmt_sequence_number t2"] pend lt e u(1) by simp
    then have "?v \<in> hs_live s2 (cmt_sequence_number t2)" using e lt thr by auto
    then show False using assms(7) by simp
  qed
  then have len: "CyclicBoundedVec_capacity (cmt_roots t1) \<le> length rs"
    using e assms(6) u(2) by (simp add: cbv_pushed_def)
  then have "cbv_list (cmt_roots t2) = drop (length rs - CyclicBoundedVec_capacity (cmt_roots t1)) rs"
    using e by (simp add: cbv_pushed_def take_last_def)
  then have "set (cbv_list (cmt_roots t2)) \<subseteq> set rs" by (simp add: set_drop_subset)
  then show ?thesis using e D(1) by auto
qed

end
