(* ===== verification/Compression_Program.thy ===== *)
theory Compression_Program
  imports Nullifier_Lifecycle
begin

text \<open>
  The account compression program as a whole (\<open>programs/account-compression/src/lib.rs\<close>): the dispatch
  of its instructions, the elementary changes of account data they are made of, and the invariants that
  hold for every sequence of instructions.
\<close>


section \<open>Instructions\<close>

datatype instruction =
    InitializeAddressTree InitializeAccounts nat "pubkey option" "pubkey option" AddressMerkleTreeConfig NullifierQueueConfig
  | InsertAddresses InsertIntoQueues "bytes list"
  | UpdateAddressTree UpdateAddressMerkleTree nat nat nat nat bytes nat bytes "bytes list"
  | RolloverAddressTree RolloverAccounts
  | InitializeGroup pubkey pubkey pubkey
  | UpdateGroup pubkey pubkey pubkey
  | RegisterProgram pubkey pubkey pubkey pubkey
  | DeregisterProgram pubkey pubkey pubkey pubkey
  | InitializeStateTree InitializeAccounts nat "pubkey option" "pubkey option" StateMerkleTreeConfig NullifierQueueConfig nat
  | AppendLeavesTo AppendLeaves "(byte \<times> bytes) list"
  | NullifyLeavesOf NullifyLeaves "nat list" "nat list" "nat list" "bytes list list"
  | InsertNullifiers InsertIntoQueues "bytes list"
  | RolloverStateTree RolloverAccounts

fun execute :: "Env \<Rightarrow> pubkey \<Rightarrow> ledger \<Rightarrow> instruction \<Rightarrow> (program_error, ledger) result" where
  "execute E pid l (InitializeAddressTree ctx i program_owner forester c q) =
     initialize_address_merkle_tree_and_queue E l ctx i program_owner forester c q"
| "execute E pid l (InsertAddresses ctx addresses) = insert_addresses E l ctx addresses"
| "execute E pid l (UpdateAddressTree ctx changelog_index indexed_changelog_index value_index low_address_index
     low_address_value low_address_next_index low_address_next_value low_address_proof) =
     and_then (process_update_address_merkle_tree E l ctx changelog_index indexed_changelog_index value_index
       low_address_value low_address_next_index low_address_next_value low_address_index low_address_proof) (\<lambda>(l, _). Ok l)"
| "execute E pid l (RolloverAddressTree ctx) = process_rollover_address_merkle_tree_and_queue E l ctx"
| "execute E pid l (InitializeGroup group_authority seed authority) =
     initialize_group_authority E l pid group_authority seed authority"
| "execute E pid l (UpdateGroup signer group_authority authority) =
     update_group_authority l signer group_authority authority"
| "execute E pid l (RegisterProgram signer program pda grp) =
     process_register_program E l pid signer program pda grp"
| "execute E pid l (DeregisterProgram signer pda grp recipient) = deregister_program l signer pda grp recipient"
| "execute E pid l (InitializeStateTree ctx i program_owner forester c q additional_bytes) =
     initialize_state_merkle_tree_and_nullifier_queue E l ctx i program_owner forester c q additional_bytes"
| "execute E pid l (AppendLeavesTo ctx leaves) = process_append_leaves_to_merkle_trees E l ctx leaves"
| "execute E pid l (NullifyLeavesOf ctx change_log_indices leaves_queue_indices leaf_indices proofs) =
     and_then (process_nullify_leaves E l ctx change_log_indices leaves_queue_indices leaf_indices proofs) (\<lambda>(l, _). Ok l)"
| "execute E pid l (InsertNullifiers ctx nullifiers) = insert_into_nullifier_queues E l ctx nullifiers"
| "execute E pid l (RolloverStateTree ctx) = process_rollover_state_merkle_tree_nullifier_queue_pair E l ctx"


section \<open>Elementary changes of account data\<close>

definition data_of :: "ledger \<Rightarrow> pubkey \<Rightarrow> AccountData" where
  "data_of l k = acc_data (l k)"

lemma data_of_simps [simp]:
  "data_of (set_data l k d) = (data_of l)(k := d)" "data_of (set_lamports l k n) = data_of l"
  "data_of (moved l from to n) = data_of l"
  by (auto simp: data_of_def)

text \<open>Nullifications of a tree with leaves \<open>ls\<close> that rest on a hash collision are left out.\<close>

definition collision_free ::
  "Env \<Rightarrow> ConcurrentMerkleTree \<times> HashSet \<Rightarrow> (nat \<times> nat \<times> nat) \<times> bytes list \<Rightarrow> bool" where
  "collision_free E x a \<longleftrightarrow> (\<forall>ls. cmt_rep (poseidon E) 26 (fst x) ls \<longrightarrow> \<not> nullify_collision E x a ls)"

definition plain :: "AccountData \<Rightarrow> bool" where
  "plain d \<longleftrightarrow> (\<exists>r. d = RegisteredProgramAccount r) \<or> (\<exists>g. d = GroupAuthorityAccount g) \<or> d = Foreign"

inductive change :: "Env \<Rightarrow> ledger \<Rightarrow> ledger \<Rightarrow> bool" for E where
  change_lamports: "data_of l' = data_of l \<Longrightarrow> change E l l'"
| change_append: "data_of l k = StateMerkleTreeAccount m t \<Longrightarrow>
    cmt_append_batch 26 (poseidon E) t leaves = Ok (t', ci, sn) \<Longrightarrow>
    data_of l' = (data_of l)(k := StateMerkleTreeAccount m t') \<Longrightarrow> change E l l'"
| change_insert: "data_of l k = QueueAccount q s \<Longrightarrow> tree_sequence_number l (qm_associated_merkle_tree q) = Ok n \<Longrightarrow>
    hs_insert s v n = Ok (s', i) \<Longrightarrow> data_of l' = (data_of l)(k := QueueAccount q s') \<Longrightarrow> change E l l'"
| change_nullify: "data_of l k = StateMerkleTreeAccount m t \<Longrightarrow> data_of l (mtm_associated_queue m) = QueueAccount q s \<Longrightarrow>
    nullify_leaf E (t, s) a = Ok (t', s') \<Longrightarrow> collision_free E (t, s) a \<Longrightarrow>
    data_of l' = (data_of l)(k := StateMerkleTreeAccount m t', mtm_associated_queue m := QueueAccount q s') \<Longrightarrow> change E l l'"
| change_address: "data_of l k = AddressMerkleTreeAccount m u \<Longrightarrow> data_of l (mtm_associated_queue m) = QueueAccount q s \<Longrightarrow>
    data_of l' = (data_of l)(k := AddressMerkleTreeAccount m u', mtm_associated_queue m := QueueAccount q s') \<Longrightarrow> change E l l'"
| change_create: "data_of l k = Zeroed \<Longrightarrow> data_of l k' = Zeroed \<Longrightarrow> mtm_associated_queue m = k' \<Longrightarrow>
    qm_associated_merkle_tree q = k \<Longrightarrow>
    data_of l' = (data_of l)(k := StateMerkleTreeAccount m t, k' := QueueAccount q s) \<Longrightarrow> change E l l'"
| change_create_address: "data_of l k = Zeroed \<Longrightarrow> data_of l k' = Zeroed \<Longrightarrow> mtm_associated_queue m = k' \<Longrightarrow>
    qm_associated_merkle_tree q = k \<Longrightarrow>
    data_of l' = (data_of l)(k' := QueueAccount q s, k := AddressMerkleTreeAccount m u) \<or>
    data_of l' = (data_of l)(k := AddressMerkleTreeAccount m u, k' := QueueAccount q s) \<Longrightarrow> change E l l'"
| change_state_metadata: "data_of l k = StateMerkleTreeAccount m t \<Longrightarrow> mtm_associated_queue m' = mtm_associated_queue m \<Longrightarrow>
    data_of l' = (data_of l)(k := StateMerkleTreeAccount m' t) \<Longrightarrow> change E l l'"
| change_address_metadata: "data_of l k = AddressMerkleTreeAccount m u \<Longrightarrow> mtm_associated_queue m' = mtm_associated_queue m \<Longrightarrow>
    data_of l' = (data_of l)(k := AddressMerkleTreeAccount m' u) \<Longrightarrow> change E l l'"
| change_queue_metadata: "data_of l k = QueueAccount q s \<Longrightarrow> qm_associated_merkle_tree q' = qm_associated_merkle_tree q \<Longrightarrow>
    data_of l' = (data_of l)(k := QueueAccount q' s) \<Longrightarrow> change E l l'"
| change_plain: "plain (data_of l k) \<Longrightarrow> plain d \<Longrightarrow> data_of l' = (data_of l)(k := d) \<Longrightarrow> change E l l'"

abbreviation changes :: "Env \<Rightarrow> ledger \<Rightarrow> ledger \<Rightarrow> bool" where
  "changes E \<equiv> (change E)\<^sup>*\<^sup>*"

lemma single_change: "change E l l' \<Longrightarrow> changes E l l'"
  by (erule r_into_rtranclp)

lemma try_fold_changes:
  assumes "try_fold f s xs = Ok s'" "P s"
    and "\<And>t x t'. x \<in> set xs \<Longrightarrow> P t \<Longrightarrow> f t x = Ok t' \<Longrightarrow> changes E (g t) (g t') \<and> P t'"
  shows "changes E (g s) (g s') \<and> P s'"
  using assms
proof (induction xs arbitrary: s)
  case (Cons x xs)
  then obtain t where t: "f s x = Ok t" "try_fold f t xs = Ok s'" by (auto elim: and_then_OkE)
  then have "changes E (g s) (g t)" "P t" using Cons.prems(2,3) by auto
  moreover have "changes E (g t) (g s') \<and> P s'" using Cons.IH [OF t(2)] calculation(2) Cons.prems(3) by auto
  ultimately show ?case by auto
qed simp


section \<open>Every instruction is a sequence of elementary changes\<close>

lemma transfer_cpi_data:
  "transfer_law E \<Longrightarrow> transfer_lamports_cpi E l from to n = Ok l' \<Longrightarrow> data_of l' = data_of l"
  unfolding transfer_law_def transfer_lamports_cpi_def by (metis data_of_simps(3) map_err_eq_Ok)

lemma transfer_data: "transfer_lamports l from to n = Ok l' \<Longrightarrow> data_of l' = data_of l"
  by (auto simp: transfer_lamports_def Let_def elim!: and_then_OkE)

lemma load_data:
  "load_state_tree l k = Ok mt \<longleftrightarrow> data_of l k = StateMerkleTreeAccount (fst mt) (snd mt)"
  "load_address_tree l k = Ok mu \<longleftrightarrow> data_of l k = AddressMerkleTreeAccount (fst mu) (snd mu)"
  "load_queue l k = Ok qs \<longleftrightarrow> data_of l k = QueueAccount (fst qs) (snd qs)"
  "load_registered_program l k = Ok r \<longleftrightarrow> data_of l k = RegisteredProgramAccount r"
  "load_group_authority l k = Ok g \<longleftrightarrow> data_of l k = GroupAuthorityAccount g"
  "load_zero l k = Ok x \<longleftrightarrow> data_of l k = Zeroed"
  by (cases mt; cases mu; cases qs; simp add: data_of_def)+

lemma state_zero_copy_Ok [simp]: "state_merkle_tree_from_bytes_zero_copy t = Ok t' \<Longrightarrow> t' = t"
  by (auto simp: state_merkle_tree_from_bytes_zero_copy_def elim!: and_then_OkE)

lemma append_changes:
  assumes "transfer_law E" "process_append_leaves_to_merkle_trees E l ctx leaves = Ok l'"
  shows "changes E l l'"
proof -
  obtain r n where fold: "try_fold (append_to_tree E ctx r leaves) (l, 0) [0..<length (al_remaining_accounts ctx)] = Ok (l', n)"
    using assms(2) by (auto simp: process_append_leaves_to_merkle_trees_def batch_append_leaves_def split: if_splits
        elim!: and_then_OkE)
  have step: "changes E (fst x) (fst x')" if step: "append_to_tree E ctx r leaves x i = Ok x'" for x x' i
  proof -
    obtain l1 n1 where x: "x = (l1, n1)" by force
    obtain k m t b t' ci sn fee where d: "data_of l1 k = StateMerkleTreeAccount m t"
      "cmt_append_batch 26 (poseidon E) t b = Ok (t', ci, sn)"
      "transfer_lamports_cpi E (set_data l1 k (StateMerkleTreeAccount m t')) (al_fee_payer ctx) k fee = Ok (fst x')"
      using step unfolding x append_to_tree_def
      by (auto simp: load_data Let_def elim!: and_then_OkE dest!: state_zero_copy_Ok)
    then have "data_of (fst x') = (data_of l1)(k := StateMerkleTreeAccount m t')"
      using transfer_cpi_data [OF assms(1) d(3)] by simp
    then show ?thesis unfolding x fst_conv by (intro r_into_rtranclp change_append [OF d(1,2)])
  qed
  have "changes E (fst (l, 0 :: nat)) (fst (l', n)) \<and> True"
    by (rule try_fold_changes [where g = fst and P = "\<lambda>_. True", OF fold]) (use step in auto)
  then show ?thesis by simp
qed

lemma tree_sequence_number_cong: "data_of l k = data_of l' k \<Longrightarrow> tree_sequence_number l k = tree_sequence_number l' k"
  by (simp add: tree_sequence_number_def data_of_def)

lemma tree_sequence_number_state:
  "data_of l k = StateMerkleTreeAccount m t \<Longrightarrow> tree_sequence_number l k = Ok n \<Longrightarrow> n = cmt_sequence_number t"
  by (auto simp: tree_sequence_number_def data_of_def elim!: and_then_OkE dest!: state_zero_copy_Ok)

lemma tree_sequence_number_queue: "data_of l k = QueueAccount q s \<Longrightarrow> tree_sequence_number l k \<noteq> Ok n"
  by (simp add: tree_sequence_number_def data_of_def)

lemma set_data_twice [simp]: "set_data (set_data l k a) k b = set_data l k b"
  by (auto simp: set_data_def)

lemma insert_elements_changes:
  assumes "data_of l k = QueueAccount q s" "tree_sequence_number l (qm_associated_merkle_tree q) = Ok n"
    and "insert_elements s n es = Ok s'"
  shows "changes E l (set_data l k (QueueAccount q s'))"
  using assms
proof (induction es arbitrary: l s)
  case Nil
  then have "data_of (set_data l k (QueueAccount q s')) = data_of l" by (auto simp: insert_elements_def)
  then show ?case by (intro r_into_rtranclp change_lamports)
next
  case (Cons e es)
  obtain s1 i where s1: "hs_insert s (from_bytes_be e) n = Ok (s1, i)" "insert_elements s1 n es = Ok s'"
    using Cons.prems(3) by (auto simp: insert_elements_def elim!: and_then_OkE)
  let ?l1 = "set_data l k (QueueAccount q s1)"
  have "qm_associated_merkle_tree q \<noteq> k" using tree_sequence_number_queue [OF Cons.prems(1)] Cons.prems(2) by metis
  then have "tree_sequence_number ?l1 (qm_associated_merkle_tree q) = Ok n"
    using Cons.prems(2) tree_sequence_number_cong [of ?l1 _ l] by simp
  then have "changes E ?l1 (set_data ?l1 k (QueueAccount q s'))" using Cons.IH [of ?l1 s1] s1(2) by simp
  moreover have "change E l ?l1" by (rule change_insert [OF Cons.prems(1,2) s1(1)]) simp
  ultimately show ?case by simp
qed

definition bundle_ok :: "ledger \<Rightarrow> QueueBundle \<Rightarrow> bool" where
  "bundle_ok l b \<longleftrightarrow> (\<exists>q s. data_of l (qb_queue b) = QueueAccount q s \<and> qm_associated_merkle_tree q = qb_merkle_tree b)"

lemma queue_map_push_ok:
  assumes "\<forall>(k, b) \<in> set qm. qb_queue b = k \<and> bundle_ok l b"
    and "data_of l k = QueueAccount q s" "qm_associated_merkle_tree q = mt"
  shows "\<forall>(k, b) \<in> set (queue_map_push qm k mt x). qb_queue b = k \<and> bundle_ok l b"
  using assms by (induction qm k mt x rule: queue_map_push.induct) (auto simp: QueueBundle_new_def bundle_ok_def)

lemma queue_map_push_keys:
  "set (map fst (queue_map_push qm k mt x)) = insert k (set (map fst qm)) \<and>
   (distinct (map fst qm) \<longrightarrow> distinct (map fst (queue_map_push qm k mt x)))"
  by (induction qm k mt x rule: queue_map_push.induct) auto

lemma collect_pairs_ok:
  assumes "try_fold (collect_pair l qt) [] xs = Ok qm"
  shows "(\<forall>(k, b) \<in> set qm. qb_queue b = k \<and> bundle_ok l b) \<and> distinct (map fst qm)"
  using assms
proof (rule try_fold_invariant)
  fix qm0 x qm1
  assume inv: "(\<forall>(k, b) \<in> set qm0. qb_queue b = k \<and> bundle_ok l b) \<and> distinct (map fst qm0)"
    and step: "collect_pair l qt qm0 x = Ok qm1"
  obtain k mt e q s where x: "x = ((k, mt), e)" "data_of l k = QueueAccount q s" "qm_associated_merkle_tree q = mt"
    "qm1 = queue_map_push qm0 k mt e"
    using step by (cases x) (auto simp: collect_pair_def load_data split: if_splits elim!: and_then_OkE)
  then show "(\<forall>(k, b) \<in> set qm1. qb_queue b = k \<and> bundle_ok l b) \<and> distinct (map fst qm1)"
    using queue_map_push_ok [of qm0 l k q s mt e] queue_map_push_keys [of qm0 k mt e] inv by simp
qed simp

lemma insert_bundle_OkD:
  assumes "transfer_law E" "insert_bundle E ctx r l b = Ok l'" "bundle_ok l b"
  obtains q s n s' where "data_of l (qb_queue b) = QueueAccount q s" "qm_associated_merkle_tree q = qb_merkle_tree b"
    "tree_sequence_number l (qb_merkle_tree b) = Ok n" "insert_elements s n (qb_elements b) = Ok s'"
    "data_of l' = (data_of l)(qb_queue b := QueueAccount q s')"
    "check_signer_is_registered_or_authority E (iq_authority ctx) r (am_owner (qm_access_metadata q)) = Ok ()"
proof -
  obtain q s n s' fee where d: "data_of l (qb_queue b) = QueueAccount q s"
    "tree_sequence_number l (qb_merkle_tree b) = Ok n" "insert_elements s n (qb_elements b) = Ok s'"
    "check_signer_is_registered_or_authority E (iq_authority ctx) r (am_owner (qm_access_metadata q)) = Ok ()"
    "(if 0 < fee then transfer_lamports_cpi E (set_data l (qb_queue b) (QueueAccount q s')) (iq_fee_payer ctx) (qb_queue b) fee
      else Ok (set_data l (qb_queue b) (QueueAccount q s'))) = Ok l'"
    using assms(2) unfolding insert_bundle_def by (auto simp: load_data Let_def simp del: nat_0_less_mult_iff elim!: and_then_OkE)
  have "data_of l' = (data_of l)(qb_queue b := QueueAccount q s')"
    using d(5) transfer_cpi_data [OF assms(1)] by (auto split: if_splits)
  moreover have "qm_associated_merkle_tree q = qb_merkle_tree b" using assms(3) d(1) by (auto simp: bundle_ok_def)
  ultimately show thesis using that d by blast
qed

lemma insert_changes:
  assumes "transfer_law E" "order_law E" "process_insert_into_queues E l ctx es qt = Ok l'"
  shows "changes E l l'"
proof -
  obtain r qm where qm: "try_fold (collect_pair l qt) [] (zip (pairs (iq_remaining_accounts ctx)) es) = Ok qm"
    and fold: "try_fold (insert_bundle E ctx r) l (map (\<lambda>k. the (map_of qm k)) (hash_map_order E (map fst qm))) = Ok l'"
    using assms(3) by (auto simp: process_insert_into_queues_def split: if_splits elim!: and_then_OkE)
  let ?bs = "map (\<lambda>k. the (map_of qm k)) (hash_map_order E (map fst qm))"
  note ok = collect_pairs_ok [OF qm]
  have "bundle_ok l b" if "b \<in> set ?bs" for b
  proof -
    obtain k where k: "k \<in> set (map fst qm)" "b = the (map_of qm k)"
      using \<open>b \<in> set ?bs\<close> assms(2) ok by (auto simp: order_law_def)
    then obtain b' where "map_of qm k = Some b'" by (metis domD dom_map_of_conv_image_fst list.set_map)
    then have "(k, b) \<in> set qm" using k(2) map_of_SomeD by fastforce
    then show ?thesis using ok by auto
  qed
  then have "changes E (id l) (id l') \<and> (\<forall>b \<in> set ?bs. bundle_ok l' b)"
  proof (intro try_fold_changes [where g = id, OF fold])
    fix l1 b l2
    assume a: "b \<in> set ?bs" "\<forall>b \<in> set ?bs. bundle_ok l1 b" "insert_bundle E ctx r l1 b = Ok l2"
    obtain q s n s' where d: "data_of l1 (qb_queue b) = QueueAccount q s" "qm_associated_merkle_tree q = qb_merkle_tree b"
      "tree_sequence_number l1 (qb_merkle_tree b) = Ok n" "insert_elements s n (qb_elements b) = Ok s'"
      "data_of l2 = (data_of l1)(qb_queue b := QueueAccount q s')"
      using insert_bundle_OkD [OF assms(1) a(3)] a(1,2) by metis
    have "changes E l1 (set_data l1 (qb_queue b) (QueueAccount q s'))"
      using insert_elements_changes [OF d(1) _ d(4)] d(2,3) by simp
    moreover have "change E (set_data l1 (qb_queue b) (QueueAccount q s')) l2"
      by (rule change_lamports) (simp add: d(5))
    ultimately have "changes E l1 l2" by simp
    moreover have "bundle_ok l2 b'" if "b' \<in> set ?bs" for b'
      using a(2) that d by (auto simp: bundle_ok_def)
    ultimately show "changes E (id l1) (id l2) \<and> (\<forall>b \<in> set ?bs. bundle_ok l2 b)" by simp
  qed simp
  then show ?thesis by simp
qed

definition instruction_collision :: "Env \<Rightarrow> ledger \<Rightarrow> instruction \<Rightarrow> bool" where
  "instruction_collision E l ix \<longleftrightarrow>
     (\<exists>ctx ci qi j proof m t q s. ix = NullifyLeavesOf ctx [ci] [qi] [j] [proof] \<and>
        data_of l (nl_merkle_tree ctx) = StateMerkleTreeAccount m t \<and>
        data_of l (nl_nullifier_queue ctx) = QueueAccount q s \<and> \<not> collision_free E (t, s) ((ci, qi, j), proof))"

lemma process_nullify_OkD:
  assumes "process_nullify_leaves E l ctx cis qis js proofs = Ok (l', ev)"
  obtains ci qi j pf m t q s t' s' where "cis = [ci]" "qis = [qi]" "js = [j]" "proofs = [pf]"
    "data_of l (nl_merkle_tree ctx) = StateMerkleTreeAccount m t" "data_of l (nl_nullifier_queue ctx) = QueueAccount q s"
    "mtm_associated_queue m = nl_nullifier_queue ctx" "nullify_leaf E (t, s) ((ci, qi, j), pf) = Ok (t', s')"
    "l' = set_data (set_data l (nl_merkle_tree ctx) (StateMerkleTreeAccount m t')) (nl_nullifier_queue ctx) (QueueAccount q s')"
    "ev = EventV2 \<lparr>ne_id = nl_merkle_tree ctx, ne_nullified_leaves_indices = [j], ne_seq = cmt_sequence_number t + 1\<rparr>"
proof -
  obtain r where len: "length cis = 1" "length qis = 1" "length js = 1" "length proofs = 1"
    and ins: "insert_nullifier E l ctx r proofs cis qis js = Ok (l', ev)"
    using assms by (auto simp: process_nullify_leaves_def split: if_splits elim!: and_then_OkE)
  obtain ci qi j pf where args: "cis = [ci]" "qis = [qi]" "js = [j]" "proofs = [pf]"
    using len by (auto simp: length_Suc_conv)
  obtain m t q s t' s' where d: "data_of l (nl_merkle_tree ctx) = StateMerkleTreeAccount m t"
    "data_of l (nl_nullifier_queue ctx) = QueueAccount q s" "mtm_associated_queue m = nl_nullifier_queue ctx"
    "nullify_leaf E (t, s) ((ci, qi, j), pf) = Ok (t', s')"
    "l' = set_data (set_data l (nl_merkle_tree ctx) (StateMerkleTreeAccount m t')) (nl_nullifier_queue ctx) (QueueAccount q s')"
    "ev = EventV2 \<lparr>ne_id = nl_merkle_tree ctx, ne_nullified_leaves_indices = [j], ne_seq = cmt_sequence_number t + 1\<rparr>"
    using ins unfolding insert_nullifier_def args
    by (auto simp: load_data split: if_splits elim!: and_then_OkE dest!: state_zero_copy_Ok)
  show thesis by (rule that [OF args d])
qed

lemma nullify_changes:
  assumes "process_nullify_leaves E l ctx cis qis js proofs = Ok (l', ev)"
    and "\<not> instruction_collision E l (NullifyLeavesOf ctx cis qis js proofs)"
  shows "changes E l l'"
proof -
  obtain ci qi j pf m t q s t' s' where args: "cis = [ci]" "qis = [qi]" "js = [j]" "proofs = [pf]"
    and d: "data_of l (nl_merkle_tree ctx) = StateMerkleTreeAccount m t" "data_of l (nl_nullifier_queue ctx) = QueueAccount q s"
    "mtm_associated_queue m = nl_nullifier_queue ctx" "nullify_leaf E (t, s) ((ci, qi, j), pf) = Ok (t', s')"
    "l' = set_data (set_data l (nl_merkle_tree ctx) (StateMerkleTreeAccount m t')) (nl_nullifier_queue ctx) (QueueAccount q s')"
    using process_nullify_OkD [OF assms(1)] by metis
  have cf: "collision_free E (t, s) ((ci, qi, j), pf)"
    using assms(2) args d(1,2) unfolding instruction_collision_def by blast
  have "change E l l'" by (rule change_nullify [OF d(1) _ d(4) cf]) (simp_all add: d(2,3,5))
  then show ?thesis by (rule single_change)
qed

lemma address_zero_copy_Ok: "address_merkle_tree_from_bytes_zero_copy t = Ok t' \<Longrightarrow> t' = t"
  by (auto simp: address_merkle_tree_from_bytes_zero_copy_def elim!: and_then_OkE)

lemma address_changes:
  assumes "process_update_address_merkle_tree E l ctx a b c lv lni lnv li proof = Ok (l', ev)"
  shows "changes E l l'"
proof -
  obtain m u q s u' s' where d: "data_of l (ua_merkle_tree ctx) = AddressMerkleTreeAccount m u"
    "data_of l (ua_queue ctx) = QueueAccount q s" "mtm_associated_queue m = ua_queue ctx"
    "l' = set_data (set_data l (ua_merkle_tree ctx) (AddressMerkleTreeAccount m u')) (ua_queue ctx) (QueueAccount q s')"
    using assms unfolding process_update_address_merkle_tree_def
    by (auto simp: load_data Let_def split: if_splits elim!: and_then_OkE)
  have "change E l l'" by (rule change_address [OF d(1)]) (simp_all add: d)
  then show ?thesis by (rule single_change)
qed

text \<open>What the four initialisers write.\<close>

lemma initialize_state_tree_OkD:
  assumes "process_initialize_state_merkle_tree E l k i owner po f h cs rs cd aq nf rt ct mr qr = Ok l'"
  shows "\<exists>m t. l' = set_data l k (StateMerkleTreeAccount m t) \<and> mtm_associated_queue m = aq"
  using assms unfolding process_initialize_state_merkle_tree_def
  by (auto simp: Let_def MerkleTreeMetadata_init_def elim!: and_then_OkE)

lemma initialize_nullifier_queue_OkD:
  assumes "process_initialize_nullifier_queue E l k i owner po f amt cap thr rt ct nf = Ok l'"
  shows "\<exists>q s. l' = set_data l k (QueueAccount q s) \<and> qm_associated_merkle_tree q = amt"
  using assms unfolding process_initialize_nullifier_queue_def
  by (auto simp: Let_def QueueMetadata_init_def elim!: and_then_OkE)

lemma initialize_address_queue_OkD:
  assumes "process_initialize_address_queue E l k i owner po f amt cap thr nf rt ct h mr = Ok l'"
  shows "\<exists>q s. l' = set_data l k (QueueAccount q s) \<and> qm_associated_merkle_tree q = amt"
  using assms unfolding process_initialize_address_queue_def
  by (auto simp: Let_def QueueMetadata_init_def elim!: and_then_OkE)

lemma initialize_address_tree_OkD:
  assumes "process_initialize_address_merkle_tree E l k i owner po f h cs rs cd acs aq nf rt ct = Ok l'"
  shows "\<exists>m u. l' = set_data l k (AddressMerkleTreeAccount m u) \<and> mtm_associated_queue m = aq"
  using assms unfolding process_initialize_address_merkle_tree_def
  by (auto simp: Let_def MerkleTreeMetadata_init_def elim!: and_then_OkE)

lemma create_state_changes:
  assumes "process_initialize_state_merkle_tree E l k i owner po f h cs rs cd k' nf rt ct mr qr = Ok l1"
    "process_initialize_nullifier_queue E l1 k' i' owner' po' f' k cap thr rt' ct' nf' = Ok l2"
    "data_of l k = Zeroed" "data_of l k' = Zeroed"
  shows "change E l l2"
proof -
  obtain m t where m: "l1 = set_data l k (StateMerkleTreeAccount m t)" "mtm_associated_queue m = k'"
    using initialize_state_tree_OkD [OF assms(1)] by blast
  obtain q s where q: "l2 = set_data l1 k' (QueueAccount q s)" "qm_associated_merkle_tree q = k"
    using initialize_nullifier_queue_OkD [OF assms(2)] by blast
  show ?thesis by (rule change_create [OF assms(3,4) m(2) q(2)]) (simp add: q(1) m(1))
qed

lemma initialize_state_pair_OkD:
  assumes "process_initialize_state_merkle_tree_and_nullifier_queue E l ctx i po f c q = Ok l'"
  obtains owner mr qr l1 where "smc_height c = 26" "smc_canopy_depth c = 10"
    "smc_roots_size c + SAFETY_MARGIN \<le> nqc_sequence_threshold q"
    "process_initialize_state_merkle_tree E l (ini_merkle_tree ctx) i owner po f (smc_height c) (smc_changelog_size c)
       (smc_roots_size c) (smc_canopy_depth c) (ini_queue ctx) (unwrap_or (smc_network_fee c) 0)
       (smc_rollover_threshold c) (smc_close_threshold c) mr qr = Ok l1"
    "process_initialize_nullifier_queue E l1 (ini_queue ctx) i owner po f (ini_merkle_tree ctx) (nqc_capacity q)
       (nqc_sequence_threshold q) (smc_rollover_threshold c) (smc_close_threshold c) (unwrap_or (nqc_network_fee q) 0) = Ok l'"
  using assms unfolding process_initialize_state_merkle_tree_and_nullifier_queue_def
  by (auto simp: STATE_MERKLE_TREE_HEIGHT_def STATE_MERKLE_TREE_CANOPY_DEPTH_def split: if_splits elim!: and_then_OkE)

lemma initialize_state_changes:
  assumes "initialize_state_merkle_tree_and_nullifier_queue E l ctx i po f c q ab = Ok l'"
  shows "changes E l l'"
proof -
  have z: "data_of l (ini_merkle_tree ctx) = Zeroed" "data_of l (ini_queue ctx) = Zeroed"
    and "process_initialize_state_merkle_tree_and_nullifier_queue E l ctx i po f c q = Ok l'"
    using assms unfolding initialize_state_merkle_tree_and_nullifier_queue_def
    by (auto simp: load_data split: if_splits elim!: and_then_OkE)
  then show ?thesis using initialize_state_pair_OkD single_change [OF create_state_changes] z by metis
qed

lemma initialize_address_changes:
  assumes "initialize_address_merkle_tree_and_queue E l ctx i po f c q = Ok l'"
  shows "changes E l l'"
proof -
  have z: "data_of l (ini_merkle_tree ctx) = Zeroed" "data_of l (ini_queue ctx) = Zeroed"
    and "process_initialize_address_merkle_tree_and_queue E l ctx i po f c q = Ok l'"
    using assms unfolding initialize_address_merkle_tree_and_queue_def
    by (auto simp: load_data split: if_splits elim!: and_then_OkE)
  then obtain l1 a1 a2 a3 a4 a5 a6 a7 a8 a9 a10 b1 b2 b3 b4 b5 b6 b7 b8 b9 b10 b11 b12 where
    "process_initialize_address_queue E l (ini_queue ctx) a1 a2 a3 a4 (ini_merkle_tree ctx) a5 a6 a7 a8 a9 a10 b12 = Ok l1"
    "process_initialize_address_merkle_tree E l1 (ini_merkle_tree ctx) b1 b2 b3 b4 b5 b6 b7 b8 b9 (ini_queue ctx) b10 b11 a9 = Ok l'"
    unfolding process_initialize_address_merkle_tree_and_queue_def
    by (auto split: if_splits elim!: and_then_OkE)
  then obtain m u q s where
    m: "l1 = set_data l (ini_queue ctx) (QueueAccount q s)" "qm_associated_merkle_tree q = ini_merkle_tree ctx"
    "l' = set_data l1 (ini_merkle_tree ctx) (AddressMerkleTreeAccount m u)" "mtm_associated_queue m = ini_queue ctx"
    using initialize_address_queue_OkD initialize_address_tree_OkD by metis
  have "change E l l'" by (rule change_create_address [OF z m(4,2), where s = s and u = u]) (simp add: m)
  then show ?thesis by (rule single_change)
qed

lemma tree_rollover_OkD:
  "MerkleTreeMetadata_rollover slot m q k = Ok m' \<Longrightarrow> mtm_associated_queue m' = mtm_associated_queue m \<and> mtm_associated_queue m = q"
  by (auto simp: MerkleTreeMetadata_rollover_def split: if_splits elim!: and_then_OkE)

lemma queue_rollover_OkD:
  "QueueMetadata_rollover slot m q k = Ok m' \<Longrightarrow> qm_associated_merkle_tree m' = qm_associated_merkle_tree m"
  by (auto simp: QueueMetadata_rollover_def split: if_splits elim!: and_then_OkE)

lemma rollover_state_changes:
  assumes "process_rollover_state_merkle_tree_nullifier_queue_pair E l ctx = Ok l'"
  shows "changes E l l'"
proof -
  let ?k = "ro_old_merkle_tree ctx" and ?q = "ro_old_queue ctx"
  obtain m t q s m' q' l2 l3 i owner po f h cs rs cd nf rt ct mr qr i' owner' po' f' cap thr rt' ct' nf' n where
    z: "data_of l (ro_new_merkle_tree ctx) = Zeroed" "data_of l (ro_new_queue ctx) = Zeroed"
    and d: "data_of l ?k = StateMerkleTreeAccount m t" "data_of l ?q = QueueAccount q s"
    and r: "MerkleTreeMetadata_rollover (clock_slot E) m ?q (ro_new_merkle_tree ctx) = Ok m'"
      "QueueMetadata_rollover (clock_slot E) q ?k (ro_new_queue ctx) = Ok q'"
    and i: "process_initialize_state_merkle_tree E (set_data (set_data l ?k (StateMerkleTreeAccount m' t)) ?q (QueueAccount q' s))
        (ro_new_merkle_tree ctx) i owner po f h cs rs cd (ro_new_queue ctx) nf rt ct mr qr = Ok l2"
      "process_initialize_nullifier_queue E l2 (ro_new_queue ctx) i' owner' po' f' (ro_new_merkle_tree ctx) cap thr rt' ct' nf' = Ok l3"
    and t: "transfer_lamports l3 ?k (ro_fee_payer ctx) n = Ok l'"
    using assms unfolding process_rollover_state_merkle_tree_nullifier_queue_pair_def
    by (auto simp: load_data Let_def elim!: and_then_OkE)
  let ?l1 = "set_data l ?k (StateMerkleTreeAccount m' t)"
  let ?l2 = "set_data ?l1 ?q (QueueAccount q' s)"
  have ne: "?k \<noteq> ?q" "?k \<noteq> ro_new_merkle_tree ctx" "?q \<noteq> ro_new_merkle_tree ctx" "?k \<noteq> ro_new_queue ctx" "?q \<noteq> ro_new_queue ctx"
    using z d by auto
  have "change E l ?l1" by (rule change_state_metadata [OF d(1), of m']) (use tree_rollover_OkD [OF r(1)] in simp_all)
  moreover have "change E ?l1 ?l2"
    by (rule change_queue_metadata [of _ ?q q s q']) (use d(2) ne queue_rollover_OkD [OF r(2)] in simp_all)
  moreover have "change E ?l2 l3" by (rule create_state_changes [OF i]) (use z ne in auto)
  moreover have "change E l3 l'" using transfer_data [OF t] by (rule change_lamports)
  ultimately show ?thesis by (meson converse_rtranclp_into_rtranclp rtranclp.rtrancl_refl)
qed

lemma rollover_address_changes:
  assumes "process_rollover_address_merkle_tree_and_queue E l ctx = Ok l'"
  shows "changes E l l'"
proof -
  let ?k = "ro_old_merkle_tree ctx" and ?q = "ro_old_queue ctx"
  obtain m u q s m' q' l2 l3 i owner po f h cs rs cd acs nf rt ct i' owner' po' f' cap thr rt' ct' nf' h' mr n where
    z: "data_of l (ro_new_merkle_tree ctx) = Zeroed" "data_of l (ro_new_queue ctx) = Zeroed"
    and d: "data_of l ?k = AddressMerkleTreeAccount m u" "data_of l ?q = QueueAccount q s"
    and r: "MerkleTreeMetadata_rollover (clock_slot E) m ?q (ro_new_merkle_tree ctx) = Ok m'"
      "QueueMetadata_rollover (clock_slot E) q ?k (ro_new_queue ctx) = Ok q'"
    and i: "process_initialize_address_merkle_tree E (set_data (set_data l ?k (AddressMerkleTreeAccount m' u)) ?q (QueueAccount q' s))
        (ro_new_merkle_tree ctx) i owner po f h cs rs cd acs (ro_new_queue ctx) nf rt ct = Ok l2"
      "process_initialize_address_queue E l2 (ro_new_queue ctx) i' owner' po' f' (ro_new_merkle_tree ctx) cap thr nf' rt' ct' h' mr = Ok l3"
    and t: "transfer_lamports l3 ?q (ro_fee_payer ctx) n = Ok l'"
    using assms unfolding process_rollover_address_merkle_tree_and_queue_def
    by (auto simp: load_data Let_def elim!: and_then_OkE)
  let ?l1 = "set_data l ?k (AddressMerkleTreeAccount m' u)"
  let ?l2 = "set_data ?l1 ?q (QueueAccount q' s)"
  have ne: "?k \<noteq> ?q" "?k \<noteq> ro_new_merkle_tree ctx" "?q \<noteq> ro_new_merkle_tree ctx" "?k \<noteq> ro_new_queue ctx" "?q \<noteq> ro_new_queue ctx"
    using z d by auto
  obtain m2 u2 q2 s2 where new: "l2 = set_data ?l2 (ro_new_merkle_tree ctx) (AddressMerkleTreeAccount m2 u2)"
    "mtm_associated_queue m2 = ro_new_queue ctx" "l3 = set_data l2 (ro_new_queue ctx) (QueueAccount q2 s2)"
    "qm_associated_merkle_tree q2 = ro_new_merkle_tree ctx"
    using initialize_address_tree_OkD [OF i(1)] initialize_address_queue_OkD [OF i(2)] by blast
  have "change E l ?l1" by (rule change_address_metadata [OF d(1), of m']) (use tree_rollover_OkD [OF r(1)] in simp_all)
  moreover have "change E ?l1 ?l2"
    by (rule change_queue_metadata [of _ ?q q s q']) (use d(2) ne queue_rollover_OkD [OF r(2)] in simp_all)
  moreover have "change E ?l2 l3"
    by (rule change_create_address [of _ "ro_new_merkle_tree ctx" "ro_new_queue ctx" m2 q2 _ s2 u2])
      (use z ne new in auto)
  moreover have "change E l3 l'" using transfer_data [OF t] by (rule change_lamports)
  ultimately show ?thesis by (meson converse_rtranclp_into_rtranclp rtranclp.rtrancl_refl)
qed

lemma plain_simps [simp]: "plain (RegisteredProgramAccount r)" "plain (GroupAuthorityAccount g)" "plain Foreign"
  by (auto simp: plain_def)

lemma create_pda_changes: "create_pda E l pid seeds k d = Ok l' \<Longrightarrow> plain d \<Longrightarrow> changes E l l'"
  by (rule single_change, rule change_plain [of l k d]) (auto simp: create_pda_def data_of_def split: if_splits)

lemma group_changes:
  "initialize_group_authority E l pid k seed a = Ok l' \<Longrightarrow> changes E l l'"
  "update_group_authority l signer k a = Ok l' \<Longrightarrow> changes E l l'"
  "process_register_program E l pid signer program k grp = Ok l' \<Longrightarrow> changes E l l'"
  "deregister_program l signer k grp recipient = Ok l' \<Longrightarrow> changes E l l'"
proof -
  show "initialize_group_authority E l pid k seed a = Ok l' \<Longrightarrow> changes E l l'"
    by (auto simp: initialize_group_authority_def dest: create_pda_changes)
  show "process_register_program E l pid signer program k grp = Ok l' \<Longrightarrow> changes E l l'"
    by (auto simp: process_register_program_def split: if_splits elim!: and_then_OkE) (erule create_pda_changes, simp)
  show "changes E l l'" if "update_group_authority l signer k a = Ok l'"
  proof -
    obtain g g' where "data_of l k = GroupAuthorityAccount g" "l' = set_data l k (GroupAuthorityAccount g')"
      using \<open>update_group_authority l signer k a = Ok l'\<close>
      by (auto simp: update_group_authority_def data_of_def split: if_splits elim!: and_then_OkE)
    then show ?thesis by (intro single_change change_plain [of l k "GroupAuthorityAccount g'"]) auto
  qed
  show "changes E l l'" if "deregister_program l signer k grp recipient = Ok l'"
  proof -
    obtain r n where "data_of l k = RegisteredProgramAccount r"
      "l' = set_data (set_lamports (set_lamports l recipient n) k 0) k Foreign"
      using \<open>deregister_program l signer k grp recipient = Ok l'\<close>
      by (auto simp: deregister_program_def data_of_def split: if_splits elim!: and_then_OkE)
    then show ?thesis by (intro single_change change_plain [of l k Foreign]) auto
  qed
qed

lemma execute_changes:
  assumes "transfer_law E" "order_law E" "execute E pid l ix = Ok l'" "\<not> instruction_collision E l ix"
  shows "changes E l l'"
proof (cases ix)
  case (NullifyLeavesOf ctx cis qis js proofs)
  then show ?thesis using assms nullify_changes by (auto elim!: and_then_OkE)
next
  case (UpdateAddressTree ctx a b c d e f g h)
  then show ?thesis using assms address_changes by (auto elim!: and_then_OkE)
qed (use assms in \<open>auto simp: insert_addresses_def insert_into_nullifier_queues_def
  dest: append_changes insert_changes initialize_state_changes initialize_address_changes rollover_state_changes
    rollover_address_changes group_changes\<close>)


section \<open>Trees and queues stay linked\<close>

text \<open>
  The queue of a state tree is a queue account that names the tree; the queue of an address tree as
  well, unless the tree and its queue were initialised in one and the same account.
\<close>

datatype link = StateLink pubkey | AddressLink pubkey | QueueLink pubkey | NoLink

fun link_of :: "AccountData \<Rightarrow> link" where
  "link_of (StateMerkleTreeAccount m t) = StateLink (mtm_associated_queue m)"
| "link_of (AddressMerkleTreeAccount m u) = AddressLink (mtm_associated_queue m)"
| "link_of (QueueAccount q s) = QueueLink (qm_associated_merkle_tree q)"
| "link_of _ = NoLink"

definition links :: "ledger \<Rightarrow> pubkey \<Rightarrow> link" where
  "links l k = link_of (data_of l k)"

definition linked :: "ledger \<Rightarrow> bool" where
  [inv_defs]: "linked l \<longleftrightarrow> (\<forall>k a. (links l k = StateLink a \<longrightarrow> links l a = QueueLink k) \<and>
     (links l k = AddressLink a \<longrightarrow> a = k \<or> links l a = QueueLink k))"

lemma plain_link: "plain d \<Longrightarrow> link_of d = NoLink"
  by (auto simp: plain_def)

lemma change_links:
  assumes "change E l l'"
  shows "links l' = links l \<or> (\<exists>k k'. links l k = NoLink \<and> links l k' = NoLink \<and>
    (links l' = (links l)(k := StateLink k', k' := QueueLink k) \<or>
     links l' = (links l)(k' := QueueLink k, k := AddressLink k') \<or>
     links l' = (links l)(k := AddressLink k', k' := QueueLink k)))"
  using assms
proof (induction rule: change.induct)
  case (change_create l k k' m q l' t s)
  then have "links l k = NoLink \<and> links l k' = NoLink \<and> links l' = (links l)(k := StateLink k', k' := QueueLink k)"
    by (auto simp: links_def)
  then show ?case by blast
next
  case (change_create_address l k k' m q l' s u)
  have "links l k = NoLink" "links l k' = NoLink" using change_create_address.hyps(1,2) by (simp_all add: links_def)
  moreover have "links l' = (links l)(k' := QueueLink k, k := AddressLink k') \<or>
      links l' = (links l)(k := AddressLink k', k' := QueueLink k)"
    using change_create_address.hyps(5)
  proof
    assume "data_of l' = (data_of l)(k' := QueueAccount q s, k := AddressMerkleTreeAccount m u)"
    then have "links l' = (links l)(k' := QueueLink k, k := AddressLink k')"
      using change_create_address.hyps(3,4) by (intro ext) (simp add: links_def)
    then show ?thesis ..
  next
    assume "data_of l' = (data_of l)(k := AddressMerkleTreeAccount m u, k' := QueueAccount q s)"
    then have "links l' = (links l)(k := AddressLink k', k' := QueueLink k)"
      using change_create_address.hyps(3,4) by (intro ext) (simp add: links_def)
    then show ?thesis ..
  qed
  ultimately show ?case by blast
qed (rule disjI1, rule ext, simp add: links_def plain_link)+

lemma change_linked:
  assumes "change E l l'" "linked l"
  shows "linked l'"
proof (cases "links l' = links l")
  case False
  then obtain k k' where k: "links l k = NoLink" "links l k' = NoLink"
    "links l' = (links l)(k := StateLink k', k' := QueueLink k) \<or>
     links l' = (links l)(k' := QueueLink k, k := AddressLink k') \<or>
     links l' = (links l)(k := AddressLink k', k' := QueueLink k)"
    using change_links [OF assms(1)] by blast
  then have "links l x \<noteq> StateLink k" "links l x \<noteq> StateLink k'" "links l x = AddressLink k \<Longrightarrow> x = k"
    "links l x = AddressLink k' \<Longrightarrow> x = k'" for x
    using assms(2) unfolding linked_def by (metis link.distinct)+
  then show ?thesis using k assms(2) unfolding linked_def by (elim disjE) (auto split: if_splits)
qed (use assms(2) in \<open>simp add: linked_def\<close>)

definition pair_at ::
  "ledger \<Rightarrow> pubkey \<Rightarrow> pubkey \<Rightarrow> MerkleTreeMetadata \<Rightarrow> ConcurrentMerkleTree \<Rightarrow> QueueMetadata \<Rightarrow> HashSet \<Rightarrow> bool" where
  "pair_at l kt kq m t q s \<longleftrightarrow> data_of l kt = StateMerkleTreeAccount m t \<and> data_of l kq = QueueAccount q s \<and>
     mtm_associated_queue m = kq \<and> qm_associated_merkle_tree q = kt"

text \<open>An elementary change does nothing to a linked pair that the instructions of the pair cannot do.\<close>

lemma change_pair:
  assumes "change E l l'" "linked l" "pair_at l kt kq m t q s" "cmt_rep (poseidon E) 26 t ls"
  shows "\<exists>m' t' q' s' ls'. pair_at l' kt kq m' t' q' s' \<and> pair_run E (t, s) ls (t', s') ls'"
proof -
  note d = assms(3) [unfolded pair_at_def]
  have same: ?thesis if "data_of l' kt = StateMerkleTreeAccount m1 t" "mtm_associated_queue m1 = kq"
    "data_of l' kq = QueueAccount q1 s" "qm_associated_merkle_tree q1 = kt" for m1 q1
    using that pair_refl [of E "(t, s)" ls] unfolding pair_at_def by blast
  have kn: "kt \<noteq> kq" using d by auto
  show ?thesis
    using assms(1)
  proof cases
    case change_lamports
    then show ?thesis using same d by simp
  next
    case (change_append k m' t0 leaves t' ci sn)
    then show ?thesis
      using d kn same pair_append [OF pair_refl] unfolding pair_at_def by (cases "k = kt") (auto, blast)
  next
    case (change_insert k q' s0 n v s' i)
    show ?thesis
    proof (cases "k = kq")
      case True
      then have "n = cmt_sequence_number t" using change_insert d tree_sequence_number_state by auto
      then show ?thesis using True change_insert d kn pair_insert [OF pair_refl] unfolding pair_at_def by auto blast
    next
      case False
      moreover have "k \<noteq> kt" using change_insert d by auto
      ultimately show ?thesis using change_insert(4) same [of m q] d by simp
    qed
  next
    case (change_nullify k m' t0 q' s0 a t' s')
    show ?thesis
    proof (cases "k = kt")
      case True
      obtain ci qi j pf where a: "a = ((ci, qi, j), pf)" by (metis surj_pair)
      have e: "m' = m" "t0 = t" "q' = q" "s0 = s" using True change_nullify d by auto
      have "\<not> nullify_collision E (t, s) a ls" using change_nullify assms(4) unfolding e collision_free_def by simp
      then have "pair_run E (t, s) ls (t', s') (ls[j := zero_leaf E])"
        using pair_nullify [OF pair_refl] change_nullify unfolding e a by blast
      moreover have "pair_at l' kt kq m t' q s'" using True change_nullify d kn unfolding e pair_at_def by auto
      ultimately show ?thesis by blast
    next
      case False
      have "links l k = StateLink (mtm_associated_queue m')" using change_nullify by (simp add: links_def)
      then have "links l (mtm_associated_queue m') = QueueLink k" using assms(2) by (simp add: linked_def)
      then have "mtm_associated_queue m' \<noteq> kq" "mtm_associated_queue m' \<noteq> kt" using d False by (auto simp: links_def)
      moreover have "k \<noteq> kq" using change_nullify d by auto
      ultimately show ?thesis using change_nullify(5) same [of m q] d False by simp
    qed
  next
    case (change_address k m' u q' s0 u' s')
    have "links l k = AddressLink (mtm_associated_queue m')" "mtm_associated_queue m' \<noteq> k" using change_address by (auto simp: links_def)
    then have "links l (mtm_associated_queue m') = QueueLink k" using assms(2) unfolding linked_def by blast
    moreover have "k \<noteq> kt" "k \<noteq> kq" using change_address d by auto
    ultimately have "mtm_associated_queue m' \<noteq> kq" "mtm_associated_queue m' \<noteq> kt" using d by (auto simp: links_def)
    then show ?thesis using change_address(3) same [of m q] d \<open>k \<noteq> kt\<close> \<open>k \<noteq> kq\<close> by simp
  next
    case (change_create k k' m' q' t0 s0)
    then have "k \<noteq> kt" "k \<noteq> kq" "k' \<noteq> kt" "k' \<noteq> kq" using d by auto
    then show ?thesis using change_create(5) same [of m q] d by simp
  next
    case (change_create_address k k' m' q' s0 u)
    then have "k \<noteq> kt" "k \<noteq> kq" "k' \<noteq> kt" "k' \<noteq> kq" using d by auto
    then show ?thesis using change_create_address(5) same [of m q] d by (elim disjE) simp_all
  next
    case (change_state_metadata k m0 t0 m')
    moreover have "k \<noteq> kq" using change_state_metadata d by auto
    ultimately show ?thesis using same [of m' q] same [of m q] d kn by (cases "k = kt") simp_all
  next
    case (change_address_metadata k m0 u m')
    then have "k \<noteq> kt" "k \<noteq> kq" using d by auto
    then show ?thesis using change_address_metadata(3) same [of m q] d by simp
  next
    case (change_queue_metadata k q0 s0 q')
    moreover have "k \<noteq> kt" using change_queue_metadata d by auto
    ultimately show ?thesis using same [of m q'] same [of m q] d kn by (cases "k = kq") simp_all
  next
    case (change_plain k d')
    then have "k \<noteq> kt" "k \<noteq> kq" using d by (auto simp: plain_def)
    then show ?thesis using change_plain(3) same [of m q] d by simp
  qed
qed

end
