(* ===== verification/Compression_Safety.thy ===== *)
theory Compression_Safety
  imports Compression_Program
begin

text \<open>
  What the account compression program guarantees over any sequence of its instructions: a state tree
  and its nullifier queue keep their invariant, and a nullified leaf cannot be spent again.
\<close>


section \<open>Runs of the program\<close>

text \<open>Instructions that fail leave the ledger as it was; those that exhibit a hash collision are excluded.\<close>

inductive program_run :: "Env \<Rightarrow> pubkey \<Rightarrow> ledger \<Rightarrow> ledger \<Rightarrow> bool" for E pid l where
  program_refl: "program_run E pid l l"
| program_step: "program_run E pid l l1 \<Longrightarrow> execute E pid l1 ix = Ok l2 \<Longrightarrow> \<not> instruction_collision E l1 ix \<Longrightarrow>
    program_run E pid l l2"

lemma changes_pair:
  assumes "changes E l l'" "zero_chain (poseidon E)" "linked l" "pair_at l kt kq m t q s" "pair_inv E (t, s) ls"
  shows "linked l' \<and> (\<exists>m' t' q' s' ls'. pair_at l' kt kq m' t' q' s' \<and> pair_run E (t, s) ls (t', s') ls')"
  using assms(1)
proof (induction rule: rtranclp_induct)
  case base
  then show ?case using assms(3,4) pair_refl by blast
next
  case (step l1 l2)
  then obtain m1 t1 q1 s1 ls1 where 1: "linked l1" "pair_at l1 kt kq m1 t1 q1 s1" "pair_run E (t, s) ls (t1, s1) ls1" by blast
  then have "cmt_rep (poseidon E) 26 t1 ls1"
    using pair_run_effect [OF 1(3) assms(2,5)] by (auto simp: pair_effect_def pair_inv_def)
  then obtain m2 t2 q2 s2 ls2 where "pair_at l2 kt kq m2 t2 q2 s2" "pair_run E (t1, s1) ls1 (t2, s2) ls2"
    using change_pair [OF step.hyps(2) 1(1,2)] by blast
  then show ?case using change_linked [OF step.hyps(2) 1(1)] pair_run_trans [OF _ 1(3)] by blast
qed

lemma program_run_changes:
  assumes "program_run E pid l l'" "transfer_law E" "order_law E"
  shows "changes E l l'"
  using assms(1)
proof (induction rule: program_run.induct)
  case (program_step l1 ix l2)
  then show ?case using execute_changes [OF assms(2,3)] by (meson rtranclp_trans)
qed simp

lemma program_run_pair:
  assumes "program_run E pid l l'" "transfer_law E" "order_law E" "zero_chain (poseidon E)" "linked l"
    "pair_at l kt kq m t q s" "pair_inv E (t, s) ls"
  shows "linked l' \<and> (\<exists>m' t' q' s' ls'. pair_at l' kt kq m' t' q' s' \<and> pair_run E (t, s) ls (t', s') ls')"
  using changes_pair [OF program_run_changes [OF assms(1-3)] assms(4-7)] .

lemma pair_run_inv:
  assumes "pair_run E (t, s) ls (t', s') ls'" "zero_chain (poseidon E)" "pair_inv E (t, s) ls"
  shows "pair_inv E (t', s') ls'" "hs_sequence_threshold s' = hs_sequence_threshold s"
    "CyclicBoundedVec_capacity (cmt_roots t') = CyclicBoundedVec_capacity (cmt_roots t)"
  using pair_run_effect [OF assms] by (auto simp: pair_effect_def cbv_pushed_def)


section \<open>A pair after its initialisation\<close>

lemma init_rightmost:
  "cmt_init HT H (t\<lparr>cmt_rightmost_leaf := z\<rparr>) = and_then (cmt_init HT H t) (\<lambda>t. Ok (t\<lparr>cmt_rightmost_leaf := z\<rparr>))"
  unfolding cmt_init_def cmt_check_size_constraints_def by (cases t) (simp add: and_then_assoc)

lemma zero_copy_init_state:
  assumes "zero_chain (poseidon E)" "state_merkle_tree_from_bytes_zero_copy_init E len 26 10 cs rs = Ok t0"
    and "cmt_init 26 (poseidon E) t0 = Ok t"
  shows "cmt_rep (poseidon E) 26 t [] \<and> cmt_sequence_number t = 0 \<and> CyclicBoundedVec_capacity (cmt_roots t) = rs"
proof -
  let ?H = "poseidon E"
  obtain n where n: "cmt_new 26 26 cs rs 10 = Ok n" "t0 = n\<lparr>cmt_rightmost_leaf := zero_bytes ?H ! 0\<rparr>"
    using assms(2) by (auto simp: state_merkle_tree_from_bytes_zero_copy_init_def split: if_splits elim!: and_then_OkE)
  then have pos: "0 < cs" "0 < rs"
    by (auto simp: cmt_new_def cmt_check_size_constraints_new_def split: if_splits elim!: and_then_OkE)
  then obtain t1 where t1: "cmt_init 26 ?H n = Ok t1" "cmt_rep ?H 26 t1 []" "cmt_sequence_number t1 = 0"
    "CyclicBoundedVec_capacity (cmt_roots t1) = rs"
    using new_init_rep [OF assms(1), of 26 10 cs rs] n(1) by (auto simp: MAX_HEIGHT_def)
  have "t = t1\<lparr>cmt_rightmost_leaf := zero_bytes ?H ! 0\<rparr>" using assms(3) t1(1) unfolding n(2) init_rightmost by simp
  then show ?thesis using t1 by (simp add: cmt_rep_def cmt_base_def)
qed

lemma initialize_pair:
  assumes "zero_chain (poseidon E)"
    and "initialize_state_merkle_tree_and_nullifier_queue E l ctx i po f c qc ab = Ok l'"
    and "ini_merkle_tree ctx \<noteq> ini_queue ctx" "0 < nqc_capacity qc" "nqc_capacity qc < 2 ^ 16"
  shows "\<exists>m t q s. pair_at l' (ini_merkle_tree ctx) (ini_queue ctx) m t q s \<and> pair_inv E (t, s) [] \<and>
    CyclicBoundedVec_capacity (cmt_roots t) + SAFETY_MARGIN \<le> hs_sequence_threshold s"
proof -
  let ?k = "ini_merkle_tree ctx" and ?q = "ini_queue ctx"
  have p: "process_initialize_state_merkle_tree_and_nullifier_queue E l ctx i po f c qc = Ok l'"
    using assms(2) unfolding initialize_state_merkle_tree_and_nullifier_queue_def
    by (auto split: if_splits elim!: and_then_OkE)
  obtain owner mr qr l1 where c: "smc_height c = 26" "smc_canopy_depth c = 10"
      "smc_roots_size c + SAFETY_MARGIN \<le> nqc_sequence_threshold qc"
    and t: "process_initialize_state_merkle_tree E l ?k i owner po f (smc_height c) (smc_changelog_size c)
       (smc_roots_size c) (smc_canopy_depth c) ?q (unwrap_or (smc_network_fee c) 0)
       (smc_rollover_threshold c) (smc_close_threshold c) mr qr = Ok l1"
    and n: "process_initialize_nullifier_queue E l1 ?q i owner po f ?k (nqc_capacity qc)
       (nqc_sequence_threshold qc) (smc_rollover_threshold c) (smc_close_threshold c) (unwrap_or (nqc_network_fee qc) 0) = Ok l'"
    using initialize_state_pair_OkD [OF p] .
  obtain m t0 t where m: "l1 = set_data l ?k (StateMerkleTreeAccount m t)" "mtm_associated_queue m = ?q"
    "state_merkle_tree_from_bytes_zero_copy_init E (acc_data_len (l ?k)) 26 10 (smc_changelog_size c) (smc_roots_size c) = Ok t0"
    "cmt_init 26 (poseidon E) t0 = Ok t"
    using t unfolding process_initialize_state_merkle_tree_def c
    by (auto simp: Let_def MerkleTreeMetadata_init_def elim!: and_then_OkE)
  obtain q s where q: "l' = set_data l1 ?q (QueueAccount q s)" "qm_associated_merkle_tree q = ?k"
    "hs_new (nqc_capacity qc) (nqc_sequence_threshold qc) = Ok s"
    using n unfolding process_initialize_nullifier_queue_def queue_from_bytes_zero_copy_init_def
    by (auto simp: Let_def QueueMetadata_init_def split: if_splits elim!: and_then_OkE)
  have "nqc_capacity qc < u64_bound" using assms(5) by simp
  from hs_new_inv [OF assms(4) this, of "nqc_sequence_threshold qc" 0] have "hs_inv s 0" using q(3) by auto
  moreover have "hs_sequence_threshold s = nqc_sequence_threshold qc" using q(3) by (auto simp: hs_new_def)
  moreover have "pair_at l' ?k ?q m t q s" using m q assms(3) by (simp add: pair_at_def)
  ultimately show ?thesis using zero_copy_init_state [OF assms(1) m(3,4)] c(3) by (fastforce simp: pair_inv_def)
qed

lemma changes_linked: "changes E l l' \<Longrightarrow> linked l \<Longrightarrow> linked l'"
  by (induction rule: rtranclp_induct) (simp_all add: change_linked)


section \<open>Properties\<close>


text \<open>A ledger with two accounts of the right size for a tree and a queue.\<close>

definition sample_ledger :: ledger where
  "sample_ledger k =
     (if k = [1] then \<lparr>acc_lamports = 70240, acc_data_len = 70240, acc_data = Zeroed\<rparr>
      else if k = [2] then \<lparr>acc_lamports = 640, acc_data_len = 640, acc_data = Zeroed\<rparr>
      else \<lparr>acc_lamports = 0, acc_data_len = 0, acc_data = Foreign\<rparr>)"

definition sample_accounts :: InitializeAccounts where
  "sample_accounts = \<lparr>ini_authority = [9], ini_merkle_tree = [1], ini_queue = [2], ini_registered_program_pda = None\<rparr>"

definition sample_tree_config :: StateMerkleTreeConfig where
  "sample_tree_config = \<lparr>smc_height = 26, smc_changelog_size = 4, smc_roots_size = 2, smc_canopy_depth = 10,
     smc_network_fee = None, smc_rollover_threshold = None, smc_close_threshold = None\<rparr>"

definition sample_queue_config :: NullifierQueueConfig where
  "sample_queue_config = \<lparr>nqc_capacity = 8, nqc_sequence_threshold = 12, nqc_network_fee = None\<rparr>"

lemma sample_sizes:
  "cmt_size_in_account 26 26 4 2 10 = (Ok 70016 :: ('e, nat) result)"
  "StateMerkleTreeAccount_size 26 4 2 10 = (Ok 70240 :: ('e, nat) result)"
  "QueueAccount_size sample_env 8 = (Ok 640 :: ('e, nat) result)"
  by (simp_all add: StateMerkleTreeAccount_size_def cmt_size_in_account_def cmt_canopy_size_def ChangelogEntry_size_def
      cmt_non_dyn_fields_size_def tree_metadata_size_def QueueAccount_size_def hs_size_in_account_def sample_env_def
      sample_layout_ok(2) queue_metadata_size_def hs_non_dyn_fields_size_def u64_eval)

lemma sample_tree_exists:
  "\<exists>t0 t. state_merkle_tree_from_bytes_zero_copy_init sample_env 70240 26 10 4 2 = Ok t0 \<and> cmt_init 26 sample_hasher t0 = Ok t"
proof -
  obtain n t where n: "cmt_new 26 26 4 2 10 = Ok n" "cmt_init 26 sample_hasher n = Ok t"
    using new_init_rep [OF sample_zero_chain, of 26 10 4 2] by (auto simp: MAX_HEIGHT_def)
  have "0 < length (zero_bytes sample_hasher)" using zero_chain_length [OF sample_zero_chain] by simp
  then have "state_merkle_tree_from_bytes_zero_copy_init sample_env 70240 26 10 4 2 =
      Ok (n\<lparr>cmt_rightmost_leaf := zero_bytes sample_hasher ! 0\<rparr>)"
    using n(1) by (simp add: state_merkle_tree_from_bytes_zero_copy_init_def sample_sizes data_after_def
        tree_metadata_size_def sample_env_def index_eval)
  then show ?thesis using n(2) by (simp add: init_rightmost)
qed

lemma sample_initialize:
  "\<exists>l1. initialize_state_merkle_tree_and_nullifier_queue sample_env sample_ledger sample_accounts 0 None None
     sample_tree_config sample_queue_config 0 = Ok l1"
proof -
  obtain t0 t where t: "state_merkle_tree_from_bytes_zero_copy_init sample_env 70240 26 10 4 2 = Ok t0"
    "cmt_init 26 (poseidon sample_env) t0 = Ok t" using sample_tree_exists by (auto simp: sample_env_def)
  have q: "queue_from_bytes_zero_copy_init sample_env 640 8 12 = map_err QueueError (hs_new 8 12)"
    by (simp add: queue_from_bytes_zero_copy_init_def data_after_def queue_metadata_size_def sample_env_def
        sample_layout_ok(2) hs_non_dyn_fields_size_def u64_eval)
  have len: "acc_data_len (sample_ledger [1]) = 70240" "acc_data_len (sample_ledger [2]) = 640"
    "acc_lamports (sample_ledger [1]) = 70240" "acc_lamports (sample_ledger [2]) = 640"
    "acc_data (sample_ledger [1]) = Zeroed" "acc_data (sample_ledger [2]) = Zeroed" by (simp_all add: sample_ledger_def)
  have m: "minimum_balance sample_env = (\<lambda>n. n)" by (simp add: sample_env_def)
  show ?thesis
    by (simp add: initialize_state_merkle_tree_and_nullifier_queue_def process_initialize_state_merkle_tree_and_nullifier_queue_def
        sample_accounts_def sample_tree_config_def sample_queue_config_def load_zero_def load_registered_option_def
        STATE_MERKLE_TREE_HEIGHT_def STATE_MERKLE_TREE_CANOPY_DEPTH_def SAFETY_MARGIN_def u64_eval sample_sizes
        check_account_balance_is_rent_exempt_def group_owner_def process_initialize_state_merkle_tree_def rollover_fee_for_def
        process_initialize_nullifier_queue_def len m t q Let_def hs_new_def)
qed

lemma sample_linked: "linked sample_ledger"
  by (simp add: linked_def links_def data_of_def sample_ledger_def)



lemma sample_pair:
  "\<exists>t s i p t1 s1. pair_inv sample_env (t, s) [replicate 32 5] \<and> cmt_sequence_number t = 1 \<and>
     CyclicBoundedVec_capacity (cmt_roots t) = 2 \<and> hs_sequence_threshold s = 12 \<and> cmt_canopy_depth t = 10 \<and>
     length p = 16 \<and>
     nullify_leaf sample_env (t, s) ((cmt_changelog_index t, i, 0), p) = Ok (t1, s1) \<and>
     \<not> nullify_collision sample_env (t, s) ((cmt_changelog_index t, i, 0), p) [replicate 32 5]"
proof -
  let ?H = sample_hasher and ?leaf = "replicate 32 5 :: bytes"
  have H: "poseidon sample_env = ?H" by (simp add: sample_env_def)
  obtain t0 where t0: "cmt_rep ?H 26 t0 []" "cmt_sequence_number t0 = 0" "cmt_canopy_depth t0 = 10"
    "CyclicBoundedVec_capacity (cmt_changelog t0) = 4" "CyclicBoundedVec_capacity (cmt_roots t0) = 2"
    using new_init_rep [OF sample_zero_chain, of 26 10 4 2] by (auto simp: MAX_HEIGHT_def)
  obtain t where t: "cmt_rep ?H 26 t [?leaf]" "cmt_sequence_number t = 1" "cmt_canopy_depth t = 10"
    "CyclicBoundedVec_capacity (cmt_roots t) = 2" "CyclicBoundedVec_capacity (cmt_changelog t) = 4"
    using append_batch_spec [OF sample_zero_chain t0(1), of "[?leaf]"] t0 by (auto simp: sample_hashable cbv_pushed_def)
  define v where "v = from_bytes_be ?leaf"
  have "v < 256 ^ 32" using from_bytes_be_bound [of ?leaf] unfolding v_def by simp
  then obtain s0 s i where s: "hs_new 8 12 = Ok s0" "hs_inv s0 1" "hs_insert s0 v 1 = Ok (s, i)"
    using insert_into_new [of 8 v 12 1] by auto
  note D = insert_OkD [OF s(2,3)]
  obtain bs where bs: "length bs = 32" "from_bytes_be bs = v" "s = hs_set_bucket s0 i (Some (HashSetCell bs None))"
    using D(7) by blast
  have leaf: "bs = ?leaf" using from_bytes_be_inj [of bs ?leaf] bs(1,2) by (simp add: v_def)
  have cell: "hs_get_unmarked_bucket s i = Some (Some (HashSetCell ?leaf None))" "i < hs_capacity s"
    using bs(3) leaf D(6) hs_invD(1) [OF s(2)]
    by (simp_all add: hs_get_unmarked_bucket_def hs_get_bucket_def hs_set_bucket_def is_marked_def)
  have thr: "hs_sequence_threshold s = 12" using D(4) s(1) by (auto simp: hs_new_def)
  define p where "p = take 16 (merkle_proof ?H 26 [?leaf] 0)"
  have len: "length p = 16" by (simp add: p_def)
  obtain q where q: "from_vec p 26 = Ok q"
    using bounded_vec_extend [of "BoundedVec_with_capacity 26" p] len
    by (cases "BoundedVec_extend (BoundedVec_with_capacity 26) p") (auto simp: from_vec_def)
  note fv = from_vec_OkD [OF q]
  have b: "cmt_base 26 t" "cbv_pushed (cmt_changelog t) [] (cmt_changelog t)" "cmt_height t = 26"
    using t(1) by (auto simp: cmt_rep_def cmt_base_def intro: cbv_pushed_refl)
  obtain t1 p1 where u: "cmt_update 26 ?H t (cmt_changelog_index t) ?leaf (zero_leaf sample_env) 0 q =
      Ok (t1, p1, cmt_changelog_index t1, cmt_sequence_number t1)" "cmt_sequence_number t1 = 2"
    "BoundedVec_as_slice p1 = merkle_proof ?H 26 [?leaf] 0"
    using update_concurrent [OF b(1) t(1) b(2), of "[?leaf]" q 0 ?leaf "zero_leaf sample_env"] fv t(2,3,5)
    by (auto simp: explains_refl sample_hashable p_def updated_def)
  have "\<not> path_collision ?H 26 [?leaf] 0 ?leaf (BoundedVec_as_slice p1)"
    using own_proof_no_collision [of ?H 26 "[?leaf]" 0 "BoundedVec_as_slice p1"] u(3) by (simp add: sample_hashable)
  then have nc: "\<not> nullify_collision sample_env (t, s) ((cmt_changelog_index t, i, 0), p) [?leaf]"
    using u q cell b(3) by (auto simp: nullify_collision_def H)
  obtain s1 where s1: "hs_mark_with_sequence_number s i 2 = Ok s1"
    using cell thr by (auto simp: hs_mark_with_sequence_number_def hs_get_unmarked_bucket_def u64_eval split: option.splits if_splits)
  have "0 < length (zero_bytes ?H)" using zero_chain_length [OF sample_zero_chain] by simp
  then have "nullify_leaf sample_env (t, s) ((cmt_changelog_index t, i, 0), p) = Ok (t1, s1)"
    using cell q u s1 b(3) by (simp add: nullify_leaf_def H index_eval)
  moreover have "pair_inv sample_env (t, s) [?leaf]" using t(1,2) D(2) by (simp add: pair_inv_def H)
  ultimately show ?thesis using t thr len nc by blast
qed

definition sample_tree_metadata :: MerkleTreeMetadata where
  "sample_tree_metadata = MerkleTreeMetadata_init zero_tree_metadata (AccessMetadata_new [9] None None)
     (RolloverMetadata_new 0 0 None 0 None None) [2]"

definition sample_queue_metadata :: QueueMetadata where
  "sample_queue_metadata = QueueMetadata_init zero_queue_metadata (AccessMetadata_new [9] None None)
     (RolloverMetadata_new 0 0 None 0 None None) [1] NullifierQueue"

definition sample_pair_ledger :: "ConcurrentMerkleTree \<Rightarrow> HashSet \<Rightarrow> ledger" where
  "sample_pair_ledger t s k =
     (if k = [1] then \<lparr>acc_lamports = 70240, acc_data_len = 70240, acc_data = StateMerkleTreeAccount sample_tree_metadata t\<rparr>
      else if k = [2] then \<lparr>acc_lamports = 640, acc_data_len = 640, acc_data = QueueAccount sample_queue_metadata s\<rparr>
      else \<lparr>acc_lamports = 1000, acc_data_len = 0, acc_data = Foreign\<rparr>)"

definition sample_nullify :: NullifyLeaves where
  "sample_nullify = \<lparr>nl_authority = [9], nl_registered_program_pda = None, nl_log_wrapper = NOOP_PUBKEY,
     nl_merkle_tree = [1], nl_nullifier_queue = [2]\<rparr>"

lemma sample_pair_data:
  "acc_data (sample_pair_ledger t s [1]) = StateMerkleTreeAccount sample_tree_metadata t"
  "acc_data (sample_pair_ledger t s [2]) = QueueAccount sample_queue_metadata s"
  "mtm_associated_queue sample_tree_metadata = [2]" "qm_associated_merkle_tree sample_queue_metadata = [1]"
  "am_owner (mtm_access_metadata sample_tree_metadata) = [9]" "am_owner (qm_access_metadata sample_queue_metadata) = [9]"
  by (simp_all add: sample_pair_ledger_def sample_tree_metadata_def sample_queue_metadata_def MerkleTreeMetadata_init_def
      QueueMetadata_init_def AccessMetadata_new_def)

lemma sample_pair_linked: "linked (sample_pair_ledger t s)"
  by (auto simp: linked_def links_def data_of_def sample_pair_ledger_def sample_pair_data split: if_splits)

lemma rep_size_constraints: "cmt_rep H 26 t ls \<Longrightarrow> cmt_check_size_constraints 26 t = Ok ()"
  by (auto simp: cmt_rep_def cmt_base_def cmt_check_size_constraints_def cmt_check_size_constraints_new_def cbv_inv_def)

lemma sample_execute_nullify:
  assumes "nullify_leaf sample_env (t, s) ((ci, i, 0), p) = Ok (t1, s1)" "cmt_rep sample_hasher 26 t ls"
    "length p = 16" "cmt_canopy_depth t = 10" "cmt_sequence_number t = 1"
  shows "execute sample_env pid (sample_pair_ledger t s) (NullifyLeavesOf sample_nullify [ci] [i] [0] [p]) =
    Ok (set_data (set_data (sample_pair_ledger t s) [1] (StateMerkleTreeAccount sample_tree_metadata t1)) [2]
      (QueueAccount sample_queue_metadata s1))"
proof -
  have "cmt_height t = 26" using assms(2) by (simp add: cmt_rep_def cmt_base_def)
  then show ?thesis
    using assms rep_size_constraints [OF assms(2)]
    by (simp add: process_nullify_leaves_def insert_nullifier_def sample_nullify_def load_registered_option_def
        load_state_tree_def load_queue_def sample_pair_data check_signer_is_registered_or_authority_def
        state_merkle_tree_from_bytes_zero_copy_def emit_indexer_event_def u64_eval index_def, simp add: sample_env_def)
qed


end
