(* ===== verification/Compression_Effects.thy ===== *)
theory Compression_Effects
  imports Compression_Safety
begin

text \<open>
  What the two instructions that the system program calls do to every account: inserting elements into
  queues and appending leaves to state trees.
\<close>


section \<open>Inserting into queues\<close>

lemma insert_elements_OkD:
  assumes "hs_inv s n" "insert_elements s n es = Ok s'"
  shows "hs_inv s' n \<and> hs_sequence_threshold s' = hs_sequence_threshold s \<and>
    (\<forall>d \<ge> n. hs_live s' d = hs_live s d \<union> from_bytes_be ` set es) \<and>
    distinct (map from_bytes_be es) \<and> (\<forall>e \<in> set es. from_bytes_be e \<notin> hs_live s n)"
  using assms
proof (induction es arbitrary: s)
  case (Cons e es)
  obtain s1 i where s1: "hs_insert s (from_bytes_be e) n = Ok (s1, i)" "insert_elements s1 n es = Ok s'"
    using Cons.prems(2) by (auto simp: insert_elements_def elim!: and_then_OkE)
  note D = insert_OkD [OF Cons.prems(1) s1(1)]
  have live: "hs_live s1 d = insert (from_bytes_be e) (hs_live s d)" if "n \<le> d" for d using D(3) [OF that] .
  note IH = Cons.IH [OF D(2) s1(2)]
  have "hs_live s' d = hs_live s d \<union> from_bytes_be ` set (e # es)" if "n \<le> d" for d using IH live [OF that] that by auto
  moreover have "from_bytes_be e \<notin> from_bytes_be ` set es" using IH live [of n] by auto
  moreover have "\<forall>x \<in> set es. from_bytes_be x \<notin> hs_live s n" using IH live [of n] by auto
  ultimately show ?case using IH D(1,4) by auto
qed (simp add: insert_elements_def)

text \<open>The elements collected for a queue, in the order of the instruction.\<close>

definition elements_for :: "((pubkey \<times> pubkey) \<times> bytes) list \<Rightarrow> pubkey \<Rightarrow> bytes list" where
  "elements_for xs k = map snd (filter (\<lambda>x. fst (fst x) = k) xs)"

definition map_elements :: "QueueMap \<Rightarrow> pubkey \<Rightarrow> bytes list" where
  "map_elements qm k = (case map_of qm k of Some b \<Rightarrow> qb_elements b | None \<Rightarrow> [])"

lemma map_elements_push:
  "map_elements (queue_map_push qm k mt x) k' = (if k' = k then map_elements qm k @ [x] else map_elements qm k')"
  by (induction qm k mt x rule: queue_map_push.induct) (auto simp: map_elements_def)

lemma collect_pairs_elements:
  assumes "try_fold (collect_pair l qt) qm0 xs = Ok qm"
  shows "map_elements qm k = map_elements qm0 k @ elements_for xs k \<and>
    set (map fst qm) = set (map fst qm0) \<union> (fst \<circ> fst) ` set xs \<and>
    (\<forall>x \<in> set xs. \<exists>q s. data_of l (fst (fst x)) = QueueAccount q s \<and> qm_queue_type q = QueueType_u64 qt \<and>
       qm_associated_merkle_tree q = snd (fst x))"
  using assms
proof (induction xs arbitrary: qm0)
  case (Cons x xs)
  obtain qm1 where qm1: "collect_pair l qt qm0 x = Ok qm1" "try_fold (collect_pair l qt) qm1 xs = Ok qm"
    using Cons.prems by (auto elim: and_then_OkE)
  obtain k1 mt e q s where x: "x = ((k1, mt), e)" "data_of l k1 = QueueAccount q s" "qm_associated_merkle_tree q = mt"
    "qm_queue_type q = QueueType_u64 qt" "qm1 = queue_map_push qm0 k1 mt e"
    using qm1(1) by (cases x) (auto simp: collect_pair_def check_queue_type_def load_data split: if_splits elim!: and_then_OkE)
  show ?case using Cons.IH [OF qm1(2)] x(2-4) queue_map_push_keys [of qm0 k1 mt e]
    by (auto simp: x(1,5) map_elements_push elements_for_def)
qed (simp add: elements_for_def)

text \<open>The account of a queue after its bundle.\<close>

definition bundle_done :: "ledger \<Rightarrow> QueueBundle \<Rightarrow> AccountData \<Rightarrow> bool" where
  "bundle_done l b d \<longleftrightarrow> (\<exists>q s n s'. data_of l (qb_queue b) = QueueAccount q s \<and>
     tree_sequence_number l (qm_associated_merkle_tree q) = Ok n \<and> insert_elements s n (qb_elements b) = Ok s' \<and>
     d = QueueAccount q s')"

lemma tree_sequence_number_Ok:
  "tree_sequence_number l k = Ok n \<Longrightarrow> data_of l k \<noteq> QueueAccount q s"
  using tree_sequence_number_queue by metis

text \<open>Bundles of different queues do not disturb each other.\<close>

lemma insert_bundles_data:
  assumes "transfer_law E" "try_fold (insert_bundle E ctx r) l bs = Ok l'" "distinct (map qb_queue bs)" "\<forall>b \<in> set bs. bundle_ok l b"
  shows "(\<forall>k. k \<notin> qb_queue ` set bs \<longrightarrow> data_of l' k = data_of l k) \<and>
    (\<forall>b \<in> set bs. bundle_done l b (data_of l' (qb_queue b)))"
  using assms(2-)
proof (induction bs arbitrary: l)
  case (Cons b bs)
  obtain l1 where l1: "insert_bundle E ctx r l b = Ok l1" "try_fold (insert_bundle E ctx r) l1 bs = Ok l'"
    using Cons.prems(1) by (auto elim: and_then_OkE)
  have "bundle_ok l b" using Cons.prems(3) by simp
  then obtain q s n s' where d: "data_of l (qb_queue b) = QueueAccount q s" "qm_associated_merkle_tree q = qb_merkle_tree b"
    "tree_sequence_number l (qb_merkle_tree b) = Ok n" "insert_elements s n (qb_elements b) = Ok s'"
    "data_of l1 = (data_of l)(qb_queue b := QueueAccount q s')"
    using insert_bundle_OkD [OF assms(1) l1(1)] by metis
  have "\<forall>c \<in> set bs. bundle_ok l1 c" using Cons.prems(2,3) d by (auto simp: bundle_ok_def)
  then have IH: "(\<forall>k. k \<notin> qb_queue ` set bs \<longrightarrow> data_of l' k = data_of l1 k) \<and>
      (\<forall>c \<in> set bs. bundle_done l1 c (data_of l' (qb_queue c)))"
    using Cons.IH [OF l1(2)] Cons.prems(2) by simp
  have "tree_sequence_number l1 k = tree_sequence_number l k" if "tree_sequence_number l1 k = Ok m" for k m
  proof -
    have "k \<noteq> qb_queue b" using tree_sequence_number_Ok [OF that, of q s'] d(5) by auto
    then show ?thesis using d(5) by (intro tree_sequence_number_cong) simp
  qed
  moreover have "qb_queue c \<noteq> qb_queue b" if "c \<in> set bs" for c using Cons.prems(2) that by simp (metis imageI)
  ultimately have "bundle_done l c (data_of l' (qb_queue c))" if "c \<in> set bs" for c
    using IH that d(5) unfolding bundle_done_def by (metis fun_upd_apply)
  moreover have "data_of l' (qb_queue b) = QueueAccount q s'" using IH Cons.prems(2) d(5) by auto
  then have "bundle_done l b (data_of l' (qb_queue b))" unfolding bundle_done_def using d by auto
  ultimately show ?case using IH d(5) by auto
qed simp


lemma insert_queues_OkD:
  assumes "process_insert_into_queues E l ctx es qt = Ok l'"
  obtains r qm where "length (iq_remaining_accounts ctx) = 2 * length es" "es \<noteq> []"
    "try_fold (collect_pair l qt) [] (zip (pairs (iq_remaining_accounts ctx)) es) = Ok qm"
    "try_fold (insert_bundle E ctx r) l (map (\<lambda>k. the (map_of qm k)) (hash_map_order E (map fst qm))) = Ok l'"
    "load_registered_option l (iq_registered_program_pda ctx) = Ok r"
proof -
  obtain r qm where "load_registered_option l (iq_registered_program_pda ctx) = Ok r" "es \<noteq> []"
    "length es * 2 = length (iq_remaining_accounts ctx)"
    "try_fold (collect_pair l qt) [] (zip (pairs (iq_remaining_accounts ctx)) es) = Ok qm"
    "try_fold (insert_bundle E ctx r) l (map (\<lambda>k. the (map_of qm k)) (hash_map_order E (map fst qm))) = Ok l'"
    using assms unfolding process_insert_into_queues_def by (fastforce split: if_splits elim!: and_then_OkE)
  then show thesis using that by (simp add: mult.commute)
qed

text \<open>The bundles in the order of the hash map: one per queue.\<close>

lemma ordered_bundles:
  assumes "order_law E" "\<forall>(k, b) \<in> set qm. qb_queue b = k \<and> bundle_ok l b" "distinct (map fst qm)"
  defines "bs \<equiv> map (\<lambda>k. the (map_of qm k)) (hash_map_order E (map fst qm))"
  shows "map qb_queue bs = hash_map_order E (map fst qm)" "distinct (map qb_queue bs)" "\<forall>b \<in> set bs. bundle_ok l b"
    "qb_queue ` set bs = set (map fst qm)" "\<And>b. b \<in> set bs \<Longrightarrow> map_elements qm (qb_queue b) = qb_elements b"
proof -
  have keys: "set (hash_map_order E (map fst qm)) = set (map fst qm)" "distinct (hash_map_order E (map fst qm))"
    using assms(1) [unfolded order_law_def, rule_format, OF assms(3)] by auto
  have look: "map_of qm k = Some (the (map_of qm k)) \<and> qb_queue (the (map_of qm k)) = k \<and> bundle_ok l (the (map_of qm k))"
    if "k \<in> set (map fst qm)" for k
  proof -
    have "map_of qm k \<noteq> None" using that by (simp add: map_of_eq_None_iff)
    then obtain b where "map_of qm k = Some b" by blast
    moreover from this have "(k, b) \<in> set qm" by (rule map_of_SomeD)
    then have "qb_queue b = k \<and> bundle_ok l b" using assms(2) by blast
    ultimately show ?thesis by simp
  qed
  show q: "map qb_queue bs = hash_map_order E (map fst qm)" unfolding bs_def using look keys(1) by (auto intro: map_idI)
  show "distinct (map qb_queue bs)" unfolding q by (rule keys(2))
  show "\<forall>b \<in> set bs. bundle_ok l b" unfolding bs_def using look keys(1) by auto
  show "qb_queue ` set bs = set (map fst qm)" using q keys(1) by (metis list.set_map)
  show "map_elements qm (qb_queue b) = qb_elements b" if bs: "b \<in> set bs" for b
  proof -
    obtain k where k: "k \<in> set (map fst qm)" "b = the (map_of qm k)" using bs keys(1) unfolding bs_def by auto
    then have "map_of qm (qb_queue b) = Some b" using look [OF k(1)] by simp
    then show ?thesis by (simp add: map_elements_def)
  qed
qed

definition queue_inputs :: "InsertIntoQueues \<Rightarrow> bytes list \<Rightarrow> ((pubkey \<times> pubkey) \<times> bytes) list" where
  "queue_inputs ctx es = zip (pairs (iq_remaining_accounts ctx)) es"

lemma insert_into_queues_effect:
  assumes "transfer_law E" "order_law E" "process_insert_into_queues E l ctx es qt = Ok l'"
  shows "(\<forall>k. k \<notin> (fst \<circ> fst) ` set (queue_inputs ctx es) \<longrightarrow> data_of l' k = data_of l k) \<and>
    (\<forall>x \<in> set (queue_inputs ctx es). \<exists>q s n s'. data_of l (fst (fst x)) = QueueAccount q s \<and>
       qm_queue_type q = QueueType_u64 qt \<and> qm_associated_merkle_tree q = snd (fst x) \<and>
       tree_sequence_number l (snd (fst x)) = Ok n \<and>
       insert_elements s n (elements_for (queue_inputs ctx es) (fst (fst x))) = Ok s' \<and>
       data_of l' (fst (fst x)) = QueueAccount q s')"
proof -
  obtain r qm where o: "try_fold (collect_pair l qt) [] (zip (pairs (iq_remaining_accounts ctx)) es) = Ok qm"
    "try_fold (insert_bundle E ctx r) l (map (\<lambda>k. the (map_of qm k)) (hash_map_order E (map fst qm))) = Ok l'"
    by (rule insert_queues_OkD [OF assms(3)])
  let ?bs = "map (\<lambda>k. the (map_of qm k)) (hash_map_order E (map fst qm))" and ?xs = "queue_inputs ctx es"
  note c = collect_pairs_ok [OF o(1)]
  have e: "map_elements qm k = elements_for ?xs k" "set (map fst qm) = (fst \<circ> fst) ` set ?xs"
    "\<forall>x \<in> set ?xs. \<exists>q s. data_of l (fst (fst x)) = QueueAccount q s \<and> qm_queue_type q = QueueType_u64 qt \<and>
       qm_associated_merkle_tree q = snd (fst x)" for k
    using collect_pairs_elements [OF o(1), of k] by (simp_all add: queue_inputs_def map_elements_def)
  note b = ordered_bundles [OF assms(2) conjunct1 [OF c] conjunct2 [OF c]]
  note d = insert_bundles_data [OF assms(1) o(2) b(2,3)]
  have "\<exists>q s n s'. data_of l (fst (fst x)) = QueueAccount q s \<and> qm_queue_type q = QueueType_u64 qt \<and>
      qm_associated_merkle_tree q = snd (fst x) \<and> tree_sequence_number l (snd (fst x)) = Ok n \<and>
      insert_elements s n (elements_for ?xs (fst (fst x))) = Ok s' \<and> data_of l' (fst (fst x)) = QueueAccount q s'"
    if x: "x \<in> set ?xs" for x
  proof -
    have "fst (fst x) \<in> qb_queue ` set ?bs" using x e(2) b(4) by force
    then obtain c where c: "fst (fst x) = qb_queue c" "c \<in> set ?bs" by (rule imageE)
    have "bundle_done l c (data_of l' (qb_queue c))" using d c(2) by blast
    then obtain q s n s' where q: "data_of l (fst (fst x)) = QueueAccount q s" "tree_sequence_number l (qm_associated_merkle_tree q) = Ok n"
      "insert_elements s n (qb_elements c) = Ok s'" "data_of l' (fst (fst x)) = QueueAccount q s'"
      unfolding bundle_done_def c(1) by blast
    have el: "qb_elements c = elements_for ?xs (fst (fst x))" using b(5) [OF c(2)] unfolding e(1) c(1) by simp
    have "qm_queue_type q = QueueType_u64 qt" "qm_associated_merkle_tree q = snd (fst x)" using e(3) x q(1) by auto
    then show ?thesis using q unfolding el by auto
  qed
  moreover have "data_of l' k = data_of l k" if "k \<notin> (fst \<circ> fst) ` set ?xs" for k
    using d that unfolding b(4) e(2) by blast
  ultimately show ?thesis by blast
qed



section \<open>Appending leaves\<close>

lemma position_Some: "position P xs = Some n \<Longrightarrow> n < length xs \<and> P (xs ! n) \<and> (\<forall>x \<in> set (take n xs). \<not> P x)"
  by (induction xs arbitrary: n) (auto split: if_splits)

lemma position_None: "position P xs = None \<longleftrightarrow> (\<forall>x \<in> set xs. \<not> P x)"
  by (induction xs) auto

text \<open>The leaves that carry the index \<open>i\<close>.\<close>

definition leaves_for :: "(byte \<times> bytes) list \<Rightarrow> nat \<Rightarrow> (byte \<times> bytes) list" where
  "leaves_for leaves i = filter (\<lambda>x. unat (fst x) = i) leaves"

definition batch_of :: "(byte \<times> bytes) list \<Rightarrow> nat \<Rightarrow> (byte \<times> bytes) list" where
  "batch_of leaves i = (case batch_range leaves i of Ok (a, b) \<Rightarrow> take (b - a) (drop a leaves) | _ \<Rightarrow> [])"

lemma batch_range_OkD:
  assumes "batch_range leaves i = Ok (a, b)"
  shows "a \<le> b" "b \<le> length leaves" "\<forall>x \<in> set (take (b - a) (drop a leaves)). unat (fst x) = i"
    "length (batch_of leaves i) = b - a"
proof -
  have a: "position (\<lambda>x. unat (fst x) = i) leaves = Some a"
    and b: "b = (case position (\<lambda>x. unat (fst x) \<noteq> i) (drop a leaves) of Some pos \<Rightarrow> pos + a | None \<Rightarrow> length leaves)"
    using assms by (auto simp: batch_range_def elim!: and_then_OkE)
  show ab: "a \<le> b" using b position_Some [OF a] by (auto split: option.splits)
  show bl: "b \<le> length leaves" using b position_Some by (fastforce split: option.splits)
  show "\<forall>x \<in> set (take (b - a) (drop a leaves)). unat (fst x) = i"
  proof (cases "position (\<lambda>x. unat (fst x) \<noteq> i) (drop a leaves)")
    case None
    then show ?thesis using set_take_subset by (fastforce simp: position_None)
  next
    case (Some n)
    then show ?thesis using position_Some [OF Some] b by auto
  qed
  show "length (batch_of leaves i) = b - a" using assms ab bl by (simp add: batch_of_def)
qed

lemma batch_in_leaves_for:
  shows "length (batch_of leaves i) \<le> length (leaves_for leaves i)"
    and "length (batch_of leaves i) = length (leaves_for leaves i) \<Longrightarrow> batch_of leaves i = leaves_for leaves i"
proof -
  have "\<exists>xs ys. leaves_for leaves i = xs @ batch_of leaves i @ ys"
  proof (cases "\<exists>a b. batch_range leaves i = Ok (a, b)")
    case True
    then obtain a b where ab: "batch_range leaves i = Ok (a, b)" by blast
    have "leaves = take a leaves @ take (b - a) (drop a leaves) @ drop (b - a) (drop a leaves)"
      by (metis append_take_drop_id)
    then have "leaves_for leaves i = leaves_for (take a leaves) i @ leaves_for (take (b - a) (drop a leaves)) i @
        leaves_for (drop (b - a) (drop a leaves)) i"
      unfolding leaves_for_def by (metis filter_append)
    moreover have "leaves_for (take (b - a) (drop a leaves)) i = batch_of leaves i"
      using batch_range_OkD(3) [OF ab] ab by (simp add: leaves_for_def batch_of_def)
    ultimately show ?thesis by auto
  next
    case False
    then have "batch_of leaves i = []" by (auto simp: batch_of_def split: result.splits)
    then show ?thesis by auto
  qed
  then obtain xs ys where eq: "leaves_for leaves i = xs @ batch_of leaves i @ ys" by blast
  show "length (batch_of leaves i) \<le> length (leaves_for leaves i)" unfolding eq by simp
  assume "length (batch_of leaves i) = length (leaves_for leaves i)"
  then show "batch_of leaves i = leaves_for leaves i" unfolding eq by simp
qed

lemma sum_leaves_for: "(\<Sum>i<n. length (leaves_for leaves i)) = length (filter (\<lambda>x. unat (fst x) < n) leaves)"
proof (induction leaves)
  case (Cons x leaves)
  have "(\<Sum>i<n. length (leaves_for (x # leaves) i)) =
      (\<Sum>i<n. length (leaves_for leaves i)) + (\<Sum>i<n. if unat (fst x) = i then 1 else 0)"
    unfolding sum.distrib [symmetric] by (rule sum.cong) (auto simp: leaves_for_def)
  then show ?case using Cons by (simp add: sum.delta')
qed (simp add: leaves_for_def)

text \<open>When all leaves were processed, every batch is all leaves of its tree.\<close>

lemma all_processed:
  assumes "(\<Sum>i<n. length (batch_of leaves i)) = length leaves" "i < n"
  shows "batch_of leaves i = leaves_for leaves i"
proof (rule ccontr)
  assume "batch_of leaves i \<noteq> leaves_for leaves i"
  then have "length (batch_of leaves i) < length (leaves_for leaves i)"
    using batch_in_leaves_for [of leaves i] by force
  then have "(\<Sum>i<n. length (batch_of leaves i)) < (\<Sum>i<n. length (leaves_for leaves i))"
    using assms(2) batch_in_leaves_for(1) by (intro sum_strict_mono_ex1) auto
  also have "\<dots> \<le> length leaves" unfolding sum_leaves_for by (rule length_filter_le)
  finally show False using assms(1) by simp
qed

lemma append_to_tree_OkD:
  assumes "transfer_law E" "append_to_tree E ctx r leaves (l, c) i = Ok (l', c')"
  obtains m t t' ci sn where "i < length (al_remaining_accounts ctx)"
    "data_of l (al_remaining_accounts ctx ! i) = StateMerkleTreeAccount m t"
    "cmt_append_batch 26 (poseidon E) t (map snd (batch_of leaves i)) = Ok (t', ci, sn)"
    "data_of l' = (data_of l)(al_remaining_accounts ctx ! i := StateMerkleTreeAccount m t')"
    "c' = c + length (batch_of leaves i)"
    "check_signer_is_registered_or_authority E (al_authority ctx) r (am_owner (mtm_access_metadata m)) = Ok ()"
proof -
  let ?k = "al_remaining_accounts ctx ! i"
  obtain a b m t t' ci sn fee where d: "i < length (al_remaining_accounts ctx)" "batch_range leaves i = Ok (a, b)"
    "data_of l ?k = StateMerkleTreeAccount m t"
    "cmt_append_batch 26 (poseidon E) t (map snd (take (b - a) (drop a leaves))) = Ok (t', ci, sn)"
    "check_signer_is_registered_or_authority E (al_authority ctx) r (am_owner (mtm_access_metadata m)) = Ok ()"
    "transfer_lamports_cpi E (set_data l ?k (StateMerkleTreeAccount m t')) (al_fee_payer ctx) ?k fee = Ok l'"
    "c' = c + (b - a)"
    using assms(2) unfolding append_to_tree_def
    by (auto simp: load_data Let_def elim!: and_then_OkE dest!: state_zero_copy_Ok)
  have "take (b - a) (drop a leaves) = batch_of leaves i" using d(2) by (simp add: batch_of_def)
  moreover have "data_of l' = (data_of l)(?k := StateMerkleTreeAccount m t')"
    using transfer_cpi_data [OF assms(1) d(6)] by simp
  ultimately show thesis using that d batch_range_OkD(4) [OF d(2)] by metis
qed

text \<open>The account of the \<open>i\<close>-th tree after its batch.\<close>

definition appended :: "Env \<Rightarrow> (byte \<times> bytes) list \<Rightarrow> AccountData \<Rightarrow> nat \<Rightarrow> AccountData \<Rightarrow> bool" where
  "appended E leaves d i d' \<longleftrightarrow> (\<exists>m t t' ci sn. d = StateMerkleTreeAccount m t \<and>
     cmt_append_batch 26 (poseidon E) t (map snd (batch_of leaves i)) = Ok (t', ci, sn) \<and> d' = StateMerkleTreeAccount m t')"

lemma append_loop_data:
  assumes "transfer_law E" "try_fold (append_to_tree E ctx r leaves) (l, 0) [0..<n] = Ok (l', c)"
    and "distinct (al_remaining_accounts ctx)"
  shows "c = (\<Sum>i<n. length (batch_of leaves i)) \<and> n \<le> length (al_remaining_accounts ctx) \<and>
    (\<forall>k. k \<notin> set (take n (al_remaining_accounts ctx)) \<longrightarrow> data_of l' k = data_of l k) \<and>
    (\<forall>i < n. appended E leaves (data_of l (al_remaining_accounts ctx ! i)) i (data_of l' (al_remaining_accounts ctx ! i)))"
  using assms(2)
proof (induction n arbitrary: l' c)
  case (Suc n)
  let ?ks = "al_remaining_accounts ctx"
  obtain l1 c1 where 1: "try_fold (append_to_tree E ctx r leaves) (l, 0) [0..<n] = Ok (l1, c1)"
    "append_to_tree E ctx r leaves (l1, c1) n = Ok (l', c)"
    using Suc.prems by (auto simp: try_fold_append elim!: and_then_OkE)
  note IH = Suc.IH [OF 1(1)]
  obtain m t t' ci sn where d: "n < length ?ks" "data_of l1 (?ks ! n) = StateMerkleTreeAccount m t"
    "cmt_append_batch 26 (poseidon E) t (map snd (batch_of leaves n)) = Ok (t', ci, sn)"
    "data_of l' = (data_of l1)(?ks ! n := StateMerkleTreeAccount m t')" "c = c1 + length (batch_of leaves n)"
    by (rule append_to_tree_OkD [OF assms(1) 1(2)])
  have tk: "take (Suc n) ?ks = take n ?ks @ [?ks ! n]" using d(1) by (simp add: take_Suc_conv_app_nth)
  have new: "?ks ! n \<notin> set (take n ?ks)" using assms(3) d(1) by (auto simp: in_set_conv_nth nth_eq_iff_index_eq)
  have "data_of l (?ks ! n) = StateMerkleTreeAccount m t" using IH new d(2) by simp
  then have "appended E leaves (data_of l (?ks ! n)) n (data_of l' (?ks ! n))" using d(3,4) unfolding appended_def by auto
  moreover have "data_of l' (?ks ! i) = data_of l1 (?ks ! i)" if "i < n" for i
    using d(1,4) that assms(3) by (simp add: nth_eq_iff_index_eq)
  ultimately have "\<forall>i < Suc n. appended E leaves (data_of l (?ks ! i)) i (data_of l' (?ks ! i))"
    using IH by (auto simp: less_Suc_eq)
  then show ?case using IH d(1,4,5) unfolding tk by auto
qed simp


lemma append_leaves_effect:
  assumes "transfer_law E" "process_append_leaves_to_merkle_trees E l ctx leaves = Ok l'"
    and "distinct (al_remaining_accounts ctx)"
  shows "(\<forall>k. k \<notin> set (al_remaining_accounts ctx) \<longrightarrow> data_of l' k = data_of l k) \<and>
    (\<forall>i < length (al_remaining_accounts ctx). \<exists>m t t' ci sn.
       data_of l (al_remaining_accounts ctx ! i) = StateMerkleTreeAccount m t \<and>
       cmt_append_batch 26 (poseidon E) t (map snd (leaves_for leaves i)) = Ok (t', ci, sn) \<and>
       data_of l' (al_remaining_accounts ctx ! i) = StateMerkleTreeAccount m t') \<and>
    (\<forall>x \<in> set leaves. unat (fst x) < length (al_remaining_accounts ctx))"
proof -
  let ?ks = "al_remaining_accounts ctx"
  obtain r c where fold: "try_fold (append_to_tree E ctx r leaves) (l, 0) [0..<length ?ks] = Ok (l', c)" "c = length leaves"
    using assms(2) by (auto simp: process_append_leaves_to_merkle_trees_def batch_append_leaves_def split: if_splits
        elim!: and_then_OkE)
  note d = append_loop_data [OF assms(1) fold(1) assms(3)]
  have c: "(\<Sum>i<length ?ks. length (batch_of leaves i)) = length leaves" using d fold(2) by simp
  note b = all_processed [OF c]
  have "(\<Sum>i<length ?ks. length (batch_of leaves i)) = length (filter (\<lambda>x. unat (fst x) < length ?ks) leaves)"
    unfolding sum_leaves_for [symmetric] using b by simp
  then have full: "length (filter (\<lambda>x. unat (fst x) < length ?ks) leaves) = length leaves" using c by simp
  have "\<forall>x \<in> set leaves. unat (fst x) < length ?ks"
    using length_filter_less [of _ leaves "\<lambda>x. unat (fst x) < length ?ks"] full by auto
  moreover have "\<exists>m t t' ci sn. data_of l (?ks ! i) = StateMerkleTreeAccount m t \<and>
      cmt_append_batch 26 (poseidon E) t (map snd (leaves_for leaves i)) = Ok (t', ci, sn) \<and>
      data_of l' (?ks ! i) = StateMerkleTreeAccount m t'" if "i < length ?ks" for i
  proof -
    have "appended E leaves (data_of l (?ks ! i)) i (data_of l' (?ks ! i))" using d that by blast
    then show ?thesis unfolding appended_def b [OF that] .
  qed
  moreover have "\<forall>k. k \<notin> set ?ks \<longrightarrow> data_of l' k = data_of l k" using d by simp
  ultimately show ?thesis by blast
qed

text \<open>
  C9.  \<open>append_leaves_to_merkle_trees\<close>: when it succeeds on different trees, every tree has received exactly the leaves
  that carry its position, in their order, no leaf was left out, and no other account has changed its data.  The list
  of leaves of each tree grows by these leaves and its root is the Merkle root of the new list.
\<close>

theorem append_leaves_correct:
  assumes "transfer_law E" "zero_chain (poseidon E)" "distinct (al_remaining_accounts ctx)"
    and "process_append_leaves_to_merkle_trees E l ctx leaves = Ok l'"
  shows "(\<forall>k. k \<notin> set (al_remaining_accounts ctx) \<longrightarrow> acc_data (l' k) = acc_data (l k)) \<and>
    (\<forall>x \<in> set leaves. unat (fst x) < length (al_remaining_accounts ctx)) \<and>
    (\<forall>i < length (al_remaining_accounts ctx). \<exists>m t t'.
       acc_data (l (al_remaining_accounts ctx ! i)) = StateMerkleTreeAccount m t \<and>
       acc_data (l' (al_remaining_accounts ctx ! i)) = StateMerkleTreeAccount m t' \<and>
       (\<forall>ls. cmt_rep (poseidon E) 26 t ls \<longrightarrow>
          cmt_rep (poseidon E) 26 t' (ls @ map snd (filter (\<lambda>x. unat (fst x) = i) leaves))))"
proof -
  note e = append_leaves_effect [OF assms(1,4,3)]
  have rep: "cmt_rep (poseidon E) 26 t' (ls @ b)"
    if "cmt_append_batch 26 (poseidon E) t b = Ok (t', ci, sn)" "cmt_rep (poseidon E) 26 t ls" for t t' b ci sn ls
    using append_batch_spec [OF assms(2) that(2) append_batch_Ok [OF that]] that(1) by (auto split: if_splits)
  have "\<exists>m t t'. acc_data (l (al_remaining_accounts ctx ! i)) = StateMerkleTreeAccount m t \<and>
      acc_data (l' (al_remaining_accounts ctx ! i)) = StateMerkleTreeAccount m t' \<and>
      (\<forall>ls. cmt_rep (poseidon E) 26 t ls \<longrightarrow>
         cmt_rep (poseidon E) 26 t' (ls @ map snd (filter (\<lambda>x. unat (fst x) = i) leaves)))"
    if i: "i < length (al_remaining_accounts ctx)" for i
  proof -
    obtain m t t' ci sn where d: "data_of l (al_remaining_accounts ctx ! i) = StateMerkleTreeAccount m t"
      "cmt_append_batch 26 (poseidon E) t (map snd (leaves_for leaves i)) = Ok (t', ci, sn)"
      "data_of l' (al_remaining_accounts ctx ! i) = StateMerkleTreeAccount m t'" using e i by blast
    show ?thesis using d(1,3) rep [OF d(2)] unfolding data_of_def leaves_for_def by blast
  qed
  then show ?thesis using e unfolding data_of_def by blast
qed


lemma sample_tree_metadata_fees:
  "rm_rollover_fee (mtm_rollover_metadata sample_tree_metadata) = 0" "rm_rollover_fee (qm_rollover_metadata sample_queue_metadata) = 0"
  "qm_queue_type sample_queue_metadata = QueueType_u64 NullifierQueue"
  by (simp_all add: sample_tree_metadata_def sample_queue_metadata_def MerkleTreeMetadata_init_def QueueMetadata_init_def
      RolloverMetadata_new_def)

lemma sample_transfer_zero: "transfer_lamports_cpi sample_env l from to 0 = Ok (moved l from to 0)"
  by (simp add: transfer_lamports_cpi_def sample_env_def sample_transfer_def)

definition sample_append :: AppendLeaves where
  "sample_append = \<lparr>al_fee_payer = [3], al_authority = [9], al_registered_program_pda = None, al_remaining_accounts = [[1]]\<rparr>"

lemma sample_append_Ok:
  assumes "cmt_rep sample_hasher 26 t ls" "cmt_append_batch 26 sample_hasher t [leaf] = Ok (t', ci, sn)"
  shows "\<exists>l'. process_append_leaves_to_merkle_trees sample_env (sample_pair_ledger t s) sample_append [(0, leaf)] = Ok l'"
proof -
  have H: "poseidon sample_env = sample_hasher" by (simp add: sample_env_def)
  have size: "state_merkle_tree_from_bytes_zero_copy t = Ok t"
    by (simp add: state_merkle_tree_from_bytes_zero_copy_def rep_size_constraints [OF assms(1)])
  have load: "load_state_tree (sample_pair_ledger t s) [1] = Ok (sample_tree_metadata, t)" by (simp add: sample_pair_data)
  show ?thesis
    by (simp add: process_append_leaves_to_merkle_trees_def batch_append_leaves_def sample_append_def load_registered_option_def
        append_to_tree_def index_def batch_range_def u64_eval load sample_tree_metadata_fees sample_pair_data H
        check_signer_is_registered_or_authority_def size assms(2) sample_transfer_zero Let_def)
qed

lemma append_leaves_correct_witness:
  "\<exists>t s l' m' t'. cmt_rep sample_hasher 26 t [] \<and>
     process_append_leaves_to_merkle_trees sample_env (sample_pair_ledger t s) sample_append [(0, [5])] = Ok l' \<and>
     acc_data (l' [1]) = StateMerkleTreeAccount m' t' \<and> cmt_rep sample_hasher 26 t' [[5]] \<and>
     acc_data (l' [2]) = QueueAccount sample_queue_metadata s"
proof -
  have H: "poseidon sample_env = sample_hasher" by (simp add: sample_env_def)
  obtain t where t: "cmt_rep sample_hasher 26 t []" "cmt_sequence_number t = 0"
    "CyclicBoundedVec_capacity (cmt_changelog t) = 4"
    using new_init_rep [OF sample_zero_chain, of 26 10 4 2] by (auto simp: MAX_HEIGHT_def)
  obtain t1 ci sn where "cmt_append_batch 26 sample_hasher t [[5]] = Ok (t1, ci, sn)"
    using append_batch_spec [OF sample_zero_chain t(1), of "[[5]]"] t by (auto simp: sample_hashable)
  then obtain l' where l': "process_append_leaves_to_merkle_trees sample_env (sample_pair_ledger t undefined) sample_append [(0, [5])] = Ok l'"
    using sample_append_Ok [OF t(1)] by blast
  have z: "zero_chain (poseidon sample_env)" "distinct (al_remaining_accounts sample_append)"
    "al_remaining_accounts sample_append = [[1]]"
    by (simp_all add: H sample_zero_chain sample_append_def)
  note C = append_leaves_correct [OF sample_env_laws(1) z(1,2) l']
  obtain m' t' where "acc_data (l' [1]) = StateMerkleTreeAccount m' t'" "cmt_rep sample_hasher 26 t' [[5]]"
    using C t(1) unfolding z(3) H by (auto simp: sample_pair_data)
  moreover have "acc_data (l' [2]) = QueueAccount sample_queue_metadata undefined"
    using C unfolding z(3) by (auto simp: sample_pair_data)
  ultimately show ?thesis using t(1) l' by blast
qed


section \<open>Insertion and the set of live elements\<close>

definition queues_ok :: "ledger \<Rightarrow> bool" where
  "queues_ok l \<longleftrightarrow> (\<forall>k q s n. acc_data (l k) = QueueAccount q s \<longrightarrow>
     tree_sequence_number l (qm_associated_merkle_tree q) = Ok n \<longrightarrow> hs_inv s n)"

text \<open>
  C8.  \<open>insert_into_nullifier_queues\<close> and \<open>insert_addresses\<close>: when they succeed, every element has been inserted into
  the queue it was paired with, which is of the right type and belongs to the given tree; no element was live in its
  queue before and none occurs twice for one queue; no other account has changed its data.  This holds for every
  order in which the hash map of queues is iterated.
\<close>

theorem insert_into_queues_correct:
  assumes "transfer_law E" "order_law E" "queues_ok l" "process_insert_into_queues E l ctx es qt = Ok l'"
  shows "length (queue_inputs ctx es) = length es \<and>
    (\<forall>k. k \<notin> (fst \<circ> fst) ` set (queue_inputs ctx es) \<longrightarrow> acc_data (l' k) = acc_data (l k)) \<and>
    (\<forall>((kq, kt), e) \<in> set (queue_inputs ctx es). \<exists>q s n s'.
       acc_data (l kq) = QueueAccount q s \<and> acc_data (l' kq) = QueueAccount q s' \<and>
       qm_queue_type q = QueueType_u64 qt \<and> qm_associated_merkle_tree q = kt \<and> tree_sequence_number l kt = Ok n \<and>
       hs_inv s' n \<and> from_bytes_be e \<notin> hs_live s n \<and>
       distinct (map from_bytes_be (elements_for (queue_inputs ctx es) kq)) \<and>
       (\<forall>d \<ge> n. hs_live s' d = hs_live s d \<union> from_bytes_be ` set (elements_for (queue_inputs ctx es) kq)))"
proof -
  note e = insert_into_queues_effect [OF assms(1,2,4)]
  have len: "length (pairs xs) = length xs div 2" for xs :: "pubkey list" by (induction xs rule: pairs.induct) auto
  obtain r qm where "length (iq_remaining_accounts ctx) = 2 * length es" by (rule insert_queues_OkD [OF assms(4)])
  then have "length (queue_inputs ctx es) = length es" by (simp add: queue_inputs_def len)
  moreover have "\<exists>q s n s'. acc_data (l kq) = QueueAccount q s \<and> acc_data (l' kq) = QueueAccount q s' \<and>
       qm_queue_type q = QueueType_u64 qt \<and> qm_associated_merkle_tree q = kt \<and> tree_sequence_number l kt = Ok n \<and>
       hs_inv s' n \<and> from_bytes_be x \<notin> hs_live s n \<and>
       distinct (map from_bytes_be (elements_for (queue_inputs ctx es) kq)) \<and>
       (\<forall>d \<ge> n. hs_live s' d = hs_live s d \<union> from_bytes_be ` set (elements_for (queue_inputs ctx es) kq))"
    if x: "((kq, kt), x) \<in> set (queue_inputs ctx es)" for kq kt x
  proof -
    obtain q s n s' where q: "data_of l kq = QueueAccount q s" "qm_queue_type q = QueueType_u64 qt"
      "qm_associated_merkle_tree q = kt" "tree_sequence_number l kt = Ok n"
      "insert_elements s n (elements_for (queue_inputs ctx es) kq) = Ok s'" "data_of l' kq = QueueAccount q s'"
      using e x by fastforce
    have "hs_inv s n" using assms(3) q(1,3,4) unfolding queues_ok_def data_of_def by blast
    note D = insert_elements_OkD [OF this q(5)]
    have "x \<in> set (elements_for (queue_inputs ctx es) kq)" using x by (force simp: elements_for_def)
    then show ?thesis using q D unfolding data_of_def by blast
  qed
  ultimately show ?thesis using e unfolding data_of_def by blast
qed

definition sample_insert :: InsertIntoQueues where
  "sample_insert = \<lparr>iq_fee_payer = [3], iq_authority = [9], iq_registered_program_pda = None, iq_remaining_accounts = [[2], [1]]\<rparr>"

lemma sample_insert_Ok:
  assumes "cmt_rep sample_hasher 26 t ls" "hs_insert s (from_bytes_be e) (cmt_sequence_number t) = Ok (s', i)"
  shows "process_insert_into_queues sample_env (sample_pair_ledger t s) sample_insert [e] NullifierQueue =
    Ok (set_data (sample_pair_ledger t s) [2] (QueueAccount sample_queue_metadata s'))"
proof -
  have seq: "tree_sequence_number (sample_pair_ledger t s) [1] = Ok (cmt_sequence_number t)"
    by (simp add: tree_sequence_number_def sample_pair_data state_merkle_tree_from_bytes_zero_copy_def
        rep_size_constraints [OF assms(1)])
  have load: "load_queue (sample_pair_ledger t s) [2] = Ok (sample_queue_metadata, s)" by (simp add: sample_pair_data)
  have "hash_map_order sample_env = (\<lambda>ks. ks)" by (simp add: sample_env_def)
  then show ?thesis
    by (simp add: process_insert_into_queues_def sample_insert_def load_registered_option_def u64_eval collect_pair_def load
        sample_tree_metadata_fees sample_pair_data check_queue_type_def QueueBundle_new_def insert_bundle_def
        check_signer_is_registered_or_authority_def seq insert_elements_def assms(2) Let_def)
qed

lemma insert_into_queues_correct_witness:
  "\<exists>t s l' q' s'. process_insert_into_queues sample_env (sample_pair_ledger t s) sample_insert [replicate 32 5] NullifierQueue = Ok l' \<and>
     acc_data (l' [2]) = QueueAccount q' s' \<and> from_bytes_be (replicate 32 5) \<in> hs_live s' (cmt_sequence_number t) \<and>
     acc_data (l' [1]) = StateMerkleTreeAccount sample_tree_metadata t"
proof -
  obtain t where t: "cmt_rep sample_hasher 26 t []" "cmt_sequence_number t = 0"
    using new_init_rep [OF sample_zero_chain, of 26 10 4 2] by (auto simp: MAX_HEIGHT_def)
  let ?e = "replicate 32 5 :: bytes"
  have "from_bytes_be ?e < 256 ^ 32" using from_bytes_be_bound [of ?e] by simp
  then obtain s s1 i where s: "hs_inv s 0" "hs_insert s (from_bytes_be ?e) 0 = Ok (s1, i)"
    using insert_into_new [of 8 "from_bytes_be ?e" 12 0] by auto
  let ?l = "sample_pair_ledger t s"
  have ok: "queues_ok ?l"
    using s(1) t(2) by (auto simp: queues_ok_def sample_pair_ledger_def sample_pair_data tree_sequence_number_def
        state_merkle_tree_from_bytes_zero_copy_def split: if_splits elim!: and_then_OkE)
  note p = sample_insert_Ok [OF t(1), of s ?e, unfolded t(2), OF s(2)]
  note C = insert_into_queues_correct [OF sample_env_laws ok p]
  have "queue_inputs sample_insert [?e] = [(([2], [1]), ?e)]" by (simp add: queue_inputs_def sample_insert_def)
  then have "from_bytes_be ?e \<in> hs_live s1 (cmt_sequence_number t)"
    using C t(2) unfolding elements_for_def
    by (auto simp: sample_pair_data tree_sequence_number_def state_merkle_tree_from_bytes_zero_copy_def
        rep_size_constraints [OF t(1)])
  moreover have "acc_data (set_data ?l [2] (QueueAccount sample_queue_metadata s1) [2]) = QueueAccount sample_queue_metadata s1"
    "acc_data (set_data ?l [2] (QueueAccount sample_queue_metadata s1) [1]) = StateMerkleTreeAccount sample_tree_metadata t"
    by (simp_all add: sample_pair_data)
  ultimately show ?thesis using p by blast
qed

end
