(* ===== verification/System_Steps.thy ===== *)
theory System_Steps
  imports System_Program Compression_Effects
begin

text \<open>
  The steps of a compressed transaction taken apart: what a successful step implies, and what it does to the
  accounts of the ledger.
\<close>


section \<open>Loops\<close>

lemma try_map_Ok: "try_map f xs = Ok ys \<longleftrightarrow> list_all2 (\<lambda>x y. f x = Ok y) xs ys"
  by (induction xs arbitrary: ys) (auto simp: and_then_eq_Ok list_all2_Cons1)

lemma try_fold_unit_Ok: "try_fold (\<lambda>_. f) () xs = Ok () \<longleftrightarrow> (\<forall>x \<in> set xs. f x = Ok ())"
  by (induction xs) (auto simp: and_then_eq_Ok)

lemma pairs_concat: "pairs (concat (map (\<lambda>x. [f x, g x]) xs)) = map (\<lambda>x. (f x, g x)) xs"
  by (induction xs) auto


section \<open>Accounts of other programs\<close>

text \<open>
  The lamports of accounts that the account compression program does not own are only touched when they pay.
\<close>

definition keeps_foreign :: "pubkey \<Rightarrow> ledger \<Rightarrow> ledger \<Rightarrow> bool" where
  "keeps_foreign payer l l' \<longleftrightarrow> (\<forall>k. acc_data (l k) = Foreign \<longrightarrow>
     acc_data (l' k) = Foreign \<and> (k \<noteq> payer \<longrightarrow> acc_lamports (l' k) = acc_lamports (l k)))"

lemma keeps_foreign_refl [simp]: "keeps_foreign payer l l"
  by (simp add: keeps_foreign_def)

lemma keeps_foreign_trans: "keeps_foreign payer l l1 \<Longrightarrow> keeps_foreign payer l1 l2 \<Longrightarrow> keeps_foreign payer l l2"
  by (simp add: keeps_foreign_def)

lemma keeps_foreign_set_data: "acc_data (l k) \<noteq> Foreign \<Longrightarrow> keeps_foreign payer l (set_data l k d)"
  by (auto simp: keeps_foreign_def)

lemma keeps_foreign_transfer:
  assumes "transfer_law E" "transfer_lamports_cpi E l payer k n = Ok l'" "acc_data (l k) \<noteq> Foreign"
  shows "keeps_foreign payer l l'"
proof -
  have "l' = moved l payer k n" using assms(1,2) unfolding transfer_law_def transfer_lamports_cpi_def by (metis map_err_eq_Ok)
  then show ?thesis using assms(3) by (auto simp: keeps_foreign_def moved_def Let_def)
qed

lemma insert_bundle_keeps:
  assumes "transfer_law E" "insert_bundle E ctx r l b = Ok l'"
  shows "keeps_foreign (iq_fee_payer ctx) l l'"
proof -
  obtain q s s' fee where d: "acc_data (l (qb_queue b)) = QueueAccount q s"
    "(if 0 < fee then transfer_lamports_cpi E (set_data l (qb_queue b) (QueueAccount q s')) (iq_fee_payer ctx) (qb_queue b) fee
      else Ok (set_data l (qb_queue b) (QueueAccount q s'))) = Ok l'"
    using assms(2) unfolding insert_bundle_def by (auto simp: Let_def simp del: nat_0_less_mult_iff elim!: and_then_OkE)
  let ?l = "set_data l (qb_queue b) (QueueAccount q s')"
  have "keeps_foreign (iq_fee_payer ctx) l ?l" using d(1) by (simp add: keeps_foreign_set_data)
  moreover have "keeps_foreign (iq_fee_payer ctx) ?l l'"
    using d(2) keeps_foreign_transfer [OF assms(1), of ?l "iq_fee_payer ctx" "qb_queue b" fee l'] by (auto split: if_splits)
  ultimately show ?thesis by (rule keeps_foreign_trans)
qed

lemma try_fold_keeps:
  assumes "try_fold f s xs = Ok s'" "\<And>s x s'. f s x = Ok s' \<Longrightarrow> keeps_foreign p (g s) (g s')"
  shows "keeps_foreign p (g s) (g s')"
  using assms(1)
proof (induction xs arbitrary: s)
  case (Cons x xs)
  then obtain t where "f s x = Ok t" "try_fold f t xs = Ok s'" by (auto elim: and_then_OkE)
  then show ?case using Cons.IH assms(2) keeps_foreign_trans by blast
qed simp

lemma insert_keeps:
  assumes "transfer_law E" "process_insert_into_queues E l ctx es qt = Ok l'"
  shows "keeps_foreign (iq_fee_payer ctx) l l'"
proof -
  obtain r qm where "try_fold (insert_bundle E ctx r) l (map (\<lambda>k. the (map_of qm k)) (hash_map_order E (map fst qm))) = Ok l'"
    by (rule insert_queues_OkD [OF assms(2)])
  then show ?thesis using try_fold_keeps [where g = id] insert_bundle_keeps [OF assms(1)] by fastforce
qed

lemma append_keeps:
  assumes "transfer_law E" "process_append_leaves_to_merkle_trees E l ctx leaves = Ok l'"
  shows "keeps_foreign (al_fee_payer ctx) l l'"
proof -
  obtain r c where fold: "try_fold (append_to_tree E ctx r leaves) (l, 0) [0..<length (al_remaining_accounts ctx)] = Ok (l', c)"
    using assms(2) by (auto simp: process_append_leaves_to_merkle_trees_def batch_append_leaves_def split: if_splits
        elim!: and_then_OkE)
  have "keeps_foreign (al_fee_payer ctx) (fst x) (fst x')" if step: "append_to_tree E ctx r leaves x i = Ok x'" for x x' i
  proof -
    obtain l1 n1 where x: "x = (l1, n1)" by force
    obtain k m t t' fee where d: "acc_data (l1 k) = StateMerkleTreeAccount m t"
      "transfer_lamports_cpi E (set_data l1 k (StateMerkleTreeAccount m t')) (al_fee_payer ctx) k fee = Ok (fst x')"
      using step unfolding x append_to_tree_def by (auto simp: Let_def elim!: and_then_OkE)
    have "keeps_foreign (al_fee_payer ctx) l1 (set_data l1 k (StateMerkleTreeAccount m t'))"
      using d(1) by (simp add: keeps_foreign_set_data)
    then show ?thesis unfolding x fst_conv
      using keeps_foreign_transfer [OF assms(1) d(2)] by (auto intro: keeps_foreign_trans)
  qed
  from try_fold_keeps [where g = fst, OF fold this] show ?thesis by simp
qed



section \<open>Nullifiers and new addresses\<close>

text \<open>The keys of the queue and of the tree of an input, and of a new address.\<close>

definition input_queue :: "InvokeInstruction \<Rightarrow> PackedCompressedAccountWithMerkleContext \<Rightarrow> pubkey" where
  "input_queue ctx a = ii_remaining_accounts ctx ! unat (pmc_nullifier_queue_pubkey_index (pca_merkle_context a))"

definition input_tree :: "InvokeInstruction \<Rightarrow> PackedCompressedAccountWithMerkleContext \<Rightarrow> pubkey" where
  "input_tree ctx a = ii_remaining_accounts ctx ! unat (pmc_merkle_tree_pubkey_index (pca_merkle_context a))"

definition address_queue :: "InvokeInstruction \<Rightarrow> NewAddressParamsPacked \<Rightarrow> pubkey" where
  "address_queue ctx p = ii_remaining_accounts ctx ! unat (nap_address_queue_account_index p)"

definition address_tree :: "InvokeInstruction \<Rightarrow> NewAddressParamsPacked \<Rightarrow> pubkey" where
  "address_tree ctx p = ii_remaining_accounts ctx ! unat (nap_address_merkle_tree_account_index p)"

text \<open>A program may write to a tree when the tree has no program owner or is owned by this program.\<close>

definition may_write :: "MerkleTreeMetadata \<Rightarrow> pubkey option \<Rightarrow> bool" where
  "may_write m invoking_program \<longleftrightarrow> am_program_owner (mtm_access_metadata m) = default_pubkey \<or>
     invoking_program = Some (am_program_owner (mtm_access_metadata m))"

lemma check_state_owner_OkD:
  assumes "check_program_owner_state_merkle_tree S l k invoking = Ok (next_index, fee, seq)"
  obtains m t where "acc_data (l k) = StateMerkleTreeAccount m t" "may_write m invoking" "next_index = cmt_next_index t"
    "seq = cmt_sequence_number t + 1" "cmt_next_index t < 2 ^ 32" "cmt_check_size_constraints 26 t = Ok ()"
  using assms
  by (auto simp: check_program_owner_state_merkle_tree_def view_state_tree_def try_into_u32_def may_write_def Let_def
      state_merkle_tree_from_bytes_zero_copy_def split: AccountData.splits if_splits elim!: and_then_OkE)

lemma check_address_owner_OkD:
  assumes "check_program_owner_address_merkle_tree S l k invoking = Ok fee"
  obtains m t where "acc_data (l k) = AddressMerkleTreeAccount m t" "may_write m invoking"
  using assms
  by (auto simp: check_program_owner_address_merkle_tree_def may_write_def Let_def split: AccountData.splits if_splits)

lemma select_fee_Some: "select_fee bundle i fee = Some (j, n) \<Longrightarrow> bundle = Some (j, n) \<or> j = i"
  by (auto simp: select_fee_def split: option.splits)

lemma nullifier_loop:
  assumes "try_fold (\<lambda>(accounts, bundle) a.
         let context = pca_merkle_context a in
         and_then (index (ii_remaining_accounts ctx) (unat (pmc_nullifier_queue_pubkey_index context))) (\<lambda>queue.
         and_then (index (ii_remaining_accounts ctx) (unat (pmc_merkle_tree_pubkey_index context))) (\<lambda>merkle_tree.
         and_then (check_program_owner_state_merkle_tree S l merkle_tree invoking) (\<lambda>(_, network_fee, _).
         Ok (accounts @ [queue, merkle_tree], select_fee bundle (pmc_nullifier_queue_pubkey_index context) network_fee)))))
       (acc0, b0) ins = Ok (accounts, bundle)"
  shows "accounts = acc0 @ concat (map (\<lambda>a. [input_queue ctx a, input_tree ctx a]) ins) \<and>
    (\<forall>a \<in> set ins. unat (pmc_nullifier_queue_pubkey_index (pca_merkle_context a)) < length (ii_remaining_accounts ctx) \<and>
       unat (pmc_merkle_tree_pubkey_index (pca_merkle_context a)) < length (ii_remaining_accounts ctx) \<and>
       (\<exists>m t. acc_data (l (input_tree ctx a)) = StateMerkleTreeAccount m t \<and> may_write m invoking)) \<and>
    (\<forall>i n. bundle = Some (i, n) \<longrightarrow> b0 = Some (i, n) \<or>
       (\<exists>a \<in> set ins. i = pmc_nullifier_queue_pubkey_index (pca_merkle_context a)))"
  using assms
proof (induction ins arbitrary: acc0 b0)
  case (Cons a ins)
  let ?c = "pca_merkle_context a"
  obtain ni fee seq where a: "unat (pmc_nullifier_queue_pubkey_index ?c) < length (ii_remaining_accounts ctx)"
    "unat (pmc_merkle_tree_pubkey_index ?c) < length (ii_remaining_accounts ctx)"
    "check_program_owner_state_merkle_tree S l (input_tree ctx a) invoking = Ok (ni, fee, seq)"
    and rest: "try_fold (\<lambda>(accounts, bundle) a.
         let context = pca_merkle_context a in
         and_then (index (ii_remaining_accounts ctx) (unat (pmc_nullifier_queue_pubkey_index context))) (\<lambda>queue.
         and_then (index (ii_remaining_accounts ctx) (unat (pmc_merkle_tree_pubkey_index context))) (\<lambda>merkle_tree.
         and_then (check_program_owner_state_merkle_tree S l merkle_tree invoking) (\<lambda>(_, network_fee, _).
         Ok (accounts @ [queue, merkle_tree], select_fee bundle (pmc_nullifier_queue_pubkey_index context) network_fee)))))
       (acc0 @ [input_queue ctx a, input_tree ctx a], select_fee b0 (pmc_nullifier_queue_pubkey_index ?c) fee) ins = Ok (accounts, bundle)"
    using Cons.prems by (auto simp: Let_def input_tree_def input_queue_def elim!: and_then_OkE)
  obtain m t where "acc_data (l (input_tree ctx a)) = StateMerkleTreeAccount m t" "may_write m invoking"
    by (rule check_state_owner_OkD [OF a(3)])
  then show ?case using Cons.IH [OF rest] a(1,2) select_fee_Some [of b0 "pmc_nullifier_queue_pubkey_index ?c" fee] by auto
qed simp

lemma insert_nullifiers_OkD:
  assumes "insert_nullifiers S l inputs ctx hashes invoking = Ok (l', bundle)"
  defines "ins \<equiv> idi_input_compressed_accounts_with_merkle_context inputs"
  shows "process_insert_into_queues (sys_env S) l
      (queues_context ctx (concat (map (\<lambda>a. [input_queue ctx a, input_tree ctx a]) ins))) hashes NullifierQueue = Ok l'"
    "\<forall>a \<in> set ins. unat (pmc_nullifier_queue_pubkey_index (pca_merkle_context a)) < length (ii_remaining_accounts ctx) \<and>
       unat (pmc_merkle_tree_pubkey_index (pca_merkle_context a)) < length (ii_remaining_accounts ctx) \<and>
       (\<exists>m t. acc_data (l (input_tree ctx a)) = StateMerkleTreeAccount m t \<and> may_write m invoking)"
    "\<forall>i n. bundle = Some (i, n) \<longrightarrow> (\<exists>a \<in> set ins. i = pmc_nullifier_queue_pubkey_index (pca_merkle_context a))"
proof -
  obtain accounts where a: "try_fold (\<lambda>(accounts, bundle) a.
         let context = pca_merkle_context a in
         and_then (index (ii_remaining_accounts ctx) (unat (pmc_nullifier_queue_pubkey_index context))) (\<lambda>queue.
         and_then (index (ii_remaining_accounts ctx) (unat (pmc_merkle_tree_pubkey_index context))) (\<lambda>merkle_tree.
         and_then (check_program_owner_state_merkle_tree S l merkle_tree invoking) (\<lambda>(_, network_fee, _).
         Ok (accounts @ [queue, merkle_tree], select_fee bundle (pmc_nullifier_queue_pubkey_index context) network_fee)))))
       ([], None) ins = Ok (accounts, bundle)"
    "insert_into_nullifier_queues (sys_env S) l (queues_context ctx accounts) hashes = Ok l'"
    using assms(1) unfolding insert_nullifiers_def ins_def by (auto elim!: and_then_OkE)
  note n = nullifier_loop [OF a(1)]
  show "process_insert_into_queues (sys_env S) l
      (queues_context ctx (concat (map (\<lambda>a. [input_queue ctx a, input_tree ctx a]) ins))) hashes NullifierQueue = Ok l'"
    using a(2) n by (simp add: insert_into_nullifier_queues_def)
  show "\<forall>a \<in> set ins. unat (pmc_nullifier_queue_pubkey_index (pca_merkle_context a)) < length (ii_remaining_accounts ctx) \<and>
       unat (pmc_merkle_tree_pubkey_index (pca_merkle_context a)) < length (ii_remaining_accounts ctx) \<and>
       (\<exists>m t. acc_data (l (input_tree ctx a)) = StateMerkleTreeAccount m t \<and> may_write m invoking)"
    "\<forall>i n. bundle = Some (i, n) \<longrightarrow> (\<exists>a \<in> set ins. i = pmc_nullifier_queue_pubkey_index (pca_merkle_context a))"
    using n by auto
qed


lemma address_loop:
  assumes "try_fold (\<lambda>(remaining_accounts, bundle) p.
         and_then (index (ii_remaining_accounts ctx) (unat (nap_address_queue_account_index p))) (\<lambda>queue.
         and_then (index (ii_remaining_accounts ctx) (unat (nap_address_merkle_tree_account_index p))) (\<lambda>merkle_tree.
         and_then (check_program_owner_address_merkle_tree S l merkle_tree invoking) (\<lambda>network_fee.
         Ok (remaining_accounts @ [queue, merkle_tree], select_fee bundle (nap_address_queue_account_index p) network_fee)))))
       (acc0, b0) ps = Ok (accounts, bundle)"
  shows "accounts = acc0 @ concat (map (\<lambda>p. [address_queue ctx p, address_tree ctx p]) ps) \<and>
    (\<forall>p \<in> set ps. \<exists>m t. acc_data (l (address_tree ctx p)) = AddressMerkleTreeAccount m t \<and> may_write m invoking) \<and>
    (\<forall>i n. bundle = Some (i, n) \<longrightarrow> b0 = Some (i, n) \<or> (\<exists>p \<in> set ps. i = nap_address_queue_account_index p))"
  using assms
proof (induction ps arbitrary: acc0 b0)
  case (Cons p ps)
  obtain fee where a: "check_program_owner_address_merkle_tree S l (address_tree ctx p) invoking = Ok fee"
    and rest: "try_fold (\<lambda>(remaining_accounts, bundle) p.
         and_then (index (ii_remaining_accounts ctx) (unat (nap_address_queue_account_index p))) (\<lambda>queue.
         and_then (index (ii_remaining_accounts ctx) (unat (nap_address_merkle_tree_account_index p))) (\<lambda>merkle_tree.
         and_then (check_program_owner_address_merkle_tree S l merkle_tree invoking) (\<lambda>network_fee.
         Ok (remaining_accounts @ [queue, merkle_tree], select_fee bundle (nap_address_queue_account_index p) network_fee)))))
       (acc0 @ [address_queue ctx p, address_tree ctx p], select_fee b0 (nap_address_queue_account_index p) fee) ps =
       Ok (accounts, bundle)"
    using Cons.prems by (auto simp: address_tree_def address_queue_def elim!: and_then_OkE)
  obtain m t where "acc_data (l (address_tree ctx p)) = AddressMerkleTreeAccount m t" "may_write m invoking"
    by (rule check_address_owner_OkD [OF a])
  then show ?case using Cons.IH [OF rest] select_fee_Some [of b0 "nap_address_queue_account_index p" fee] by auto
qed simp

lemma insert_new_addresses_OkD:
  assumes "insert_addresses_into_address_merkle_tree_queue S l ctx addresses ps invoking = Ok (l', bundle)"
  shows "process_insert_into_queues (sys_env S) l
      (queues_context ctx (concat (map (\<lambda>p. [address_queue ctx p, address_tree ctx p]) ps))) addresses AddressQueue = Ok l'"
    "\<forall>p \<in> set ps. \<exists>m t. acc_data (l (address_tree ctx p)) = AddressMerkleTreeAccount m t \<and> may_write m invoking"
    "\<forall>i n. bundle = Some (i, n) \<longrightarrow> (\<exists>p \<in> set ps. i = nap_address_queue_account_index p)"
proof -
  obtain accounts where a: "try_fold (\<lambda>(remaining_accounts, bundle) p.
         and_then (index (ii_remaining_accounts ctx) (unat (nap_address_queue_account_index p))) (\<lambda>queue.
         and_then (index (ii_remaining_accounts ctx) (unat (nap_address_merkle_tree_account_index p))) (\<lambda>merkle_tree.
         and_then (check_program_owner_address_merkle_tree S l merkle_tree invoking) (\<lambda>network_fee.
         Ok (remaining_accounts @ [queue, merkle_tree], select_fee bundle (nap_address_queue_account_index p) network_fee)))))
       ([], None) ps = Ok (accounts, bundle)"
    "insert_addresses (sys_env S) l (queues_context ctx accounts) addresses = Ok l'"
    using assms unfolding insert_addresses_into_address_merkle_tree_queue_def insert_addresses_cpi_def
    by (auto elim!: and_then_OkE)
  note n = address_loop [OF a(1)]
  show "process_insert_into_queues (sys_env S) l
      (queues_context ctx (concat (map (\<lambda>p. [address_queue ctx p, address_tree ctx p]) ps))) addresses AddressQueue = Ok l'"
    using a(2) n by (simp add: insert_addresses_def)
  show "\<forall>p \<in> set ps. \<exists>m t. acc_data (l (address_tree ctx p)) = AddressMerkleTreeAccount m t \<and> may_write m invoking"
    "\<forall>i n. bundle = Some (i, n) \<longrightarrow> (\<exists>p \<in> set ps. i = nap_address_queue_account_index p)"
    using n by auto
qed

text \<open>What the insertion of one element for every item does, in terms of the items.\<close>

lemma queue_inputs_of:
  assumes "process_insert_into_queues E l (queues_context ctx (concat (map (\<lambda>x. [f x, g x]) xs))) es qt = Ok l'"
  shows "length es = length xs"
    "queue_inputs (queues_context ctx (concat (map (\<lambda>x. [f x, g x]) xs))) es = zip (map (\<lambda>x. (f x, g x)) xs) es"
proof -
  have "length (concat (map (\<lambda>x. [f x, g x]) xs)) = 2 * length es"
    by (rule insert_queues_OkD [OF assms]) (simp add: queues_context_def)
  moreover have "length (concat (map (\<lambda>x. [f x, g x]) ys)) = 2 * length ys" for ys by (induction ys) auto
  ultimately show "length es = length xs" by simp
  show "queue_inputs (queues_context ctx (concat (map (\<lambda>x. [f x, g x]) xs))) es = zip (map (\<lambda>x. (f x, g x)) xs) es"
    by (simp add: queue_inputs_def queues_context_def pairs_concat)
qed

lemma queues_of_items:
  assumes "transfer_law E" "order_law E"
    and "process_insert_into_queues E l (queues_context ctx (concat (map (\<lambda>x. [f x, g x]) xs))) es qt = Ok l'" "x \<in> set xs"
  obtains q s s' n where "data_of l (f x) = QueueAccount q s" "data_of l' (f x) = QueueAccount q s'"
    "qm_queue_type q = QueueType_u64 qt" "qm_associated_merkle_tree q = g x" "tree_sequence_number l (g x) = Ok n"
    "insert_elements s n (elements_for (zip (map (\<lambda>x. (f x, g x)) xs) es) (f x)) = Ok s'"
proof -
  note q = queue_inputs_of [OF assms(3)]
  obtain i where i: "i < length xs" "x = xs ! i" using assms(4) by (metis in_set_conv_nth)
  then have "((f x, g x), es ! i) \<in> set (zip (map (\<lambda>x. (f x, g x)) xs) es)" using q(1) by (force simp: set_zip)
  then show thesis using insert_into_queues_effect [OF assms(1,2,3)] that unfolding q(2) by fastforce
qed



section \<open>Steps of a transaction\<close>

lemma process_OkD:
  assumes "process S l inputs invoking ctx cpi_inputs = Ok (l', event)"
  obtains l1 l2 hashes addresses hashed_pubkeys indices output_hashes seqs capacity where
    "capacity = 1 + length (ii_remaining_accounts ctx) + length (idi_output_compressed_accounts inputs) + cpi_inputs"
    "sum_check (idi_input_compressed_accounts_with_merkle_context inputs) (idi_output_compressed_accounts inputs) None
       (idi_compress_or_decompress_lamports inputs) (idi_is_compress inputs) = Ok ()"
    "process_compression S l inputs ctx = Ok l1"
    "process_proof S l1 inputs ctx invoking capacity = Ok (l2, hashes, addresses, hashed_pubkeys)"
    "process_outputs S l2 inputs ctx invoking capacity addresses hashed_pubkeys = Ok (l', indices, output_hashes, seqs)"
    "emit_state_transition_event S inputs ctx hashes output_hashes indices seqs = Ok event"
  using assms by (auto simp: process_def Let_def split: if_splits elim!: and_then_OkE)

lemma process_proof_OkD:
  assumes "process_proof S l inputs ctx invoking capacity = Ok (l', hashes, addresses, hashed_pubkeys)"
    and "idi_input_compressed_accounts_with_merkle_context inputs \<noteq> [] \<or> idi_new_address_params inputs \<noteq> []"
  obtains l1 roots addresses0 new_addresses new_address_roots p where
    "process_inputs S l inputs ctx capacity = Ok (hashes, roots, addresses0, hashed_pubkeys)"
    "process_new_addresses S l inputs ctx invoking addresses0 = Ok (l1, new_addresses, new_address_roots, addresses)"
    "idi_proof inputs = Some p" "verify_state_proof (groth16 S) roots hashes new_address_roots new_addresses p = Ok ()"
    "process_nullifiers S l1 inputs ctx invoking hashes = Ok l'"
  using assms unfolding process_proof_def by (auto simp: Let_def elim!: and_then_OkE)


definition append_context :: "InvokeInstruction \<Rightarrow> OutputState \<Rightarrow> AppendLeaves" where
  "append_context ctx st = \<lparr>al_fee_payer = ii_fee_payer ctx, al_authority = ii_account_compression_authority ctx,
     al_registered_program_pda = Some (ii_registered_program_pda ctx), al_remaining_accounts = out_accounts st\<rparr>"

lemma process_outputs_OkD:
  assumes "process_outputs S l inputs ctx invoking capacity addresses hashed_pubkeys = Ok (l', indices, hashes, seqs)"
    and "idi_output_compressed_accounts inputs \<noteq> []"
  obtains st leaves where
    "create_cpi_accounts_and_instruction_data S l (idi_output_compressed_accounts inputs)
       (replicate (length (idi_output_compressed_accounts inputs)) 0)
       (replicate (length (idi_output_compressed_accounts inputs)) (replicate 32 0)) addresses invoking hashed_pubkeys
       (ii_remaining_accounts ctx) = Ok st"
    "decode_append_leaves S (out_instruction_data st) = Some leaves"
    "process_append_leaves_to_merkle_trees (sys_env S) l (append_context ctx st) leaves = Ok l'"
    "indices = out_indices st" "hashes = out_hashes st" "seqs = out_sequence_numbers st"
    "length (out_hashed_pubkeys st) \<le> capacity"
  using assms unfolding process_outputs_def insert_output_compressed_accounts_into_state_merkle_tree_def append_context_def
  by (auto simp: Let_def split: if_splits elim!: and_then_OkE)

end
