(* ===== verification/System_Sample.thy ===== *)
theory System_Sample
  imports System_Steps
begin

text \<open>
  A concrete environment of the system program and a transaction that succeeds in it: an account of 5 lamports is
  spent for an account of 2 lamports and 3 decompressed lamports.
\<close>


section \<open>The environment\<close>

definition sample_hash32 :: "bytes list \<Rightarrow> bytes" where
  "sample_hash32 xs = replicate 31 0 @ sample_hash xs"

fun sample_zero32 :: "nat \<Rightarrow> bytes" where
  "sample_zero32 0 = replicate 32 0"
| "sample_zero32 (Suc n) = sample_hash32 [sample_zero32 n, sample_zero32 n]"

definition sample_hasher32 :: Hasher where
  "sample_hasher32 = \<lparr>hashv = (\<lambda>xs. Ok (sample_hash32 xs)),
     zero_bytes = map sample_zero32 [0..<MAX_HEIGHT + 1], zero_indexed_leaf = [7]\<rparr>"

lemma sample_zero_chain32: "zero_chain sample_hasher32"
  by (auto simp: zero_chain_def sample_hasher32_def simp del: upt_Suc)

lemma sample_hashable32: "hashable sample_hasher32 h ls"
  by (simp add: hashable_def hash_ok_iff sample_hasher32_def)

lemma length_sample_hash32 [simp]: "length (sample_hash32 xs) = 32"
  by (simp add: sample_hash32_def sample_hash_def)

definition sample_system_env :: Env where "sample_system_env = sample_env\<lparr>poseidon := sample_hasher32\<rparr>"

fun decode_leaves :: "bytes \<Rightarrow> (byte \<times> bytes) list" where
  "decode_leaves [] = []"
| "decode_leaves (i # bs) = (i, take 32 bs) # decode_leaves (drop 32 bs)"

definition sample_system :: SystemEnv where
  "sample_system = \<lparr>sys_env = sample_system_env, system_program_id = [6], account_compression_id = [4], groth16 = sample_groth16,
     decode_append_leaves = (\<lambda>bs. Some (decode_leaves (drop 12 bs))), serialize_output_account = (\<lambda>a. []),
     cpi_context_fits = (\<lambda>a. True), forged_state_tree = (\<lambda>k. None), forged_address_tree = (\<lambda>k. None)\<rparr>"

lemma sample_system_fields [simp]:
  "sys_env sample_system = sample_system_env" "system_program_id sample_system = [6]" "account_compression_id sample_system = [4]"
  "groth16 sample_system = sample_groth16" "decode_append_leaves sample_system bs = Some (decode_leaves (drop 12 bs))"
  "forged_state_tree sample_system k = None" "poseidon sample_system_env = sample_hasher32"
  "find_program_address sample_system_env seeds k = k" "create_program_address sample_system_env seeds k = Some k"
  "hash_map_order sample_system_env ks = ks" "cpi_context_fits sample_system a" "serialize_output_account sample_system a' = []"
  by (simp_all add: sample_system_def sample_system_env_def sample_env_def)

lemma decode_leaves_concat: "\<forall>x \<in> set xs. length (snd x) = 32 \<Longrightarrow> decode_leaves (concat (map (\<lambda>(i, h). i # h) xs)) = xs"
  by (induction xs) auto

lemma sample_system_laws [simp]:
  "transfer_law sample_system_env" "order_law sample_system_env" "decode_law sample_system"
  by (auto simp: transfer_law_def order_law_def decode_law_def sample_system_env_def sample_env_def sample_transfer_def
      append_leaves_data_def decode_leaves_concat split: if_splits)

lemma sample_system_hash: "hashv sample_hasher32 xs = Ok (sample_hash32 xs)"
  "hash_pubkey sample_system_env k = Ok ((replicate 32 (of_nat (length k + 1)))[0 := 0])"
  using sample_hash_pubkey [of k] by (simp_all add: sample_hasher32_def hash_pubkey_def sample_system_env_def)

lemma sample_system_transfer:
  "n \<le> acc_lamports (l from) \<Longrightarrow> system_transfer sample_system_env l from to n = Ok (moved l from to n)"
  by (simp add: sample_system_env_def sample_env_def sample_transfer_def)


section \<open>The transaction\<close>

definition sample_account :: "nat \<Rightarrow> CompressedAccount" where
  "sample_account n = \<lparr>ca_owner = [7], ca_lamports = n, ca_address = None, ca_data = None\<rparr>"

definition sample_input :: "nat \<Rightarrow> PackedCompressedAccountWithMerkleContext" where
  "sample_input n = \<lparr>pca_compressed_account = sample_account n, pca_merkle_context =
     \<lparr>pmc_merkle_tree_pubkey_index = 0, pmc_nullifier_queue_pubkey_index = 1, pmc_leaf_index = 0, pmc_queue_index = None\<rparr>,
     pca_root_index = 0, pca_read_only = False\<rparr>"

definition sample_output :: "nat \<Rightarrow> OutputCompressedAccountWithPackedContext" where
  "sample_output n = \<lparr>oca_compressed_account = sample_account n, oca_merkle_tree_index = 0\<rparr>"

definition sample_registered :: RegisteredProgram where
  "sample_registered = \<lparr>rp_registered_program_id = [6], rp_group_authority_pda = [9]\<rparr>"

definition sample_system_ledger :: "ConcurrentMerkleTree \<Rightarrow> HashSet \<Rightarrow> ledger" where
  "sample_system_ledger t s = (sample_pair_ledger t s)
     ([4] := \<lparr>acc_lamports = 64, acc_data_len = 64, acc_data = RegisteredProgramAccount sample_registered\<rparr>)"

definition sample_invoke_data :: InstructionDataInvoke where
  "sample_invoke_data = \<lparr>idi_proof = Some CompressedProof_default,
     idi_input_compressed_accounts_with_merkle_context = [sample_input 5],
     idi_output_compressed_accounts = [sample_output 2], idi_relay_fee = None, idi_new_address_params = [],
     idi_compress_or_decompress_lamports = Some 3, idi_is_compress = False\<rparr>"

definition sample_invoke_accounts :: InvokeInstruction where
  "sample_invoke_accounts = \<lparr>ii_fee_payer = [3], ii_authority = [7], ii_registered_program_pda = [4],
     ii_noop_program = NOOP_PUBKEY, ii_account_compression_authority = [6], ii_sol_pool_pda = Some [6],
     ii_decompression_recipient = Some [8], ii_remaining_accounts = [[1], [2]]\<rparr>"

lemma sample_data_fields:
  "idi_input_compressed_accounts_with_merkle_context sample_invoke_data = [sample_input 5]"
  "idi_output_compressed_accounts sample_invoke_data = [sample_output 2]" "idi_relay_fee sample_invoke_data = None"
  "idi_new_address_params sample_invoke_data = []" "idi_compress_or_decompress_lamports sample_invoke_data = Some 3"
  "\<not> idi_is_compress sample_invoke_data" "ii_fee_payer sample_invoke_accounts = [3]"
  "ii_decompression_recipient sample_invoke_accounts = Some [8]" "ii_remaining_accounts sample_invoke_accounts = [[1], [2]]"
  by (simp_all add: sample_invoke_data_def sample_invoke_accounts_def)

text \<open>A ledger with the tree, the queue and the registered program.\<close>

definition sample_accounts :: "ledger \<Rightarrow> ConcurrentMerkleTree \<Rightarrow> HashSet \<Rightarrow> bool" where
  "sample_accounts l t s \<longleftrightarrow> acc_data (l [1]) = StateMerkleTreeAccount sample_tree_metadata t \<and>
     acc_data (l [2]) = QueueAccount sample_queue_metadata s \<and> acc_data (l [4]) = RegisteredProgramAccount sample_registered"

definition sample_leaf :: "nat \<Rightarrow> bytes" where
  "sample_leaf n = sample_hash32 (CompressedAccount_preimage (sample_account n) ((replicate 32 2)[0 := 0]) ((replicate 32 2)[0 := 0]) 0)"

lemma sample_tree_owner:
  "am_program_owner (mtm_access_metadata sample_tree_metadata) = default_pubkey" "rm_network_fee (mtm_rollover_metadata sample_tree_metadata) = 0"
  by (simp_all add: sample_tree_metadata_def MerkleTreeMetadata_init_def AccessMetadata_new_def RolloverMetadata_new_def)

text \<open>The tree and the queue are new.\<close>

definition sample_new_tree :: "ConcurrentMerkleTree \<Rightarrow> bool" where
  "sample_new_tree t \<longleftrightarrow> cmt_rep sample_hasher32 26 t [] \<and> cmt_sequence_number t = 0 \<and>
     cbv_list (cmt_roots t) = [merkle_root sample_hasher32 26 []] \<and> CyclicBoundedVec_capacity (cmt_changelog t) = 4 \<and>
     CyclicBoundedVec_capacity (cmt_roots t) = 2"

definition sample_new_queue :: "HashSet \<Rightarrow> bool" where
  "sample_new_queue s \<longleftrightarrow> hs_inv s 0 \<and> hs_sequence_threshold s = 12 \<and>
     (\<exists>s' i. hs_insert s (from_bytes_be (sample_leaf 5)) 0 = Ok (s', i))"

lemma sample_fresh_exists: "\<exists>t. sample_new_tree t" "\<exists>s. sample_new_queue s"
proof -
  show "\<exists>t. sample_new_tree t" unfolding sample_new_tree_def
    using new_init_rep [OF sample_zero_chain32, of 26 10 4 2] by (auto simp: MAX_HEIGHT_def)
  have "from_bytes_be (sample_leaf 5) < 256 ^ 32"
    using from_bytes_be_bound [of "sample_leaf 5"] by (simp add: sample_leaf_def)
  then obtain s s1 i where "hs_new 8 12 = Ok s" "hs_inv s 0" "hs_insert s (from_bytes_be (sample_leaf 5)) 0 = Ok (s1, i)"
    using insert_into_new [of 8 "from_bytes_be (sample_leaf 5)" 12 0] by auto
  then show "\<exists>s. sample_new_queue s" by (auto simp: sample_new_queue_def hs_new_def)
qed

lemma sample_view:
  assumes "sample_accounts l t s" "sample_new_tree t"
  shows "view_state_tree sample_system l [1] = Ok t"
    "check_program_owner_state_merkle_tree sample_system l [1] invoking = Ok (0, None, 1)"
    "tree_sequence_number l [1] = Ok 0" "state_merkle_tree_from_bytes_zero_copy t = Ok t"
    "load_registered_option l (Some [4]) = Ok (Some sample_registered)"
    "load_queue l [2] = Ok (sample_queue_metadata, s)" "load_state_tree l [1] = Ok (sample_tree_metadata, t)"
proof -
  have t: "cmt_rep sample_hasher32 26 t []" "cmt_sequence_number t = 0" using assms(2) by (simp_all add: sample_new_tree_def)
  show size: "state_merkle_tree_from_bytes_zero_copy t = Ok t"
    by (simp add: state_merkle_tree_from_bytes_zero_copy_def rep_size_constraints [OF t(1)])
  show *: "load_queue l [2] = Ok (sample_queue_metadata, s)" "load_state_tree l [1] = Ok (sample_tree_metadata, t)"
    using assms(1) by (simp_all add: sample_accounts_def)
  show view: "view_state_tree sample_system l [1] = Ok t"
    using assms(1) size by (simp add: sample_accounts_def view_state_tree_def)
  have "cmt_next_index t = 0" using t(1) by (simp add: cmt_rep_def cmt_base_def)
  then show "check_program_owner_state_merkle_tree sample_system l [1] invoking = Ok (0, None, 1)"
    using assms(1) view t(2) by (simp add: sample_accounts_def check_program_owner_state_merkle_tree_def u64_eval try_into_u32_def
        network_fee_of_def sample_tree_owner Let_def)
  show "tree_sequence_number l [1] = Ok 0" using * size t(2) by (simp add: tree_sequence_number_def)
  show "load_registered_option l (Some [4]) = Ok (Some sample_registered)"
    using assms(1) by (simp add: load_registered_option_def load_registered_program_def sample_accounts_def)
qed

lemma single_root:
  assumes "cbv_inv v" "cbv_list v = [x]"
  shows "CyclicBoundedVec_index v 0 = Ok x"
proof -
  have len: "CyclicBoundedVec_len v = 1" using assms(2) length_cbv_list [of v] by simp
  then have "CyclicBoundedVec_first_index v = 0" using assms(1) by (auto simp: cbv_inv_def)
  then show ?thesis using len assms(2) by (simp add: CyclicBoundedVec_index_def CyclicBoundedVec_get_def cbv_list_def)
qed

lemma sample_inputs:
  assumes "sample_accounts l t s" "sample_new_tree t"
  shows "process_inputs sample_system l sample_invoke_data sample_invoke_accounts (4 + n) =
    Ok ([sample_leaf 5], [merkle_root sample_hasher32 26 []], [None],
        [([7], (replicate 32 2)[0 := 0]), ([1], (replicate 32 2)[0 := 0])])"
proof -
  have "cbv_inv (cmt_roots t)" using assms(2) by (simp add: sample_new_tree_def cmt_rep_def cmt_base_def)
  then have "CyclicBoundedVec_index (cmt_roots t) 0 = (Ok (merkle_root sample_hasher32 26 []) :: (system_error, bytes) result)"
    using assms(2) by (intro single_root) (simp_all add: sample_new_tree_def)
  then show ?thesis
    by (simp add: process_inputs_def sample_invoke_data_def sample_invoke_accounts_def hash_input_compressed_accounts_def
      index_def sample_input_def sample_account_def sample_system_hash hash_input_def Let_def cached_hash_def
      CompressedAccount_hash_with_hashed_values_def write_at_def fetch_input_compressed_account_roots_def
      sample_view [OF assms] sample_leaf_def)
qed

lemma sample_check_signer:
  "check_signer_is_registered_or_authority sample_system_env [6] (Some sample_registered) [9] = Ok ()"
  by (simp add: check_signer_is_registered_or_authority_def sample_registered_def)

lemma sample_nullifiers:
  assumes "sample_accounts l t s" "sample_new_tree t" "hs_insert s (from_bytes_be (sample_leaf 5)) 0 = Ok (s', i)"
  shows "process_nullifiers sample_system l sample_invoke_data sample_invoke_accounts invoking [sample_leaf 5] =
    Ok (set_data l [2] (QueueAccount sample_queue_metadata s'))"
  by (simp add: process_nullifiers_def sample_invoke_data_def sample_invoke_accounts_def insert_nullifiers_def sample_input_def
      index_def sample_view [OF assms(1,2)] select_fee_def cpi_signed_def insert_into_nullifier_queues_def queues_context_def
      process_insert_into_queues_def u64_eval collect_pair_def
      sample_tree_metadata_fees sample_pair_data check_queue_type_def QueueBundle_new_def insert_bundle_def
      sample_check_signer insert_elements_def assms(3) Let_def pay_network_fee_def)

lemma sample_outputs:
  assumes "sample_accounts l t s" "sample_new_tree t"
    and "cmt_append_batch 26 sample_hasher32 t [sample_leaf 2] = Ok (t', ci, sn)"
  shows "\<exists>l'. process_outputs sample_system l sample_invoke_data sample_invoke_accounts invoking (4 + n) [None]
      [([7], (replicate 32 2)[0 := 0]), ([1], (replicate 32 2)[0 := 0])] =
    Ok (l', [0], [sample_leaf 2], [\<lparr>ts_pubkey = [1], ts_seq = 1\<rparr>])"
proof -
  have "process_append_leaves_to_merkle_trees sample_system_env l
       \<lparr>al_fee_payer = [3], al_authority = [6], al_registered_program_pda = Some [4], al_remaining_accounts = [[1]]\<rparr>
       [(0, sample_leaf 2)] = Ok (moved (set_data l [1] (StateMerkleTreeAccount sample_tree_metadata t')) [3] [1] 0)"
    by (simp add: process_append_leaves_to_merkle_trees_def batch_append_leaves_def sample_view [OF assms(1,2)]
        append_to_tree_def index_def batch_range_def u64_eval sample_tree_metadata_fees sample_pair_data
        sample_check_signer assms(3) sample_system_transfer transfer_lamports_cpi_def Let_def)
  moreover have "length (sample_leaf 2) = 32" by (simp add: sample_leaf_def)
  ultimately show ?thesis
    by (simp add: process_outputs_def insert_output_compressed_accounts_into_state_merkle_tree_def sample_invoke_data_def
        sample_invoke_accounts_def create_cpi_accounts_and_instruction_data_def append_output_def select_output_tree_def
        sample_output_def index_def sample_view [OF assms(1,2)] add_u8_def use_address_def sample_account_def add_u32_def
        write_at_def cached_hash_def CompressedAccount_hash_with_hashed_values_def sample_system_hash sub_u64_eval cpi_signed_def
        Let_def le_bytes_def sample_leaf_def)
qed


lemma sample_system_accounts:
  "sample_accounts (sample_system_ledger t s) t s" "acc_data (sample_system_ledger t s [6]) = Foreign"
  "acc_lamports (sample_system_ledger t s [6]) = 1000"
  by (simp_all add: sample_accounts_def sample_system_ledger_def sample_pair_data, simp_all add: sample_pair_ledger_def)

lemma sample_sum_check: "sum_check [sample_input 5] [sample_output 2] None (Some 3) False = Ok ()"
  by (simp add: sum_check_def sample_input_def sample_output_def sample_account_def checked_add_def checked_sub_def)

lemma sample_event:
  "emit_state_transition_event sample_system sample_invoke_data sample_invoke_accounts [sample_leaf 5] [sample_leaf 2] [0]
     [\<lparr>ts_pubkey = [1], ts_seq = 1\<rparr>] =
   Ok \<lparr>ev_input_compressed_account_hashes = [sample_leaf 5], ev_output_compressed_account_hashes = [sample_leaf 2],
     ev_output_compressed_accounts = [sample_output 2], ev_output_leaf_indices = [0],
     ev_sequence_numbers = [\<lparr>ts_pubkey = [1], ts_seq = 1\<rparr>], ev_relay_fee = None, ev_is_compress = False,
     ev_compress_or_decompress_lamports = Some 3, ev_pubkey_array = [[1], [2]], ev_message = None\<rparr>"
  by (simp add: emit_state_transition_event_def sample_invoke_data_def sample_invoke_accounts_def man_serialize_def write_vec_def
      write_option_def le_bytes_def sample_leaf_def emit_indexer_event_def Let_def, simp add: sample_system_env_def sample_env_def)

lemma sample_process:
  assumes "sample_new_tree t" "hs_insert s (from_bytes_be (sample_leaf 5)) 0 = Ok (s', i)"
  obtains l' event where
    "process sample_system (sample_system_ledger t s) sample_invoke_data invoking sample_invoke_accounts n = Ok (l', event)"
    "ev_input_compressed_account_hashes event = [sample_leaf 5]" "ev_output_compressed_account_hashes event = [sample_leaf 2]"
    "ev_output_leaf_indices event = [0]"
proof -
  let ?l = "moved (sample_system_ledger t s) [6] [8] 3"
  have "process_compression sample_system (sample_system_ledger t s) sample_invoke_data sample_invoke_accounts = Ok ?l"
    by (simp add: process_compression_def sample_invoke_data_def sample_invoke_accounts_def compress_or_decompress_lamports_def
        decompress_lamports_def sol_pool_transfer_def sample_system_transfer sample_system_accounts)
  moreover have acc: "sample_accounts ?l t s" using sample_system_accounts(1) [of t s] by (simp add: sample_accounts_def)
  moreover define l2 where "l2 = set_data ?l [2] (QueueAccount sample_queue_metadata s')"
  have acc2: "sample_accounts l2 t s'" using acc by (simp add: sample_accounts_def l2_def)
  obtain t' ci sn where "cmt_append_batch 26 sample_hasher32 t [sample_leaf 2] = Ok (t', ci, sn)"
    using append_batch_spec [OF sample_zero_chain32, of 26 t "[]" "[sample_leaf 2]"] assms(1)
    by (auto simp: sample_hashable32 sample_new_tree_def)
  note outs = sample_outputs [OF acc2 assms(1) this]
  have verify: "verify_state_proof sample_groth16 [root] [leaf] [] [] p = Ok ()" for root leaf p
    by (simp add: verify_state_proof_def verify_merkle_proof_zkp_def verify_n_def verify_def sample_groth16_def Let_def)
  have "process_proof sample_system ?l sample_invoke_data sample_invoke_accounts invoking (4 + n) =
      Ok (l2, [sample_leaf 5], [None], [([7], (replicate 32 2)[0 := 0]), ([1], (replicate 32 2)[0 := 0])])"
    using sample_inputs [OF acc assms(1)] sample_nullifiers [OF acc assms(1,2)]
    by (simp add: process_proof_def process_new_addresses_def l2_def, simp add: sample_invoke_data_def verify)
  moreover obtain l' where "process_outputs sample_system l2 sample_invoke_data sample_invoke_accounts invoking (4 + n) [None]
      [([7], (replicate 32 2)[0 := 0]), ([1], (replicate 32 2)[0 := 0])] =
    Ok (l', [0], [sample_leaf 2], [\<lparr>ts_pubkey = [1], ts_seq = 1\<rparr>])" using outs by blast
  ultimately show thesis using that sample_event sample_sum_check unfolding process_def Let_def
    by (simp add: sample_data_fields eval_nat_numeral)
qed

end
