(* ===== verification/System_Accounting.thy ===== *)
theory System_Accounting
  imports System_Sample
begin

text \<open>
  The lamports of a compressed transaction: the sum check of the inputs and outputs, and the lamports of the pool
  that backs the compressed ones.
\<close>


section \<open>The sum check\<close>

definition input_lamports :: "PackedCompressedAccountWithMerkleContext list \<Rightarrow> nat" where
  "input_lamports ins = sum_list (map (\<lambda>a. ca_lamports (pca_compressed_account a)) ins)"

definition output_lamports :: "OutputCompressedAccountWithPackedContext list \<Rightarrow> nat" where
  "output_lamports outs = sum_list (map (\<lambda>a. ca_lamports (oca_compressed_account a)) outs)"

lemma lamports_Cons [simp]:
  "input_lamports (a # ins) = ca_lamports (pca_compressed_account a) + input_lamports ins" "input_lamports [] = 0"
  "output_lamports (b # outs) = ca_lamports (oca_compressed_account b) + output_lamports outs" "output_lamports [] = 0"
  by (simp_all add: input_lamports_def output_lamports_def)

lemma input_sum:
  assumes "\<forall>a \<in> set ins. \<not> pca_read_only a" "n < 2 ^ 64"
  shows "try_fold (\<lambda>sum a.
         if pca_read_only a then Panic
         else ok_or (checked_add sum (ca_lamports (pca_compressed_account a))) (SysError ComputeInputSumFailed)) n ins =
    (if n + input_lamports ins < 2 ^ 64 then Ok (n + input_lamports ins) else Err (SysError ComputeInputSumFailed))"
  using assms by (induction ins arbitrary: n) (auto simp: checked_add_def add.assoc)

lemma output_sum:
  "try_fold (\<lambda>sum a.
         ok_or (checked_sub sum (ca_lamports (oca_compressed_account a))) (SysError ComputeOutputSumFailed)) n outs =
    (if output_lamports outs \<le> n then Ok (n - output_lamports outs) else Err (SysError ComputeOutputSumFailed))"
  by (induction outs arbitrary: n) (auto simp: checked_sub_def)

text \<open>The lamports that enter and leave the compressed accounts.\<close>

definition compressed_amount :: "nat option \<Rightarrow> bool \<Rightarrow> nat" where
  "compressed_amount amount is_compress = (case amount of Some n \<Rightarrow> if is_compress then n else 0 | None \<Rightarrow> 0)"

definition decompressed_amount :: "nat option \<Rightarrow> bool \<Rightarrow> nat" where
  "decompressed_amount amount is_compress = (case amount of Some n \<Rightarrow> if is_compress then 0 else n | None \<Rightarrow> 0)"

text \<open>
  C13.  \<open>sum_check\<close> decides exactly whether the lamports of the inputs and the compressed lamports are the lamports of
  the outputs, the decompressed lamports and the relay fee.  Otherwise the error tells whether the sum of the inputs
  overflows, the outputs exceed the inputs, the fee does, or something is left over.
\<close>

theorem sum_check_correct:
  assumes "\<forall>a \<in> set ins. \<not> pca_read_only a"
  shows "sum_check ins outs relay_fee amount is_compress =
    (let total_in = input_lamports ins + compressed_amount amount is_compress;
         total_out = output_lamports outs + decompressed_amount amount is_compress;
         fee = (case relay_fee of Some n \<Rightarrow> n | None \<Rightarrow> 0) in
     if 2 ^ 64 \<le> input_lamports ins then Err (SysError ComputeInputSumFailed)
     else if 2 ^ 64 \<le> total_in \<or> total_in < total_out then Err (SysError ComputeOutputSumFailed)
     else if total_in < total_out + fee then Err (SysError ComputeRpcSumFailed)
     else if total_in = total_out + fee then Ok ()
     else Err (SysError SumCheckFailed))"
proof (cases "2 ^ 64 \<le> input_lamports ins")
  case True
  then show ?thesis using assms(1) by (simp add: sum_check_def input_sum)
next
  case False
  then have "sum_check ins outs relay_fee amount is_compress =
     and_then (case amount of
         Some n \<Rightarrow> if is_compress then ok_or (checked_add (input_lamports ins) n) (SysError ComputeOutputSumFailed)
           else ok_or (checked_sub (input_lamports ins) n) (SysError ComputeOutputSumFailed)
       | None \<Rightarrow> Ok (input_lamports ins)) (\<lambda>sum.
     and_then (if output_lamports outs \<le> sum then Ok (sum - output_lamports outs)
       else Err (SysError ComputeOutputSumFailed)) (\<lambda>sum.
     and_then (case relay_fee of Some fee \<Rightarrow> ok_or (checked_sub sum fee) (SysError ComputeRpcSumFailed) | None \<Rightarrow> Ok sum) (\<lambda>sum.
     if sum = 0 then Ok () else Err (SysError SumCheckFailed))))"
    unfolding sum_check_def output_sum using assms by (simp add: input_sum)
  then show ?thesis using False
    by (auto simp: Let_def compressed_amount_def decompressed_amount_def checked_add_def checked_sub_def split: option.splits)
qed

theorem sum_check_correct_witness:
  "sum_check [sample_input 5, sample_input 7] [sample_output 9] None (Some 3) False = Ok () \<and>
   sum_check [sample_input 5, sample_input 7] [sample_output 9] None (Some 3) True = Err (SysError SumCheckFailed) \<and>
   sum_check [sample_input 5] [sample_output 9] None None False = Err (SysError ComputeOutputSumFailed)"
  by (simp add: sum_check_correct compressed_amount_def decompressed_amount_def sample_input_def sample_output_def sample_account_def)


section \<open>The pool\<close>

lemma pay_network_fee_keeps:
  assumes "transfer_law (sys_env S)" "pay_network_fee S l ctx fees = Ok l'"
    and "\<And>i n. fees = Some (i, n) \<Longrightarrow> acc_data (l (ii_remaining_accounts ctx ! unat i)) \<noteq> Foreign"
  shows "keeps_foreign (ii_fee_payer ctx) l l'"
  using assms(2,3) keeps_foreign_transfer [OF assms(1)]
  by (auto simp: pay_network_fee_def split: option.splits elim!: and_then_OkE)

lemma process_new_addresses_keeps:
  assumes "transfer_law (sys_env S)" "order_law (sys_env S)"
    and "process_new_addresses S l inputs ctx invoking addresses = Ok (l', new_addresses, roots, addresses')"
  shows "keeps_foreign (ii_fee_payer ctx) l l'"
proof (cases "idi_new_address_params inputs = []")
  case False
  let ?ps = "idi_new_address_params inputs"
  obtain na l1 fees where
    ins: "insert_addresses_into_address_merkle_tree_queue S l ctx na ?ps invoking = Ok (l1, fees)"
    and pay: "pay_network_fee S l1 ctx fees = Ok l'"
    using assms(3) False by (auto simp: process_new_addresses_def Let_def elim!: and_then_OkE)
  note D = insert_new_addresses_OkD [OF ins]
  have "acc_data (l1 (address_queue ctx p)) \<noteq> Foreign" if "p \<in> set ?ps" for p
    by (rule queues_of_items [OF assms(1,2) D(1) that]) (simp add: data_of_def)
  then have "keeps_foreign (ii_fee_payer ctx) l1 l'"
    using pay_network_fee_keeps [OF assms(1) pay] D(3) by (auto simp: address_queue_def)
  then show ?thesis using insert_keeps [OF assms(1) D(1)] keeps_foreign_trans by (auto simp: queues_context_def)
qed (use assms(3) in \<open>simp add: process_new_addresses_def\<close>)

lemma process_nullifiers_keeps:
  assumes "transfer_law (sys_env S)" "order_law (sys_env S)" "process_nullifiers S l inputs ctx invoking hashes = Ok l'"
  shows "keeps_foreign (ii_fee_payer ctx) l l'"
proof (cases "idi_input_compressed_accounts_with_merkle_context inputs = []")
  case False
  let ?ins = "idi_input_compressed_accounts_with_merkle_context inputs"
  obtain l1 fees where ins: "insert_nullifiers S l inputs ctx hashes invoking = Ok (l1, fees)"
    and pay: "pay_network_fee S l1 ctx fees = Ok l'"
    using assms(3) False by (auto simp: process_nullifiers_def elim!: and_then_OkE)
  note D = insert_nullifiers_OkD [OF ins]
  have "acc_data (l1 (input_queue ctx a)) \<noteq> Foreign" if "a \<in> set ?ins" for a
    by (rule queues_of_items [OF assms(1,2) D(1) that]) (simp add: data_of_def)
  then have "keeps_foreign (ii_fee_payer ctx) l1 l'"
    using pay_network_fee_keeps [OF assms(1) pay] D(3) by (auto simp: input_queue_def)
  then show ?thesis using insert_keeps [OF assms(1) D(1)] keeps_foreign_trans by (auto simp: queues_context_def)
qed (use assms(3) in \<open>simp add: process_nullifiers_def\<close>)

lemma process_proof_keeps:
  assumes "transfer_law (sys_env S)" "order_law (sys_env S)"
    and "process_proof S l inputs ctx invoking capacity = Ok (l', hashes, addresses, hashed_pubkeys)"
  shows "keeps_foreign (ii_fee_payer ctx) l l'"
proof (cases "idi_input_compressed_accounts_with_merkle_context inputs \<noteq> [] \<or> idi_new_address_params inputs \<noteq> []")
  case True
  obtain l1 roots addresses0 na nr where "process_new_addresses S l inputs ctx invoking addresses0 = Ok (l1, na, nr, addresses)"
    "process_nullifiers S l1 inputs ctx invoking hashes = Ok l'"
    by (rule process_proof_OkD [OF assms(3) True])
  then show ?thesis
    using process_new_addresses_keeps [OF assms(1,2)] process_nullifiers_keeps [OF assms(1,2)] keeps_foreign_trans by blast
qed (use assms(3) in \<open>auto simp: process_proof_def Let_def split: if_splits\<close>)

lemma process_outputs_keeps:
  assumes "transfer_law (sys_env S)"
    and "process_outputs S l inputs ctx invoking capacity addresses hashed_pubkeys = Ok (l', indices, hashes, seqs)"
  shows "keeps_foreign (ii_fee_payer ctx) l l'"
proof (cases "idi_output_compressed_accounts inputs = []")
  case False
  obtain st :: OutputState and leaves where "process_append_leaves_to_merkle_trees (sys_env S) l (append_context ctx st) leaves = Ok l'"
    by (rule process_outputs_OkD [OF assms(2) False])
  from append_keeps [OF assms(1) this] show ?thesis by (simp add: append_context_def)
qed (use assms(2) in \<open>simp add: process_outputs_def\<close>)

lemma sum_check_OkD:
  assumes "sum_check ins outs None amount is_compress = Ok ()"
  shows "input_lamports ins + compressed_amount amount is_compress = output_lamports outs + decompressed_amount amount is_compress"
proof -
  have ro: "\<forall>a \<in> set ins. \<not> pca_read_only a" if "try_fold (\<lambda>sum a.
         if pca_read_only a then Panic
         else ok_or (checked_add sum (ca_lamports (pca_compressed_account a))) (SysError ComputeInputSumFailed)) n ins = Ok m" for n m
    using that by (induction ins arbitrary: n) (auto split: if_splits elim!: and_then_OkE)
  have "\<forall>a \<in> set ins. \<not> pca_read_only a" using assms ro unfolding sum_check_def by (auto elim!: and_then_OkE)
  from input_sum [OF this, of 0] assms show ?thesis unfolding sum_check_def output_sum
    by (auto simp: compressed_amount_def decompressed_amount_def split: option.splits if_splits elim!: and_then_OkE)
qed


text \<open>The second step moves exactly the compressed and decompressed lamports in and out of the pool.\<close>

lemma process_compression_pool:
  assumes "transfer_law (sys_env S)" "check_invoke_accounts S ctx = Ok ()" "process_compression S l inputs ctx = Ok l1"
    and "ii_fee_payer ctx \<noteq> get_sol_pool_pda S" "acc_data (l (get_sol_pool_pda S)) = Foreign"
  defines "pool \<equiv> get_sol_pool_pda S" and "amount \<equiv> idi_compress_or_decompress_lamports inputs"
    and "c \<equiv> idi_is_compress inputs"
  shows "acc_data (l1 pool) = Foreign"
    "acc_lamports (l pool) + compressed_amount amount c \<le> acc_lamports (l1 pool) + decompressed_amount amount c"
    "ii_decompression_recipient ctx \<noteq> Some pool \<Longrightarrow>
      acc_lamports (l1 pool) + decompressed_amount amount c = acc_lamports (l pool) + compressed_amount amount c"
proof -
  have pool: "ii_sol_pool_pda ctx = Some k \<Longrightarrow> k = pool" for k
    using assms(2) by (auto simp: check_invoke_accounts_def pool_def split: if_splits option.splits)
  have "acc_data (l1 pool) = Foreign \<and>
     acc_lamports (l pool) + compressed_amount amount c \<le> acc_lamports (l1 pool) + decompressed_amount amount c \<and>
     (ii_decompression_recipient ctx \<noteq> Some pool \<longrightarrow>
        acc_lamports (l1 pool) + decompressed_amount amount c = acc_lamports (l pool) + compressed_amount amount c)"
  proof (cases amount)
    case None
    then show ?thesis using assms(3,5) unfolding amount_def [symmetric] pool_def [symmetric] process_compression_def
      by (auto simp: compressed_amount_def decompressed_amount_def split: if_splits)
  next
    case (Some n)
    show ?thesis
    proof (cases c)
      case True
      then have "transfer_lamports_cpi (sys_env S) l (ii_fee_payer ctx) pool n = Ok l1"
        using assms(3) Some pool unfolding process_compression_def amount_def c_def
        by (auto simp: compress_or_decompress_lamports_def compress_lamports_def split: if_splits elim!: and_then_OkE)
      then have "l1 = moved l (ii_fee_payer ctx) pool n"
        using assms(1) unfolding transfer_law_def transfer_lamports_cpi_def by (metis map_err_eq_Ok)
      then show ?thesis using assms(4,5) True Some
        by (simp add: moved_def Let_def pool_def compressed_amount_def decompressed_amount_def)
    next
      case False
      then obtain k where k: "ii_decompression_recipient ctx = Some k" "system_transfer (sys_env S) l pool k n = Ok l1"
        using assms(3) Some pool unfolding process_compression_def amount_def c_def
        by (auto simp: compress_or_decompress_lamports_def decompress_lamports_def sol_pool_transfer_def elim!: and_then_OkE)
      then have "l1 = moved l pool k n" "n \<le> acc_lamports (l pool)" using assms(1) unfolding transfer_law_def by blast+
      then show ?thesis using assms(5) False Some k(1)
        by (auto simp: moved_def Let_def pool_def compressed_amount_def decompressed_amount_def)
    qed
  qed
  then show "acc_data (l1 pool) = Foreign"
    "acc_lamports (l pool) + compressed_amount amount c \<le> acc_lamports (l1 pool) + decompressed_amount amount c"
    "ii_decompression_recipient ctx \<noteq> Some pool \<Longrightarrow>
      acc_lamports (l1 pool) + decompressed_amount amount c = acc_lamports (l pool) + compressed_amount amount c"
    by blast+
qed

text \<open>
  C4.  A successful transaction changes the lamports of the pool exactly by what it adds to the compressed accounts:
  the new balance of the pool and the lamports of the spent accounts together are the old balance and the lamports of
  the created ones.  Only when the pool itself is given as the recipient, the pool keeps more.  Hence a pool that
  covers all compressed lamports covers them after every transaction.  The pool is not an account of the account
  compression program and, as an address without private key, it does not pay the fees.
\<close>

theorem pool_covers_compressed_lamports:
  assumes "transfer_law (sys_env S)" "order_law (sys_env S)" "check_invoke_accounts S ctx = Ok ()"
    and "acc_data (l (get_sol_pool_pda S)) = Foreign" "ii_fee_payer ctx \<noteq> get_sol_pool_pda S"
    and "process S l inputs invoking ctx cpi_inputs = Ok (l', event)"
  defines "pool \<equiv> get_sol_pool_pda S"
    and "spent \<equiv> input_lamports (idi_input_compressed_accounts_with_merkle_context inputs)"
    and "created \<equiv> output_lamports (idi_output_compressed_accounts inputs)"
  shows "acc_data (l' pool) = Foreign \<and> acc_lamports (l pool) + created \<le> acc_lamports (l' pool) + spent \<and>
    (ii_decompression_recipient ctx \<noteq> Some pool \<longrightarrow> acc_lamports (l' pool) + spent = acc_lamports (l pool) + created)"
proof (rule process_OkD [OF assms(6)])
  fix l1 l2 hashes addresses hashed_pubkeys indices output_hashes seqs capacity
  let ?a = "idi_compress_or_decompress_lamports inputs" and ?c = "idi_is_compress inputs"
  assume sum: "sum_check (idi_input_compressed_accounts_with_merkle_context inputs) (idi_output_compressed_accounts inputs) None ?a ?c = Ok ()"
    and comp: "process_compression S l inputs ctx = Ok l1"
    and pr: "process_proof S l1 inputs ctx invoking capacity = Ok (l2, hashes, addresses, hashed_pubkeys)"
    and out: "process_outputs S l2 inputs ctx invoking capacity addresses hashed_pubkeys = Ok (l', indices, output_hashes, seqs)"
  note C = process_compression_pool [OF assms(1,3) comp assms(5,4), folded pool_def]
  have "keeps_foreign (ii_fee_payer ctx) l1 l'"
    using process_proof_keeps [OF assms(1,2) pr] process_outputs_keeps [OF assms(1) out] keeps_foreign_trans by blast
  then have "acc_data (l' pool) = Foreign" "acc_lamports (l' pool) = acc_lamports (l1 pool)"
    using C(1) assms(5) unfolding keeps_foreign_def pool_def by metis+
  then show ?thesis using C(2,3) sum_check_OkD [OF sum] unfolding spent_def created_def by auto
qed

theorem pool_covers_compressed_lamports_witness:
  "\<exists>t s l' event. process sample_system (sample_system_ledger t s) sample_invoke_data None sample_invoke_accounts 0 = Ok (l', event) \<and>
     acc_lamports (l' [6]) + 5 = acc_lamports (sample_system_ledger t s [6]) + 2"
proof -
  obtain t s s' i where t: "sample_new_tree t" "hs_insert s (from_bytes_be (sample_leaf 5)) 0 = Ok (s', i)"
    using sample_fresh_exists by (auto simp: sample_new_queue_def)
  let ?l = "sample_system_ledger t s"
  obtain l' event where run: "process sample_system ?l sample_invoke_data None sample_invoke_accounts 0 = Ok (l', event)"
    by (rule sample_process [OF t])
  have pool: "get_sol_pool_pda sample_system = [6]" by (simp add: get_sol_pool_pda_def)
  have "check_invoke_accounts sample_system sample_invoke_accounts = Ok ()"
    by (simp add: check_invoke_accounts_def sample_invoke_accounts_def pool get_registered_program_pda_def get_cpi_authority_pda_def)
  from pool_covers_compressed_lamports [OF _ _ this _ _ run] have "acc_lamports (l' [6]) + 5 = acc_lamports (?l [6]) + 2"
    by (simp add: pool sample_system_accounts sample_data_fields sample_input_def sample_output_def sample_account_def)
  then show ?thesis using run by blast
qed

end
