(* ===== verification/System_Hashing.thy ===== *)
theory System_Hashing
  imports System_Accounting
begin

text \<open>
  The hashes of input and output accounts: the loops that remember the hashes of keys compute the same as
  \<open>CompressedAccount::hash\<close>, and the leaf indices they assign are the positions at which the leaves end up.
\<close>


section \<open>Hashed keys\<close>

definition hashed_ok :: "Env \<Rightarrow> hashed_pubkeys \<Rightarrow> bool" where
  "hashed_ok E hp \<longleftrightarrow> (\<forall>(k, h) \<in> set hp. hash_pubkey E k = Ok h)"

lemma hashed_okD: "hashed_ok E hp \<Longrightarrow> map_of hp k = Some h \<Longrightarrow> hash_pubkey E k = Ok h"
  by (auto simp: hashed_ok_def dest: map_of_SomeD)

lemma cached_hash_OkD:
  assumes "cached_hash E hp k = Ok (h, hp')" "hashed_ok E hp"
  shows "hash_pubkey E k = Ok h" "hashed_ok E hp'" "set (map fst hp') = insert k (set (map fst hp))"
    "distinct (map fst hp) \<Longrightarrow> distinct (map fst hp')"
proof -
  show "hash_pubkey E k = Ok h" "hashed_ok E hp'"
    using assms hashed_okD [OF assms(2)] by (auto simp: cached_hash_def hashed_ok_def split: option.splits elim!: and_then_OkE)
  show "set (map fst hp') = insert k (set (map fst hp))" "distinct (map fst hp) \<Longrightarrow> distinct (map fst hp')"
    using assms by (auto simp: cached_hash_def map_of_eq_None_iff split: option.splits elim!: and_then_OkE
        dest!: map_of_SomeD intro: rev_image_eqI)
qed

text \<open>A loop over the positions of a list.\<close>

lemma try_fold_enumerate:
  assumes "try_fold f s (enumerate n xs) = Ok s'" "I n s"
    and "\<And>i s s'. n \<le> i \<Longrightarrow> i < n + length xs \<Longrightarrow> I i s \<Longrightarrow> f s (i, xs ! (i - n)) = Ok s' \<Longrightarrow> I (Suc i) s'"
  shows "I (n + length xs) s'"
  using assms
proof (induction xs arbitrary: n s)
  case (Cons x xs)
  obtain t where t: "f s (n, x) = Ok t" "try_fold f t (enumerate (Suc n) xs) = Ok s'"
    using Cons.prems(1) by (auto elim: and_then_OkE)
  have "I (Suc n) t" using Cons.prems(2) Cons.prems(3) [of n s t] t(1) by simp
  moreover have "I (Suc i) u'" if "Suc n \<le> i" "i < Suc n + length xs" "I i u" "f u (i, xs ! (i - Suc n)) = Ok u'" for i u u'
    using Cons.prems(3) [of i u u'] that by (simp add: nth_Cons')
  ultimately show ?case using Cons.IH [OF t(2)] by simp
qed simp


section \<open>Inputs\<close>

text \<open>The reference: the hash of an input with its tree and leaf index.\<close>

definition input_hash :: "Env \<Rightarrow> pubkey list \<Rightarrow> PackedCompressedAccountWithMerkleContext \<Rightarrow> (system_error, bytes) result" where
  "input_hash E ra a = CompressedAccount_hash E (pca_compressed_account a)
     (ra ! unat (pmc_merkle_tree_pubkey_index (pca_merkle_context a))) (pmc_leaf_index (pca_merkle_context a))"

definition input_inv ::
  "Env \<Rightarrow> pubkey list \<Rightarrow> PackedCompressedAccountWithMerkleContext list \<Rightarrow> nat \<Rightarrow> nat \<Rightarrow> InputState \<Rightarrow> bool" where
  "input_inv E ra ins m n st \<longleftrightarrow> hashed_ok E (in_hashed_pubkeys st) \<and> distinct (map fst (in_hashed_pubkeys st)) \<and>
     hash_pubkey E (in_owner_pubkey st) = Ok (in_hashed_owner st) \<and>
     (in_current_mt_index st \<noteq> - 1 \<longrightarrow> 0 \<le> in_current_mt_index st \<and> nat (in_current_mt_index st) < length ra \<and>
        hash_pubkey E (ra ! nat (in_current_mt_index st)) = Ok (in_current_hashed_mt st)) \<and>
     length (in_leaves st) = length ins \<and> (\<forall>j < n. input_hash E ra (ins ! j) = Ok (in_leaves st ! j)) \<and>
     length (in_addresses st) = m \<and>
     (\<forall>j < m. in_addresses st ! j = (if j < n then ca_address (pca_compressed_account (ins ! j)) else None)) \<and>
     set (map fst (in_hashed_pubkeys st)) \<subseteq> set ra \<union> ca_owner ` pca_compressed_account ` set ins"

lemma hash_input_inv:
  assumes "input_inv E ra ins m n st" "n < length ins" "length ins \<le> m" "hash_input E ra st (n, ins ! n) = Ok st'"
  shows "input_inv E ra ins m (Suc n) st'"
proof -
  let ?a = "pca_compressed_account (ins ! n)" and ?c = "pca_merkle_context (ins ! n)"
  let ?i = "pmc_merkle_tree_pubkey_index ?c"
  note inv = assms(1) [unfolded input_inv_def]
  obtain ads mt hp1 ow hp2 leaf where
    ad: "ads = (case ca_address ?a of Some x \<Rightarrow> (in_addresses st)[n := Some x] | None \<Rightarrow> in_addresses st)"
    and mt: "(if in_current_mt_index st \<noteq> int (unat ?i) then
         and_then (index ra (unat ?i)) (\<lambda>k. cached_hash E (in_hashed_pubkeys st) k)
       else Ok (in_current_hashed_mt st, in_hashed_pubkeys st)) = Ok (mt, hp1)"
    and ow: "(if in_owner_pubkey st \<noteq> ca_owner ?a then cached_hash E hp1 (ca_owner ?a) else Ok (in_hashed_owner st, hp1)) = Ok (ow, hp2)"
    and leaf: "CompressedAccount_hash_with_hashed_values (poseidon E) ?a ow mt (pmc_leaf_index ?c) = Ok leaf"
    and st': "st' = \<lparr>in_leaves = (in_leaves st)[n := leaf], in_addresses = ads, in_hashed_pubkeys = hp2,
         in_owner_pubkey = ca_owner ?a, in_hashed_owner = ow, in_current_mt_index = int (unat ?i), in_current_hashed_mt = mt\<rparr>"
    using assms(4) unfolding hash_input_def
    by (auto simp: Let_def split: if_splits option.splits elim!: and_then_OkE)
  have ne: "uint ?i \<noteq> - 1" using uint_ge_0 [of ?i] by linarith
  have hp1: "hashed_ok E hp1" "distinct (map fst hp1)" "hash_pubkey E (ra ! unat ?i) = Ok mt" "unat ?i < length ra"
      "set (map fst hp1) \<subseteq> insert (ra ! unat ?i) (set (map fst (in_hashed_pubkeys st)))"
    using mt inv cached_hash_OkD [of E "in_hashed_pubkeys st" "ra ! unat ?i" mt hp1] ne
    by (auto simp del: set_map split: if_splits elim!: and_then_OkE)
  have hp2: "hashed_ok E hp2" "distinct (map fst hp2)" "hash_pubkey E (ca_owner ?a) = Ok ow"
      "set (map fst hp2) \<subseteq> insert (ca_owner ?a) (set (map fst hp1))"
    using ow inv hp1 cached_hash_OkD [of E hp1 "ca_owner ?a" ow hp2] by (auto simp del: set_map split: if_splits)
  have "ca_owner ?a \<in> ca_owner ` pca_compressed_account ` set ins" "ra ! unat ?i \<in> set ra" using assms(2) hp1(4) by simp_all
  then have keys: "set (map fst hp2) \<subseteq> set ra \<union> ca_owner ` pca_compressed_account ` set ins" using hp1(5) hp2(4) inv by blast
  have "input_hash E ra (ins ! n) = Ok leaf"
    using leaf hp1(3) hp2(3) by (simp add: input_hash_def CompressedAccount_hash_def)
  then have "\<forall>j < Suc n. input_hash E ra (ins ! j) = Ok ((in_leaves st)[n := leaf] ! j)"
    using inv assms(2) by (auto simp: less_Suc_eq nth_list_update)
  moreover have "\<forall>j < m. ads ! j = (if j < Suc n then ca_address (pca_compressed_account (ins ! j)) else None)"
    using inv assms(2,3) unfolding ad by (auto simp: less_Suc_eq nth_list_update split: option.splits)
  moreover have "length ads = m" using inv unfolding ad by (auto split: option.splits)
  ultimately show ?thesis using inv hp1(3,4) hp2(1-3) keys unfolding st' by (simp add: input_inv_def)
qed

lemma hash_inputs_OkD:
  assumes "hash_input_compressed_accounts E ra ins leaves (replicate m None) [] = Ok (hashes, addresses, hp)"
    and "length leaves = length ins" "length ins \<le> m"
  shows "length hashes = length ins" "\<forall>j < length ins. input_hash E ra (ins ! j) = Ok (hashes ! j)"
    "addresses = map (\<lambda>a. ca_address (pca_compressed_account a)) ins @ replicate (m - length ins) None"
    "hashed_ok E hp" "distinct (map fst hp)" "set (map fst hp) \<subseteq> set ra \<union> ca_owner ` pca_compressed_account ` set ins"
proof -
  let ?o = "ca_owner (pca_compressed_account (ins ! 0))"
  obtain ow st where ow: "ins \<noteq> []" "hash_pubkey E ?o = Ok ow"
    and loop: "try_fold (hash_input E ra)
         \<lparr>in_leaves = leaves, in_addresses = replicate m None, in_hashed_pubkeys = [(?o, ow)],
          in_owner_pubkey = ?o, in_hashed_owner = ow, in_current_mt_index = - 1, in_current_hashed_mt = replicate 32 0\<rparr>
         (enumerate 0 ins) = Ok st"
    and st: "hashes = in_leaves st" "addresses = in_addresses st" "hp = in_hashed_pubkeys st"
    using assms(1) unfolding hash_input_compressed_accounts_def by (auto simp: Let_def elim!: and_then_OkE)
  have "input_inv E ra ins m (0 + length ins) st"
  proof (rule try_fold_enumerate [OF loop])
    show "input_inv E ra ins m 0 \<lparr>in_leaves = leaves, in_addresses = replicate m None, in_hashed_pubkeys = [(?o, ow)],
          in_owner_pubkey = ?o, in_hashed_owner = ow, in_current_mt_index = - 1, in_current_hashed_mt = replicate 32 0\<rparr>"
      using ow assms(2) by (simp add: input_inv_def hashed_ok_def)
  qed (use hash_input_inv assms(3) in auto)
  note inv = this [unfolded input_inv_def]
  show "length hashes = length ins" "\<forall>j < length ins. input_hash E ra (ins ! j) = Ok (hashes ! j)"
    "hashed_ok E hp" "distinct (map fst hp)" "set (map fst hp) \<subseteq> set ra \<union> ca_owner ` pca_compressed_account ` set ins"
    using inv unfolding st by simp_all
  show "addresses = map (\<lambda>a. ca_address (pca_compressed_account a)) ins @ replicate (m - length ins) None"
    using inv assms(3) unfolding st by (intro nth_equalityI) (auto simp: nth_append)
qed


section \<open>Outputs\<close>

definition output_tree :: "pubkey list \<Rightarrow> OutputCompressedAccountWithPackedContext \<Rightarrow> pubkey" where
  "output_tree ra a = ra ! unat (oca_merkle_tree_index a)"

text \<open>The leaf index of an output: the next free leaf of its tree and the earlier outputs for the same tree.\<close>

definition next_leaf :: "ledger \<Rightarrow> pubkey \<Rightarrow> nat" where
  "next_leaf l k = (case acc_data (l k) of StateMerkleTreeAccount _ t \<Rightarrow> cmt_next_index t | _ \<Rightarrow> 0)"

definition earlier :: "pubkey list \<Rightarrow> OutputCompressedAccountWithPackedContext list \<Rightarrow> nat \<Rightarrow> pubkey \<Rightarrow> nat" where
  "earlier ra outs n k = length (filter (\<lambda>a. output_tree ra a = k) (take n outs))"

definition output_ok ::
  "SystemEnv \<Rightarrow> ledger \<Rightarrow> pubkey list \<Rightarrow> OutputCompressedAccountWithPackedContext list \<Rightarrow> nat \<Rightarrow> nat \<Rightarrow> bytes \<Rightarrow> bool" where
  "output_ok S l ra outs j i h \<longleftrightarrow> unat (oca_merkle_tree_index (outs ! j)) < length ra \<and>
     i = next_leaf l (output_tree ra (outs ! j)) + earlier ra outs j (output_tree ra (outs ! j)) \<and>
     CompressedAccount_hash (sys_env S) (oca_compressed_account (outs ! j)) (output_tree ra (outs ! j)) i = Ok h"

definition leaf_entry :: "pubkey list \<Rightarrow> byte \<times> bytes \<Rightarrow> pubkey \<Rightarrow> bytes \<Rightarrow> bool" where
  "leaf_entry accounts x k h \<longleftrightarrow> unat (fst x) < length accounts \<and> accounts ! unat (fst x) = k \<and> snd x = h"

abbreviation leaf_bytes :: "(byte \<times> bytes) list \<Rightarrow> bytes" where
  "leaf_bytes L \<equiv> concat (map (\<lambda>(i, h). i # h) L)"

definition output_base ::
  "SystemEnv \<Rightarrow> ledger \<Rightarrow> pubkey list \<Rightarrow> pubkey option \<Rightarrow> bytes \<Rightarrow> OutputCompressedAccountWithPackedContext list \<Rightarrow> nat \<Rightarrow> OutputState \<Rightarrow> bool" where
  "output_base S l ra invoking hdr outs n st \<longleftrightarrow>
     hashed_ok (sys_env S) (out_hashed_pubkeys st) \<and> out_merkle_tree_pubkeys st = out_accounts st \<and>
     distinct (out_accounts st) \<and> length (out_accounts st) = out_index_merkle_tree_account st \<and> length (out_accounts st) < 256 \<and>
     (\<forall>k \<in> set (out_accounts st). \<exists>m t. acc_data (l k) = StateMerkleTreeAccount m t \<and> may_write m invoking) \<and>
     length (out_hashes st) = length outs \<and> length (out_indices st) = length outs \<and>
     (\<forall>j < n. output_ok S l ra outs j (out_indices st ! j) (out_hashes st ! j)) \<and>
     (\<exists>L. length L = n \<and> out_instruction_data st = hdr @ leaf_bytes L \<and>
        (\<forall>j < n. leaf_entry (out_accounts st) (L ! j) (output_tree ra (outs ! j)) (out_hashes st ! j)))"

definition output_sel ::
  "SystemEnv \<Rightarrow> ledger \<Rightarrow> pubkey list \<Rightarrow> OutputCompressedAccountWithPackedContext list \<Rightarrow> nat \<Rightarrow> OutputState \<Rightarrow> pubkey \<Rightarrow> bool" where
  "output_sel S l ra outs n st k \<longleftrightarrow> out_accounts st \<noteq> [] \<and> last (out_accounts st) = k \<and> 0 \<le> out_current_index st \<and>
     nat (out_current_index st) < length ra \<and> ra ! nat (out_current_index st) = k \<and>
     hash_pubkey (sys_env S) k = Ok (out_hashed_merkle_tree st) \<and> out_mt_next_index st = next_leaf l k \<and>
     out_num_leaves_in_tree st = earlier ra outs n k"

definition output_inv ::
  "SystemEnv \<Rightarrow> ledger \<Rightarrow> pubkey list \<Rightarrow> pubkey option \<Rightarrow> bytes \<Rightarrow> OutputCompressedAccountWithPackedContext list \<Rightarrow> nat \<Rightarrow> OutputState \<Rightarrow> bool" where
  "output_inv S l ra invoking hdr outs n st \<longleftrightarrow> output_base S l ra invoking hdr outs n st \<and>
     (if n = 0 then out_current_index st = - 1 \<and> out_accounts st = [] else \<exists>k. output_sel S l ra outs n st k)"

lemma earlier_new:
  assumes "output_base S l ra invoking hdr outs n st" "n \<le> length outs" "k \<notin> set (out_accounts st)"
  shows "earlier ra outs n k = 0"
proof -
  obtain L where L: "\<forall>j < n. leaf_entry (out_accounts st) (L ! j) (output_tree ra (outs ! j)) (out_hashes st ! j)"
    using assms(1) by (auto simp: output_base_def)
  then have "output_tree ra (outs ! j) \<in> set (out_accounts st)" if "j < n" for j
    using that unfolding leaf_entry_def by (metis nth_mem)
  then have "\<forall>j < n. output_tree ra (outs ! j) \<noteq> k" using assms(3) by blast
  then have "\<forall>a \<in> set (take n outs). output_tree ra a \<noteq> k" using assms(2) by (fastforce simp: in_set_conv_nth)
  then show ?thesis by (simp add: earlier_def filter_empty_conv)
qed

lemma leaf_entry_append: "leaf_entry accounts x k h \<Longrightarrow> leaf_entry (accounts @ ks) x k h"
  by (simp add: leaf_entry_def nth_append)

lemma select_output_inv:
  assumes "output_inv S l ra invoking hdr outs n st" "n < length outs"
    and "select_output_tree S l ra invoking st (oca_merkle_tree_index (outs ! n)) = Ok st1"
  shows "output_base S l ra invoking hdr outs n st1" "output_sel S l ra outs n st1 (output_tree ra (outs ! n))"
    "unat (oca_merkle_tree_index (outs ! n)) < length ra" "out_addresses st1 = out_addresses st"
    "out_hashed_pubkeys st1 = out_hashed_pubkeys st"
proof -
  let ?i = "oca_merkle_tree_index (outs ! n)" and ?k = "output_tree ra (outs ! n)"
  have base: "output_base S l ra invoking hdr outs n st" using assms(1) by (simp add: output_inv_def)
  have "output_base S l ra invoking hdr outs n st1 \<and> output_sel S l ra outs n st1 ?k \<and> unat ?i < length ra \<and>
    out_addresses st1 = out_addresses st \<and> out_hashed_pubkeys st1 = out_hashed_pubkeys st"
  proof (cases "int (unat ?i) = out_current_index st")
    case True
    have ne: "uint ?i \<noteq> - 1" using uint_ge_0 [of ?i] by linarith
    with True assms(1) obtain k where "output_sel S l ra outs n st k"
      by (auto simp: output_inv_def split: if_splits)
    moreover from this have "k = ?k" "unat ?i < length ra"
      unfolding output_sel_def True [symmetric] nat_int output_tree_def by simp_all
    ultimately show ?thesis using True assms(3) base by (simp add: select_output_tree_def)
  next
    case False
    obtain ni fee seq h where o: "unat ?i < length ra" "check_program_owner_state_merkle_tree S l ?k invoking = Ok (ni, fee, seq)"
      "(case map_of (out_hashed_pubkeys st) ?k of Some h \<Rightarrow> Ok h | None \<Rightarrow> hash_pubkey (sys_env S) ?k) = Ok h"
      "?k \<notin> set (out_merkle_tree_pubkeys st)" "out_index_merkle_tree_account st + 1 < 256"
      "st1 = st\<lparr>out_current_index := int (unat ?i), out_num_leaves_in_tree := 0,
                 out_mt_next_index := ni, out_hashed_merkle_tree := h,
                 out_index_merkle_tree_account := out_index_merkle_tree_account st + 1,
                 out_merkle_tree_pubkeys := out_merkle_tree_pubkeys st @ [?k],
                 out_sequence_numbers := out_sequence_numbers st @ [\<lparr>ts_pubkey = ?k, ts_seq = seq\<rparr>],
                 out_accounts := out_accounts st @ [?k]\<rparr>"
      using assms(3) False unfolding select_output_tree_def output_tree_def
      by (auto simp: add_u8_def split: if_splits elim!: and_then_OkE)
    obtain m t where mt: "acc_data (l ?k) = StateMerkleTreeAccount m t" "may_write m invoking" "ni = cmt_next_index t"
      by (rule check_state_owner_OkD [OF o(2)])
    have h: "hash_pubkey (sys_env S) ?k = Ok h"
      using o(3) base hashed_okD [of "sys_env S" "out_hashed_pubkeys st" ?k] by (auto simp: output_base_def split: option.splits)
    have k: "?k \<notin> set (out_accounts st)" using o(4) base by (simp add: output_base_def)
    have "\<exists>L. length L = n \<and> out_instruction_data st = hdr @ leaf_bytes L \<and>
        (\<forall>j < n. leaf_entry (out_accounts st @ [?k]) (L ! j) (output_tree ra (outs ! j)) (out_hashes st ! j))"
      using base leaf_entry_append unfolding output_base_def by blast
    then have "output_base S l ra invoking hdr outs n st1"
      using base o(5) k mt unfolding output_base_def o(6) by simp
    moreover have "output_sel S l ra outs n st1 ?k"
      using o(1) h mt earlier_new [OF base _ k] assms(2) unfolding o(6)
      by (simp add: output_sel_def output_tree_def next_leaf_def nat_int)
    ultimately show ?thesis using o(1) unfolding o(6) by simp
  qed
  then show "output_base S l ra invoking hdr outs n st1" "output_sel S l ra outs n st1 ?k" "unat ?i < length ra"
    "out_addresses st1 = out_addresses st" "out_hashed_pubkeys st1 = out_hashed_pubkeys st" by blast+
qed


lemma append_output_OkD:
  assumes "append_output S l ra invoking st (n, a) = Ok st'"
  obtains st1 ads i ho hp h where "select_output_tree S l ra invoking st (oca_merkle_tree_index a) = Ok st1"
    "use_address (out_addresses st1) (ca_address (oca_compressed_account a)) = Ok ads"
    "i = out_mt_next_index st1 + out_num_leaves_in_tree st1" "i < 2 ^ 32" "n < length (out_indices st1)" "n < length (out_hashes st1)"
    "ca_data (oca_compressed_account a) \<noteq> None \<longrightarrow> invoking \<noteq> None"
    "cached_hash (sys_env S) (out_hashed_pubkeys st1) (ca_owner (oca_compressed_account a)) = Ok (ho, hp)"
    "CompressedAccount_hash_with_hashed_values (poseidon (sys_env S)) (oca_compressed_account a) ho (out_hashed_merkle_tree st1) i = Ok h"
    "st' = st1\<lparr>out_num_leaves_in_tree := out_num_leaves_in_tree st1 + 1, out_indices := (out_indices st1)[n := i],
       out_hashes := (out_hashes st1)[n := h], out_addresses := ads, out_hashed_pubkeys := hp,
       out_instruction_data := out_instruction_data st1 @ [of_nat (out_index_merkle_tree_account st1 - 1)] @ h\<rparr>"
  using assms unfolding append_output_def by (auto simp: Let_def add_u32_def split: if_splits elim!: and_then_OkE)

lemma earlier_Suc:
  "n < length outs \<Longrightarrow> earlier ra outs (Suc n) k = earlier ra outs n k + (if output_tree ra (outs ! n) = k then 1 else 0)"
  by (simp add: earlier_def take_Suc_conv_app_nth)

lemma last_position: "xs \<noteq> [] \<Longrightarrow> length xs = m \<Longrightarrow> m - 1 < length xs \<and> xs ! (m - 1) = last xs"
  by (cases xs) (auto simp: last_conv_nth)

lemma append_output_inv:
  assumes "output_inv S l ra invoking hdr outs n st" "n < length outs" "append_output S l ra invoking st (n, outs ! n) = Ok st'"
  shows "output_inv S l ra invoking hdr outs (Suc n) st'"
proof -
  let ?a = "oca_compressed_account (outs ! n)" and ?k = "output_tree ra (outs ! n)"
  obtain st1 ads i ho hp h where sel: "select_output_tree S l ra invoking st (oca_merkle_tree_index (outs ! n)) = Ok st1"
    and i: "i = out_mt_next_index st1 + out_num_leaves_in_tree st1"
    and ho: "cached_hash (sys_env S) (out_hashed_pubkeys st1) (ca_owner ?a) = Ok (ho, hp)"
    and h: "CompressedAccount_hash_with_hashed_values (poseidon (sys_env S)) ?a ho (out_hashed_merkle_tree st1) i = Ok h"
    and st': "st' = st1\<lparr>out_num_leaves_in_tree := out_num_leaves_in_tree st1 + 1, out_indices := (out_indices st1)[n := i],
       out_hashes := (out_hashes st1)[n := h], out_addresses := ads, out_hashed_pubkeys := hp,
       out_instruction_data := out_instruction_data st1 @ [of_nat (out_index_merkle_tree_account st1 - 1)] @ h\<rparr>"
    by (rule append_output_OkD [OF assms(3)])
  note I = select_output_inv [OF assms(1,2) sel]
  note base = I(1) [unfolded output_base_def] and s = I(2) [unfolded output_sel_def]
  have hp: "hashed_ok (sys_env S) hp" "hash_pubkey (sys_env S) (ca_owner ?a) = Ok ho"
    using cached_hash_OkD [OF ho] base by auto
  have new: "output_ok S l ra outs n i h"
    using I(3) i s h hp(2) by (simp add: output_ok_def CompressedAccount_hash_def)
  obtain L where L: "length L = n" "out_instruction_data st1 = hdr @ leaf_bytes L"
    "\<forall>j < n. leaf_entry (out_accounts st1) (L ! j) (output_tree ra (outs ! j)) (out_hashes st1 ! j)" using base by blast
  let ?p = "out_index_merkle_tree_account st1 - 1"
  have "out_accounts st1 \<noteq> []" "length (out_accounts st1) = out_index_merkle_tree_account st1" "length (out_accounts st1) < 256"
    "last (out_accounts st1) = ?k" using base s by blast+
  then have p: "?p < length (out_accounts st1)" "out_accounts st1 ! ?p = ?k" "?p < 256"
    using last_position [of "out_accounts st1" "out_index_merkle_tree_account st1"] by simp_all
  then have "unat (of_nat ?p :: byte) = ?p" by (simp add: unat_of_nat)
  then have "leaf_entry (out_accounts st1) (of_nat ?p, h) ?k h" using p by (simp add: leaf_entry_def)
  then have "\<forall>j < Suc n. leaf_entry (out_accounts st1) ((L @ [(of_nat ?p, h)]) ! j) (output_tree ra (outs ! j)) ((out_hashes st1)[n := h] ! j)"
    using L(1,3) base assms(2) by (auto simp: less_Suc_eq nth_append)
  then have leaves: "\<exists>L. length L = Suc n \<and> out_instruction_data st' = hdr @ leaf_bytes L \<and>
      (\<forall>j < Suc n. leaf_entry (out_accounts st') (L ! j) (output_tree ra (outs ! j)) (out_hashes st' ! j))"
    by (intro exI [of _ "L @ [(of_nat ?p, h)]"]) (simp add: st' L)
  have ok: "\<forall>j < Suc n. output_ok S l ra outs j (out_indices st' ! j) (out_hashes st' ! j)"
    using base new assms(2) by (auto simp: st' less_Suc_eq nth_list_update)
  have "output_base S l ra invoking hdr outs (Suc n) st'"
    using base hp(1) unfolding output_base_def by (intro conjI leaves ok) (simp_all add: st')
  moreover have "output_sel S l ra outs (Suc n) st' ?k" using s earlier_Suc [OF assms(2), of ra ?k] by (simp add: st' output_sel_def)
  ultimately show ?thesis unfolding output_inv_def by auto
qed

lemma create_outputs_OkD:
  assumes "create_cpi_accounts_and_instruction_data S l outs indices hashes ads invoking hp ra = Ok st"
    and "hashed_ok (sys_env S) hp" "length indices = length outs" "length hashes = length outs"
  obtains L where "out_instruction_data st = append_leaves_data L" "length L = length outs"
    "\<forall>j < length outs. leaf_entry (out_accounts st) (L ! j) (output_tree ra (outs ! j)) (out_hashes st ! j)"
    "\<forall>j < length outs. output_ok S l ra outs j (out_indices st ! j) (out_hashes st ! j)"
    "distinct (out_accounts st)" "\<forall>k \<in> set (out_accounts st). \<exists>m t. acc_data (l k) = StateMerkleTreeAccount m t \<and> may_write m invoking"
    "length (out_hashes st) = length outs" "length (out_indices st) = length outs"
proof -
  let ?hdr = "[199, 144, 10, 82, 247, 142, 143, 7] @ le_bytes 4 (length hashes)"
  let ?st = "\<lparr>out_current_index = - 1, out_num_leaves_in_tree = 0, out_mt_next_index = 0,
           out_hashed_merkle_tree = replicate 32 0, out_index_merkle_tree_account = 0, out_merkle_tree_pubkeys = [],
           out_instruction_data = ?hdr, out_indices = indices, out_hashes = hashes,
           out_addresses = ads, out_hashed_pubkeys = hp, out_sequence_numbers = [], out_accounts = []\<rparr>"
  have loop: "try_fold (append_output S l ra invoking) ?st (enumerate 0 outs) = Ok st"
    using assms(1) by (simp add: create_cpi_accounts_and_instruction_data_def split: if_splits)
  have "output_inv S l ra invoking ?hdr outs (0 + length outs) st"
  proof (rule try_fold_enumerate [OF loop])
    show "output_inv S l ra invoking ?hdr outs 0 ?st" using assms(2-4) by (simp add: output_inv_def output_base_def)
  qed (use append_output_inv in auto)
  then have "output_base S l ra invoking ?hdr outs (length outs) st" by (simp add: output_inv_def)
  note base = this [unfolded output_base_def]
  obtain L where L: "length L = length outs" "out_instruction_data st = ?hdr @ leaf_bytes L"
    "\<forall>j < length outs. leaf_entry (out_accounts st) (L ! j) (output_tree ra (outs ! j)) (out_hashes st ! j)" using base by blast
  then have "out_instruction_data st = append_leaves_data L" using assms(4) by (simp add: append_leaves_data_def)
  then show thesis using that L base by blast
qed

end
