(* ===== verification/Output_Addresses.thy ===== *)
theory Output_Addresses
  imports System_Hashing "HOL-Library.Multiset"
begin

text \<open>
  The addresses of the outputs: an output may carry an address of an input or a new address.  Each address should be
  used once; the list of addresses that are left is what \<open>use_address\<close> keeps.
\<close>


section \<open>One output\<close>

lemma position_append:
  "\<forall>x \<in> set xs. \<not> P x \<Longrightarrow> position P (xs @ ys) = map_option (\<lambda>n. length xs + n) (position P ys)"
  by (induction xs) (cases "position P ys", auto)+

lemma filter_addresses: "None \<notin> set ads \<Longrightarrow> filter (\<lambda>y. y \<noteq> None) ads = ads"
  by (rule filter_True) metis

lemma split_address:
  assumes "Some x \<in> set ads"
  obtains post where "ads = takeWhile (\<lambda>y. y \<noteq> Some x) ads @ Some x # post"
proof -
  have "dropWhile (\<lambda>y. y \<noteq> Some x) ads \<noteq> []" using assms by (auto simp: dropWhile_eq_Nil_conv)
  then obtain y post where y: "dropWhile (\<lambda>y. y \<noteq> Some x) ads = y # post" by (cases "dropWhile (\<lambda>y. y \<noteq> Some x) ads") auto
  then have "y = Some x" using hd_dropWhile [of "\<lambda>y. y \<noteq> Some x" ads] by simp
  then show thesis using that y takeWhile_dropWhile_id [of "\<lambda>y. y \<noteq> Some x" ads] by metis
qed

text \<open>The position is counted among the slots with an address only, and removed from the list of all slots.\<close>

lemma use_address_split:
  assumes "\<forall>y \<in> set pre. y \<noteq> Some x"
  shows "use_address (pre @ Some x # post) (Some x) = vec_remove (pre @ Some x # post) (length (filter (\<lambda>y. y \<noteq> None) pre))"
  using position_append [of "filter (\<lambda>y. y \<noteq> None) pre" "\<lambda>y. y = Some x" "Some x # filter (\<lambda>y. y \<noteq> None) post"] assms
  by (simp add: use_address_def)

lemma use_address_OkD:
  assumes "use_address ads (Some x) = Ok ads'"
  obtains post where "ads = takeWhile (\<lambda>y. y \<noteq> Some x) ads @ Some x # post"
    "vec_remove ads (length (filter (\<lambda>y. y \<noteq> None) (takeWhile (\<lambda>y. y \<noteq> Some x) ads))) = (Ok ads' :: (system_error, _) result)"
proof -
  have "Some x \<in> set ads" using assms
    by (auto simp: use_address_def split: option.splits dest!: position_Some) (metis filter_is_subset nth_mem subsetD)
  then obtain post where post: "ads = takeWhile (\<lambda>y. y \<noteq> Some x) ads @ Some x # post" by (rule split_address)
  have "\<forall>y \<in> set (takeWhile (\<lambda>y. y \<noteq> Some x) ads). y \<noteq> Some x" by (auto dest: set_takeWhileD)
  from use_address_split [OF this, of post] show thesis using that post assms by simp
qed

lemma use_address_subset: "use_address ads a = Ok ads' \<Longrightarrow> set ads' \<subseteq> set ads \<and> (a = None \<or> a \<in> set ads)"
proof (cases a)
  case (Some x)
  assume "use_address ads a = Ok ads'"
  from this [unfolded Some] show ?thesis unfolding Some
    by (rule use_address_OkD) (auto simp: vec_remove_def dest: in_set_takeD in_set_dropD split: if_splits, metis in_set_conv_decomp)
qed (simp add: use_address_def)

lemma use_address_mset:
  assumes "use_address ads a = Ok ads'" "None \<notin> set ads"
  shows "mset ads = mset (filter (\<lambda>x. x \<noteq> None) [a]) + mset ads'"
proof (cases a)
  case (Some x)
  let ?pre = "takeWhile (\<lambda>y. y \<noteq> Some x) ads"
  obtain post where post: "ads = ?pre @ Some x # post"
    "vec_remove ads (length (filter (\<lambda>y. y \<noteq> None) ?pre)) = (Ok ads' :: (system_error, _) result)"
    by (rule use_address_OkD [OF assms(1) [unfolded Some]])
  have "filter (\<lambda>y. y \<noteq> None) ?pre = ?pre" using assms(2) by (intro filter_addresses) (auto dest: set_takeWhileD)
  then have "ads' = take (length ?pre) ads @ drop (Suc (length ?pre)) ads" using post(2) by (simp add: vec_remove_def split: if_splits)
  then have "ads' = ?pre @ post" by (subst (asm) (1 2) post(1)) simp
  then show ?thesis using Some by (subst post(1)) simp
qed (use assms in \<open>simp add: use_address_def\<close>)


section \<open>All outputs\<close>

lemma use_addresses:
  assumes "try_fold use_address ads as = Ok ads'"
  shows "set ads' \<subseteq> set ads \<and> (\<forall>a \<in> set as. a = None \<or> a \<in> set ads) \<and>
    (None \<notin> set ads \<longrightarrow> mset ads = mset (filter (\<lambda>x. x \<noteq> None) as) + mset ads')"
  using assms
proof (induction as arbitrary: ads)
  case (Cons a as)
  then obtain ads1 where 1: "use_address ads a = Ok ads1" "try_fold use_address ads1 as = Ok ads'" by (auto elim!: and_then_OkE)
  note sub = use_address_subset [OF 1(1)] and IH = Cons.IH [OF 1(2)]
  have "mset ads = mset (filter (\<lambda>x. x \<noteq> None) (a # as)) + mset ads'" if n: "None \<notin> set ads"
  proof -
    have "None \<notin> set ads1" using n sub by blast
    then have "mset ads1 = mset (filter (\<lambda>x. x \<noteq> None) as) + mset ads'" using IH by blast
    then show ?thesis using use_address_mset [OF 1(1) n] by auto
  qed
  then show ?case using sub IH by auto
qed simp

lemma select_addresses: "select_output_tree S l ra invoking st i = Ok st1 \<Longrightarrow> out_addresses st1 = out_addresses st"
  by (auto simp: select_output_tree_def split: if_splits elim!: and_then_OkE)

lemma append_outputs_addresses:
  "try_fold (append_output S l ra invoking) st xs = Ok st' \<Longrightarrow>
     try_fold use_address (out_addresses st) (map (\<lambda>x. ca_address (oca_compressed_account (snd x))) xs) = Ok (out_addresses st')"
proof (induction xs arbitrary: st)
  case (Cons x xs)
  obtain n a where x: "x = (n, a)" by fastforce
  from Cons.prems obtain st1 where 1: "append_output S l ra invoking st (n, a) = Ok st1"
    "try_fold (append_output S l ra invoking) st1 xs = Ok st'" by (auto simp: x elim!: and_then_OkE)
  from 1(1) have "use_address (out_addresses st) (ca_address (oca_compressed_account a)) = Ok (out_addresses st1)"
    by (rule append_output_OkD) (simp add: select_addresses)
  then show ?case using Cons.IH [OF 1(2)] by (simp add: x)
qed simp

text \<open>
  C14.  Every address of an output is one of the given addresses, those of the inputs and the new ones.  If all of these
  are set, each is given to as many outputs as it occurs: the addresses of the outputs and those that are left are
  together the given ones.
\<close>

theorem output_addresses_given:
  assumes "create_cpi_accounts_and_instruction_data S l outs indices hashes ads invoking hp ra = Ok st"
  shows "(\<forall>a \<in> set outs. ca_address (oca_compressed_account a) \<noteq> None \<longrightarrow> ca_address (oca_compressed_account a) \<in> set ads) \<and>
    (None \<notin> set ads \<longrightarrow>
       mset ads = mset (filter (\<lambda>x. x \<noteq> None) (map (\<lambda>a. ca_address (oca_compressed_account a)) outs)) + mset (out_addresses st))"
proof -
  have "map (\<lambda>x. ca_address (oca_compressed_account (snd x))) (enumerate 0 outs) = map (\<lambda>a. ca_address (oca_compressed_account a)) outs"
    by (rule nth_equalityI) (simp_all add: nth_enumerate_eq)
  then have "try_fold use_address ads (map (\<lambda>a. ca_address (oca_compressed_account a)) outs) = Ok (out_addresses st)"
    using assms append_outputs_addresses [of S l ra invoking _ "enumerate 0 outs" st]
    by (fastforce simp: create_cpi_accounts_and_instruction_data_def split: if_splits)
  from use_addresses [OF this] show ?thesis by auto
qed

definition sample_addressed :: OutputCompressedAccountWithPackedContext where
  "sample_addressed = (sample_output 2)\<lparr>oca_compressed_account := (sample_account 2)\<lparr>ca_address := Some [1]\<rparr>\<rparr>"

theorem output_addresses_given_witness:
  "\<exists>t s st. create_cpi_accounts_and_instruction_data sample_system (sample_system_ledger t s) [sample_addressed] [0] [[]] [Some [1], Some [2]]
       None [] [[1], [2]] = Ok st \<and> mset [Some [1], Some [2]] = {#Some [1]#} + mset (out_addresses st)"
proof -
  obtain t and s :: HashSet where t: "sample_new_tree t" using sample_fresh_exists by blast
  obtain st where st: "create_cpi_accounts_and_instruction_data sample_system (sample_system_ledger t s) [sample_addressed] [0] [[]]
      [Some [1], Some [2]] None [] [[1], [2]] = Ok st"
    by (simp add: create_cpi_accounts_and_instruction_data_def append_output_def select_output_tree_def sample_addressed_def
        sample_output_def index_def sample_view [OF sample_system_accounts(1) t] add_u8_def use_address_def vec_remove_def
        sample_account_def add_u32_def write_at_def cached_hash_def CompressedAccount_hash_with_hashed_values_def
        sample_system_hash sub_u64_eval Let_def)
  from output_addresses_given [OF st] have "mset [Some [1], Some [2]] = {#Some [1]#} + mset (out_addresses st)"
    by (simp add: sample_addressed_def)
  then show ?thesis using st by blast
qed

text \<open>
  C15.  An address is used up by an output exactly when every slot before it has an address too: an input without an
  address before it makes \<open>use_address\<close> remove another slot, so that a further output gets the same address.
\<close>

theorem address_used_up_iff:
  assumes "distinct (filter (\<lambda>y. y \<noteq> None) ads)" "use_address ads (Some x) = Ok ads'"
  shows "Some x \<notin> set ads' \<longleftrightarrow> None \<notin> set (takeWhile (\<lambda>y. y \<noteq> Some x) ads)"
proof -
  let ?pre = "takeWhile (\<lambda>y. y \<noteq> Some x) ads" and ?n = "length (filter (\<lambda>y. y \<noteq> None) (takeWhile (\<lambda>y. y \<noteq> Some x) ads))"
  obtain post where post: "ads = ?pre @ Some x # post" "vec_remove ads ?n = (Ok ads' :: (system_error, _) result)"
    by (rule use_address_OkD [OF assms(2)])
  have ads': "ads' = take ?n ads @ drop (Suc ?n) ads" using post(2) by (simp add: vec_remove_def split: if_splits)
  show ?thesis
  proof (cases "None \<in> set ?pre")
    case True
    then have "?n < length ?pre" by (intro length_filter_less) auto
    then have "Some x \<in> set (drop (Suc ?n) ads)" by (subst post(1)) simp
    then show ?thesis using True ads' by simp
  next
    case False
    then have "filter (\<lambda>y. y \<noteq> None) ?pre = ?pre" by (rule filter_addresses)
    then have "ads' = take (length ?pre) ads @ drop (Suc (length ?pre)) ads" using ads' by simp
    then have "ads' = ?pre @ post" by (subst (asm) (1 2) post(1)) simp
    moreover have "Some x \<notin> set post" using assms(1) by (subst (asm) post(1)) auto
    ultimately show ?thesis using False by (auto dest: set_takeWhileD)
  qed
qed

theorem address_used_up_iff_witness:
  "use_address [None, Some [1]] (Some [1]) = Ok [Some [1]] \<and> use_address [Some [1]] (Some [1]) = Ok [] \<and>
   None \<in> set (takeWhile (\<lambda>y. y \<noteq> Some [1 :: byte]) [None, Some [1]])"
  using address_used_up_iff [of "[None, Some [1]]" "[1]" "[Some [1]]"] by (simp add: use_address_def vec_remove_def)

end
