(* ===== verification/System_Safety.thy ===== *)
theory System_Safety
  imports System_Hashing
begin

text \<open>
  What the system program guarantees about the accounts of a transaction: spent accounts are proved and nullified,
  created accounts are in their trees at the positions their hashes bind.
\<close>


section \<open>Changes of the ledger\<close>

lemma changes_data: "data_of l' = data_of l \<Longrightarrow> changes E l l'"
  by (rule single_change) (rule change_lamports)

lemma process_compression_data:
  assumes "transfer_law (sys_env S)" "process_compression S l inputs ctx = Ok l1"
  shows "data_of l1 = data_of l"
proof -
  have t: "system_transfer (sys_env S) l k k' n = Ok l1 \<Longrightarrow> data_of l1 = data_of l" for k k' n
    using assms(1) unfolding transfer_law_def by (metis data_of_simps(3))
  show ?thesis
    using assms(2) t unfolding process_compression_def compress_or_decompress_lamports_def compress_lamports_def
      decompress_lamports_def sol_pool_transfer_def transfer_lamports_cpi_def
    by (auto split: if_splits elim!: and_then_OkE)
qed

lemma pay_network_fee_data:
  assumes "transfer_law (sys_env S)" "pay_network_fee S l ctx fees = Ok l1"
  shows "data_of l1 = data_of l"
  using assms transfer_cpi_data [OF assms(1)] by (auto simp: pay_network_fee_def split: option.splits elim!: and_then_OkE)

text \<open>Inserting into queues leaves everything but the queues of the given type.\<close>

lemma insert_keeps_data:
  assumes "transfer_law E" "order_law E" "process_insert_into_queues E l ctx es qt = Ok l'"
    and "\<And>q s. data_of l' k = QueueAccount q s \<Longrightarrow> qm_queue_type q \<noteq> QueueType_u64 qt"
  shows "data_of l k = data_of l' k"
proof -
  note e = insert_into_queues_effect [OF assms(1-3)]
  have "k \<notin> (fst \<circ> fst) ` set (queue_inputs ctx es)" using e assms(4) by fastforce
  then show ?thesis using e by metis
qed

lemma process_new_addresses_OkD:
  assumes "process_new_addresses S l inputs ctx invoking addresses = Ok (l', new_addresses, roots, addresses')"
    and "idi_new_address_params inputs \<noteq> []"
  obtains l1 fees where "derive_new_addresses (sys_env S) (idi_new_address_params inputs)
       (length (idi_input_compressed_accounts_with_merkle_context inputs)) (ii_remaining_accounts ctx) addresses
       (replicate (length (idi_new_address_params inputs)) (replicate 32 0)) = Ok (addresses', new_addresses)"
    "insert_addresses_into_address_merkle_tree_queue S l ctx new_addresses (idi_new_address_params inputs) invoking = Ok (l1, fees)"
    "pay_network_fee S l1 ctx fees = Ok l'"
    "fetch_roots_address_merkle_tree S l' (idi_new_address_params inputs) (ii_remaining_accounts ctx) = Ok roots"
  using assms unfolding process_new_addresses_def by (auto simp: Let_def elim!: and_then_OkE)

lemma process_nullifiers_OkD:
  assumes "process_nullifiers S l inputs ctx invoking hashes = Ok l'" "idi_input_compressed_accounts_with_merkle_context inputs \<noteq> []"
  obtains l1 fees where "insert_nullifiers S l inputs ctx hashes invoking = Ok (l1, fees)" "pay_network_fee S l1 ctx fees = Ok l'"
  using assms unfolding process_nullifiers_def by (auto elim!: and_then_OkE)

lemma process_new_addresses_effect:
  assumes "transfer_law (sys_env S)" "order_law (sys_env S)"
    and "process_new_addresses S l inputs ctx invoking addresses = Ok (l', new_addresses, roots, addresses')"
  shows "changes (sys_env S) l l'"
    "(\<And>q s. data_of l' k = QueueAccount q s \<Longrightarrow> qm_queue_type q \<noteq> QueueType_u64 AddressQueue) \<Longrightarrow> data_of l k = data_of l' k"
proof -
  have "changes (sys_env S) l l' \<and>
    ((\<forall>q s. data_of l' k = QueueAccount q s \<longrightarrow> qm_queue_type q \<noteq> QueueType_u64 AddressQueue) \<longrightarrow> data_of l k = data_of l' k)"
  proof (cases "idi_new_address_params inputs = []")
    case False
    obtain l1 fees where 1: "insert_addresses_into_address_merkle_tree_queue S l ctx new_addresses (idi_new_address_params inputs) invoking = Ok (l1, fees)"
      "pay_network_fee S l1 ctx fees = Ok l'" by (rule process_new_addresses_OkD [OF assms(3) False])
    note D = insert_new_addresses_OkD [OF 1(1)]
    note f = pay_network_fee_data [OF assms(1) 1(2)]
    show ?thesis
      using rtranclp_trans [OF insert_changes [OF assms(1,2) D(1)] changes_data [OF f]] insert_keeps_data [OF assms(1,2) D(1)]
      unfolding f by blast
  qed (use assms(3) in \<open>simp add: process_new_addresses_def\<close>)
  then show "changes (sys_env S) l l'"
    "(\<And>q s. data_of l' k = QueueAccount q s \<Longrightarrow> qm_queue_type q \<noteq> QueueType_u64 AddressQueue) \<Longrightarrow> data_of l k = data_of l' k"
    by auto
qed

lemma process_nullifiers_effect:
  assumes "transfer_law (sys_env S)" "order_law (sys_env S)" "process_nullifiers S l inputs ctx invoking hashes = Ok l'"
  shows "changes (sys_env S) l l'" "(\<And>q s. data_of l' k \<noteq> QueueAccount q s) \<Longrightarrow> data_of l k = data_of l' k"
proof -
  have "changes (sys_env S) l l' \<and> ((\<forall>q s. data_of l' k \<noteq> QueueAccount q s) \<longrightarrow> data_of l k = data_of l' k)"
  proof (cases "idi_input_compressed_accounts_with_merkle_context inputs = []")
    case False
    obtain l1 fees where 1: "insert_nullifiers S l inputs ctx hashes invoking = Ok (l1, fees)" "pay_network_fee S l1 ctx fees = Ok l'"
      by (rule process_nullifiers_OkD [OF assms(3) False])
    note D = insert_nullifiers_OkD [OF 1(1)]
    note f = pay_network_fee_data [OF assms(1) 1(2)]
    show ?thesis
      using rtranclp_trans [OF insert_changes [OF assms(1,2) D(1)] changes_data [OF f]] insert_keeps_data [OF assms(1,2) D(1)]
      unfolding f by blast
  qed (use assms(3) in \<open>simp add: process_nullifiers_def\<close>)
  then show "changes (sys_env S) l l'" "(\<And>q s. data_of l' k \<noteq> QueueAccount q s) \<Longrightarrow> data_of l k = data_of l' k" by auto
qed

lemma process_proof_effect:
  assumes "transfer_law (sys_env S)" "order_law (sys_env S)"
    and "process_proof S l inputs ctx invoking capacity = Ok (l', hashes, addresses, hashed_pubkeys)"
  shows "changes (sys_env S) l l'" "(\<And>q s. data_of l' k \<noteq> QueueAccount q s) \<Longrightarrow> data_of l k = data_of l' k"
proof -
  have "changes (sys_env S) l l' \<and> ((\<forall>q s. data_of l' k \<noteq> QueueAccount q s) \<longrightarrow> data_of l k = data_of l' k)"
  proof (cases "idi_input_compressed_accounts_with_merkle_context inputs \<noteq> [] \<or> idi_new_address_params inputs \<noteq> []")
    case True
    obtain l1 addresses0 na nr where 1: "process_new_addresses S l inputs ctx invoking addresses0 = Ok (l1, na, nr, addresses)"
      "process_nullifiers S l1 inputs ctx invoking hashes = Ok l'" by (rule process_proof_OkD [OF assms(3) True])
    note a = process_new_addresses_effect [OF assms(1,2) 1(1)] and b = process_nullifiers_effect [OF assms(1,2) 1(2)]
    show ?thesis using a(2) [of k] b(2) [of k] rtranclp_trans [OF a(1) b(1)] by auto
  qed (use assms(3) in \<open>auto simp: process_proof_def Let_def split: if_splits\<close>)
  then show "changes (sys_env S) l l'" "(\<And>q s. data_of l' k \<noteq> QueueAccount q s) \<Longrightarrow> data_of l k = data_of l' k" by auto
qed

lemma process_outputs_changes:
  assumes "transfer_law (sys_env S)"
    and "process_outputs S l inputs ctx invoking capacity addresses hashed_pubkeys = Ok (l', indices, hashes, seqs)"
  shows "changes (sys_env S) l l'"
proof (cases "idi_output_compressed_accounts inputs = []")
  case False
  obtain st :: OutputState and leaves where "process_append_leaves_to_merkle_trees (sys_env S) l (append_context ctx st) leaves = Ok l'"
    by (rule process_outputs_OkD [OF assms(2) False])
  then show ?thesis by (rule append_changes [OF assms(1)])
qed (use assms(2) in \<open>simp add: process_outputs_def\<close>)

lemma process_changes:
  assumes "transfer_law (sys_env S)" "order_law (sys_env S)" "process S l inputs invoking ctx cpi_inputs = Ok (l', event)"
  shows "changes (sys_env S) l l'"
proof (rule process_OkD [OF assms(3)])
  fix l1 l2 hashes addresses hashed_pubkeys indices output_hashes seqs capacity
  assume "process_compression S l inputs ctx = Ok l1"
    and "process_proof S l1 inputs ctx invoking capacity = Ok (l2, hashes, addresses, hashed_pubkeys)"
    and "process_outputs S l2 inputs ctx invoking capacity addresses hashed_pubkeys = Ok (l', indices, output_hashes, seqs)"
  then show ?thesis
    using changes_data [OF process_compression_data [OF assms(1)]] process_proof_effect(1) [OF assms(1,2)]
      process_outputs_changes [OF assms(1)] rtranclp_trans by metis
qed



section \<open>Created accounts\<close>

text \<open>\<open>Hasher::hashv\<close> returns an array of 32 bytes.\<close>

definition hash32 :: "Hasher \<Rightarrow> bool" where
  "hash32 H \<longleftrightarrow> (\<forall>xs h. hashv H xs = Ok h \<longrightarrow> length h = 32)"

lemma hash32_account: "hash32 (poseidon E) \<Longrightarrow> CompressedAccount_hash E a k i = Ok h \<Longrightarrow> length h = 32"
  by (auto simp: hash32_def CompressedAccount_hash_def CompressedAccount_hash_with_hashed_values_def elim!: and_then_OkE)

lemma filter_nth_take:
  assumes "j < length xs" "P (xs ! j)"
  shows "length (filter P (take j xs)) < length (filter P xs)" "filter P xs ! length (filter P (take j xs)) = xs ! j"
proof -
  have "filter P xs = filter P (take j xs) @ xs ! j # filter P (drop (Suc j) xs)"
    using assms id_take_nth_drop [OF assms(1)] by (metis filter.simps(2) filter_append)
  then show "length (filter P (take j xs)) < length (filter P xs)" "filter P xs ! length (filter P (take j xs)) = xs ! j"
    by simp_all
qed

lemma earlier_leaves:
  assumes "distinct accounts" "\<forall>j < length outs. leaf_entry accounts (L ! j) (output_tree ra (outs ! j)) (hs ! j)"
    and "length L = length outs" "j < length outs" "p < length accounts"
  shows "length (filter (\<lambda>x. unat (fst x) = p) (take j L)) = earlier ra outs j (accounts ! p)"
proof -
  have eq: "unat (fst (L ! i)) = p \<longleftrightarrow> output_tree ra (outs ! i) = accounts ! p" if "i < length outs" for i
    using assms(1,2,5) that unfolding leaf_entry_def by (metis nth_eq_iff_index_eq)
  have "{i. i < j \<and> unat (fst (take j L ! i)) = p} = {i. i < j \<and> output_tree ra (take j outs ! i) = accounts ! p}"
    using assms(4) by (intro Collect_cong conj_cong refl) (simp add: eq)
  then show ?thesis using assms(3,4) by (simp add: earlier_def length_filter_conv_card)
qed

lemma append_batch_rep:
  assumes "zero_chain H" "cmt_append_batch h H t b = Ok (t', ci, sn)" "cmt_rep H h t ls"
  shows "cmt_rep H h t' (ls @ b)"
  using append_batch_spec [OF assms(1,3) append_batch_Ok [OF assms(2,3)]] assms(2) by (auto simp: split: if_splits)

text \<open>One output after the leaves have been appended.\<close>

definition output_stored ::
  "SystemEnv \<Rightarrow> ledger \<Rightarrow> ledger \<Rightarrow> pubkey \<Rightarrow> pubkey option \<Rightarrow> nat \<Rightarrow> bytes \<Rightarrow> bool" where
  "output_stored S l l' k invoking i h \<longleftrightarrow> (\<exists>m t t'. acc_data (l k) = StateMerkleTreeAccount m t \<and> may_write m invoking \<and>
     acc_data (l' k) = StateMerkleTreeAccount m t' \<and>
     (\<forall>ls. cmt_rep (poseidon (sys_env S)) 26 t ls \<longrightarrow>
        (\<exists>new. cmt_rep (poseidon (sys_env S)) 26 t' (ls @ new) \<and> length ls \<le> i \<and> i < length (ls @ new) \<and> (ls @ new) ! i = h)))"

lemma process_outputs_lengths:
  assumes "process_outputs S l inputs ctx invoking capacity addresses hp = Ok (l', indices, hashes, seqs)" "hashed_ok (sys_env S) hp"
  shows "length indices = length (idi_output_compressed_accounts inputs)"
proof (cases "idi_output_compressed_accounts inputs = []")
  case False
  let ?n = "length (idi_output_compressed_accounts inputs)"
  obtain st where st: "create_cpi_accounts_and_instruction_data S l (idi_output_compressed_accounts inputs) (replicate ?n 0)
       (replicate ?n (replicate 32 0)) addresses invoking hp (ii_remaining_accounts ctx) = Ok st" "indices = out_indices st"
    by (rule process_outputs_OkD [OF assms(1) False])
  show ?thesis by (rule create_outputs_OkD [OF st(1) assms(2)]) (simp_all add: st(2))
qed (use assms(1) in \<open>simp add: process_outputs_def\<close>)

lemma event_bound:
  assumes "emit_state_transition_event S inputs ctx hs hashes indices seqs = Ok event"
  shows "length indices < 2 ^ 32" "ev_output_leaf_indices event = indices" "ev_output_compressed_account_hashes event = hashes"
    "ev_input_compressed_account_hashes event = hs"
proof -
  have "length (write_vec (le_bytes 4) indices) \<le> 10240"
    and *: "ev_output_leaf_indices event = indices" "ev_output_compressed_account_hashes event = hashes"
      "ev_input_compressed_account_hashes event = hs"
    using assms by (auto simp: emit_state_transition_event_def man_serialize_def Let_def split: if_splits elim!: and_then_OkE)
  moreover have "length (concat (map (le_bytes 4) indices)) = 4 * length indices" by (induction indices) (simp_all add: le_bytes_def)
  ultimately show "length indices < 2 ^ 32" by (simp add: write_vec_def)
  show "ev_output_leaf_indices event = indices" "ev_output_compressed_account_hashes event = hashes"
    "ev_input_compressed_account_hashes event = hs" using * .
qed

lemma process_outputs_stored:
  assumes "transfer_law (sys_env S)" "zero_chain (poseidon (sys_env S))" "hash32 (poseidon (sys_env S))" "decode_law S"
    and "process_outputs S l inputs ctx invoking capacity addresses hp = Ok (l', indices, hashes, seqs)"
    and "hashed_ok (sys_env S) hp" "length (idi_output_compressed_accounts inputs) < 2 ^ 32"
  defines "outs \<equiv> idi_output_compressed_accounts inputs"
  shows "length hashes = length outs" "length indices = length outs"
    "j < length outs \<Longrightarrow> unat (oca_merkle_tree_index (outs ! j)) < length (ii_remaining_accounts ctx) \<and>
       CompressedAccount_hash (sys_env S) (oca_compressed_account (outs ! j)) (output_tree (ii_remaining_accounts ctx) (outs ! j))
         (indices ! j) = Ok (hashes ! j) \<and>
       output_stored S l l' (output_tree (ii_remaining_accounts ctx) (outs ! j)) invoking (indices ! j) (hashes ! j)"
proof -
  let ?ra = "ii_remaining_accounts ctx" and ?H = "poseidon (sys_env S)"
  have *: "length hashes = length outs \<and> length indices = length outs \<and> (\<forall>j < length outs.
       unat (oca_merkle_tree_index (outs ! j)) < length ?ra \<and>
       CompressedAccount_hash (sys_env S) (oca_compressed_account (outs ! j)) (output_tree ?ra (outs ! j)) (indices ! j) = Ok (hashes ! j) \<and>
       output_stored S l l' (output_tree ?ra (outs ! j)) invoking (indices ! j) (hashes ! j))"
  proof (cases "outs = []")
    case True
    then show ?thesis using assms(5) by (simp add: process_outputs_def outs_def)
  next
    case False
    obtain st leaves where st: "create_cpi_accounts_and_instruction_data S l outs (replicate (length outs) 0)
       (replicate (length outs) (replicate 32 0)) addresses invoking hp ?ra = Ok st"
      "decode_append_leaves S (out_instruction_data st) = Some leaves"
      "process_append_leaves_to_merkle_trees (sys_env S) l (append_context ctx st) leaves = Ok l'"
      "indices = out_indices st" "hashes = out_hashes st"
      by (rule process_outputs_OkD [OF assms(5) False [unfolded outs_def]]) (simp add: outs_def)
    obtain L where L: "out_instruction_data st = append_leaves_data L" "length L = length outs"
      "\<forall>j < length outs. leaf_entry (out_accounts st) (L ! j) (output_tree ?ra (outs ! j)) (out_hashes st ! j)"
      "\<forall>j < length outs. output_ok S l ?ra outs j (out_indices st ! j) (out_hashes st ! j)"
      "distinct (out_accounts st)" "\<forall>k \<in> set (out_accounts st). \<exists>m t. acc_data (l k) = StateMerkleTreeAccount m t \<and> may_write m invoking"
      "length (out_hashes st) = length outs" "length (out_indices st) = length outs"
      by (rule create_outputs_OkD [OF st(1) assms(6)]) simp_all
    have "\<forall>x \<in> set L. length (snd x) = 32"
      using L(2-4) hash32_account [OF assms(3)] by (fastforce simp: in_set_conv_nth leaf_entry_def output_ok_def)
    then have leaves: "leaves = L" using st(2) assms(4,7) L(1,2) unfolding decode_law_def outs_def by auto
    have acc: "al_remaining_accounts (append_context ctx st) = out_accounts st" by (simp add: append_context_def)
    note e = append_leaves_effect [OF assms(1) st(3), unfolded acc, OF L(5)]
    have "output_stored S l l' (output_tree ?ra (outs ! j)) invoking (indices ! j) (hashes ! j)" if j: "j < length outs" for j
    proof -
      define p where "p = unat (fst (L ! j))"
      let ?k = "output_tree ?ra (outs ! j)"
      have p: "p < length (out_accounts st)" "out_accounts st ! p = ?k" "snd (L ! j) = out_hashes st ! j"
        using L(3) j unfolding leaf_entry_def p_def by auto
      obtain m t t' ci sn where t: "data_of l ?k = StateMerkleTreeAccount m t"
        "cmt_append_batch 26 ?H t (map snd (leaves_for L p)) = Ok (t', ci, sn)" "data_of l' ?k = StateMerkleTreeAccount m t'"
        using e p unfolding leaves by metis
      have w: "may_write m invoking" using L(6) p t(1) nth_mem [OF p(1)] by (auto simp: data_of_def)
      have i: "indices ! j = cmt_next_index t + length (filter (\<lambda>x. unat (fst x) = p) (take j L))"
        using L(4) j t(1) earlier_leaves [OF L(5,3,2) j p(1)] p(2) unfolding st(4)
        by (simp add: output_ok_def next_leaf_def data_of_def)
      have "\<exists>new. cmt_rep ?H 26 t' (ls @ new) \<and> length ls \<le> indices ! j \<and> indices ! j < length (ls @ new) \<and> (ls @ new) ! (indices ! j) = hashes ! j"
        if rep: "cmt_rep ?H 26 t ls" for ls
      proof -
        have "cmt_next_index t = length ls" using rep by (simp add: cmt_rep_def cmt_base_def)
        moreover have "j < length L" "unat (fst (L ! j)) = p" using j L(2) by (simp_all add: p_def)
        note filter_nth_take [of j L "\<lambda>x. unat (fst x) = p", OF this]
        ultimately show ?thesis using append_batch_rep [OF assms(2) t(2) rep] i p(3) st(5)
          by (intro exI [of _ "map snd (leaves_for L p)"]) (simp add: nth_append leaves_for_def)
      qed
      then show ?thesis using t(1,3) w unfolding output_stored_def data_of_def by blast
    qed
    then show ?thesis using L(4,7,8) unfolding st(4,5) output_ok_def by auto
  qed
  then show "length hashes = length outs" "length indices = length outs"
    "j < length outs \<Longrightarrow> unat (oca_merkle_tree_index (outs ! j)) < length ?ra \<and>
       CompressedAccount_hash (sys_env S) (oca_compressed_account (outs ! j)) (output_tree ?ra (outs ! j)) (indices ! j) = Ok (hashes ! j) \<and>
       output_stored S l l' (output_tree ?ra (outs ! j)) invoking (indices ! j) (hashes ! j)" by blast+
qed



section \<open>Spent accounts\<close>

lemma append_keeps_queues:
  assumes "transfer_law E" "process_append_leaves_to_merkle_trees E l ctx leaves = Ok l'" "data_of l k = QueueAccount q s"
  shows "data_of l' k = QueueAccount q s"
proof -
  obtain r c where fold: "try_fold (append_to_tree E ctx r leaves) (l, 0) [0..<length (al_remaining_accounts ctx)] = Ok (l', c)"
    using assms(2) by (auto simp: process_append_leaves_to_merkle_trees_def batch_append_leaves_def split: if_splits
        elim!: and_then_OkE)
  have "data_of (fst (l', c)) k = QueueAccount q s"
    using fold
  proof (rule try_fold_invariant)
    fix x i x'
    assume x: "data_of (fst x) k = QueueAccount q s" and step: "append_to_tree E ctx r leaves x i = Ok x'"
    obtain l1 c1 l2 c2 where e: "x = (l1, c1)" "x' = (l2, c2)" by (metis surj_pair)
    show "data_of (fst x') k = QueueAccount q s"
      by (rule append_to_tree_OkD [OF assms(1) step [unfolded e]]) (use x e in auto)
  qed (simp add: assms(3))
  then show ?thesis by simp
qed

lemma process_outputs_queues:
  assumes "transfer_law (sys_env S)"
    and "process_outputs S l inputs ctx invoking capacity addresses hashed_pubkeys = Ok (l', indices, hashes, seqs)"
    and "data_of l k = QueueAccount q s"
  shows "data_of l' k = QueueAccount q s"
proof (cases "idi_output_compressed_accounts inputs = []")
  case False
  obtain st :: OutputState and leaves where "process_append_leaves_to_merkle_trees (sys_env S) l (append_context ctx st) leaves = Ok l'"
    by (rule process_outputs_OkD [OF assms(2) False])
  from append_keeps_queues [OF assms(1) this assms(3)] show ?thesis .
qed (use assms in \<open>simp add: process_outputs_def\<close>)

lemma process_inputs_OkD:
  assumes "process_inputs S l inputs ctx capacity = Ok (hashes, roots, addresses, hp)"
  defines "ins \<equiv> idi_input_compressed_accounts_with_merkle_context inputs"
  shows "length hashes = length ins" "length roots = length ins"
    "j < length ins \<Longrightarrow> input_hash (sys_env S) (ii_remaining_accounts ctx) (ins ! j) = Ok (hashes ! j)"
    "j < length ins \<Longrightarrow> \<exists>t. view_state_tree S l (input_tree ctx (ins ! j)) = Ok t \<and>
       CyclicBoundedVec_index (cmt_roots t) (pca_root_index (ins ! j)) = (Ok (roots ! j) :: (system_error, _) result)"
    "addresses = map (\<lambda>a. ca_address (pca_compressed_account a)) ins @ replicate (length (idi_new_address_params inputs)) None"
    "hashed_ok (sys_env S) hp" "distinct (map fst hp)"
    "set (map fst hp) \<subseteq> set (ii_remaining_accounts ctx) \<union> ca_owner ` pca_compressed_account ` set ins"
proof -
  let ?ra = "ii_remaining_accounts ctx" and ?m = "length ins + length (idi_new_address_params inputs)"
  have "length hashes = length ins \<and> length roots = length ins \<and>
    (\<forall>j < length ins. input_hash (sys_env S) ?ra (ins ! j) = Ok (hashes ! j)) \<and>
    (\<forall>j < length ins. \<exists>t. view_state_tree S l (input_tree ctx (ins ! j)) = Ok t \<and>
       CyclicBoundedVec_index (cmt_roots t) (pca_root_index (ins ! j)) = (Ok (roots ! j) :: (system_error, _) result)) \<and>
    addresses = map (\<lambda>a. ca_address (pca_compressed_account a)) ins @ replicate (length (idi_new_address_params inputs)) None \<and>
    hashed_ok (sys_env S) hp \<and> distinct (map fst hp) \<and> set (map fst hp) \<subseteq> set ?ra \<union> ca_owner ` pca_compressed_account ` set ins"
  proof (cases "ins = []")
    case True
    then show ?thesis using assms(1) by (auto simp: process_inputs_def ins_def hashed_ok_def)
  next
    case False
    then have h: "hash_input_compressed_accounts (sys_env S) ?ra ins (replicate (length ins) (replicate 32 0))
        (replicate ?m None) [] = Ok (hashes, addresses, hp)"
      and r: "fetch_input_compressed_account_roots S l ins ?ra = Ok roots"
      using assms(1) unfolding process_inputs_def ins_def by (auto simp: Let_def split: if_splits elim!: and_then_OkE)
    have "length roots = length ins \<and> (\<forall>j < length ins. \<exists>t. view_state_tree S l (input_tree ctx (ins ! j)) = Ok t \<and>
       CyclicBoundedVec_index (cmt_roots t) (pca_root_index (ins ! j)) = (Ok (roots ! j) :: (system_error, _) result))"
      using r unfolding fetch_input_compressed_account_roots_def try_map_Ok list_all2_conv_all_nth
      by (fastforce simp: input_tree_def elim!: and_then_OkE)
    then show ?thesis using hash_inputs_OkD [OF h] by auto
  qed
  then show "length hashes = length ins" "length roots = length ins"
    "j < length ins \<Longrightarrow> input_hash (sys_env S) ?ra (ins ! j) = Ok (hashes ! j)"
    "j < length ins \<Longrightarrow> \<exists>t. view_state_tree S l (input_tree ctx (ins ! j)) = Ok t \<and>
       CyclicBoundedVec_index (cmt_roots t) (pca_root_index (ins ! j)) = (Ok (roots ! j) :: (system_error, _) result)"
    "addresses = map (\<lambda>a. ca_address (pca_compressed_account a)) ins @ replicate (length (idi_new_address_params inputs)) None"
    "hashed_ok (sys_env S) hp" "distinct (map fst hp)" "set (map fst hp) \<subseteq> set ?ra \<union> ca_owner ` pca_compressed_account ` set ins"
    by blast+
qed


text \<open>
  What the program did for one input: its hash, the root it was checked against, and the insertion of all hashes
  \<open>es\<close> of the transaction that belong to its queue.
\<close>

definition input_elements ::
  "InvokeInstruction \<Rightarrow> PackedCompressedAccountWithMerkleContext list \<Rightarrow> bytes list \<Rightarrow> pubkey \<Rightarrow> bytes list" where
  "input_elements ctx ins hashes = elements_for (zip (map (\<lambda>a. (input_queue ctx a, input_tree ctx a)) ins) hashes)"

definition spent_input ::
  "SystemEnv \<Rightarrow> ledger \<Rightarrow> ledger \<Rightarrow> InvokeInstruction \<Rightarrow> pubkey option \<Rightarrow> bytes list \<Rightarrow> PackedCompressedAccountWithMerkleContext \<Rightarrow>
     bytes \<Rightarrow> bytes \<Rightarrow> bool" where
  "spent_input S l l' ctx invoking es a root h \<longleftrightarrow>
     input_hash (sys_env S) (ii_remaining_accounts ctx) a = Ok h \<and>
     (\<exists>m t q s s'. data_of l (input_tree ctx a) = StateMerkleTreeAccount m t \<and> may_write m invoking \<and>
        CyclicBoundedVec_index (cmt_roots t) (pca_root_index a) = (Ok root :: (system_error, _) result) \<and>
        data_of l (input_queue ctx a) = QueueAccount q s \<and> qm_queue_type q = QueueType_u64 NullifierQueue \<and>
        qm_associated_merkle_tree q = input_tree ctx a \<and>
        tree_sequence_number l (input_tree ctx a) = Ok (cmt_sequence_number t) \<and> insert_elements s (cmt_sequence_number t) es = Ok s' \<and>
        data_of l' (input_queue ctx a) = QueueAccount q s')"

lemma view_state_tree_account:
  "acc_data (l k) = StateMerkleTreeAccount m t \<Longrightarrow> view_state_tree S l k = Ok t' \<Longrightarrow> t' = t"
  by (auto simp: view_state_tree_def elim!: and_then_OkE dest!: state_zero_copy_Ok)

text \<open>The steps between the proof and the nullifiers do not touch trees and nullifier queues.\<close>

lemma process_proof_spent:
  assumes "transfer_law (sys_env S)" "order_law (sys_env S)"
    and "process_proof S l inputs ctx invoking capacity = Ok (l', hashes, addresses, hp)"
    and "idi_input_compressed_accounts_with_merkle_context inputs \<noteq> []"
  defines "ins \<equiv> idi_input_compressed_accounts_with_merkle_context inputs"
  shows "\<exists>roots address_roots new_addresses p. idi_proof inputs = Some p \<and> length roots = length ins \<and> length hashes = length ins \<and>
    verify_state_proof (groth16 S) roots hashes address_roots new_addresses p = Ok () \<and>
    (\<forall>j < length ins. spent_input S l l' ctx invoking (input_elements ctx ins hashes (input_queue ctx (ins ! j)))
       (ins ! j) (roots ! j) (hashes ! j))"
proof -
  have ne: "idi_input_compressed_accounts_with_merkle_context inputs \<noteq> [] \<or> idi_new_address_params inputs \<noteq> []" using assms(4) by simp
  obtain l1 roots addresses0 na nr p where i: "process_inputs S l inputs ctx capacity = Ok (hashes, roots, addresses0, hp)"
    and n: "process_new_addresses S l inputs ctx invoking addresses0 = Ok (l1, na, nr, addresses)"
    and p: "idi_proof inputs = Some p" "verify_state_proof (groth16 S) roots hashes nr na p = Ok ()"
    and nul: "process_nullifiers S l1 inputs ctx invoking hashes = Ok l'"
    by (rule process_proof_OkD [OF assms(3) ne])
  obtain l2 fees where in2: "insert_nullifiers S l1 inputs ctx hashes invoking = Ok (l2, fees)" "pay_network_fee S l2 ctx fees = Ok l'"
    by (rule process_nullifiers_OkD [OF nul assms(4)])
  note I = process_inputs_OkD [OF i, folded ins_def] and N = insert_nullifiers_OkD [OF in2(1), folded ins_def]
  note same = process_new_addresses_effect(2) [OF assms(1,2) n]
  have "spent_input S l l' ctx invoking (input_elements ctx ins hashes (input_queue ctx (ins ! j))) (ins ! j) (roots ! j) (hashes ! j)"
    if j: "j < length ins" for j
  proof -
    let ?a = "ins ! j"
    have a: "?a \<in> set ins" using j by simp
    obtain m t where t1: "data_of l1 (input_tree ctx ?a) = StateMerkleTreeAccount m t" "may_write m invoking"
      using N(2) a unfolding data_of_def by blast
    obtain t0 where t0: "view_state_tree S l (input_tree ctx ?a) = Ok t0"
      "CyclicBoundedVec_index (cmt_roots t0) (pca_root_index ?a) = (Ok (roots ! j) :: (system_error, _) result)"
      using I(4) [OF j] by blast
    have tl: "data_of l (input_tree ctx ?a) = StateMerkleTreeAccount m t" using same [of "input_tree ctx ?a"] t1(1) by simp
    then have "t0 = t" using view_state_tree_account t0(1) unfolding data_of_def by blast
    obtain q s s' k where q: "data_of l1 (input_queue ctx ?a) = QueueAccount q s" "data_of l2 (input_queue ctx ?a) = QueueAccount q s'"
      "qm_queue_type q = QueueType_u64 NullifierQueue" "qm_associated_merkle_tree q = input_tree ctx ?a"
      "tree_sequence_number l1 (input_tree ctx ?a) = Ok k"
      "insert_elements s k (elements_for (zip (map (\<lambda>a. (input_queue ctx a, input_tree ctx a)) ins) hashes) (input_queue ctx ?a)) = Ok s'"
      by (rule queues_of_items [OF assms(1,2) N(1) a])
    have k: "k = cmt_sequence_number t" using tree_sequence_number_state [OF t1(1) q(5)] .
    have sn: "tree_sequence_number l (input_tree ctx ?a) = Ok k"
      using q(5) tree_sequence_number_cong [of l "input_tree ctx ?a" l1] tl t1(1) by simp
    have "data_of l (input_queue ctx ?a) = QueueAccount q s"
      using same [of "input_queue ctx ?a"] q(1,3) by auto
    moreover have "data_of l' (input_queue ctx ?a) = QueueAccount q s'" using pay_network_fee_data [OF assms(1) in2(2)] q(2) by simp
    ultimately show ?thesis
      using I(3) [OF j] tl t1(2) t0(2) q(3,4,6) sn unfolding spent_input_def input_elements_def \<open>t0 = t\<close> k by blast
  qed
  then show ?thesis using p I(1,2) by blast
qed


lemma process_spent:
  assumes "transfer_law (sys_env S)" "order_law (sys_env S)" "process S l inputs invoking ctx cpi_inputs = Ok (l', event)"
    and "idi_input_compressed_accounts_with_merkle_context inputs \<noteq> []"
  defines "ins \<equiv> idi_input_compressed_accounts_with_merkle_context inputs" and "hashes \<equiv> ev_input_compressed_account_hashes event"
  shows "\<exists>roots address_roots new_addresses p. idi_proof inputs = Some p \<and> length roots = length ins \<and> length hashes = length ins \<and>
    verify_state_proof (groth16 S) roots hashes address_roots new_addresses p = Ok () \<and>
    (\<forall>j < length ins. spent_input S l l' ctx invoking (input_elements ctx ins hashes (input_queue ctx (ins ! j)))
       (ins ! j) (roots ! j) (hashes ! j))"
proof (rule process_OkD [OF assms(3)])
  fix l1 l2 hs addresses hashed_pubkeys indices output_hashes seqs capacity
  assume c: "process_compression S l inputs ctx = Ok l1"
    and p: "process_proof S l1 inputs ctx invoking capacity = Ok (l2, hs, addresses, hashed_pubkeys)"
    and o: "process_outputs S l2 inputs ctx invoking capacity addresses hashed_pubkeys = Ok (l', indices, output_hashes, seqs)"
    and e: "emit_state_transition_event S inputs ctx hs output_hashes indices seqs = Ok event"
  have hs: "hashes = hs" using event_bound(4) [OF e] by (simp add: hashes_def)
  note d = process_compression_data [OF assms(1) c]
  have "spent_input S l l' ctx invoking es a r h" if "spent_input S l1 l2 ctx invoking es a r h" for es a r h
    using that process_outputs_queues [OF assms(1) o] tree_sequence_number_cong [of l1 _ l, OF fun_cong [OF d]]
    unfolding spent_input_def d by metis
  then show ?thesis using process_proof_spent [OF assms(1,2) p assms(4)] unfolding hs ins_def by blast
qed

text \<open>The hash of an input is among the elements of its queue.\<close>

lemma input_elements_mem:
  assumes "length hashes = length ins" "j < length ins"
  shows "hashes ! j \<in> set (input_elements ctx ins hashes (input_queue ctx (ins ! j)))"
proof -
  let ?z = "zip (map (\<lambda>a. (input_queue ctx a, input_tree ctx a)) ins) hashes"
  have "j < length ?z" using assms by simp
  then have "?z ! j \<in> set ?z" by (rule nth_mem)
  moreover have "?z ! j = ((input_queue ctx (ins ! j), input_tree ctx (ins ! j)), hashes ! j)" using assms by simp
  ultimately show ?thesis unfolding input_elements_def elements_for_def by force
qed

lemma input_elements_distinct:
  assumes "length hashes = length ins" "i < j" "j < length ins" "input_queue ctx (ins ! i) = k" "input_queue ctx (ins ! j) = k"
    and "distinct (map f (input_elements ctx ins hashes k))"
  shows "f (hashes ! i) \<noteq> f (hashes ! j)"
proof -
  let ?z = "zip (map (\<lambda>a. (input_queue ctx a, input_tree ctx a)) ins) hashes" and ?P = "\<lambda>x. fst (fst x) = k"
  have z: "i < length ?z" "j < length ?z" "?P (?z ! i)" "?P (?z ! j)" "snd (?z ! i) = hashes ! i" "snd (?z ! j) = hashes ! j"
    using assms by auto
  define a b where "a = length (filter ?P (take i ?z))" and "b = length (filter ?P (take j ?z))"
  note I = filter_nth_take [of i ?z ?P, OF z(1,3), folded a_def] and J = filter_nth_take [of j ?z ?P, OF z(2,4), folded b_def]
  have "take i (take j ?z) = take i ?z" "i < length (take j ?z)" "?P (take j ?z ! i)" using assms(2) z by simp_all
  then have "a < b" using filter_nth_take(1) [of i "take j ?z" ?P] unfolding a_def b_def by simp
  let ?xs = "map f (input_elements ctx ins hashes k)"
  have "?xs ! a = f (hashes ! i)" "?xs ! b = f (hashes ! j)" "a < length ?xs" "b < length ?xs"
    using I J z(5,6) unfolding input_elements_def elements_for_def by simp_all
  then show ?thesis using nth_eq_iff_index_eq [OF assms(6), of a b] \<open>a < b\<close> by simp
qed

text \<open>An input that is proved under a root of its tree, new in the queue of its tree and live there from then on.\<close>

definition input_nullified ::
  "SystemEnv \<Rightarrow> ledger \<Rightarrow> ledger \<Rightarrow> InvokeInstruction \<Rightarrow> pubkey option \<Rightarrow> PackedCompressedAccountWithMerkleContext \<Rightarrow> bytes \<Rightarrow> bytes \<Rightarrow> bool" where
  "input_nullified S l l' ctx invoking a root h \<longleftrightarrow>
     CompressedAccount_hash (sys_env S) (pca_compressed_account a) (input_tree ctx a) (pmc_leaf_index (pca_merkle_context a)) = Ok h \<and>
     (\<exists>m t q s s'. acc_data (l (input_tree ctx a)) = StateMerkleTreeAccount m t \<and> may_write m invoking \<and>
        CyclicBoundedVec_index (cmt_roots t) (pca_root_index a) = (Ok root :: (system_error, _) result) \<and>
        acc_data (l (input_queue ctx a)) = QueueAccount q s \<and> qm_associated_merkle_tree q = input_tree ctx a \<and>
        acc_data (l' (input_queue ctx a)) = QueueAccount q s' \<and>
        from_bytes_be h \<notin> hs_live s (cmt_sequence_number t) \<and> (\<forall>d \<ge> cmt_sequence_number t. from_bytes_be h \<in> hs_live s' d))"

lemma spent_input_nullified:
  assumes "spent_input S l l' ctx invoking es a root h" "queues_ok l" "h \<in> set es"
  shows "input_nullified S l l' ctx invoking a root h" "distinct (map from_bytes_be es)"
proof -
  obtain m t q s s' where d: "input_hash (sys_env S) (ii_remaining_accounts ctx) a = Ok h"
    "data_of l (input_tree ctx a) = StateMerkleTreeAccount m t" "may_write m invoking"
    "CyclicBoundedVec_index (cmt_roots t) (pca_root_index a) = (Ok root :: (system_error, _) result)"
    "data_of l (input_queue ctx a) = QueueAccount q s" "qm_associated_merkle_tree q = input_tree ctx a"
    "tree_sequence_number l (input_tree ctx a) = Ok (cmt_sequence_number t)"
    "insert_elements s (cmt_sequence_number t) es = Ok s'" "data_of l' (input_queue ctx a) = QueueAccount q s'"
    using assms(1) unfolding spent_input_def by blast
  have "hs_inv s (cmt_sequence_number t)" using assms(2) d(5,6,7) unfolding queues_ok_def data_of_def by metis
  note e = insert_elements_OkD [OF this d(8)]
  have "from_bytes_be h \<notin> hs_live s (cmt_sequence_number t)" "\<forall>d \<ge> cmt_sequence_number t. from_bytes_be h \<in> hs_live s' d"
    using e assms(3) by auto
  then show "input_nullified S l l' ctx invoking a root h"
    using d(1-6,9) unfolding input_nullified_def input_hash_def input_tree_def data_of_def by blast
  show "distinct (map from_bytes_be es)" using e by blast
qed

text \<open>
  C2.  The inputs of a successful transaction.  The proof was verified for the hashes of the inputs, each computed
  as \<open>CompressedAccount::hash\<close> does, and for roots that the trees of the inputs hold at the given index, where every
  tree is an account of the account compression program that the invoking program may write to.  Each hash was not live
  in the nullifier queue of its tree and is from then on, at every sequence number.  No hash was inserted twice into a
  queue, so that no account is spent twice in a transaction.
\<close>

theorem inputs_proved_and_nullified:
  assumes "transfer_law (sys_env S)" "order_law (sys_env S)" "queues_ok l"
    and "process S l inputs invoking ctx cpi_inputs = Ok (l', event)"
  defines "ins \<equiv> idi_input_compressed_accounts_with_merkle_context inputs" and "hashes \<equiv> ev_input_compressed_account_hashes event"
  shows "ins = [] \<or> (\<exists>roots address_roots new_addresses p. idi_proof inputs = Some p \<and> length roots = length ins \<and>
    verify_state_proof (groth16 S) roots hashes address_roots new_addresses p = Ok () \<and>
    (\<forall>j < length ins. input_nullified S l l' ctx invoking (ins ! j) (roots ! j) (hashes ! j) \<and>
       (\<forall>i < j. input_queue ctx (ins ! i) = input_queue ctx (ins ! j) \<longrightarrow> from_bytes_be (hashes ! i) \<noteq> from_bytes_be (hashes ! j))))"
proof (cases "ins = []")
  case False
  obtain roots ar na p where P: "idi_proof inputs = Some p" "length roots = length ins" "length hashes = length ins"
    "verify_state_proof (groth16 S) roots hashes ar na p = Ok ()"
    "\<forall>j < length ins. spent_input S l l' ctx invoking (input_elements ctx ins hashes (input_queue ctx (ins ! j)))
       (ins ! j) (roots ! j) (hashes ! j)"
    using process_spent [OF assms(1,2,4) False [unfolded ins_def]] unfolding ins_def hashes_def by blast
  note N = spent_input_nullified [OF P(5) [rule_format] assms(3) input_elements_mem [OF P(3)]]
  have "from_bytes_be (hashes ! i) \<noteq> from_bytes_be (hashes ! j)"
    if "i < j" "j < length ins" "input_queue ctx (ins ! i) = input_queue ctx (ins ! j)" for i j
    using input_elements_distinct [OF P(3) that(1,2) _ _ N(2) [OF that(2) that(2)]] that(3) by blast
  then show ?thesis using P(1,2,4) N(1) by blast
qed simp


text \<open>
  C3.  The outputs of a successful transaction.  The hash of every output is the hash of the account with its tree and
  with the leaf index in the event, and the leaf with this index in its tree is this hash: it was appended behind the
  leaves that were there before.  The tree is one that the invoking program may write to.
\<close>

theorem outputs_stored_at_their_index:
  assumes "transfer_law (sys_env S)" "order_law (sys_env S)" "zero_chain (poseidon (sys_env S))" "hash32 (poseidon (sys_env S))"
    and "decode_law S" "process S l inputs invoking ctx cpi_inputs = Ok (l', event)"
  defines "outs \<equiv> idi_output_compressed_accounts inputs"
  shows "\<forall>j < length outs. let k = ii_remaining_accounts ctx ! unat (oca_merkle_tree_index (outs ! j));
      i = ev_output_leaf_indices event ! j; h = ev_output_compressed_account_hashes event ! j in
    CompressedAccount_hash (sys_env S) (oca_compressed_account (outs ! j)) k i = Ok h \<and>
    (\<exists>m t t'. acc_data (l k) = StateMerkleTreeAccount m t \<and> may_write m invoking \<and> acc_data (l' k) = StateMerkleTreeAccount m t' \<and>
     (\<forall>ls. cmt_rep (poseidon (sys_env S)) 26 t ls \<longrightarrow>
        (\<exists>new. cmt_rep (poseidon (sys_env S)) 26 t' (ls @ new) \<and> length ls \<le> i \<and> i < length (ls @ new) \<and> (ls @ new) ! i = h)))"
proof (rule process_OkD [OF assms(6)])
  fix l1 l2 hs addresses hp indices hashes seqs capacity
  assume c: "process_compression S l inputs ctx = Ok l1"
    and p: "process_proof S l1 inputs ctx invoking capacity = Ok (l2, hs, addresses, hp)"
    and o: "process_outputs S l2 inputs ctx invoking capacity addresses hp = Ok (l', indices, hashes, seqs)"
    and e: "emit_state_transition_event S inputs ctx hs hashes indices seqs = Ok event"
  have hp: "hashed_ok (sys_env S) hp"
  proof (cases "idi_input_compressed_accounts_with_merkle_context inputs \<noteq> [] \<or> idi_new_address_params inputs \<noteq> []")
    case True
    obtain roots a0 where i: "process_inputs S l1 inputs ctx capacity = Ok (hs, roots, a0, hp)" by (rule process_proof_OkD [OF p True])
    show ?thesis by (rule process_inputs_OkD(6) [OF i])
  qed (use p in \<open>auto simp: process_proof_def Let_def hashed_ok_def split: if_splits\<close>)
  note e = event_bound [OF e]
  have bound: "length (idi_output_compressed_accounts inputs) < 2 ^ 32" using process_outputs_lengths [OF o hp] e(1) by simp
  have before: "acc_data (l k) = StateMerkleTreeAccount m t" if "acc_data (l2 k) = StateMerkleTreeAccount m t" for k m t
    using process_proof_effect(2) [OF assms(1,2) p, of k] process_compression_data [OF assms(1) c] that by (simp add: data_of_def)
  show ?thesis
    using process_outputs_stored(3) [OF assms(1,3-5) o hp bound] before
    unfolding outs_def e Let_def output_stored_def output_tree_def by blast
qed


lemma sample_transaction:
  obtains t s l' event where "sample_new_tree t" "sample_new_queue s" "queues_ok (sample_system_ledger t s)"
    "process sample_system (sample_system_ledger t s) sample_invoke_data None sample_invoke_accounts 0 = Ok (l', event)"
    "ev_input_compressed_account_hashes event = [sample_leaf 5]" "ev_output_compressed_account_hashes event = [sample_leaf 2]"
    "ev_output_leaf_indices event = [0]"
proof -
  obtain t s s' i where t: "sample_new_tree t" "sample_new_queue s" "hs_insert s (from_bytes_be (sample_leaf 5)) 0 = Ok (s', i)"
    using sample_fresh_exists by (auto simp: sample_new_queue_def)
  have "tree_sequence_number (sample_system_ledger t s) [1] = Ok 0" by (rule sample_view(3) [OF sample_system_accounts(1) t(1)])
  then have "queues_ok (sample_system_ledger t s)"
    using t(2) by (auto simp: queues_ok_def sample_new_queue_def sample_system_ledger_def sample_pair_ledger_def sample_pair_data
        split: if_splits)
  then show thesis using sample_process [OF t(1,3), of None 0] that t by metis
qed

lemma sample_hash32_law: "hash32 sample_hasher32"
  by (auto simp: hash32_def sample_hasher32_def)

theorem inputs_proved_and_nullified_witness:
  "\<exists>t s l' event q s'. process sample_system (sample_system_ledger t s) sample_invoke_data None sample_invoke_accounts 0 = Ok (l', event) \<and>
     acc_data (l' [2]) = QueueAccount q s' \<and> from_bytes_be (sample_leaf 5) \<notin> hs_live s 0 \<and> from_bytes_be (sample_leaf 5) \<in> hs_live s' 7"
proof -
  obtain t s l' event where r: "sample_new_tree t" "queues_ok (sample_system_ledger t s)"
    "process sample_system (sample_system_ledger t s) sample_invoke_data None sample_invoke_accounts 0 = Ok (l', event)"
    "ev_input_compressed_account_hashes event = [sample_leaf 5]" by (rule sample_transaction)
  have seq: "cmt_sequence_number t = 0" using r(1) by (simp add: sample_new_tree_def)
  have k: "input_tree sample_invoke_accounts (sample_input 5) = [1]" "input_queue sample_invoke_accounts (sample_input 5) = [2]"
    by (simp_all add: input_tree_def input_queue_def sample_invoke_accounts_def sample_input_def)
  have d: "acc_data (sample_system_ledger t s [1]) = StateMerkleTreeAccount sample_tree_metadata t"
    "acc_data (sample_system_ledger t s [2]) = QueueAccount sample_queue_metadata s"
    using sample_system_accounts(1) [of t s] by (simp_all add: sample_accounts_def)
  obtain root where "input_nullified sample_system (sample_system_ledger t s) l' sample_invoke_accounts None (sample_input 5) root (sample_leaf 5)"
    using inputs_proved_and_nullified [OF _ _ r(2,3)] unfolding r(4) by (auto simp: sample_data_fields)
  then obtain q s' where "acc_data (l' [2]) = QueueAccount q s'" "from_bytes_be (sample_leaf 5) \<notin> hs_live s 0"
    "\<forall>d \<ge> 0. from_bytes_be (sample_leaf 5) \<in> hs_live s' d"
    unfolding input_nullified_def k d using seq by auto
  then show ?thesis using r(3) by blast
qed

theorem outputs_stored_at_their_index_witness:
  "\<exists>t s l' event m t'. process sample_system (sample_system_ledger t s) sample_invoke_data None sample_invoke_accounts 0 = Ok (l', event) \<and>
     CompressedAccount_hash sample_system_env (sample_account 2) [1] 0 = Ok (sample_leaf 2) \<and>
     acc_data (l' [1]) = StateMerkleTreeAccount m t' \<and> (\<exists>ls. cmt_rep sample_hasher32 26 t' ls \<and> ls ! 0 = sample_leaf 2)"
proof -
  obtain t s l' event where r: "sample_new_tree t"
    "process sample_system (sample_system_ledger t s) sample_invoke_data None sample_invoke_accounts 0 = Ok (l', event)"
    "ev_output_compressed_account_hashes event = [sample_leaf 2]" "ev_output_leaf_indices event = [0]" by (rule sample_transaction)
  have rep: "cmt_rep sample_hasher32 26 t []" using r(1) by (simp add: sample_new_tree_def)
  have d: "acc_data (sample_system_ledger t s [1]) = StateMerkleTreeAccount sample_tree_metadata t"
    using sample_system_accounts(1) [of t s] by (simp add: sample_accounts_def)
  have o: "oca_compressed_account (sample_output 2) = sample_account 2" "unat (oca_merkle_tree_index (sample_output 2)) = 0"
    by (simp_all add: sample_output_def)
  have "CompressedAccount_hash sample_system_env (sample_account 2) [1] 0 = Ok (sample_leaf 2) \<and>
    (\<exists>m t'. acc_data (l' [1]) = StateMerkleTreeAccount m t' \<and> (\<exists>new. cmt_rep sample_hasher32 26 t' new \<and> new ! 0 = sample_leaf 2))"
    using outputs_stored_at_their_index [of sample_system, OF _ _ _ _ _ r(2)] rep
    unfolding r(3,4) by (auto simp: Let_def sample_data_fields o d sample_zero_chain32 sample_hash32_law) (metis append_Nil)
  then show ?thesis using r(2) by blast
qed

end
