(* ===== verification/Double_Spend.thy ===== *)
theory Double_Spend
  imports System_Safety
begin

text \<open>
  Why a spent account cannot be spent again: its nullifier stays in the queue until the leaf has been replaced in the tree
  and every root under which it was still there has left the tree.
\<close>


section \<open>A queue belongs to one tree\<close>

definition queues_linked :: "ledger \<Rightarrow> bool" where
  [inv_defs]: "queues_linked l \<longleftrightarrow>
     (\<forall>a k. links l a = QueueLink k \<longrightarrow> a = k \<or> links l k = StateLink a \<or> links l k = AddressLink a)"

lemma change_queues_linked:
  assumes "change E l l'" "queues_linked l"
  shows "queues_linked l'"
proof -
  have "links l k \<noteq> NoLink" if "links l a = QueueLink k" for a k
    using assms(2) that unfolding queues_linked_def by fastforce
  then show ?thesis
    using change_links [OF assms(1)] assms(2) unfolding queues_linked_def by (elim disjE exE conjE) (auto split: if_splits)
qed

lemma changes_queues_linked: "changes E l l' \<Longrightarrow> queues_linked l \<Longrightarrow> queues_linked l'"
  by (induction rule: rtranclp_induct) (simp_all add: change_queues_linked)

lemma queue_of_tree:
  assumes "queues_linked l" "pair_at l kt kq m t q s" "data_of l k = QueueAccount q' s'" "qm_associated_merkle_tree q' = kt"
  shows "k = kq"
proof -
  have "links l k = QueueLink kt" "links l kt = StateLink kq" using assms(2-4) by (simp_all add: links_def pair_at_def)
  moreover have "k \<noteq> kt" using assms(2,3) by (auto simp: pair_at_def)
  ultimately show ?thesis using assms(1) unfolding queues_linked_def by fastforce
qed


section \<open>A pending nullifier\<close>

text \<open>
  A value that is live at all later sequence numbers stays so until it is nullified in the tree.
\<close>

lemma pending_run:
  assumes "pair_run E (t1, s1) ls1 y ls2" "zero_chain (poseidon E)" "pair_inv E (t1, s1) ls1"
    and "\<forall>d \<ge> cmt_sequence_number t1. v \<in> hs_live s1 d"
  shows "(\<forall>d \<ge> cmt_sequence_number (fst y). v \<in> hs_live (snd y) d) \<or>
    (\<exists>t s ls ci qi j proof t' s'. pair_run E (t1, s1) ls1 (t, s) ls \<and> nullify_leaf E (t, s) ((ci, qi, j), proof) = Ok (t', s') \<and>
       \<not> nullify_collision E (t, s) ((ci, qi, j), proof) ls \<and> from_bytes_be (ls ! j) = v \<and>
       pair_run E (t', s') (ls[j := zero_leaf E]) y ls2)"
  using assms(1)
proof (induction rule: pair_run.induct)
  case pair_refl
  then show ?case using assms(4) by simp
next
  case (pair_append t s ls leaves t' ci sn)
  have "pair_inv E (t, s) ls" using pair_run_inv(1) [OF pair_append.hyps(1) assms(2,3)] .
  then obtain rs where "pair_effect E (t, s) ls rs (t', s) (ls @ leaves)" using append_effect [OF assms(2) _ pair_append.hyps(2)] by blast
  then have le: "cmt_sequence_number t \<le> cmt_sequence_number t'" by (simp add: pair_effect_def)
  show ?case
  proof (cases "\<forall>d \<ge> cmt_sequence_number t. v \<in> hs_live s d")
    case True
    then show ?thesis using le by auto
  next
    case False
    then show ?thesis using pair_append.IH pair_run.pair_append [OF _ pair_append.hyps(2)] unfolding fst_conv snd_conv by blast
  qed
next
  case (pair_insert t s ls w s' i)
  have "hs_inv s (cmt_sequence_number t)" using pair_run_inv(1) [OF pair_insert.hyps(1) assms(2,3)] by (simp add: pair_inv_def)
  note live = insert_OkD(3) [OF this pair_insert.hyps(2)]
  show ?case
  proof (cases "\<forall>d \<ge> cmt_sequence_number t. v \<in> hs_live s d")
    case True
    then show ?thesis using live by auto
  next
    case False
    then show ?thesis using pair_insert.IH pair_run.pair_insert [OF _ pair_insert.hyps(2)] unfolding fst_conv snd_conv by blast
  qed
next
  case (pair_nullify t s ls ci qi j pf t' s')
  have inv: "pair_inv E (t, s) ls" using pair_run_inv(1) [OF pair_nullify.hyps(1) assms(2,3)] .
  then have rep: "cmt_rep (poseidon E) 26 t ls" "hs_inv s (cmt_sequence_number t)" by (simp_all add: pair_inv_def)
  note D = nullify_leaf_OkD [OF pair_nullify.hyps(2) rep(1) pair_nullify.hyps(3)]
  show ?case
  proof (cases "(\<forall>d \<ge> cmt_sequence_number t. v \<in> hs_live s d) \<and> from_bytes_be (ls ! j) \<noteq> v")
    case True
    have "cmt_sequence_number t \<le> cmt_sequence_number t'" using D(2) by (simp add: updated_def)
    then have "v \<in> hs_live s' d" if "cmt_sequence_number t' \<le> d" for d
      using mark_pending(4) [OF rep(2) D(3,4), of d] True that by auto
    then show ?thesis by simp
  next
    case False
    then consider "from_bytes_be (ls ! j) = v" | "\<not> (\<forall>d \<ge> cmt_sequence_number t. v \<in> hs_live s d)" by blast
    then show ?thesis
    proof cases
      case 1
      then show ?thesis using pair_nullify.hyps pair_run.pair_refl by blast
    next
      case 2
      then show ?thesis using pair_nullify.IH pair_run.pair_nullify [OF _ pair_nullify.hyps(2,3)] unfolding fst_conv snd_conv by blast
    qed
  qed
qed

text \<open>Either the value is still live, or the leaf that held it is nullified under every root of the tree.\<close>

definition leaf_nullified ::
  "Env \<Rightarrow> ConcurrentMerkleTree \<times> HashSet \<Rightarrow> ConcurrentMerkleTree \<times> HashSet \<Rightarrow> nat \<Rightarrow> nat \<Rightarrow> bool" where
  "leaf_nullified E x y v j \<longleftrightarrow> (\<exists>ls z ls' ls''. pair_inv E x ls \<and> pair_run E x ls z ls' \<and> j < length ls' \<and>
     from_bytes_be (ls' ! j) = v \<and> pair_run E z ls' y ls'' \<and> (\<forall>r \<in> set (cbv_list (cmt_roots (fst y))). nullified_root E j r))"

lemma spent_run:
  assumes "pair_run E (t1, s1) ls1 (t2, s2) ls2" "zero_chain (poseidon E)" "pair_inv E (t1, s1) ls1"
    and "\<forall>d \<ge> cmt_sequence_number t1. v \<in> hs_live s1 d" "CyclicBoundedVec_capacity (cmt_roots t1) \<le> hs_sequence_threshold s1"
    and "v \<notin> hs_live s2 (cmt_sequence_number t2)"
  shows "\<exists>j. leaf_nullified E (t1, s1) (t2, s2) v j"
proof -
  obtain t s ls ci qi j pf t' s' where n: "pair_run E (t1, s1) ls1 (t, s) ls"
    "nullify_leaf E (t, s) ((ci, qi, j), pf) = Ok (t', s')" "\<not> nullify_collision E (t, s) ((ci, qi, j), pf) ls"
    "from_bytes_be (ls ! j) = v" "pair_run E (t', s') (ls[j := zero_leaf E]) (t2, s2) ls2"
    using pending_run [OF assms(1-4)] assms(6) by auto
  note inv = pair_run_inv [OF n(1) assms(2,3)]
  have "j < length ls" using nullify_leaf_OkD(1) [OF n(2) _ n(3)] inv(1) by (simp add: pair_inv_def)
  moreover have "\<forall>r \<in> set (cbv_list (cmt_roots t2)). nullified_root E j r"
    using nullifier_outlives_roots [OF assms(2) inv(1) n(2,3,5)] n(4) assms(5,6) inv(2,3) by simp
  moreover have "pair_run E (t, s) ls (t2, s2) ls2"
    by (rule pair_run_trans [OF n(5) pair_nullify [OF pair_refl n(2,3)]])
  ultimately show ?thesis using n(1,4) assms(3) unfolding leaf_nullified_def fst_conv by blast
qed


section \<open>Transactions\<close>

text \<open>Any sequence of instructions of the account compression program and of transactions of the system program.\<close>

inductive system_run :: "SystemEnv \<Rightarrow> pubkey \<Rightarrow> ledger \<Rightarrow> ledger \<Rightarrow> bool" for S pid l where
  system_refl: "system_run S pid l l"
| system_program: "system_run S pid l l1 \<Longrightarrow> execute (sys_env S) pid l1 ix = Ok l2 \<Longrightarrow>
    \<not> instruction_collision (sys_env S) l1 ix \<Longrightarrow> system_run S pid l l2"
| system_transaction: "system_run S pid l l1 \<Longrightarrow> process S l1 inputs invoking ctx cpi_inputs = Ok (l2, event) \<Longrightarrow>
    system_run S pid l l2"

lemma system_run_changes:
  assumes "system_run S pid l l'" "transfer_law (sys_env S)" "order_law (sys_env S)"
  shows "changes (sys_env S) l l'"
  using assms(1)
proof (induction rule: system_run.induct)
  case (system_program l1 ix l2)
  then show ?case using execute_changes [OF assms(2,3)] by (meson rtranclp_trans)
next
  case (system_transaction l1 inputs invoking ctx cpi_inputs l2 event)
  then show ?case using process_changes [OF assms(2,3)] by (meson rtranclp_trans)
qed simp

text \<open>A transaction that spends an account with hash \<open>h\<close> of the tree \<open>kt\<close>.\<close>

definition spends :: "SystemEnv \<Rightarrow> ledger \<Rightarrow> pubkey \<Rightarrow> bytes \<Rightarrow> ledger \<Rightarrow> bool" where
  "spends S l kt h l' \<longleftrightarrow> (\<exists>inputs invoking ctx cpi_inputs event a. process S l inputs invoking ctx cpi_inputs = Ok (l', event) \<and>
     a \<in> set (idi_input_compressed_accounts_with_merkle_context inputs) \<and> input_tree ctx a = kt \<and>
     CompressedAccount_hash (sys_env S) (pca_compressed_account a) kt (pmc_leaf_index (pca_merkle_context a)) = Ok h)"

lemma spends_OkD:
  assumes "transfer_law (sys_env S)" "order_law (sys_env S)" "spends S l kt h l'" "queues_linked l" "pair_at l kt kq m t q s"
    and "hs_inv s (cmt_sequence_number t)"
  shows "from_bytes_be h \<notin> hs_live s (cmt_sequence_number t)"
    "\<exists>s'. data_of l' kq = QueueAccount q s' \<and> (\<forall>d \<ge> cmt_sequence_number t. from_bytes_be h \<in> hs_live s' d)"
proof -
  obtain inputs invoking ctx cpi_inputs event a where p: "process S l inputs invoking ctx cpi_inputs = Ok (l', event)"
    and a: "a \<in> set (idi_input_compressed_accounts_with_merkle_context inputs)" "input_tree ctx a = kt"
      "CompressedAccount_hash (sys_env S) (pca_compressed_account a) kt (pmc_leaf_index (pca_merkle_context a)) = Ok h"
    using assms(3) unfolding spends_def by blast
  let ?ins = "idi_input_compressed_accounts_with_merkle_context inputs" and ?hs = "ev_input_compressed_account_hashes event"
  obtain i where i: "i < length ?ins" "?ins ! i = a" using a(1) by (metis in_set_conv_nth)
  then have "?ins \<noteq> []" by auto
  from process_spent [OF assms(1,2) p this] i obtain root where len: "length ?hs = length ?ins"
    and sp: "spent_input S l l' ctx invoking (input_elements ctx ?ins ?hs (input_queue ctx a)) a root (?hs ! i)" by blast
  have h: "?hs ! i = h" using sp a(2,3) by (simp add: spent_input_def input_hash_def input_tree_def)
  have mem: "h \<in> set (input_elements ctx ?ins ?hs (input_queue ctx a))" using input_elements_mem [OF len i(1), of ctx] i(2) h by simp
  obtain m' t' q' s0 s' where d: "data_of l kt = StateMerkleTreeAccount m' t'" "data_of l (input_queue ctx a) = QueueAccount q' s0"
    "qm_associated_merkle_tree q' = kt"
    "insert_elements s0 (cmt_sequence_number t') (input_elements ctx ?ins ?hs (input_queue ctx a)) = Ok s'"
    "data_of l' (input_queue ctx a) = QueueAccount q' s'"
    using sp a(2) unfolding spent_input_def by blast
  have k: "input_queue ctx a = kq" by (rule queue_of_tree [OF assms(4,5) d(2,3)])
  then have e: "q' = q" "s0 = s" "t' = t" using d(1,2) assms(5) by (simp_all add: pair_at_def)
  note I = insert_elements_OkD [OF assms(6) d(4) [unfolded e]]
  show "from_bytes_be h \<notin> hs_live s (cmt_sequence_number t)" using I mem by blast
  show "\<exists>s'. data_of l' kq = QueueAccount q s' \<and> (\<forall>d \<ge> cmt_sequence_number t. from_bytes_be h \<in> hs_live s' d)"
    using I mem d(5) unfolding k e by auto
qed

lemma sample_system_linked: "linked (sample_system_ledger t s)" "queues_linked (sample_system_ledger t s)"
  by (auto simp: linked_def queues_linked_def links_def data_of_def sample_system_ledger_def sample_pair_ledger_def sample_pair_data
      split: if_splits)

end
