(* ===== verification/Cpi_Context.thy ===== *)
theory Cpi_Context
  imports Double_Spend
begin

text \<open>
  Who authorises a transaction: the owners of its inputs, for direct invocations and for transactions that are joined
  from the instructions of several programs through a CPI context account.
\<close>


section \<open>Signer checks\<close>

text \<open>What a program may contribute: inputs it owns, outputs with data only if it owns them.\<close>

definition contributed_by ::
  "pubkey \<Rightarrow> PackedCompressedAccountWithMerkleContext list \<Rightarrow> OutputCompressedAccountWithPackedContext list \<Rightarrow> bool" where
  "contributed_by program ins outs \<longleftrightarrow> (\<forall>a \<in> set ins. ca_owner (pca_compressed_account a) = program) \<and>
     (\<forall>a \<in> set outs. ca_data (oca_compressed_account a) \<noteq> None \<longleftrightarrow> ca_owner (oca_compressed_account a) = program)"

lemma cpi_signer_checks_Ok:
  "cpi_signer_checks S program authority seeds ins outs = Ok () \<longleftrightarrow>
     create_program_address (sys_env S) seeds program = Some authority \<and> contributed_by program ins outs"
  by (auto simp: cpi_signer_checks_def cpi_signer_check_def cpi_input_compressed_accounts_signer_check_def
      output_compressed_accounts_write_access_check_def contributed_by_def and_then_eq_Ok try_fold_unit_Ok
      split: option.splits if_splits)

lemma signer_check_Ok:
  "input_compressed_accounts_signer_check ins authority = Ok () \<longleftrightarrow>
     (\<forall>a \<in> set ins. ca_owner (pca_compressed_account a) = authority \<and> ca_data (pca_compressed_account a) = None)"
  by (simp add: input_compressed_accounts_signer_check_def try_fold_unit_Ok)

lemma try_fold_each:
  assumes "try_fold f s xs = Ok s'" "x \<in> set xs"
  shows "\<exists>t t'. f t x = Ok t'"
  using assms by (induction xs arbitrary: s) (auto elim!: and_then_OkE)

lemma outputs_need_program:
  assumes "process S l inputs None ctx cpi_inputs = Ok (l', event)" "a \<in> set (idi_output_compressed_accounts inputs)"
  shows "ca_data (oca_compressed_account a) = None"
proof (rule process_OkD [OF assms(1)])
  fix l1 l2 hs addresses hp indices hashes seqs capacity
  assume o: "process_outputs S l2 inputs ctx None capacity addresses hp = Ok (l', indices, hashes, seqs)"
  let ?outs = "idi_output_compressed_accounts inputs"
  have "?outs \<noteq> []" using assms(2) by auto
  from process_outputs_OkD [OF o this] obtain st where "create_cpi_accounts_and_instruction_data S l2 ?outs
      (replicate (length ?outs) 0) (replicate (length ?outs) (replicate 32 0)) addresses None hp (ii_remaining_accounts ctx) = Ok st" .
  then obtain s0 where loop: "try_fold (append_output S l2 (ii_remaining_accounts ctx) None) s0 (enumerate 0 ?outs) = Ok st"
    by (auto simp: create_cpi_accounts_and_instruction_data_def split: if_splits)
  obtain j where "j < length ?outs" "?outs ! j = a" using assms(2) by (metis in_set_conv_nth)
  then have "(j, a) \<in> set (enumerate 0 ?outs)" by (simp add: in_set_enumerate_eq)
  from try_fold_each [OF loop this] obtain t t' where step: "append_output S l2 (ii_remaining_accounts ctx) None t (j, a) = Ok t'" by blast
  show ?thesis by (rule append_output_OkD [OF step]) auto
qed

text \<open>
  C11.  A direct invocation needs the signature of the owner of all its inputs.  None of its inputs and outputs carries
  data, which only programs may write.
\<close>

theorem invoke_authorised:
  assumes "invoke S l ctx inputs = Ok (l', event)"
  shows "(\<forall>a \<in> set (idi_input_compressed_accounts_with_merkle_context inputs).
       ca_owner (pca_compressed_account a) = ii_authority ctx \<and> ca_data (pca_compressed_account a) = None) \<and>
    (\<forall>a \<in> set (idi_output_compressed_accounts inputs). ca_data (oca_compressed_account a) = None)"
  using assms outputs_need_program [of S l inputs ctx 0 l' event] unfolding invoke_def
  by (auto simp: signer_check_Ok elim!: and_then_OkE)

theorem invoke_authorised_witness:
  "\<exists>t s l' event. invoke sample_system (sample_system_ledger t s) sample_invoke_accounts sample_invoke_data = Ok (l', event) \<and>
     ca_owner (pca_compressed_account (sample_input 5)) = ii_authority sample_invoke_accounts"
proof -
  obtain t s l' event where r: "process sample_system (sample_system_ledger t s) sample_invoke_data None sample_invoke_accounts 0 = Ok (l', event)"
    by (rule sample_transaction)
  have "check_invoke_accounts sample_system sample_invoke_accounts = Ok ()"
    by (simp add: check_invoke_accounts_def sample_invoke_accounts_def get_registered_program_pda_def get_cpi_authority_pda_def get_sol_pool_pda_def)
  moreover have "input_compressed_accounts_signer_check [sample_input 5] (ii_authority sample_invoke_accounts) = Ok ()"
    by (simp add: signer_check_Ok sample_input_def sample_account_def sample_invoke_accounts_def)
  ultimately have i: "invoke sample_system (sample_system_ledger t s) sample_invoke_accounts sample_invoke_data = Ok (l', event)"
    using r by (simp add: invoke_def sample_data_fields)
  from invoke_authorised [OF i] show ?thesis using i by (auto simp: sample_data_fields)
qed


section \<open>The context of one account\<close>

lemma combine_fields:
  "idc_input_compressed_accounts_with_merkle_context (InstructionDataInvokeCpi_combine d ds) =
     idc_input_compressed_accounts_with_merkle_context d @ concat (map idc_input_compressed_accounts_with_merkle_context ds)"
  "idc_output_compressed_accounts (InstructionDataInvokeCpi_combine d ds) =
     idc_output_compressed_accounts d @ concat (map idc_output_compressed_accounts ds)"
  "idc_new_address_params (InstructionDataInvokeCpi_combine d ds) =
     idc_new_address_params d @ concat (map idc_new_address_params ds)"
  "idc_proof (InstructionDataInvokeCpi_combine d ds) = idc_proof d"
  "idc_relay_fee (InstructionDataInvokeCpi_combine d ds) = idc_relay_fee d"
  "idc_compress_or_decompress_lamports (InstructionDataInvokeCpi_combine d ds) = idc_compress_or_decompress_lamports d"
  "idc_is_compress (InstructionDataInvokeCpi_combine d ds) = idc_is_compress d"
  unfolding InstructionDataInvokeCpi_combine_def by (induction ds arbitrary: d) simp_all

lemma clean_fields [simp]:
  "idc_input_compressed_accounts_with_merkle_context (clean_input_data d) = idc_input_compressed_accounts_with_merkle_context d"
  "idc_output_compressed_accounts (clean_input_data d) = idc_output_compressed_accounts d"
  "idc_new_address_params (clean_input_data d) = idc_new_address_params d"
  by (simp_all add: clean_input_data_def)

text \<open>
  The instructions whose data an account holds, with their fee payers: setting the context for the first time forgets
  what was there, and executing empties it.
\<close>

inductive context_of :: "CpiContextAccount \<Rightarrow> (pubkey \<times> InstructionDataInvokeCpi) list \<Rightarrow> bool" where
  context_new: "context_of (CpiContextAccount_init a k) []"
| context_set: "context_of a g \<Longrightarrow> process_cpi_context d (Some a) payer ra = Ok (Some a', None) \<Longrightarrow> idc_cpi_context d = Some c \<Longrightarrow>
    context_of a' (if cc_first_set_context c then [(payer, d)] else g @ [(payer, d)])"
| context_execute: "context_of a g \<Longrightarrow> process_cpi_context d (Some a) payer ra = Ok (Some a', Some d') \<Longrightarrow> context_of a' []"

lemma context_of_inv: "context_of a g \<Longrightarrow> cca_context a = map (\<lambda>x. clean_input_data (snd x)) g \<and> (\<forall>x \<in> set g. fst x = cca_fee_payer a)"
proof (induction rule: context_of.induct)
  case (context_set a g d payer ra a' c)
  then show ?case
    by (auto simp: process_cpi_context_def set_cpi_context_def split: if_splits list.splits elim!: and_then_OkE)
next
  case (context_execute a g d payer ra a' d')
  then show ?case by (auto simp: process_cpi_context_def split: if_splits list.splits option.splits elim!: and_then_OkE)
qed (simp add: CpiContextAccount_init_def)

text \<open>
  C12.  An instruction that executes a transaction with a CPI context account executes its own inputs, outputs and new
  addresses followed by those of the instructions that were stored since the context was last set for the first time
  or executed, in their order.  At least one was stored and all of them were paid by the same account.  Proof, fee and
  lamports are those of the executing instruction, and the account is empty afterwards.
\<close>

theorem cpi_context_executes_stored:
  assumes "context_of a g" "process_cpi_context d (Some a) payer ra = Ok (a', Some d')"
  shows "g \<noteq> [] \<and> (\<forall>x \<in> set g. fst x = payer) \<and> a' = Some (a\<lparr>cca_context := [], cca_fee_payer := default_pubkey\<rparr>) \<and>
    idc_input_compressed_accounts_with_merkle_context d' = concat (map idc_input_compressed_accounts_with_merkle_context (d # map snd g)) \<and>
    idc_output_compressed_accounts d' = concat (map idc_output_compressed_accounts (d # map snd g)) \<and>
    idc_new_address_params d' = concat (map idc_new_address_params (d # map snd g)) \<and>
    idc_proof d' = idc_proof d \<and> idc_relay_fee d' = idc_relay_fee d \<and> idc_is_compress d' = idc_is_compress d \<and>
    idc_compress_or_decompress_lamports d' = idc_compress_or_decompress_lamports d"
proof -
  note inv = context_of_inv [OF assms(1)]
  have e: "cca_context a \<noteq> []" "cca_fee_payer a = payer" "a' = Some (a\<lparr>cca_context := [], cca_fee_payer := default_pubkey\<rparr>)"
    "d' = InstructionDataInvokeCpi_combine d (cca_context a)"
    using assms(2) by (auto simp: process_cpi_context_def split: if_splits list.splits option.splits elim!: and_then_OkE)
  show ?thesis unfolding e(3,4) combine_fields using e(1,2) inv by (simp add: comp_def)
qed


definition sample_cpi_data :: "bool \<Rightarrow> bool \<Rightarrow> nat \<Rightarrow> InstructionDataInvokeCpi" where
  "sample_cpi_data set_context first n = \<lparr>idc_proof = None, idc_new_address_params = [],
     idc_input_compressed_accounts_with_merkle_context = [sample_input n], idc_output_compressed_accounts = [], idc_relay_fee = None,
     idc_compress_or_decompress_lamports = None, idc_is_compress = False, idc_signer_seeds = [],
     idc_cpi_context = Some \<lparr>cc_set_context = set_context, cc_first_set_context = first, cc_cpi_context_account_index = 0\<rparr>\<rparr>"

definition sample_cpi_account :: CpiContextAccount where
  "sample_cpi_account = CpiContextAccount_init \<lparr>cca_fee_payer = [], cca_associated_merkle_tree = [], cca_context = []\<rparr> [1]"

theorem cpi_context_executes_stored_witness:
  "\<exists>a1 a2 a3 d'. process_cpi_context (sample_cpi_data True True 1) (Some sample_cpi_account) [3] [[1]] = Ok (Some a1, None) \<and>
     process_cpi_context (sample_cpi_data True False 2) (Some a1) [3] [[1]] = Ok (Some a2, None) \<and>
     process_cpi_context (sample_cpi_data False False 3) (Some a2) [3] [[1]] = Ok (Some a3, Some d') \<and>
     idc_input_compressed_accounts_with_merkle_context d' = [sample_input 3, sample_input 1, sample_input 2]"
proof -
  let ?c = "\<lambda>n. clean_input_data (sample_cpi_data True n (if n then 1 else 2))"
  define a1 where "a1 = sample_cpi_account\<lparr>cca_context := [?c True], cca_fee_payer := [3]\<rparr>"
  define a2 where "a2 = a1\<lparr>cca_context := [?c True, ?c False]\<rparr>"
  have 1: "process_cpi_context (sample_cpi_data True True 1) (Some sample_cpi_account) [3] [[1]] = Ok (Some a1, None)"
    "process_cpi_context (sample_cpi_data True False 2) (Some a1) [3] [[1]] = Ok (Some a2, None)"
    by (simp_all add: process_cpi_context_def set_cpi_context_def sample_cpi_data_def sample_cpi_account_def CpiContextAccount_init_def
        a1_def a2_def sample_input_def index_def)
  obtain a3 d' where 3: "process_cpi_context (sample_cpi_data False False 3) (Some a2) [3] [[1]] = Ok (Some a3, Some d')"
    by (simp add: process_cpi_context_def sample_cpi_data_def sample_cpi_account_def CpiContextAccount_init_def
        a1_def a2_def sample_input_def index_def)
  have c: "idc_cpi_context (sample_cpi_data True f n) = Some \<lparr>cc_set_context = True, cc_first_set_context = f, cc_cpi_context_account_index = 0\<rparr>" for f n
    by (simp add: sample_cpi_data_def)
  have "context_of a1 [([3], sample_cpi_data True True 1)]"
    using context_set [OF context_new 1(1) [unfolded sample_cpi_account_def] c] by simp
  from context_set [OF this 1(2) c]
  have "context_of a2 [([3], sample_cpi_data True True 1), ([3], sample_cpi_data True False 2)]" by simp
  from cpi_context_executes_stored [OF this 3]
  have "idc_input_compressed_accounts_with_merkle_context d' = [sample_input 3, sample_input 1, sample_input 2]"
    by (simp add: sample_cpi_data_def)
  then show ?thesis using 1 3 by blast
qed


section \<open>Transactions of several programs\<close>

text \<open>The successful calls of \<open>invoke_cpi\<close> in a run; everything else leaves the context accounts alone or creates one.\<close>

inductive cpi_run :: "SystemEnv \<Rightarrow> SystemState \<Rightarrow> (InvokeCpiInstruction \<times> InstructionDataInvokeCpi) list \<Rightarrow> SystemState \<Rightarrow> bool"
  for S s0 where
  cpi_refl: "cpi_run S s0 [] s0"
| cpi_other: "cpi_run S s0 calls s \<Longrightarrow> ss_cpi s' = ss_cpi s \<Longrightarrow> cpi_run S s0 calls s'"
| cpi_init: "cpi_run S s0 calls s \<Longrightarrow> init_cpi_context_account s k t = Ok s' \<Longrightarrow> cpi_run S s0 calls s'"
| cpi_call: "cpi_run S s0 calls s \<Longrightarrow> invoke_cpi S s ctx d = Ok (s', event) \<Longrightarrow> cpi_run S s0 (calls @ [(ctx, d)]) s'"

text \<open>A call in which the program signed with its authority and contributed only what it may.\<close>

definition authorised_call :: "SystemEnv \<Rightarrow> InvokeCpiInstruction \<Rightarrow> InstructionDataInvokeCpi \<Rightarrow> bool" where
  "authorised_call S ctx d \<longleftrightarrow>
     create_program_address (sys_env S) (idc_signer_seeds d) (ic_invoking_program ctx) = Some (ii_authority (ic_invoke ctx)) \<and>
     contributed_by (ic_invoking_program ctx) (idc_input_compressed_accounts_with_merkle_context d) (idc_output_compressed_accounts d)"

definition stored_by :: "SystemEnv \<Rightarrow> (InvokeCpiInstruction \<times> InstructionDataInvokeCpi) list \<Rightarrow> pubkey \<Rightarrow> pubkey \<Rightarrow> InstructionDataInvokeCpi \<Rightarrow> bool" where
  "stored_by S calls k payer x \<longleftrightarrow> (\<exists>(ctx, d) \<in> set calls. x = clean_input_data d \<and> ic_cpi_context_account ctx = Some k \<and>
     ii_fee_payer (ic_invoke ctx) = payer \<and> authorised_call S ctx d)"

definition contexts_ok :: "SystemEnv \<Rightarrow> (InvokeCpiInstruction \<times> InstructionDataInvokeCpi) list \<Rightarrow> SystemState \<Rightarrow> bool" where
  "contexts_ok S calls s \<longleftrightarrow> (\<forall>k a. ss_cpi s k = CpiContext a \<longrightarrow> (\<forall>x \<in> set (cca_context a). stored_by S calls k (cca_fee_payer a) x))"

lemma stored_by_mono: "stored_by S calls k payer x \<Longrightarrow> stored_by S (calls @ cs) k payer x"
  by (auto simp: stored_by_def)

lemma store_ledger: "store_cpi_context S s k a = Ok s' \<Longrightarrow> ss_ledger s' = ss_ledger s"
  by (auto simp: store_cpi_context_def split: option.splits if_splits)

lemma store_cpi:
  "store_cpi_context S s None a = Ok s' \<Longrightarrow> ss_cpi s' = ss_cpi s"
  "store_cpi_context S s (Some k) (Some c) = Ok s' \<Longrightarrow> ss_cpi s' = (ss_cpi s)(k := CpiContext c)"
  by (auto simp: store_cpi_context_def split: if_splits)

lemma invoke_cpi_OkD:
  assumes "invoke_cpi S s ctx d = Ok (s', event)"
  obtains a a' r where "authorised_call S ctx d" "load_cpi_context s (ic_cpi_context_account ctx) = Ok a"
    "process_cpi_context d a (ii_fee_payer (ic_invoke ctx)) (ii_remaining_accounts (ic_invoke ctx)) = Ok (a', r)"
    "check_invoke_accounts S (ic_invoke ctx) = Ok ()"
    "store_cpi_context S (s\<lparr>ss_ledger := ss_ledger s'\<rparr>) (ic_cpi_context_account ctx) a' = Ok s'"
    "case r of None \<Rightarrow> event = None \<and> ss_ledger s' = ss_ledger s
     | Some d' \<Rightarrow> \<exists>ev. event = Some ev \<and> process S (ss_ledger s)
              \<lparr>idi_proof = idc_proof d',
               idi_input_compressed_accounts_with_merkle_context = idc_input_compressed_accounts_with_merkle_context d',
               idi_output_compressed_accounts = idc_output_compressed_accounts d',
               idi_relay_fee = idc_relay_fee d', idi_new_address_params = idc_new_address_params d',
               idi_compress_or_decompress_lamports = idc_compress_or_decompress_lamports d',
               idi_is_compress = idc_is_compress d'\<rparr>
              (Some (ic_invoking_program ctx)) (ic_invoke ctx) (case a of Some a \<Rightarrow> length (cca_context a) | None \<Rightarrow> 0) =
              Ok (ss_ledger s', ev)"
proof -
  obtain a a' r where p: "authorised_call S ctx d" "load_cpi_context s (ic_cpi_context_account ctx) = Ok a"
    "process_cpi_context d a (ii_fee_payer (ic_invoke ctx)) (ii_remaining_accounts (ic_invoke ctx)) = Ok (a', r)"
    "check_invoke_accounts S (ic_invoke ctx) = Ok ()"
    and rest: "(case r of None \<Rightarrow> and_then (store_cpi_context S s (ic_cpi_context_account ctx) a') (\<lambda>s. Ok (s, None))
      | Some inputs \<Rightarrow>
          and_then (process S (ss_ledger s)
              \<lparr>idi_proof = idc_proof inputs,
               idi_input_compressed_accounts_with_merkle_context = idc_input_compressed_accounts_with_merkle_context inputs,
               idi_output_compressed_accounts = idc_output_compressed_accounts inputs,
               idi_relay_fee = idc_relay_fee inputs, idi_new_address_params = idc_new_address_params inputs,
               idi_compress_or_decompress_lamports = idc_compress_or_decompress_lamports inputs,
               idi_is_compress = idc_is_compress inputs\<rparr>
              (Some (ic_invoking_program ctx)) (ic_invoke ctx) (case a of Some a \<Rightarrow> length (cca_context a) | None \<Rightarrow> 0)) (\<lambda>(l, event).
          and_then (store_cpi_context S (s\<lparr>ss_ledger := l\<rparr>) (ic_cpi_context_account ctx) a') (\<lambda>s. Ok (s, Some event)))) = Ok (s', event)"
    using assms unfolding invoke_cpi_def process_invoke_cpi_def
    by (auto simp: Let_def cpi_signer_checks_Ok authorised_call_def elim!: and_then_OkE)
  show thesis
  proof (cases r)
    case None
    then have st: "store_cpi_context S s (ic_cpi_context_account ctx) a' = Ok s'" "event = None" using rest by (auto elim!: and_then_OkE)
    then have "ss_ledger s' = ss_ledger s" using store_ledger by blast
    then show ?thesis using that [OF p] st None by simp
  next
    case (Some d')
    then show ?thesis using that [OF p] rest store_ledger by (fastforce elim!: and_then_OkE)
  qed
qed


lemma process_cpi_context_OkD:
  assumes "process_cpi_context d (Some a) payer ra = Ok (a', r)"
  obtains b where "a' = Some b"
    "(r = None \<and> cca_fee_payer b = payer \<and> (cca_context b = [clean_input_data d] \<or>
       cca_fee_payer a = payer \<and> cca_context b = cca_context a @ [clean_input_data d])) \<or>
     (r = Some (InstructionDataInvokeCpi_combine d (cca_context a)) \<and> cca_context b = [] \<and> cca_fee_payer a = payer \<and> cca_context a \<noteq> [])"
  using assms
  by (auto simp: process_cpi_context_def set_cpi_context_def split: if_splits list.splits option.splits elim!: and_then_OkE)

lemma cpi_call_contexts:
  assumes "contexts_ok S calls s" "invoke_cpi S s ctx d = Ok (s', event)"
  shows "contexts_ok S (calls @ [(ctx, d)]) s'"
proof -
  obtain a a' r where p: "authorised_call S ctx d" "load_cpi_context s (ic_cpi_context_account ctx) = Ok a"
    "process_cpi_context d a (ii_fee_payer (ic_invoke ctx)) (ii_remaining_accounts (ic_invoke ctx)) = Ok (a', r)"
    "store_cpi_context S (s\<lparr>ss_ledger := ss_ledger s'\<rparr>) (ic_cpi_context_account ctx) a' = Ok s'"
    by (rule invoke_cpi_OkD [OF assms(2)])
  let ?payer = "ii_fee_payer (ic_invoke ctx)"
  show ?thesis
  proof (cases "ic_cpi_context_account ctx")
    case None
    then have "ss_cpi s' = ss_cpi s" using store_cpi(1) p(4) by fastforce
    then show ?thesis using assms(1) stored_by_mono unfolding contexts_ok_def by fastforce
  next
    case (Some k)
    then obtain b where b: "ss_cpi s k = CpiContext b" "a = Some b" using p(2) by (auto simp: load_cpi_context_def split: CpiAccountData.splits)
    obtain c where c: "a' = Some c"
      "(r = None \<and> cca_fee_payer c = ?payer \<and> (cca_context c = [clean_input_data d] \<or>
         cca_fee_payer b = ?payer \<and> cca_context c = cca_context b @ [clean_input_data d])) \<or>
       (r = Some (InstructionDataInvokeCpi_combine d (cca_context b)) \<and> cca_context c = [] \<and> cca_fee_payer b = ?payer \<and> cca_context b \<noteq> [])"
      by (rule process_cpi_context_OkD [OF p(3) [unfolded b(2)]])
    have s': "ss_cpi s' = (ss_cpi s)(k := CpiContext c)" using store_cpi(2) [OF p(4) [unfolded Some c(1)]] by simp
    have new: "stored_by S (calls @ [(ctx, d)]) k ?payer (clean_input_data d)" using Some p(1) by (auto simp: stored_by_def)
    have old: "\<forall>x \<in> set (cca_context b). stored_by S (calls @ [(ctx, d)]) k (cca_fee_payer b) x"
      using assms(1) b(1) stored_by_mono unfolding contexts_ok_def by fast
    have "\<forall>x \<in> set (cca_context c). stored_by S (calls @ [(ctx, d)]) k (cca_fee_payer c) x" using c(2) new old by auto
    moreover have "\<forall>x \<in> set (cca_context e). stored_by S (calls @ [(ctx, d)]) j (cca_fee_payer e) x" if "ss_cpi s j = CpiContext e" for j e
      using assms(1) that stored_by_mono unfolding contexts_ok_def by fast
    ultimately show ?thesis unfolding contexts_ok_def s' by (simp add: fun_upd_def)
  qed
qed

lemma cpi_run_contexts:
  assumes "cpi_run S s0 calls s" "\<forall>k a. ss_cpi s0 k = CpiContext a \<longrightarrow> cca_context a = []"
  shows "contexts_ok S calls s"
  using assms(1)
proof (induction rule: cpi_run.induct)
  case cpi_refl
  then show ?case using assms(2) by (fastforce simp: contexts_ok_def)
next
  case (cpi_other calls s s')
  then show ?case by (simp add: contexts_ok_def)
next
  case (cpi_init calls s k t s')
  then show ?case by (auto simp: contexts_ok_def init_cpi_context_account_def CpiContextAccount_init_def split: if_splits elim!: and_then_OkE)
next
  case (cpi_call calls s ctx d s' event)
  then show ?case using cpi_call_contexts by blast
qed

lemma map_clean_input_data:
  assumes "\<forall>x \<in> set xs. x = clean_input_data (snd (f x))" "\<And>d. g (clean_input_data d) = g d"
  shows "map g xs = map (g \<circ> (snd \<circ> f)) xs"
proof (rule map_cong [OF refl])
  fix x
  assume "x \<in> set xs"
  then have "g x = g (clean_input_data (snd (f x)))" using assms(1) by simp
  then show "g x = (g \<circ> (snd \<circ> f)) x" by (simp add: assms(2))
qed

text \<open>
  C5.  A transaction that is joined through CPI contexts, after any run that started with empty contexts: the proof and
  the lamports to move are those of the executing call, and the accounts and addresses that are processed are those of
  the executing call and of earlier successful calls that used the same context account and the same fee payer.  For each part, the program that made the call had signed with its authority, owned
  all inputs of the part and all its outputs with data.
\<close>

theorem cpi_transaction_authorised:
  assumes "cpi_run S s0 calls s" "\<forall>k a. ss_cpi s0 k = CpiContext a \<longrightarrow> cca_context a = []"
    and "invoke_cpi S s ctx d = Ok (s', Some event)"
  shows "\<exists>data n parts. process S (ss_ledger s) data (Some (ic_invoking_program ctx)) (ic_invoke ctx) n = Ok (ss_ledger s', event) \<and>
    n = length parts \<and> authorised_call S ctx d \<and>
    idi_proof data = idc_proof d \<and> idi_compress_or_decompress_lamports data = idc_compress_or_decompress_lamports d \<and>
    idi_is_compress data = idc_is_compress d \<and>
    idi_input_compressed_accounts_with_merkle_context data = concat (map idc_input_compressed_accounts_with_merkle_context (d # map snd parts)) \<and>
    idi_output_compressed_accounts data = concat (map idc_output_compressed_accounts (d # map snd parts)) \<and>
    idi_new_address_params data = concat (map idc_new_address_params (d # map snd parts)) \<and>
    (\<forall>(ctx', d') \<in> set parts. (ctx', d') \<in> set calls \<and> authorised_call S ctx' d' \<and>
       ic_cpi_context_account ctx' = ic_cpi_context_account ctx \<and> ii_fee_payer (ic_invoke ctx') = ii_fee_payer (ic_invoke ctx))"
proof -
  obtain a a' r where p: "authorised_call S ctx d" "load_cpi_context s (ic_cpi_context_account ctx) = Ok a"
    "process_cpi_context d a (ii_fee_payer (ic_invoke ctx)) (ii_remaining_accounts (ic_invoke ctx)) = Ok (a', r)"
    and r: "case r of None \<Rightarrow> Some event = None \<and> ss_ledger s' = ss_ledger s
     | Some d' \<Rightarrow> \<exists>ev. Some event = Some ev \<and> process S (ss_ledger s)
              \<lparr>idi_proof = idc_proof d',
               idi_input_compressed_accounts_with_merkle_context = idc_input_compressed_accounts_with_merkle_context d',
               idi_output_compressed_accounts = idc_output_compressed_accounts d',
               idi_relay_fee = idc_relay_fee d', idi_new_address_params = idc_new_address_params d',
               idi_compress_or_decompress_lamports = idc_compress_or_decompress_lamports d',
               idi_is_compress = idc_is_compress d'\<rparr>
              (Some (ic_invoking_program ctx)) (ic_invoke ctx) (case a of Some a \<Rightarrow> length (cca_context a) | None \<Rightarrow> 0) =
              Ok (ss_ledger s', ev)"
    by (rule invoke_cpi_OkD [OF assms(3)])
  note ok = cpi_run_contexts [OF assms(1,2), unfolded contexts_ok_def]
  let ?ok = "\<lambda>x y. x = clean_input_data (snd y) \<and> y \<in> set calls \<and> authorised_call S (fst y) (snd y) \<and>
    ic_cpi_context_account (fst y) = ic_cpi_context_account ctx \<and> ii_fee_payer (ic_invoke (fst y)) = ii_fee_payer (ic_invoke ctx)"
  have "\<exists>xs. r = Some (InstructionDataInvokeCpi_combine d xs) \<and> length xs = (case a of Some a \<Rightarrow> length (cca_context a) | None \<Rightarrow> 0) \<and>
    (\<forall>x \<in> set xs. \<exists>y. ?ok x y)"
  proof (cases "ic_cpi_context_account ctx")
    case None
    then have "a = None" using p(2) by (simp add: load_cpi_context_def)
    then have "r = Some d" using p(3) by (auto simp: process_cpi_context_def split: option.splits elim!: and_then_OkE)
    then show ?thesis using \<open>a = None\<close> by (intro exI [of _ "[]"]) (simp add: InstructionDataInvokeCpi_combine_def)
  next
    case (Some k)
    then obtain b where b: "ss_cpi s k = CpiContext b" "a = Some b" using p(2) by (auto simp: load_cpi_context_def split: CpiAccountData.splits)
    have c: "r = Some (InstructionDataInvokeCpi_combine d (cca_context b))" "cca_fee_payer b = ii_fee_payer (ic_invoke ctx)"
      using process_cpi_context_OkD [OF p(3) [unfolded b(2)]] r by (auto split: option.splits)
    have "\<forall>x \<in> set (cca_context b). \<exists>y. ?ok x y" using ok b(1) c(2) Some unfolding stored_by_def by fastforce
    then show ?thesis using c(1) b(2) by auto
  qed
  then obtain xs where xs: "r = Some (InstructionDataInvokeCpi_combine d xs)" "length xs = (case a of Some a \<Rightarrow> length (cca_context a) | None \<Rightarrow> 0)"
    "\<forall>x \<in> set xs. \<exists>y. ?ok x y" by blast
  obtain f where f: "\<forall>x \<in> set xs. ?ok x (f x)" using bchoice [OF xs(3)] by blast
  have "\<forall>x \<in> set xs. x = clean_input_data (snd (f x))" using f by blast
  note m = map_clean_input_data [OF this]
  show ?thesis
    by (rule exI, rule exI [of _ "length xs"], rule exI [of _ "map f xs"]) (use r f p(1) xs(2) in \<open>auto simp: xs(1) combine_fields m clean_input_data_def\<close>)
qed

text \<open>A program contributes the output of the sample transaction, another one the input and executes it.\<close>

definition sample_contributor :: InvokeCpiInstruction where
  "sample_contributor = \<lparr>ic_invoke = sample_invoke_accounts\<lparr>ii_authority := [9]\<rparr>, ic_invoking_program = [9], ic_cpi_context_account = Some [5]\<rparr>"

definition sample_executor :: InvokeCpiInstruction where
  "sample_executor = \<lparr>ic_invoke = sample_invoke_accounts, ic_invoking_program = [7], ic_cpi_context_account = Some [5]\<rparr>"

definition sample_contribution :: InstructionDataInvokeCpi where
  "sample_contribution = (sample_cpi_data True True 0)
     \<lparr>idc_input_compressed_accounts_with_merkle_context := [], idc_output_compressed_accounts := [sample_output 2]\<rparr>"

definition sample_execution :: InstructionDataInvokeCpi where
  "sample_execution = (sample_cpi_data False False 5)
     \<lparr>idc_proof := Some CompressedProof_default, idc_compress_or_decompress_lamports := Some 3\<rparr>"

definition sample_system_state :: "ConcurrentMerkleTree \<Rightarrow> HashSet \<Rightarrow> SystemState" where
  "sample_system_state t s = \<lparr>ss_ledger = sample_system_ledger t s, ss_cpi = (\<lambda>_. CpiAbsent)([5] := CpiContext sample_cpi_account)\<rparr>"

lemmas sample_cpi_defs = sample_contributor_def sample_executor_def sample_contribution_def sample_execution_def
  sample_cpi_data_def sample_cpi_account_def CpiContextAccount_init_def

lemma sample_cpi_checks:
  "check_invoke_accounts sample_system (sample_invoke_accounts\<lparr>ii_authority := k\<rparr>) = Ok ()"
  "check_invoke_accounts sample_system sample_invoke_accounts = Ok ()"
  by (simp_all add: check_invoke_accounts_def sample_invoke_accounts_def get_registered_program_pda_def get_cpi_authority_pda_def get_sol_pool_pda_def)

definition sample_stored :: "ConcurrentMerkleTree \<Rightarrow> HashSet \<Rightarrow> SystemState" where
  "sample_stored t s = (sample_system_state t s)\<lparr>ss_cpi := (\<lambda>_. CpiAbsent)([5] :=
     CpiContext (sample_cpi_account\<lparr>cca_context := [clean_input_data sample_contribution], cca_fee_payer := [3]\<rparr>))\<rparr>"

lemma sample_contributes:
  "invoke_cpi sample_system (sample_system_state t s) sample_contributor sample_contribution = Ok (sample_stored t s, None)"
proof -
  have "cpi_signer_checks sample_system [9] [9] [] [] [sample_output 2] = Ok ()"
    by (simp add: cpi_signer_checks_Ok contributed_by_def sample_output_def sample_account_def)
  then show ?thesis
    by (simp add: invoke_cpi_def process_invoke_cpi_def sample_cpi_checks load_cpi_context_def store_cpi_context_def sample_stored_def
        sample_system_state_def process_cpi_context_def set_cpi_context_def sample_cpi_defs sample_data_fields index_def
        sample_output_def Let_def)
qed

lemma sample_executes:
  obtains t s s' event where "invoke_cpi sample_system (sample_stored t s) sample_executor sample_execution = Ok (s', Some event)"
    "ev_output_compressed_account_hashes event = [sample_leaf 2]"
proof -
  obtain t s s' i where t: "sample_new_tree t" "hs_insert s (from_bytes_be (sample_leaf 5)) 0 = Ok (s', i)"
    using sample_fresh_exists by (auto simp: sample_new_queue_def)
  obtain l' event where run: "process sample_system (sample_system_ledger t s) sample_invoke_data (Some [7]) sample_invoke_accounts 1 = Ok (l', event)"
    "ev_output_compressed_account_hashes event = [sample_leaf 2]"
    by (rule sample_process [OF t])
  have checks: "cpi_signer_checks sample_system [7] [7] [] [sample_input 5] [] = Ok ()"
    by (simp add: cpi_signer_checks_Ok contributed_by_def sample_input_def sample_account_def)
  have "process_cpi_context sample_execution (Some (sample_cpi_account\<lparr>cca_context := [clean_input_data sample_contribution], cca_fee_payer := [3]\<rparr>))
      [3] [[1], [2]] = Ok (Some (sample_cpi_account\<lparr>cca_fee_payer := default_pubkey\<rparr>), Some (sample_execution\<lparr>idc_output_compressed_accounts := [sample_output 2]\<rparr>))"
    by (simp add: process_cpi_context_def sample_cpi_defs index_def sample_input_def InstructionDataInvokeCpi_combine_def clean_input_data_def)
  moreover have "ii_authority sample_invoke_accounts = [7]" by (simp add: sample_invoke_accounts_def)
  ultimately have "\<exists>s'. invoke_cpi sample_system (sample_stored t s) sample_executor sample_execution = Ok (s', Some event)"
    using run(1) [unfolded sample_invoke_data_def] checks
    by (simp add: invoke_cpi_def process_invoke_cpi_def sample_cpi_checks load_cpi_context_def store_cpi_context_def
        sample_system_state_def sample_stored_def sample_executor_def sample_data_fields Let_def, simp add: sample_cpi_defs)
  then show thesis using that run(2) by blast
qed

theorem cpi_transaction_authorised_witness:
  "\<exists>t s s' event data n. invoke_cpi sample_system (sample_stored t s) sample_executor sample_execution = Ok (s', Some event) \<and>
     process sample_system (sample_system_ledger t s) data (Some [7]) sample_invoke_accounts n = Ok (ss_ledger s', event) \<and>
     authorised_call sample_system sample_executor sample_execution \<and>
     set (idi_output_compressed_accounts data) \<subseteq> {sample_output 2}"
proof -
  obtain t s s' event where run: "invoke_cpi sample_system (sample_stored t s) sample_executor sample_execution = Ok (s', Some event)"
    by (rule sample_executes)
  have calls: "cpi_run sample_system (sample_system_state t s) [(sample_contributor, sample_contribution)] (sample_stored t s)"
    using cpi_call [OF cpi_refl sample_contributes] by simp
  have "\<forall>k a. ss_cpi (sample_system_state t s) k = CpiContext a \<longrightarrow> cca_context a = []"
    by (simp add: sample_system_state_def sample_cpi_account_def CpiContextAccount_init_def)
  from cpi_transaction_authorised [OF calls this run] show ?thesis using run
    by (fastforce simp: sample_cpi_defs sample_stored_def sample_system_state_def)
qed

end
