(* ===== verification/Spec2Isabelle.thy ===== *)
theory Spec2Isabelle
  imports Indexed_Reference Output_Addresses Cpi_Context
begin

text \<open>
  Verification of the programs of the Light Protocol (ZK compression on Solana) and of the data structures they are
  built on.

  \<^bold>\<open>The program.\<close>  A compressed account is not stored on chain; only its hash is, as a leaf of a state Merkle tree.
  A transaction names the accounts it spends and creates.  The system program (\<open>src/programs/system\<close>) checks who
  authorised it, that the lamports balance and that a zero-knowledge proof places the spent accounts under a recent
  root of their trees.  It then calls the account compression program (\<open>src/programs/account-compression\<close>), which
  inserts the hashes of the spent accounts into nullifier queues, new addresses into address queues and the hashes of
  the created accounts into state trees.  Later, other instructions take queued nullifiers and replace the leaves by
  the zero leaf, and take queued addresses and insert them into address trees.  The trees are concurrent Merkle trees
  (\<open>src/merkle-tree/concurrent\<close>), which accept proofs made for an older root; address trees are indexed Merkle trees
  (\<open>src/merkle-tree/indexed\<close>) on top of them; the queues are hash sets (\<open>src/merkle-tree/hash-set\<close>); changelogs and
  roots are ring buffers (\<open>src/merkle-tree/bounded-vec\<close>).  Clients compute proofs with the reference trees
  (\<open>src/merkle-tree/reference\<close>, \<open>src/merkle-tree/indexed/src/reference.rs\<close>).

  \<^bold>\<open>Conventions.\<close>  \<open>Prelude\<close> defines \<open>result\<close>: a value, an error or a panic.  Arithmetic is checked, as in the build of
  the repository, so an overflow is a panic; \<open>u8\<close> indices are words, other integers are natural numbers with their
  bound written out.  A method on \<open>&mut self\<close> returns the new value, an instruction the new ledger, a function from
  keys to accounts.  Names are those of the source, prefixed where several types share one (\<open>cmt_\<close>, \<open>imt_\<close>, \<open>rmt_\<close>,
  \<open>irt_\<close>, \<open>ia_\<close>, \<open>hs_\<close>, \<open>hz_\<close>).  Code that is not in the repository is a parameter with named laws: a \<open>Hasher\<close> with
  \<open>zero_chain\<close> and \<open>hash32\<close>, a memory \<open>Layout\<close> with \<open>layout_ok\<close>, the runtime \<open>Env\<close> with \<open>transfer_law\<close> and
  \<open>order_law\<close>, the verifier \<open>Groth16\<close>, and Borsh in \<open>SystemEnv\<close> with \<open>decode_law\<close>.  Hash functions are never
  assumed to be injective: where security needs it, the theorems give the property or an explicit collision.

  \<^bold>\<open>Data structures.\<close>
  \<^item> \<open>Byte_Encoding\<close>, \<open>Byte_Buffer\<close>, \<open>Utils\<close> (\<open>src/utils/src\<close>): encodings, typed access to account buffers, primes,
    the rollover fee and hashing into the field; round trips, and exactly when the prime search panics.
  \<^item> \<open>Bounded_Vec\<close>: both vectors with their iterators.  The locales \<open>bounded_buffer\<close> and \<open>ring_buffer\<close> are their
    contracts; the ring buffer keeps exactly the newest elements.
  \<^item> \<open>Merkle_Spec\<close>: the mathematical Merkle tree, its proofs and the collision lemma.
  \<^item> \<open>Concurrent_Merkle_Tree\<close> defines the tree; \<open>Tree_History\<close>, \<open>Tree_Canopy\<close>, \<open>Concurrent_Append\<close> and
    \<open>Concurrent_Update\<close> relate changelog, canopy and filled subtrees to a list of leaves (\<open>cmt_rep\<close>); \<open>Concurrent_Tree\<close>
    holds the results: appends refine list append, stale proofs are patched, updates are sound up to a collision.
  \<^item> \<open>Reference_Merkle_Tree\<close>: the clients' tree; the locale \<open>merkle_accumulator\<close> is interpreted by both trees and gives
    equal roots after the same appends and updates.
  \<^item> \<open>Indexed_Array\<close>, \<open>Indexed_Tree\<close>, \<open>Indexed_Concurrency\<close>, \<open>Indexed_Reference\<close>: the sorted chain of addresses refines
    a set, concurrent insertions are patched, insertions are sound up to a collision; two faults of the code are proved.
  \<^item> \<open>Hash_Set\<close>, \<open>Hash_Set_Account\<close>: the queue refines a set whose elements expire (locale \<open>expiring_set\<close>), and its
    layout in an account round-trips.

  \<^bold>\<open>Account compression program.\<close>  \<open>Ledger\<close> has the account types and metadata, \<open>Account_Compression\<close> every
  instruction with its account constraints, \<open>Compression_Program\<close> the dispatch (\<open>execute\<close>) and the elementary changes of
  accounts (\<open>change\<close>) that every instruction consists of.  \<open>Nullifier_Lifecycle\<close> and \<open>Compression_Safety\<close> show the
  invariant of a state tree and its queue over all runs and that a nullified leaf cannot be spent again;
  \<open>Compression_Effects\<close> shows what inserting and appending do to every account.

  \<^bold>\<open>System program.\<close>  \<open>Compressed_Account\<close> has the data, their hash and the packing done by clients, \<open>Verifier\<close> the
  choice of the circuit (\<open>src/circuit-lib/verifier\<close>), \<open>System_Program\<close> the instructions \<open>invoke\<close>, \<open>invoke_cpi\<close> and
  \<open>init_cpi_context_account\<close>.  \<open>System_Steps\<close> takes \<open>process\<close> apart, \<open>System_Sample\<close> runs a concrete transaction.
  \<open>System_Accounting\<close>: the sum check, and that the pool always covers the compressed lamports.  \<open>System_Hashing\<close> and
  \<open>System_Safety\<close>: inputs are proved and nullified, outputs are stored at the index their hash binds.
  \<open>Output_Addresses\<close>: which addresses outputs may carry, and a fault in using them up.  \<open>Double_Spend\<close>: what keeps a
  spent account from being spent again.  \<open>Cpi_Context\<close>: who authorised each part of a transaction.

  \<^bold>\<open>Bounds.\<close>  Loops are total functions with termination proofs.  Two definitions take a bound: draining the iterator of
  the ring buffer takes one step per element and one more, which is proved to be enough, and
  \<open>imt_patch_elements_and_proof\<close> takes the depth of the stack and returns \<open>None\<close> when the recursion is deeper, which
  aborts the update; that a depth above the number of insertions is enough is proved in \<open>concurrent_insert_succeeds\<close>,
  and that no depth is enough in the tree of \<open>patch_recursion_diverges\<close>.

  \<^bold>\<open>Not modelled.\<close>  The compressed token program and the registry are clients of the two programs.  Hash functions,
  pairings and verifying keys are parameters.  The forester, the Photon API, the prover client, the SDK, test utilities,
  examples, xtask and the JavaScript, Go and CLI parts run off chain.  Macros generate code at compile time.  The heap
  allocator, logging and the memory below account buffers have no counterpart in the model; compute limits neither.
\<close>


section \<open>A spent account cannot be spent again\<close>



end
